(* ===== verification/Ds4_Prelude.thy ===== *)
theory Ds4_Prelude
  imports Main "HOL-Library.Word"
begin

text \<open>
  Shared vocabulary of the development: machine-integer types, the prefix test that C's
  \<open>strncmp (s, lit, strlen (lit))\<close> performs on a NUL-terminated string, and the list and
  word lemmas that several components use.

  A C string is modelled as a \<^typ>\<open>string\<close> without NUL characters; the terminator is the end
  of the list, so \<open>*p == 0\<close> is \<open>p = []\<close> and \<open>p + n\<close> is \<open>drop n p\<close>.
\<close>

type_synonym u8 = "8 word"
type_synonym u32 = "32 word"
type_synonym u64 = "64 word"

named_theorems scan_simps \<open>unfolding rules of the string scanners\<close>

subsection \<open>Prefix tests\<close>

fun starts_with :: "'a list \<Rightarrow> 'a list \<Rightarrow> bool" where
  "starts_with _ [] = True"
| "starts_with [] (_ # _) = False"
| "starts_with (x # xs) (y # ys) = (x = y \<and> starts_with xs ys)"

lemma starts_with_iff: "starts_with s p \<longleftrightarrow> (\<exists>t. s = p @ t)"
  by (induction s p rule: starts_with.induct) auto

lemma starts_with_take: "starts_with s p \<longleftrightarrow> take (length p) s = p"
  by (induction s p rule: starts_with.induct) auto

lemma starts_with_length: "starts_with s p \<Longrightarrow> length p \<le> length s"
  by (auto simp: starts_with_iff)

lemma starts_with_drop: "starts_with s p \<Longrightarrow> s = p @ drop (length p) s"
  by (auto simp: starts_with_iff)

lemma starts_with_append [simp]: "starts_with (p @ t) p"
  by (auto simp: starts_with_iff)

lemma starts_with_refl [simp]: "starts_with p p"
  by (auto simp: starts_with_iff)

lemma starts_with_appendI: "starts_with s p \<Longrightarrow> starts_with (s @ t) p"
  by (auto simp: starts_with_iff)

lemma starts_with_append_cancel [simp]: "starts_with (p @ s) (p @ q) = starts_with s q"
  by (induction p) auto

lemma starts_with_trans: "starts_with s p \<Longrightarrow> starts_with p q \<Longrightarrow> starts_with s q"
  by (auto simp: starts_with_iff)

lemma starts_with_append_short:
  "length p \<le> length s \<Longrightarrow> starts_with (s @ t) p = starts_with s p"
  by (induction s p rule: starts_with.induct) auto

lemma starts_with_proper:
  "length u < length p \<and> starts_with p u \<longleftrightarrow> starts_with p u \<and> \<not> starts_with u p"
proof -
  have "length u < length p" if "starts_with p u" "\<not> starts_with u p"
  proof -
    from that(1) obtain t where t: "p = u @ t" by (auto simp: starts_with_iff)
    with that(2) have "t \<noteq> []" by auto
    with t show ?thesis by simp
  qed
  then show ?thesis using starts_with_length [of u p] by auto
qed

text \<open>What is left of \<open>p\<close> to be matched once a shorter fragment has been read.\<close>

lemma starts_with_complete_iff:
  "(\<exists>t. starts_with (s @ t) p) \<longleftrightarrow> starts_with s p \<or> starts_with p s"
proof (induction s p rule: starts_with.induct)
  case (1 s)
  then show ?case by simp
next
  case (2 y ys)
  have "starts_with ([] @ (y # ys)) (y # ys)" by simp
  then show ?case by fastforce
next
  case (3 x xs y ys)
  then show ?case by auto
qed

subsection \<open>Lists\<close>

lemma sorted_bounds: "sorted xs \<Longrightarrow> x \<in> set xs \<Longrightarrow> hd xs \<le> x \<and> x \<le> last xs"
  by (induction xs) (auto simp: order.trans last_in_set)

subsection \<open>Words\<close>

lemma unat_u8_bound: "unat (x :: u8) < 256"
  using unsigned_less [of x] by simp

lemma unat_u32_bound: "unat (x :: u32) < 4294967296"
  using unsigned_less [of x] by simp

lemma unat_u64_bound: "unat (x :: u64) < 18446744073709551616"
  using unsigned_less [of x] by simp

lemma unat_ucast_32_64 [simp]: "unat (ucast (x :: u32) :: u64) = unat x"
  using unat_u32_bound [of x] by (simp add: unsigned_ucast_eq take_bit_nat_eq_self)

lemma unat_ucast_8_32 [simp]: "unat (ucast (x :: u8) :: u32) = unat x"
  using unat_u8_bound [of x] by (simp add: unsigned_ucast_eq take_bit_nat_eq_self)

lemma unat_ucast_8_64 [simp]: "unat (ucast (x :: u8) :: u64) = unat x"
  using unat_u8_bound [of x] by (simp add: unsigned_ucast_eq take_bit_nat_eq_self)

lemma unat_ucast_64_32: "unat (x :: u64) < 4294967296 \<Longrightarrow> unat (ucast x :: u32) = unat x"
  by (simp add: unsigned_ucast_eq take_bit_nat_eq_self)

lemma unat_mult_64: "unat x * unat y < 18446744073709551616 \<Longrightarrow> unat (x * y :: u64) = unat x * unat y"
  by (simp add: unat_word_ariths)

lemma unat_plus_64: "unat x + unat y < 18446744073709551616 \<Longrightarrow> unat (x + y :: u64) = unat x + unat y"
  by (simp add: unat_word_ariths)

lemma unat_div_word: "unat (x div y :: u64) = unat x div unat y"
  by (simp add: unat_div_distrib)

text \<open>\<open>UINT64_MAX - y < x\<close>, the overflow test of the code, says exactly that \<open>x + y\<close> wraps.\<close>

lemma no_wrap_64: "x \<le> - 1 - (y :: u64) \<longleftrightarrow> unat x + unat y < 18446744073709551616"
proof -
  have "unat (- 1 :: u64) = 18446744073709551615" by (simp add: unsigned_minus_1_eq_mask mask_eq_exp_minus_1)
  then have "unat (- 1 - y) = 18446744073709551615 - unat y"
    by (subst unat_sub) simp_all
  with unat_u64_bound [of y] show ?thesis by (simp add: word_le_nat_alt) linarith
qed

text \<open>A 64-bit counter that does not wrap grows.\<close>

lemma clock_less: "unat c + 1 < 18446744073709551616 \<Longrightarrow> c < (c :: u64) + 1"
  using unat_plus_64 [of c 1] by (simp add: word_less_nat_alt)

end
