(* ===== verification/ToolText.thy ===== *)
theory ToolText
  imports Ds4_Prelude
begin

text \<open>
  The escaping of tool text (\<open>ds4_tool_text.h\<close>): tool bodies are literal data, so only their own
  closing delimiter, and the spellings that would collide with its escape, are escaped.
  \<open>s\<close> is the NUL-terminated text at the scan position; \<open>close_tag\<close> is the delimiter, a string that
  starts with \<open><\<close>, such as \<open></parameter>\<close>.
\<close>

subsection \<open>Scanning one escape\<close>

text \<open>\<open>while (!strncmp (s, "amp;", 4)) s += 4;\<close>\<close>

function skip_amp :: "string \<Rightarrow> string" where
  "skip_amp s = (if starts_with s ''amp;'' then skip_amp (drop 4 s) else s)"
  by pat_completeness auto
termination
  by (relation "measure length") (auto dest: starts_with_length)

declare skip_amp.simps [simp del]

definition tool_text_escaped_close :: "string \<Rightarrow> string \<Rightarrow> bool" where
  "tool_text_escaped_close s close_tag =
     (case s of
        [] \<Rightarrow> False
      | c # r \<Rightarrow>
          if c \<noteq> CHR ''&'' then False
          else let r = skip_amp r
               in starts_with r ''lt;'' \<and> starts_with (drop 3 r) (tl close_tag))"

definition tool_text_needs_escape :: "string \<Rightarrow> string \<Rightarrow> bool" where
  "tool_text_needs_escape s close_tag =
     (starts_with s close_tag \<or> tool_text_escaped_close s close_tag)"

text \<open>The in-place loop of \<open>ds4_tool_text_unescape\<close>; the result is what is left in the buffer.\<close>

function tool_text_unescape :: "string \<Rightarrow> string \<Rightarrow> string" where
  "tool_text_unescape s close_tag =
     (case s of
        [] \<Rightarrow> []
      | c # r \<Rightarrow>
          if tool_text_escaped_close s close_tag then
            if starts_with s ''&amp;'' then CHR ''&'' # tool_text_unescape (drop 5 s) close_tag
            else CHR ''<'' # tool_text_unescape (drop 4 s) close_tag
          else c # tool_text_unescape r close_tag)"
  by pat_completeness auto
termination
  by (relation "measure (\<lambda>(s, _). length s)") auto

declare tool_text_unescape.simps [simp del]

text \<open>
  The escaper of the server (\<open>append_glm_tag_body_text\<close>; \<open>append_tool_result_text\<close> is the same
  loop with the delimiter fixed): the text appended to the output buffer.
\<close>

fun append_glm_tag_body_text :: "string \<Rightarrow> string \<Rightarrow> string" where
  "append_glm_tag_body_text [] _ = []"
| "append_glm_tag_body_text (c # r) close_tag =
     (if tool_text_needs_escape (c # r) close_tag
      then (if c = CHR ''<'' then ''&lt;'' else ''&amp;'') @ append_glm_tag_body_text r close_tag
      else c # append_glm_tag_body_text r close_tag)"

definition append_tool_result_text :: "string \<Rightarrow> string" where
  "append_tool_result_text s = append_glm_tag_body_text s ''</tool_result>''"

text \<open>
  \<open>ds4_tool_text_partial_escape (s, n, end)\<close>: \<open>s\<close> is the fragment of \<open>n\<close> bytes, so the list is the
  fragment itself.
\<close>

definition tool_text_partial_escape :: "string \<Rightarrow> string \<Rightarrow> bool" where
  "tool_text_partial_escape s close_tag =
     (case s of
        [] \<Rightarrow> False
      | c # r \<Rightarrow>
          if c \<noteq> CHR ''&'' then False
          else let r = skip_amp r; n = length r
               in if n < 4 \<and> starts_with ''amp;'' r then True
                  else if n < 3 then starts_with ''lt;'' r
                  else if \<not> starts_with r ''lt;'' then False
                  else let r = drop 3 r
                       in length r < length (tl close_tag) \<and> starts_with (tl close_tag) r)"

subsection \<open>Laws of the scanner\<close>

lemma skip_amp_amp [simp]: "skip_amp (''amp;'' @ s) = skip_amp s"
  by (subst skip_amp.simps) simp

lemma skip_amp_Cons [simp]:
  "skip_amp (CHR ''a'' # CHR ''m'' # CHR ''p'' # CHR '';'' # s) = skip_amp s"
  using skip_amp_amp [of s] by simp

lemma skip_amp_not: "\<not> starts_with s ''amp;'' \<Longrightarrow> skip_amp s = s"
  by (subst skip_amp.simps) simp

lemma skip_amp_stops: "\<not> starts_with (skip_amp s) ''amp;''"
proof (induction s rule: skip_amp.induct)
  case (1 s)
  then show ?case by (cases "starts_with s ''amp;''") (simp_all add: skip_amp.simps [of s])
qed

text \<open>What \<open>skip_amp\<close> removes is a number of copies of \<open>amp;\<close>.\<close>

definition amps :: "nat \<Rightarrow> string" where
  "amps k = concat (replicate k ''amp;'')"

lemma amps_simps [simp]: "amps 0 = []" "amps (Suc k) = ''amp;'' @ amps k"
  by (simp_all add: amps_def)

lemma skip_amp_amps [simp]: "skip_amp (amps k @ s) = skip_amp s"
  by (induction k) simp_all

lemma skip_amp_decomp: "\<exists>k. s = amps k @ skip_amp s"
proof (induction s rule: skip_amp.induct)
  case (1 s)
  show ?case
  proof (cases "starts_with s ''amp;''")
    case True
    then obtain t where s: "s = ''amp;'' @ t" by (auto simp: starts_with_iff)
    from 1 [OF True] s obtain k where "t = amps k @ skip_amp t" by auto
    then have "s = amps (Suc k) @ skip_amp s" using s by simp
    then show ?thesis by blast
  next
    case False
    then show ?thesis by (intro exI [of _ 0]) (simp add: skip_amp_not)
  qed
qed

lemma skip_amp_eqI: "s = amps k @ t \<Longrightarrow> \<not> starts_with t ''amp;'' \<Longrightarrow> skip_amp s = t"
  by (simp add: skip_amp_not)

lemma amps_plain: "CHR ''<'' \<notin> set (amps k)" "CHR ''&'' \<notin> set (amps k)"
  by (induction k) auto

text \<open>Skipping commutes with appending as long as the skipped text did not run to the end.\<close>

lemma skip_amp_append:
  "\<not> starts_with ''amp;'' (skip_amp s) \<Longrightarrow> skip_amp (s @ t) = skip_amp s @ t"
proof (induction s rule: skip_amp.induct)
  case (1 s)
  show ?case
  proof (cases "starts_with s ''amp;''")
    case True
    then obtain r where s: "s = ''amp;'' @ r" by (auto simp: starts_with_iff)
    from 1 True s show ?thesis by simp
  next
    case False
    with "1.prems" have "\<not> starts_with ''amp;'' s" by (simp add: skip_amp_not)
    with False have "\<not> starts_with (s @ t) ''amp;''"
      using starts_with_complete_iff [of s "''amp;''"] by blast
    with False show ?thesis by (simp add: skip_amp_not)
  qed
qed

lemma escaped_close_Nil [simp]: "\<not> tool_text_escaped_close [] e"
  by (simp add: tool_text_escaped_close_def)

lemma escaped_close_Cons:
  "tool_text_escaped_close (c # r) e \<longleftrightarrow>
     c = CHR ''&'' \<and> starts_with (skip_amp r) (''lt;'' @ tl e)"
  by (auto simp: tool_text_escaped_close_def Let_def starts_with_iff)

lemma unescape_Nil [simp]: "tool_text_unescape [] e = []"
  by (simp add: tool_text_unescape.simps)

lemma unescape_plain:
  "\<not> tool_text_escaped_close (c # r) e \<Longrightarrow> tool_text_unescape (c # r) e = c # tool_text_unescape r e"
  by (subst tool_text_unescape.simps) simp

lemma unescape_amp:
  "tool_text_escaped_close (''&amp;'' @ r) e \<Longrightarrow>
     tool_text_unescape (''&amp;'' @ r) e = CHR ''&'' # tool_text_unescape r e"
  by (subst tool_text_unescape.simps) simp

lemma unescape_lt:
  "tool_text_escaped_close (''&lt;'' @ r) e \<Longrightarrow>
     tool_text_unescape (''&lt;'' @ r) e = CHR ''<'' # tool_text_unescape r e"
  by (subst tool_text_unescape.simps) simp

subsection \<open>The contract of a closing delimiter\<close>

text \<open>
  What the code relies on of a delimiter: it opens with \<open><\<close>, and neither \<open><\<close> nor \<open>&\<close> occurs
  after that. Under this contract escaping is invertible, and the escaped text cannot close the
  body.
\<close>

locale tool_delimiter =
  fixes close_tag :: string
  assumes opens: "\<exists>rest. close_tag = CHR ''<'' # rest"
    and plain_tail: "CHR ''<'' \<notin> set (tl close_tag) \<and> CHR ''&'' \<notin> set (tl close_tag)"
begin

abbreviation "esc \<equiv> \<lambda>s. append_glm_tag_body_text s close_tag"

lemma needs_escape_head: "tool_text_needs_escape (c # r) close_tag \<Longrightarrow> c = CHR ''<'' \<or> c = CHR ''&''"
  using opens by (auto simp: tool_text_needs_escape_def escaped_close_Cons)

lemma esc_copies: "CHR ''<'' \<notin> set u \<Longrightarrow> CHR ''&'' \<notin> set u \<Longrightarrow> esc (u @ s) = u @ esc s"
proof (induction u)
  case Nil
  then show ?case by simp
next
  case (Cons c u)
  then have "\<not> tool_text_needs_escape (c # u @ s) close_tag"
    using needs_escape_head [of c "u @ s"] by auto
  with Cons show ?case by simp
qed

lemma esc_reflects_prefix: "CHR ''&'' \<notin> set w \<Longrightarrow> starts_with (esc s) w \<Longrightarrow> starts_with s w"
proof (induction w arbitrary: s)
  case Nil
  then show ?case by simp
next
  case (Cons x w)
  show ?case
  proof (cases s)
    case Nil
    with Cons.prems show ?thesis by simp
  next
    case (Cons c r)
    with Cons.prems have "c = x" "starts_with (esc r) w"
      by (simp_all split: if_splits)
    with Cons.IH [of r] Cons.prems Cons show ?thesis by simp
  qed
qed

text \<open>The escape of a run \<open>(amp;)\<^sup>*lt;tail\<close> is that run, so an escaped text is still an escaped close.\<close>

lemma esc_run:
  assumes "starts_with (skip_amp r) (''lt;'' @ tl close_tag)"
  shows "\<exists>k t. esc r = amps k @ ''lt;'' @ tl close_tag @ t"
proof -
  obtain k where k: "r = amps k @ skip_amp r"
    using skip_amp_decomp by blast
  obtain t where t: "skip_amp r = ''lt;'' @ tl close_tag @ t"
    using assms by (auto simp: starts_with_iff)
  have "r = (amps k @ ''lt;'' @ tl close_tag) @ t" using k t by simp
  moreover have "CHR ''<'' \<notin> set (amps k @ ''lt;'' @ tl close_tag)"
    and "CHR ''&'' \<notin> set (amps k @ ''lt;'' @ tl close_tag)"
    using amps_plain plain_tail by auto
  ultimately have "esc r = (amps k @ ''lt;'' @ tl close_tag) @ esc t"
    using esc_copies by metis
  then show ?thesis by auto
qed

lemma run_escaped: "tool_text_escaped_close (''&'' @ amps k @ ''lt;'' @ tl close_tag @ t) close_tag"
proof -
  have "skip_amp (amps k @ ''lt;'' @ tl close_tag @ t) = ''lt;'' @ tl close_tag @ t"
    by (simp add: skip_amp_not)
  then show ?thesis by (simp add: escaped_close_Cons)
qed

lemma esc_plain_not_escaped:
  assumes "\<not> tool_text_needs_escape (c # r) close_tag"
  shows "\<not> tool_text_escaped_close (c # esc r) close_tag"
proof
  assume esc_r: "tool_text_escaped_close (c # esc r) close_tag"
  then have c: "c = CHR ''&''" by (simp add: escaped_close_Cons)
  obtain k where k: "esc r = amps k @ skip_amp (esc r)" using skip_amp_decomp by blast
  obtain t where t: "skip_amp (esc r) = ''lt;'' @ tl close_tag @ t"
    using esc_r by (auto simp: escaped_close_Cons starts_with_iff)
  have "esc r = (amps k @ ''lt;'' @ tl close_tag) @ t"
    using k t by simp
  then have "starts_with (esc r) (amps k @ ''lt;'' @ tl close_tag)"
    by (simp only: starts_with_append)
  moreover have "CHR ''&'' \<notin> set (amps k @ ''lt;'' @ tl close_tag)"
    using amps_plain plain_tail by auto
  ultimately have "starts_with r (amps k @ ''lt;'' @ tl close_tag)"
    using esc_reflects_prefix by blast
  then obtain u where "r = amps k @ ''lt;'' @ tl close_tag @ u" by (auto simp: starts_with_iff)
  then have "tool_text_escaped_close (c # r) close_tag"
    using run_escaped c by simp
  with assms show False by (simp add: tool_text_needs_escape_def)
qed

lemma unescape_esc: "tool_text_unescape (esc s) close_tag = s"
proof (induction s)
  case Nil
  then show ?case by simp
next
  case (Cons c r)
  show ?case
  proof (cases "tool_text_needs_escape (c # r) close_tag")
    case False
    with esc_plain_not_escaped [OF this] Cons show ?thesis by (simp add: unescape_plain)
  next
    case True
    show ?thesis
    proof (cases "c = CHR ''<''")
      case lt: True
      have "starts_with r (tl close_tag)"
        using True lt opens by (auto simp: tool_text_needs_escape_def escaped_close_Cons)
      then obtain t where "r = tl close_tag @ t" by (auto simp: starts_with_iff)
      then have "esc r = tl close_tag @ esc t" using esc_copies plain_tail by simp
      then have "tool_text_escaped_close (''&lt;'' @ esc r) close_tag"
        using run_escaped [of 0] by simp
      from unescape_lt [OF this] True lt Cons show ?thesis by simp
    next
      case False
      then have amp: "c = CHR ''&''" using needs_escape_head [OF True] by simp
      have "starts_with (skip_amp r) (''lt;'' @ tl close_tag)"
        using True False opens by (auto simp: tool_text_needs_escape_def escaped_close_Cons)
      from esc_run [OF this] obtain k t where "esc r = amps k @ ''lt;'' @ tl close_tag @ t" by blast
      then have "tool_text_escaped_close (''&amp;'' @ esc r) close_tag"
        using run_escaped [of "Suc k"] by simp
      from unescape_amp [OF this] True amp Cons show ?thesis by simp
    qed
  qed
qed

text \<open>No position of the escaped text starts the delimiter.\<close>

lemma esc_no_close: "\<not> starts_with (drop i (esc s)) close_tag"
proof (induction s arbitrary: i)
  case Nil
  then show ?case using opens by auto
next
  case (Cons c r)
  show ?case
  proof (cases "tool_text_needs_escape (c # r) close_tag")
    case True
    let ?e = "if c = CHR ''<'' then ''&lt;'' else ''&amp;''"
    have step: "\<not> starts_with (drop i (e @ esc r)) close_tag" if "CHR ''<'' \<notin> set e" for e
    proof (cases "i < length e")
      case True
      then have "drop i e \<noteq> []" "hd (drop i e) \<in> set e"
        by (auto simp: hd_drop_conv_nth)
      with that opens True show ?thesis by (cases "drop i e") auto
    next
      case False
      then show ?thesis using Cons [of "i - length e"] by simp
    qed
    have "esc (c # r) = ?e @ esc r" using True by simp
    moreover have "CHR ''<'' \<notin> set ?e" by simp
    ultimately show ?thesis using step by metis
  next
    case False
    show ?thesis
    proof (cases i)
      case 0
      have "\<not> starts_with (c # esc r) close_tag"
      proof
        assume "starts_with (c # esc r) close_tag"
        then have "c = CHR ''<''" "starts_with (esc r) (tl close_tag)" using opens by auto
        then have "starts_with (c # r) close_tag"
          using esc_reflects_prefix plain_tail opens by auto
        with False show False by (simp add: tool_text_needs_escape_def)
      qed
      with 0 False show ?thesis by simp
    next
      case (Suc j)
      with False Cons show ?thesis by simp
    qed
  qed
qed

end

interpretation param_close: tool_delimiter "''</parameter>''"
  by unfold_locales auto

interpretation tool_result_close: tool_delimiter "''</tool_result>''"
  by unfold_locales auto

subsection \<open>Streaming\<close>

lemma escaped_close_append:
  assumes "\<not> starts_with ''amp;'' (skip_amp r)"
  shows "tool_text_escaped_close (CHR ''&'' # r @ t) e \<longleftrightarrow>
           starts_with (skip_amp r @ t) (''lt;'' @ tl e)"
  by (simp add: escaped_close_Cons skip_amp_append [OF assms])

lemma partial_escape_Cons:
  "tool_text_partial_escape (CHR ''&'' # r) e \<longleftrightarrow>
     starts_with ''amp;'' (skip_amp r) \<or>
     starts_with (''lt;'' @ tl e) (skip_amp r) \<and> \<not> starts_with (skip_amp r) (''lt;'' @ tl e)"
  (is "?L \<longleftrightarrow> ?A \<or> ?B")
proof -
  let ?q = "skip_amp r"
  have n: "length ?q < 4" if ?A
  proof -
    have "?q \<noteq> ''amp;''" using skip_amp_stops [of r] by auto
    moreover have "?q = take (length ?q) ''amp;''" "length ?q \<le> 4"
      using that starts_with_take [of "''amp;''" ?q] starts_with_length [OF that] by auto
    ultimately show ?thesis by (cases "length ?q = 4") auto
  qed
  consider (amp) ?A | (short) "\<not> ?A" "length ?q < 3" | (long) "\<not> ?A" "\<not> length ?q < 3" by blast
  then show ?thesis
  proof cases
    case amp
    with n show ?thesis by (simp add: tool_text_partial_escape_def Let_def)
  next
    case short
    then have "starts_with (''lt;'' @ tl e) ?q = starts_with ''lt;'' ?q"
      using starts_with_append_short [of ?q "''lt;''" "tl e"] by simp
    moreover have "\<not> starts_with ?q (''lt;'' @ tl e)"
      using short starts_with_length [of ?q "''lt;'' @ tl e"] by auto
    ultimately show ?thesis using short by (simp add: tool_text_partial_escape_def Let_def)
  next
    case long
    show ?thesis
    proof (cases "starts_with ?q ''lt;''")
      case True
      then obtain u where u: "?q = ''lt;'' @ u" by (auto simp: starts_with_iff)
      have "length u < length (tl e) \<and> starts_with (tl e) u \<longleftrightarrow>
              starts_with (tl e) u \<and> \<not> starts_with u (tl e)"
        by (rule starts_with_proper)
      then show ?thesis using u long by (auto simp: tool_text_partial_escape_def Let_def)
    next
      case False
      have "\<not> starts_with (''lt;'' @ tl e) ?q"
      proof
        assume "starts_with (''lt;'' @ tl e) ?q"
        then have "?q = take (length ?q) (''lt;'' @ tl e)" by (simp only: starts_with_take)
        with long have "?q = ''lt;'' @ take (length ?q - 3) (tl e)"
          by (metis append_eq_conv_conj length_Cons list.size(3) not_less numeral_3_eq_3 take_all
              take_append)
        with False show False by (metis starts_with_append)
      qed
      with False long show ?thesis by (auto simp: tool_text_partial_escape_def Let_def)
    qed
  qed
qed

lemma partial_escape_completes:
  assumes "starts_with ''amp;'' (skip_amp r)"
  shows "\<exists>t. tool_text_escaped_close (CHR ''&'' # r @ t) e"
    and "\<not> tool_text_escaped_close (CHR ''&'' # r) e"
proof -
  let ?q = "skip_amp r"
  obtain k where k: "r = amps k @ ?q" using skip_amp_decomp by blast
  obtain w where w: "''amp;'' = ?q @ w" using assms by (auto simp: starts_with_iff)
  have "r @ w @ ''lt;'' @ tl e = amps k @ ''amp;'' @ ''lt;'' @ tl e"
    using k w by (metis append.assoc)
  then have "skip_amp (r @ w @ ''lt;'' @ tl e) = skip_amp (''amp;'' @ ''lt;'' @ tl e)"
    by (simp only: skip_amp_amps)
  also have "\<dots> = ''lt;'' @ tl e" by (simp add: skip_amp_not)
  finally have "skip_amp (r @ w @ ''lt;'' @ tl e) = ''lt;'' @ tl e" .
  then have "tool_text_escaped_close (CHR ''&'' # r @ w @ ''lt;'' @ tl e) e"
    by (simp add: escaped_close_Cons)
  then show "\<exists>t. tool_text_escaped_close (CHR ''&'' # r @ t) e" by blast
  have "\<not> starts_with ?q (''lt;'' @ tl e)"
    using w by (cases ?q) auto
  then show "\<not> tool_text_escaped_close (CHR ''&'' # r) e" by (simp add: escaped_close_Cons)
qed

subsection \<open>Properties\<close>

text \<open>
  Unescaping inverts escaping for every tool text, for the parameter delimiter of the Qwen tool
  block and for the tool-result wrapper.
\<close>

theorem tool_text_roundtrip:
  "tool_text_unescape (append_glm_tag_body_text s ''</parameter>'') ''</parameter>'' = s \<and>
   tool_text_unescape (append_tool_result_text s) ''</tool_result>'' = s"
  using param_close.unescape_esc tool_result_close.unescape_esc
  by (simp add: append_tool_result_text_def)

text \<open>
  An escaped body contains no occurrence of its closing delimiter, at any position, so tool data
  can never end its own wrapper.
\<close>

theorem tool_text_cannot_close:
  "\<not> starts_with (drop i (append_glm_tag_body_text s ''</parameter>'')) ''</parameter>'' \<and>
   \<not> starts_with (drop i (append_tool_result_text s)) ''</tool_result>''"
  using param_close.esc_no_close tool_result_close.esc_no_close
  by (simp add: append_tool_result_text_def)

text \<open>
  The streaming test holds a fragment back exactly when some continuation completes an escaped
  delimiter that the fragment does not complete yet.
\<close>

theorem tool_text_partial_escape_iff:
  "tool_text_partial_escape s close_tag \<longleftrightarrow>
     s \<noteq> [] \<and> (\<exists>t. tool_text_escaped_close (s @ t) close_tag) \<and>
     \<not> tool_text_escaped_close s close_tag"
proof (cases s)
  case Nil
  then show ?thesis by (simp add: tool_text_partial_escape_def)
next
  case (Cons c r)
  show ?thesis
  proof (cases "c = CHR ''&''")
    case False
    with Cons show ?thesis by (simp add: tool_text_partial_escape_def escaped_close_Cons)
  next
    case True
    show ?thesis
    proof (cases "starts_with ''amp;'' (skip_amp r)")
      case amp: True
      with partial_escape_completes [OF amp] Cons True show ?thesis by (simp add: partial_escape_Cons)
    next
      case False
      with escaped_close_append [OF False] Cons True show ?thesis
        by (simp add: partial_escape_Cons escaped_close_Cons starts_with_complete_iff) blast
    qed
  qed
qed

end
