(* ===== verification/LayerPack.thy ===== *)
theory LayerPack
  imports Ds4_Prelude
begin

text \<open>
  The monotone-contiguous layer placement of \<open>ds4_layer_pack.c\<close>: entries (embedding, transformer
  layers, output head) are packed in forward order onto the GPUs, and onto the CPU once no GPU is
  left. Sizes are \<open>size_t\<close>, 64-bit words. A null pointer argument is \<open>None\<close>; the filled part of the
  caller's \<open>device_for_entry\<close> array is the returned list.
\<close>

definition DS4_LAYER_PACK_MAX_GPUS :: int where
  "DS4_LAYER_PACK_MAX_GPUS = 16"

definition DS4_LAYER_PACK_CPU :: int where
  "DS4_LAYER_PACK_CPU = -1"

record layer_pack_config =
  gpu_budget_bytes :: "u64 list"
  n_gpus :: int

subsection \<open>The packer\<close>

text \<open>\<open>while (d < cfg->n_gpus && entry_bytes[e] > budget[d]) d++;\<close>\<close>

function advance_device :: "nat \<Rightarrow> u64 list \<Rightarrow> u64 \<Rightarrow> nat \<Rightarrow> nat" where
  "advance_device n budget b d =
     (if d < n \<and> budget ! d < b then advance_device n budget b (Suc d) else d)"
  by pat_completeness auto
termination
  by (relation "measure (\<lambda>(n, _, _, d). n - d)") auto

declare advance_device.simps [simp del]

fun place_entries :: "nat \<Rightarrow> u64 list \<Rightarrow> nat \<Rightarrow> u64 list \<Rightarrow> int list" where
  "place_entries n budget d [] = []"
| "place_entries n budget d (b # bs) =
     (let d = advance_device n budget b d
      in if d < n then int d # place_entries n (budget[d := budget ! d - b]) d bs
         else DS4_LAYER_PACK_CPU # place_entries n budget d bs)"

text \<open>The error codes are the code's: 1 null pointer, 2 negative count, 3 GPU count out of range.\<close>

definition ds4_compute_layer_placement ::
  "u64 list option \<Rightarrow> int \<Rightarrow> layer_pack_config option \<Rightarrow> bool \<Rightarrow> int + int list" where
  "ds4_compute_layer_placement entry_bytes n_entries cfg out_ok =
     (case (entry_bytes, cfg, out_ok) of
        (Some bytes, Some c, True) \<Rightarrow>
          if n_entries < 0 then Inl 2
          else if n_gpus c < 0 \<or> n_gpus c > DS4_LAYER_PACK_MAX_GPUS then Inl 3
          else Inr (place_entries (nat (n_gpus c))
                      (take (nat (n_gpus c)) (gpu_budget_bytes c)) 0
                      (take (nat n_entries) bytes))
      | _ \<Rightarrow> Inl 1)"

subsection \<open>The layer range of a tier\<close>

text \<open>
  The loop of \<open>print_layer_range_for_tier\<close>: \<open>first\<close> and \<open>last\<close> are -1 until a layer of the tier is
  seen. \<open>i\<close> is the entry index, \<open>left\<close> the number of iterations to go.
\<close>

fun layer_range_loop :: "int list \<Rightarrow> int \<Rightarrow> nat \<Rightarrow> nat \<Rightarrow> int \<times> int \<Rightarrow> int \<times> int" where
  "layer_range_loop dev tier i 0 fl = fl"
| "layer_range_loop dev tier i (Suc left) (first, lst) =
     layer_range_loop dev tier (Suc i) left
       (if dev ! i = tier
        then (if first < 0 then int i - 1 else first, int i - 1)
        else (first, lst))"

definition layer_range_for_tier :: "int list \<Rightarrow> int \<Rightarrow> nat \<Rightarrow> nat \<Rightarrow> int \<times> int" where
  "layer_range_for_tier dev tier n_entries n_layers =
     layer_range_loop dev tier 1 (min n_layers (n_entries - 1)) (-1, -1)"

definition append_pseudo_layer_tags :: "string \<Rightarrow> int list \<Rightarrow> int \<Rightarrow> nat \<Rightarrow> nat \<Rightarrow> string" where
  "append_pseudo_layer_tags buf dev tier n_entries n_layers =
     (let buf = (if 0 < n_entries \<and> dev ! 0 = tier then buf @ '' + embedding'' else buf)
      in if 1 < n_entries \<and> n_layers + 1 < n_entries \<and> dev ! (n_layers + 1) = tier
         then buf @ '' + output head'' else buf)"

subsection \<open>The abstract placement problem\<close>

text \<open>
  A placement gives every entry a rank: a GPU index, or \<open>n\<close> for the CPU tier. It is admissible when
  it is monotone and no GPU carries more than its budget.
\<close>

definition tier_rank :: "nat \<Rightarrow> int \<Rightarrow> nat" where
  "tier_rank n dev = (if dev = DS4_LAYER_PACK_CPU then n else nat dev)"

fun tier_load :: "nat \<Rightarrow> nat list \<Rightarrow> nat list \<Rightarrow> nat" where
  "tier_load d (x # xs) (b # bs) = (if x = d then b else 0) + tier_load d xs bs"
| "tier_load d _ _ = 0"

definition admissible :: "nat \<Rightarrow> (nat \<Rightarrow> nat) \<Rightarrow> nat list \<Rightarrow> nat list \<Rightarrow> bool" where
  "admissible n cap sizes ranks \<longleftrightarrow>
     length ranks = length sizes \<and> sorted ranks \<and> (\<forall>x \<in> set ranks. x \<le> n) \<and>
     (\<forall>d \<in> {..<n}. tier_load d ranks sizes \<le> cap d)"

subsection \<open>Lemmas\<close>

lemma advance_ge: "d \<le> advance_device n budget b d"
  by (induction n budget b d rule: advance_device.induct)
     (subst advance_device.simps, auto)

lemma advance_le: "d \<le> n \<Longrightarrow> advance_device n budget b d \<le> n"
  by (induction n budget b d rule: advance_device.induct)
     (subst advance_device.simps, auto)

lemma advance_fits: "advance_device n budget b d < n \<Longrightarrow> b \<le> budget ! advance_device n budget b d"
proof (induction n budget b d rule: advance_device.induct)
  case (1 n budget b d)
  show ?case
  proof (cases "d < n \<and> budget ! d < b")
    case True
    with 1 show ?thesis by (simp add: advance_device.simps [of n budget b d])
  next
    case False
    then have "advance_device n budget b d = d" by (subst advance_device.simps) auto
    with False "1.prems" show ?thesis by auto
  qed
qed

text \<open>The packer never runs past a device the entry fits on.\<close>

lemma advance_first_fit: "d \<le> x \<Longrightarrow> x < n \<Longrightarrow> b \<le> budget ! x \<Longrightarrow> advance_device n budget b d \<le> x"
proof (induction n budget b d rule: advance_device.induct)
  case (1 n budget b d)
  show ?case
  proof (cases "d < n \<and> budget ! d < b")
    case True
    with "1.prems" have "Suc d \<le> x" by (metis le_neq_implies_less not_less Suc_leI)
    with 1 True show ?thesis by (simp add: advance_device.simps [of n budget b d])
  next
    case False
    with "1.prems" show ?thesis by (simp add: advance_device.simps [of n budget b d])
  qed
qed

lemma tier_rank_int [simp]: "tier_rank n (int d) = d"
  by (simp add: tier_rank_def DS4_LAYER_PACK_CPU_def)

lemma tier_rank_CPU [simp]: "tier_rank n DS4_LAYER_PACK_CPU = n"
  by (simp add: tier_rank_def)

lemma length_place [simp]: "length (place_entries n budget d bs) = length bs"
  by (induction n budget d bs rule: place_entries.induct) (auto simp: Let_def)

lemma place_ranks:
  "d \<le> n \<Longrightarrow> x \<in> set (map (tier_rank n) (place_entries n budget d bs)) \<Longrightarrow> d \<le> x \<and> x \<le> n"
proof (induction n budget d bs arbitrary: x rule: place_entries.induct)
  case (1 n budget d)
  then show ?case by simp
next
  case (2 n budget d b bs)
  let ?e = "advance_device n budget b d"
  have e: "d \<le> ?e" "?e \<le> n" using advance_ge advance_le "2.prems"(1) by auto
  show ?case
  proof (cases "?e < n")
    case True
    from "2.prems" True consider "x = ?e"
      | "x \<in> set (map (tier_rank n) (place_entries n (budget[?e := budget ! ?e - b]) ?e bs))"
      by (auto simp: Let_def)
    then show ?thesis
    proof cases
      case 1 then show ?thesis using e by simp
    next
      case 2
      from "2.IH"(1) [OF refl True _ 2] e show ?thesis by auto
    qed
  next
    case False
    from "2.prems" False consider "x = n"
      | "x \<in> set (map (tier_rank n) (place_entries n budget ?e bs))"
      by (auto simp: Let_def)
    then show ?thesis
    proof cases
      case 1 then show ?thesis using "2.prems" by simp
    next
      case 2
      from "2.IH"(2) [OF refl False _ 2] e show ?thesis by auto
    qed
  qed
qed

lemma place_sorted: "d \<le> n \<Longrightarrow> sorted (map (tier_rank n) (place_entries n budget d bs))"
proof (induction n budget d bs rule: place_entries.induct)
  case (1 n budget d)
  then show ?case by simp
next
  case (2 n budget d b bs)
  let ?e = "advance_device n budget b d"
  have e: "?e \<le> n" using advance_le "2.prems" by auto
  show ?case
  proof (cases "?e < n")
    case True
    with "2.IH"(1) [OF refl True e] place_ranks [OF e] show ?thesis by (auto simp: Let_def)
  next
    case False
    with e have "?e = n" by simp
    with "2.IH"(2) [OF refl False e] place_ranks [OF e] False show ?thesis by (auto simp: Let_def)
  qed
qed

lemma place_load:
  "d \<le> n \<Longrightarrow> n \<le> length budget \<Longrightarrow> x < n \<Longrightarrow>
     tier_load x (map (tier_rank n) (place_entries n budget d bs)) (map unat bs) \<le> unat (budget ! x)"
proof (induction n budget d bs rule: place_entries.induct)
  case (1 n budget d)
  then show ?case by simp
next
  case (2 n budget d b bs)
  let ?e = "advance_device n budget b d"
  have e: "?e \<le> n" using advance_le "2.prems" by auto
  show ?case
  proof (cases "?e < n")
    case True
    let ?bud = "budget[?e := budget ! ?e - b]"
    have fits: "b \<le> budget ! ?e" using advance_fits True by blast
    have IH: "tier_load x (map (tier_rank n) (place_entries n ?bud ?e bs)) (map unat bs) \<le> unat (?bud ! x)"
      using "2.IH"(1) [OF refl True e] "2.prems" by simp
    show ?thesis
    proof (cases "x = ?e")
      case eq: True
      with "2.prems" True have "?bud ! x = budget ! x - b" by simp
      with IH True eq fits unat_sub [OF fits] show ?thesis
        by (simp add: Let_def word_le_nat_alt)
    next
      case False
      with IH True show ?thesis by (simp add: Let_def)
    qed
  next
    case False
    with e have "?e = n" by simp
    with False "2.IH"(2) [OF refl False e] "2.prems" show ?thesis by (simp add: Let_def)
  qed
qed

text \<open>
  The greedy run stays at or before any admissible one: \<open>cap\<close> is what the other placement has left,
  \<open>budget\<close> what the packer has left, on the devices the other placement can still use.
\<close>

lemma place_dominates:
  "d \<le> d' \<Longrightarrow> d \<le> n \<Longrightarrow> n \<le> length budget \<Longrightarrow> length q = length bs \<Longrightarrow> sorted q \<Longrightarrow>
   (\<forall>x \<in> set q. d' \<le> x \<and> x \<le> n) \<Longrightarrow>
   (\<forall>x < n. tier_load x q (map unat bs) \<le> cap x) \<Longrightarrow>
   (\<forall>x < n. d' \<le> x \<longrightarrow> cap x \<le> unat (budget ! x)) \<Longrightarrow>
   list_all2 (\<le>) (map (tier_rank n) (place_entries n budget d bs)) q"
proof (induction n budget d bs arbitrary: d' q cap rule: place_entries.induct)
  case (1 n budget d)
  then show ?case by simp
next
  case (2 n budget d b bs)
  let ?e = "advance_device n budget b d"
  obtain x q' where q: "q = x # q'" using "2.prems"(4) by (cases q) auto
  have x: "d' \<le> x" "x \<le> n" using "2.prems" q by auto
  have e: "?e \<le> n" using advance_le "2.prems" by auto
  have ex: "?e \<le> x"
  proof (cases "x < n")
    case True
    have "unat b \<le> tier_load x q (map unat (b # bs))" using q by simp
    also have "\<dots> \<le> cap x" using "2.prems"(7) True by blast
    also have "\<dots> \<le> unat (budget ! x)" using "2.prems"(8) True x by simp
    finally have "b \<le> budget ! x" by (simp add: word_le_nat_alt)
    with True x "2.prems"(1) show ?thesis by (intro advance_first_fit) auto
  next
    case False
    with e x show ?thesis by simp
  qed
  let ?cap = "cap(x := cap x - unat b)"
  have load: "\<forall>y < n. tier_load y q' (map unat bs) \<le> ?cap y"
  proof (intro allI impI)
    fix y assume "y < n"
    with "2.prems"(7) q have "(if x = y then unat b else 0) + tier_load y q' (map unat bs) \<le> cap y"
      by (metis list.simps(9) tier_load.simps(1))
    then show "tier_load y q' (map unat bs) \<le> ?cap y" by (auto split: if_splits)
  qed
  have q': "length q' = length bs" "sorted q'" "\<forall>y \<in> set q'. x \<le> y \<and> y \<le> n"
    using "2.prems" q by auto
  show ?case
  proof (cases "?e < n")
    case True
    let ?bud = "budget[?e := budget ! ?e - b]"
    have fits: "b \<le> budget ! ?e" using advance_fits True by blast
    have "\<forall>y < n. x \<le> y \<longrightarrow> ?cap y \<le> unat (?bud ! y)"
    proof (intro allI impI)
      fix y assume y: "y < n" "x \<le> y"
      with "2.prems"(8) x have cy: "cap y \<le> unat (budget ! y)" by simp
      show "?cap y \<le> unat (?bud ! y)"
      proof (cases "y = ?e")
        case eq: True
        with ex y have "y = x" by simp
        with eq cy True "2.prems"(3) unat_sub [OF fits] show ?thesis by simp
      next
        case False
        with cy show ?thesis by (auto intro: diff_le_self [THEN le_trans])
      qed
    qed
    with "2.IH"(1) [OF refl True ex e _ q' load] "2.prems"(3) True ex q show ?thesis
      by (simp add: Let_def)
  next
    case False
    with e ex x have eqn: "?e = n" "x = n" by auto
    have "\<forall>y < n. x \<le> y \<longrightarrow> ?cap y \<le> unat (budget ! y)" using eqn by simp
    with "2.IH"(2) [OF refl False ex e "2.prems"(3) q' load] False eqn q show ?thesis
      by (simp add: Let_def)
  qed
qed

subsection \<open>The printed layer range\<close>

lemma layer_range_loop_gen:
  "layer_range_loop dev tier i k (f, l) =
     (let js = filter (\<lambda>j. dev ! j = tier) [i..<i + k]
      in (if f < 0 \<and> js \<noteq> [] then int (hd js) - 1 else f, if js \<noteq> [] then int (last js) - 1 else l))"
  if "0 < i"
  using that
proof (induction dev tier i k "(f, l)" arbitrary: f l rule: layer_range_loop.induct)
  case (1 dev tier i)
  then show ?case by simp
next
  case (2 dev tier i k)
  have "[i..<i + Suc k] = i # [Suc i..<Suc i + k]" by (simp add: upt_conv_Cons)
  with 2 show ?case by (auto simp: Let_def)
qed

subsection \<open>Properties\<close>

text \<open>
  What a successful call computes: one device per entry, ranks monotone along the entries
  (so once an entry is on the CPU every later one is), and no GPU filled past its budget. In the
  terms of the abstract problem, the result is an admissible placement.
\<close>

theorem layer_placement_admissible:
  assumes "ds4_compute_layer_placement (Some bytes) n_entries (Some cfg) True = Inr dev"
    and "length (gpu_budget_bytes cfg) = 16"
  shows "admissible (nat (n_gpus cfg)) (\<lambda>d. unat (gpu_budget_bytes cfg ! d))
           (map unat (take (nat n_entries) bytes)) (map (tier_rank (nat (n_gpus cfg))) dev)"
proof -
  let ?n = "nat (n_gpus cfg)" and ?bud = "take (nat (n_gpus cfg)) (gpu_budget_bytes cfg)"
  have n: "?n \<le> 16" and dev: "dev = place_entries ?n ?bud 0 (take (nat n_entries) bytes)"
    using assms(1) by (auto simp: ds4_compute_layer_placement_def DS4_LAYER_PACK_MAX_GPUS_def split: if_splits)
  have len: "?n \<le> length ?bud" using n assms(2) by simp
  show ?thesis unfolding admissible_def dev
    using place_sorted [of 0 ?n] place_ranks [of 0 ?n] place_load [OF _ len, of 0] by fastforce
qed

theorem layer_placement_admissible_witness:
  "admissible 2 (\<lambda>d. unat (([10, 7] @ replicate 14 0 :: u64 list) ! d))
     (map unat [4, 6, 5, 3, 1 :: u64])
     (map (tier_rank 2) [0, 0, 1, -1, -1])"
proof -
  let ?cfg = "\<lparr>gpu_budget_bytes = [10, 7] @ replicate 14 0, n_gpus = 2\<rparr> :: layer_pack_config"
  have run: "ds4_compute_layer_placement (Some [4, 6, 5, 3, 1]) 5 (Some ?cfg) True = Inr [0, 0, 1, -1, -1]"
    by code_simp
  show ?thesis using layer_placement_admissible [OF run] by simp
qed

text \<open>
  The greedy placement is optimal. Every admissible placement of the same entries, whatever it
  does, puts each entry on the same tier or a later one; in particular none keeps more entries off
  the CPU.
\<close>

theorem layer_placement_optimal:
  assumes "ds4_compute_layer_placement (Some bytes) n_entries (Some cfg) True = Inr dev"
    and "length (gpu_budget_bytes cfg) = 16"
    and "admissible (nat (n_gpus cfg)) (\<lambda>d. unat (gpu_budget_bytes cfg ! d))
           (map unat (take (nat n_entries) bytes)) other"
  shows "list_all2 (\<le>) (map (tier_rank (nat (n_gpus cfg))) dev) other"
proof -
  let ?n = "nat (n_gpus cfg)" and ?bud = "take (nat (n_gpus cfg)) (gpu_budget_bytes cfg)"
  have n: "?n \<le> 16" and dev: "dev = place_entries ?n ?bud 0 (take (nat n_entries) bytes)"
    using assms(1) by (auto simp: ds4_compute_layer_placement_def DS4_LAYER_PACK_MAX_GPUS_def split: if_splits)
  have len: "?n \<le> length ?bud" using n assms(2) by simp
  show ?thesis unfolding dev
    using assms(3) len
    by (intro place_dominates [where d' = 0 and cap = "\<lambda>d. unat (gpu_budget_bytes cfg ! d)"])
       (auto simp: admissible_def)
qed

theorem layer_placement_optimal_witness:
  "list_all2 (\<le>) (map (tier_rank 2) [0, 0, 1, -1, -1]) [0, 1, 2, 2, 2]"
proof -
  let ?cfg = "\<lparr>gpu_budget_bytes = [10, 7] @ replicate 14 0, n_gpus = 2\<rparr> :: layer_pack_config"
  have run: "ds4_compute_layer_placement (Some [4, 6, 5, 3, 1]) 5 (Some ?cfg) True = Inr [0, 0, 1, -1, -1]"
    by code_simp
  have adm: "admissible 2 (\<lambda>d. unat (([10, 7] @ replicate 14 0 :: u64 list) ! d))
     (map unat [4, 6, 5, 3, 1 :: u64]) [0, 1, 2, 2, 2]"
    by code_simp
  show ?thesis using layer_placement_optimal [OF run, of "[0, 1, 2, 2, 2]"] adm by simp
qed

text \<open>The layer range printed for a tier is exact. Over a monotone placement, the layers whose
  device is the tier are those between the two printed numbers (entry index minus one), and the
  range is empty (both -1) exactly when the tier holds no transformer layer.
\<close>

theorem layer_range_exact:
  assumes "sorted (map (tier_rank n) dev)" and "\<forall>x \<in> set dev. -1 \<le> x \<and> x < int n"
    and "n_entries \<le> length dev" and "-1 \<le> tier" and "tier < int n"
    and "layer_range_for_tier dev tier n_entries n_layers = (first, lst)"
  shows "{i. 1 \<le> i \<and> i \<le> n_layers \<and> i < n_entries \<and> dev ! i = tier} =
           {i. 0 \<le> first \<and> first \<le> int i - 1 \<and> int i - 1 \<le> lst}"
proof -
  let ?k = "min n_layers (n_entries - 1)"
  define js where "js = filter (\<lambda>j. dev ! j = tier) [1..<1 + ?k]"
  have set_js: "set js = {i. 1 \<le> i \<and> i \<le> n_layers \<and> i < n_entries \<and> dev ! i = tier}"
    by (auto simp: js_def)
  have srt: "sorted js"
    unfolding js_def by (intro sorted_wrt_filter sorted_upt)
  have fl: "first = (if js \<noteq> [] then int (hd js) - 1 else -1)"
    "lst = (if js \<noteq> [] then int (last js) - 1 else -1)"
    using assms(6) layer_range_loop_gen [of 1 dev tier ?k "-1" "-1"]
    by (auto simp: layer_range_for_tier_def Let_def js_def)
  have inj: "dev ! j = tier" if "j < length dev" "tier_rank n (dev ! j) = tier_rank n tier" for j
    using that assms(2,4,5) nth_mem [OF that(1)]
    by (fastforce simp: tier_rank_def DS4_LAYER_PACK_CPU_def split: if_splits)
  show ?thesis
  proof (cases "js = []")
    case True
    with set_js fl show ?thesis by simp
  next
    case False
    then have hl: "hd js \<in> set js" "last js \<in> set js" by simp_all
    have bnd: "hd js \<le> i \<and> i \<le> last js" if "i \<in> set js" for i
      using sorted_bounds [OF srt that] .
    have mid: "dev ! i = tier" if "hd js \<le> i" "i \<le> last js" for i
    proof (rule inj)
      have b: "dev ! hd js = tier" "dev ! last js = tier" "last js < n_entries"
        using hl set_js by auto
      then show "i < length dev" using that assms(3) by simp
      have "tier_rank n (dev ! hd js) \<le> tier_rank n (dev ! i)"
        "tier_rank n (dev ! i) \<le> tier_rank n (dev ! last js)"
        using sorted_nth_mono [OF assms(1), of "hd js" i] sorted_nth_mono [OF assms(1), of i "last js"]
          that b(3) assms(3) by auto
      with b show "tier_rank n (dev ! i) = tier_rank n tier" by simp
    qed
    have lim: "1 \<le> hd js" "last js \<le> n_layers" "last js < n_entries" using hl set_js by auto
    show ?thesis
    proof (intro set_eqI iffI)
      fix i assume "i \<in> {i. 1 \<le> i \<and> i \<le> n_layers \<and> i < n_entries \<and> dev ! i = tier}"
      then have "i \<in> set js" using set_js by simp
      from bnd [OF this] fl False lim show "i \<in> {i. 0 \<le> first \<and> first \<le> int i - 1 \<and> int i - 1 \<le> lst}"
        by (auto simp: of_nat_diff)
    next
      fix i assume "i \<in> {i. 0 \<le> first \<and> first \<le> int i - 1 \<and> int i - 1 \<le> lst}"
      with fl False have "hd js \<le> i" "i \<le> last js" by auto
      with mid lim show "i \<in> {i. 1 \<le> i \<and> i \<le> n_layers \<and> i < n_entries \<and> dev ! i = tier}" by auto
    qed
  qed
qed

theorem layer_range_exact_witness:
  "{i. 1 \<le> i \<and> i \<le> 4 \<and> i < 6 \<and> [0, 0, 0, 1, -1, -1 :: int] ! i = 0} =
     {i. (0::int) \<le> 0 \<and> 0 \<le> int i - 1 \<and> int i - 1 \<le> 1}"
proof -
  have run: "layer_range_for_tier [0, 0, 0, 1, -1, -1] 0 6 4 = (0, 1)"
    by code_simp
  show ?thesis
    using layer_range_exact [OF _ _ _ _ _ run, of 2]
    by (simp add: tier_rank_def DS4_LAYER_PACK_CPU_def)
qed

end
