(* ===== verification/PromptPrefix.thy ===== *)
theory PromptPrefix
  imports Ds4_Prelude
begin

text \<open>
  The prompt-prefix file parser of \<open>ds4_prompt_prefix.c\<close>: a text file of alternating
  \<open>USER:\<close> / \<open>ASSISTANT:\<close> turns. The file contents are a byte list, here a \<^typ>\<open>string\<close> that may
  contain NUL; \<open>None\<close> is a null \<open>data\<close> pointer. The scan position \<open>pos\<close> is represented by the
  rest of the data, \<open>data + pos\<close>. Allocation failures are not modelled.
\<close>

datatype prompt_prefix_role = PREFIX_USER | PREFIX_ASSISTANT

record prompt_prefix_turn =
  role :: prompt_prefix_role
  content :: string

datatype prefix_error =
    PrefixEmpty
  | PrefixHasNul
  | PrefixBadMarker nat
  | PrefixExpected nat prompt_prefix_role
  | PrefixEmptyTurn nat prompt_prefix_role
  | PrefixNoTurns
  | PrefixMustEndWithAssistant

abbreviation "NUL \<equiv> CHR 0x00"
abbreviation "LF \<equiv> CHR 0x0A"
abbreviation "CR \<equiv> CHR 0x0D"
abbreviation "TAB \<equiv> CHR 0x09"

subsection \<open>Scanning\<close>

text \<open>\<open>prefix_marker_at\<close>: the role and the length of the marker at the position, if there is one.\<close>

definition prefix_marker_at :: "string \<Rightarrow> (prompt_prefix_role \<times> nat) option" where
  "prefix_marker_at s =
     (if starts_with s ''USER:'' then Some (PREFIX_USER, 5)
      else if starts_with s ''ASSISTANT:'' then Some (PREFIX_ASSISTANT, 10)
      else None)"

text \<open>
  The \<open>for\<close> loop that looks for the next marker at a line start. It returns the bytes up to
  \<open>next\<close>, the rest from \<open>next\<close> on, and \<open>next_line\<close>; \<open>line0\<close> is the line of the turn's own marker,
  which \<open>next_line\<close> keeps when no further marker is found.
\<close>

fun scan_turn :: "string \<Rightarrow> nat \<Rightarrow> nat \<Rightarrow> string \<times> string \<times> nat" where
  "scan_turn [] line0 scan_line = ([], [], line0)"
| "scan_turn (c # r) line0 scan_line =
     (if c \<noteq> LF then (let (a, b, n) = scan_turn r line0 scan_line in (c # a, b, n))
      else if r \<noteq> [] \<and> prefix_marker_at r \<noteq> None then ([c], r, Suc scan_line)
      else (let (a, b, n) = scan_turn r line0 (Suc scan_line) in (c # a, b, n)))"

text \<open>The trailing line break of a turn: one \<open>\n\<close>, and a \<open>\r\<close> before it.\<close>

definition trim_turn_end :: "string \<Rightarrow> string" where
  "trim_turn_end s =
     (if s \<noteq> [] \<and> last s = LF then
        (let s = butlast s in if s \<noteq> [] \<and> last s = CR then butlast s else s)
      else s)"

definition skip_bom :: "string \<Rightarrow> string" where
  "skip_bom s = (if starts_with s [CHR 0xEF, CHR 0xBB, CHR 0xBF] then drop 3 s else s)"

definition expected_role :: "prompt_prefix_turn list \<Rightarrow> prompt_prefix_role" where
  "expected_role turns = (if length turns mod 2 = 0 then PREFIX_USER else PREFIX_ASSISTANT)"

lemma scan_turn_length: "length (fst (snd (scan_turn s l0 l))) \<le> length s"
proof (induction s l0 l rule: scan_turn.induct)
  case (1 l0 l)
  then show ?case by simp
next
  case (2 c r l0 l)
  then show ?case by (auto simp: split_beta)
qed

text \<open>
  One turn: the marker, its role check, the optional blank after it, the search for the next
  marker, and the trimmed content. The result is the turn, the rest of the data and its line.
\<close>

definition parse_turn ::
  "prompt_prefix_role \<Rightarrow> string \<Rightarrow> nat \<Rightarrow> prefix_error + (prompt_prefix_turn \<times> string \<times> nat)" where
  "parse_turn expected s line =
     (case prefix_marker_at s of
        None \<Rightarrow> Inl (PrefixBadMarker line)
      | Some (r, marker_len) \<Rightarrow>
          if r \<noteq> expected then Inl (PrefixExpected line expected)
          else
            let start = drop marker_len s;
                start = (case start of c # t \<Rightarrow> if c = CHR '' '' \<or> c = TAB then t else start | [] \<Rightarrow> start);
                (body, rest, next_line) = scan_turn start line line;
                body = trim_turn_end body
            in if body = [] then Inl (PrefixEmptyTurn line r)
               else Inr (\<lparr>role = r, content = body\<rparr>, rest, next_line))"

lemma parse_turn_shrinks:
  assumes "parse_turn e s line = Inr (t, rest, n)"
  shows "length rest < length s"
proof -
  obtain r k where m: "prefix_marker_at s = Some (r, k)"
    using assms by (auto simp: parse_turn_def split: option.splits)
  then have k: "0 < k" "k \<le> length s"
    by (auto simp: prefix_marker_at_def split: if_splits dest: starts_with_length)
  let ?start = "drop k s"
  let ?st = "case ?start of c # t \<Rightarrow> if c = CHR '' '' \<or> c = TAB then t else ?start | [] \<Rightarrow> ?start"
  have "rest = fst (snd (scan_turn ?st line line))"
    using assms m by (auto simp: parse_turn_def Let_def split_beta split: if_splits)
  then have "length rest \<le> length ?st" by (simp add: scan_turn_length)
  also have "\<dots> \<le> length ?start" by (cases ?start) auto
  also have "\<dots> < length s" using k by simp
  finally show ?thesis .
qed

function parse_turns ::
  "prompt_prefix_turn list \<Rightarrow> string \<Rightarrow> nat \<Rightarrow> prefix_error + prompt_prefix_turn list" where
  "parse_turns turns s line =
     (if s = [] then Inr turns
      else case parse_turn (expected_role turns) s line of
             Inl e \<Rightarrow> Inl e
           | Inr (t, rest, next_line) \<Rightarrow> parse_turns (turns @ [t]) rest next_line)"
  by pat_completeness auto
termination
  by (relation "measure (\<lambda>(_, s, _). length s)") (auto dest: parse_turn_shrinks)

declare parse_turns.simps [simp del]

definition ds4_prompt_prefix_parse :: "string option \<Rightarrow> prefix_error + prompt_prefix_turn list" where
  "ds4_prompt_prefix_parse data =
     (case data of
        None \<Rightarrow> Inl PrefixEmpty
      | Some d \<Rightarrow>
          if d = [] then Inl PrefixEmpty
          else if NUL \<in> set d then Inl PrefixHasNul
          else case parse_turns [] (skip_bom d) 1 of
                 Inl e \<Rightarrow> Inl e
               | Inr turns \<Rightarrow>
                   if turns = [] then Inl PrefixNoTurns
                   else if role (last turns) \<noteq> PREFIX_ASSISTANT then Inl PrefixMustEndWithAssistant
                   else Inr turns)"

subsection \<open>What a parsed file looks like\<close>

text \<open>Roles alternate from \<open>USER\<close>, and no content is empty.\<close>

definition alternating :: "prompt_prefix_turn list \<Rightarrow> bool" where
  "alternating turns \<longleftrightarrow>
     (\<forall>i \<in> {..<length turns}.
        role (turns ! i) = (if i mod 2 = 0 then PREFIX_USER else PREFIX_ASSISTANT) \<and>
        content (turns ! i) \<noteq> [])"

lemma alternating_Nil [simp]: "alternating []"
  by (simp add: alternating_def)

lemma alternating_snoc:
  "alternating turns \<Longrightarrow> role t = expected_role turns \<Longrightarrow> content t \<noteq> [] \<Longrightarrow> alternating (turns @ [t])"
  by (auto simp: alternating_def expected_role_def nth_append less_Suc_eq)

lemma parse_turn_ok:
  assumes "parse_turn e s line = Inr (t, rest, n)"
  shows "role t = e" "content t \<noteq> []"
  using assms by (auto simp: parse_turn_def Let_def split_beta split: option.splits if_splits)

lemma parse_turns_alternating:
  "alternating turns \<Longrightarrow> parse_turns turns s line = Inr out \<Longrightarrow> alternating out"
proof (induction turns s line rule: parse_turns.induct)
  case (1 turns s line)
  show ?case
  proof (cases "s = []")
    case True
    with "1.prems" show ?thesis by (simp add: parse_turns.simps)
  next
    case False
    with "1.prems" obtain t rest n where
      t: "parse_turn (expected_role turns) s line = Inr (t, rest, n)"
      and rec: "parse_turns (turns @ [t]) rest n = Inr out"
      by (subst (asm) parse_turns.simps) (auto split: sum.splits)
    from "1.IH" [OF False t refl refl] rec parse_turn_ok [OF t] "1.prems"(1) show ?thesis
      by (simp add: alternating_snoc)
  qed
qed

subsection \<open>Rendering a prefix file\<close>

fun render_role :: "prompt_prefix_role \<Rightarrow> string" where
  "render_role PREFIX_USER = ''USER:''"
| "render_role PREFIX_ASSISTANT = ''ASSISTANT:''"

definition render_turn :: "prompt_prefix_turn \<Rightarrow> string" where
  "render_turn t = render_role (role t) @ '' '' @ content t @ [LF]"

definition render_prefix :: "prompt_prefix_turn list \<Rightarrow> string" where
  "render_prefix turns = concat (map render_turn turns)"

text \<open>
  A content that a file can carry: non-empty, no NUL, no carriage return at its end, and no line of
  it opening with a marker.
\<close>

fun no_marker_line :: "string \<Rightarrow> bool" where
  "no_marker_line [] = True"
| "no_marker_line (c # r) = ((c = LF \<longrightarrow> prefix_marker_at r = None) \<and> no_marker_line r)"

definition storable :: "string \<Rightarrow> bool" where
  "storable s \<longleftrightarrow> s \<noteq> [] \<and> NUL \<notin> set s \<and> last s \<noteq> CR \<and> no_marker_line s"

lemma marker_render: "prefix_marker_at (render_turn t @ s) = Some (role t, length (render_role (role t)))"
  by (cases "role t") (simp_all add: prefix_marker_at_def render_turn_def)

lemma render_turn_nonempty [simp]: "render_turn t \<noteq> []"
  by (simp add: render_turn_def)

text \<open>A marker that continues past the end of the content would have to contain a line feed.\<close>

lemma marker_append_LF: "prefix_marker_at (s @ LF # t) = prefix_marker_at s"
proof -
  have "starts_with (s @ LF # t) p = starts_with s p" if "LF \<notin> set p" for p
    using that by (induction s p rule: starts_with.induct) auto
  then show ?thesis by (simp add: prefix_marker_at_def)
qed

lemma scan_turn_content:
  assumes "no_marker_line s" and "rest = [] \<or> prefix_marker_at rest \<noteq> None"
  shows "\<exists>n. scan_turn (s @ LF # rest) l0 l = (s @ [LF], rest, n)"
  using assms(1)
proof (induction s arbitrary: l)
  case Nil
  show ?case using assms(2) by (auto simp: split_beta)
next
  case (Cons c r)
  then have IH: "\<exists>n. scan_turn (r @ LF # rest) l0 m = (r @ [LF], rest, n)" for m by simp
  show ?case
  proof (cases "c = LF")
    case True
    with Cons.prems have "prefix_marker_at (r @ LF # rest) = None" by (simp add: marker_append_LF)
    with IH [of "Suc l"] True show ?thesis by auto
  next
    case False
    with IH [of l] show ?thesis by auto
  qed
qed

lemma parse_turn_render:
  assumes "storable (content t)" and "rest = [] \<or> prefix_marker_at rest \<noteq> None"
  shows "\<exists>n. parse_turn (role t) (render_turn t @ rest) line = Inr (t, rest, n)"
proof -
  have c: "content t \<noteq> []" "last (content t) \<noteq> CR" "no_marker_line (content t)"
    using assms(1) by (auto simp: storable_def)
  obtain n where n: "scan_turn (content t @ LF # rest) line line = (content t @ [LF], rest, n)"
    using scan_turn_content [OF c(3) assms(2)] by blast
  have drop: "drop (length (render_role (role t))) (render_turn t @ rest) = CHR '' '' # content t @ LF # rest"
    by (simp add: render_turn_def)
  have "trim_turn_end (content t @ [LF]) = content t"
    using c by (simp add: trim_turn_end_def)
  then show ?thesis
    using c n by (simp add: parse_turn_def marker_render drop Let_def del: drop_append)
qed

lemma render_prefix_next: "render_prefix ts = [] \<or> prefix_marker_at (render_prefix ts) \<noteq> None"
  by (cases ts) (simp_all add: render_prefix_def marker_render)

lemma alternating_role:
  "alternating (turns @ t # ts) \<Longrightarrow> role t = expected_role turns"
  unfolding alternating_def expected_role_def by (auto dest!: bspec [of _ _ "length turns"])

lemma parse_turns_render:
  "alternating (turns @ ts) \<Longrightarrow> (\<forall>t \<in> set ts. storable (content t)) \<Longrightarrow>
     parse_turns turns (render_prefix ts) line = Inr (turns @ ts)"
proof (induction ts arbitrary: turns line)
  case Nil
  then show ?case by (simp add: render_prefix_def parse_turns.simps)
next
  case (Cons t ts)
  have split: "render_prefix (t # ts) = render_turn t @ render_prefix ts"
    by (simp add: render_prefix_def)
  have "storable (content t)" using Cons.prems by simp
  from parse_turn_render [OF this render_prefix_next] obtain n where
    n: "parse_turn (role t) (render_turn t @ render_prefix ts) line = Inr (t, render_prefix ts, n)" by blast
  have "parse_turns (turns @ [t]) (render_prefix ts) n = Inr ((turns @ [t]) @ ts)"
    using Cons.prems by (intro Cons.IH) auto
  then show ?case
    using n alternating_role [OF Cons.prems(1)] by (simp add: split parse_turns.simps [of turns])
qed

lemma nul_render: "(\<forall>t \<in> set ts. storable (content t)) \<Longrightarrow> NUL \<notin> set (render_prefix ts)"
proof (induction ts)
  case Nil
  then show ?case by (simp add: render_prefix_def)
next
  case (Cons t ts)
  then show ?case
    by (cases "role t") (auto simp: render_prefix_def render_turn_def storable_def)
qed

subsection \<open>Properties\<close>

text \<open>
  Whatever bytes it is given, a successful parse returns a non-empty dialogue that starts with a
  user turn, alternates the two roles, ends with an assistant turn, and has no empty content.
\<close>

theorem prefix_parse_sound:
  assumes "ds4_prompt_prefix_parse data = Inr turns"
  shows "turns \<noteq> [] \<and> even (length turns) \<and> alternating turns"
proof -
  obtain d where d: "data = Some d" "parse_turns [] (skip_bom d) 1 = Inr turns" "turns \<noteq> []"
    "role (last turns) = PREFIX_ASSISTANT"
    using assms by (auto simp: ds4_prompt_prefix_parse_def split: option.splits if_splits sum.splits)
  have alt: "alternating turns" using parse_turns_alternating [OF alternating_Nil d(2)] .
  have "last turns = turns ! (length turns - 1)" "length turns - 1 < length turns"
    using d(3) by (simp_all add: last_conv_nth)
  with alt d(4) have "(length turns - 1) mod 2 \<noteq> 0"
    unfolding alternating_def by (metis lessThan_iff prompt_prefix_role.distinct(1))
  with d(3) have "even (length turns)" by (cases turns) auto
  with alt d(3) show ?thesis by simp
qed

theorem prefix_parse_sound_witness:
  "[\<lparr>role = PREFIX_USER, content = ''hi''\<rparr>, \<lparr>role = PREFIX_ASSISTANT, content = ''yo''\<rparr>] \<noteq> [] \<and>
   alternating [\<lparr>role = PREFIX_USER, content = ''hi''\<rparr>, \<lparr>role = PREFIX_ASSISTANT, content = ''yo''\<rparr>]"
proof -
  have "ds4_prompt_prefix_parse (Some (''USER: hi'' @ [CR, LF] @ ''ASSISTANT:yo''))
          = Inr [\<lparr>role = PREFIX_USER, content = ''hi''\<rparr>, \<lparr>role = PREFIX_ASSISTANT, content = ''yo''\<rparr>]"
    by code_simp
  from prefix_parse_sound [OF this] show ?thesis by simp
qed

text \<open>
  The parser inverts rendering. Every alternating dialogue of storable contents that ends with an
  assistant turn is read back exactly from the file that lists its turns.
\<close>

theorem prefix_parse_render:
  assumes "turns \<noteq> []" and "even (length turns)" and "alternating turns"
    and "\<forall>t \<in> set turns. storable (content t)"
  shows "ds4_prompt_prefix_parse (Some (render_prefix turns)) = Inr turns"
proof -
  obtain t ts where turns: "turns = t # ts" using assms(1) by (cases turns) auto
  have "role t = PREFIX_USER" using alternating_role [of "[]" t ts] assms(3) turns by (simp add: expected_role_def)
  then have "\<exists>u. render_prefix turns = CHR ''U'' # u"
    by (simp add: turns render_prefix_def render_turn_def)
  then have "skip_bom (render_prefix turns) = render_prefix turns" "render_prefix turns \<noteq> []"
    by (auto simp: skip_bom_def)
  moreover have "parse_turns [] (render_prefix turns) 1 = Inr turns"
    using parse_turns_render [of "[]" turns 1] assms by simp
  moreover have "role (last turns) = PREFIX_ASSISTANT"
  proof -
    have "last turns = turns ! (length turns - 1)" "length turns - 1 < length turns"
      using assms(1) by (simp_all add: last_conv_nth)
    moreover have "(length turns - 1) mod 2 \<noteq> 0"
      using assms(1,2) by (cases turns) (auto simp: odd_iff_mod_2_eq_one)
    ultimately show ?thesis using assms(3) unfolding alternating_def by (metis lessThan_iff)
  qed
  ultimately show ?thesis
    using assms nul_render [OF assms(4)] by (simp add: ds4_prompt_prefix_parse_def)
qed

theorem prefix_parse_render_witness:
  "ds4_prompt_prefix_parse (Some (render_prefix
      [\<lparr>role = PREFIX_USER, content = ''a'' @ [LF] @ ''b''\<rparr>, \<lparr>role = PREFIX_ASSISTANT, content = ''c''\<rparr>]))
    = Inr [\<lparr>role = PREFIX_USER, content = ''a'' @ [LF] @ ''b''\<rparr>, \<lparr>role = PREFIX_ASSISTANT, content = ''c''\<rparr>]"
  by (rule prefix_parse_render) code_simp+

end
