(* ===== verification/CString.thy ===== *)
theory CString
  imports Ds4_Prelude
begin

text \<open>
  The parts of the C library's character and number functions that the code uses, in the C locale,
  on NUL-terminated strings: \<open>isspace\<close>, \<open>isdigit\<close>, \<open>isxdigit\<close>, \<open>tolower\<close>, \<open>strstr\<close> and
  \<open>strtoul\<close>/\<open>strtoull\<close> with base 10. \<open>unsigned long\<close> has 64 bits on the supported platform.
\<close>

definition c_isspace :: "char \<Rightarrow> bool" where
  "c_isspace c \<longleftrightarrow> c = CHR '' '' \<or> c = CHR 0x09 \<or> c = CHR 0x0A \<or> c = CHR 0x0B \<or> c = CHR 0x0C \<or> c = CHR 0x0D"

definition c_isdigit :: "char \<Rightarrow> bool" where
  "c_isdigit c \<longleftrightarrow> (48::nat) \<le> of_char c \<and> of_char c \<le> (57::nat)"

definition c_isxdigit :: "char \<Rightarrow> bool" where
  "c_isxdigit c \<longleftrightarrow> c_isdigit c \<or> (65::nat) \<le> of_char c \<and> of_char c \<le> (70::nat)
                   \<or> (97::nat) \<le> of_char c \<and> of_char c \<le> (102::nat)"

definition c_tolower :: "char \<Rightarrow> char" where
  "c_tolower c = (if (65::nat) \<le> of_char c \<and> of_char c \<le> (90::nat)
                  then char_of (of_char c + 32 :: nat) else c)"

definition digit_value :: "char \<Rightarrow> nat" where
  "digit_value c = of_char c - 48"

definition dec_value :: "string \<Rightarrow> nat" where
  "dec_value ds = foldl (\<lambda>v c. 10 * v + digit_value c) 0 ds"

text \<open>
  \<open>strtoul (s, &end, 10)\<close>: the value, the rest of the string from \<open>end\<close>, and whether \<open>errno\<close> was set
  to \<open>ERANGE\<close>. A minus sign negates the value modulo 2^64, as C prescribes.
\<close>

definition c_strtoul :: "string \<Rightarrow> u64 \<times> string \<times> bool" where
  "c_strtoul s =
     (let r = dropWhile c_isspace s;
          neg = (r \<noteq> [] \<and> hd r = CHR ''-'');
          r = (if r \<noteq> [] \<and> (hd r = CHR ''-'' \<or> hd r = CHR ''+'') then tl r else r);
          ds = takeWhile c_isdigit r; rest = dropWhile c_isdigit r; v = dec_value ds
      in if ds = [] then (0, s, False)
         else if 2 ^ 64 \<le> v then (- 1, rest, True)
         else (if neg then - of_nat v else of_nat v, rest, False))"

text \<open>\<open>strstr\<close>: the tail of the haystack from the first occurrence on.\<close>

fun c_strstr :: "string \<Rightarrow> string \<Rightarrow> string option" where
  "c_strstr [] needle = (if needle = [] then Some [] else None)"
| "c_strstr (c # r) needle = (if starts_with (c # r) needle then Some (c # r) else c_strstr r needle)"

lemma c_isdigit_not_space: "c_isdigit c \<Longrightarrow> \<not> c_isspace c"
  by (auto simp: c_isdigit_def c_isspace_def)

lemma c_isdigit_not_sign: "c_isdigit c \<Longrightarrow> c \<noteq> CHR ''-'' \<and> c \<noteq> CHR ''+''"
  by (auto simp: c_isdigit_def)

text \<open>On a string of digits the conversion reads all of it.\<close>

lemma c_strtoul_digits:
  assumes "ds \<noteq> []" and "list_all c_isdigit ds"
  shows "c_strtoul ds =
           (if 2 ^ 64 \<le> dec_value ds then (- 1, [], True) else (of_nat (dec_value ds), [], False))"
proof -
  obtain d r where ds: "ds = d # r" using assms(1) by (cases ds) auto
  have d: "c_isdigit d" using assms(2) ds by simp
  have all: "takeWhile c_isdigit ds = ds" "dropWhile c_isdigit ds = []"
    using assms(2) by (auto simp: list_all_iff takeWhile_eq_all_conv)
  show ?thesis
    using c_isdigit_not_space [OF d] c_isdigit_not_sign [OF d] all
    by (simp add: c_strtoul_def Let_def ds)
qed

lemma c_strstr_SomeD: "c_strstr s p = Some t \<Longrightarrow> \<exists>u. s = u @ t \<and> starts_with t p"
proof (induction s)
  case Nil
  then show ?case by (auto split: if_splits)
next
  case (Cons c s)
  then show ?case by (auto split: if_splits)
qed

lemma c_strstr_None: "c_strstr s p = None \<Longrightarrow> \<not> starts_with (drop i s) p"
proof (induction s arbitrary: i)
  case Nil
  then show ?case by (cases p) (auto split: if_splits)
next
  case (Cons c s)
  then show ?case by (cases i) (auto split: if_splits)
qed

end
