(* ===== verification/SsdPlan.thy ===== *)
theory SsdPlan
  imports CString
begin

text \<open>
  The SSD-streaming cache planner of \<open>ds4_ssd.c\<close>: the size arguments of the command line and the
  automatic expert-cache plan. A null string is \<open>None\<close>; \<open>out_ok\<close> says whether the output pointers
  are non-null; what a call stores through them is part of its result (they are zeroed first).
  \<open>getenv ("DS4_SSD_AUTO_CACHE_PCT")\<close> is the argument \<open>env\<close>.
\<close>

definition DS4_GIB :: u64 where "DS4_GIB = 1024 * 1024 * 1024"
definition UINT64_MAX :: u64 where "UINT64_MAX = 0xFFFFFFFFFFFFFFFF"
definition UINT32_MAX :: u64 where "UINT32_MAX = 0xFFFFFFFF"

definition has_gb_suffix :: "string \<Rightarrow> bool" where
  "has_gb_suffix s \<longleftrightarrow>
     2 < length s \<and>
     (s ! (length s - 2) = CHR ''g'' \<or> s ! (length s - 2) = CHR ''G'') \<and>
     (s ! (length s - 1) = CHR ''b'' \<or> s ! (length s - 1) = CHR ''B'')"

definition ds4_parse_gib_arg :: "string option \<Rightarrow> bool \<Rightarrow> bool \<times> u64" where
  "ds4_parse_gib_arg arg out_ok =
     (case arg of
        None \<Rightarrow> (False, 0)
      | Some s \<Rightarrow>
          if s = [] \<or> \<not> out_ok then (False, 0)
          else
            let len = (if has_gb_suffix s then length s - 2 else length s)
            in if len = 0 then (False, 0)
               else if \<not> list_all c_isdigit (take len s) then (False, 0)
               else if 32 \<le> len then (False, 0)
               else
                 let (v, _, erange) = c_strtoul (take len s)
                 in if erange \<or> v = 0 \<or> UINT64_MAX div DS4_GIB < v then (False, 0)
                    else (True, v * DS4_GIB))"

text \<open>The result is the flag, the expert count and the byte count.\<close>

definition ds4_parse_streaming_cache_experts_arg :: "string option \<Rightarrow> bool \<Rightarrow> bool \<times> u32 \<times> u64" where
  "ds4_parse_streaming_cache_experts_arg arg out_ok =
     (case arg of
        None \<Rightarrow> (False, 0, 0)
      | Some s \<Rightarrow>
          if s = [] \<or> \<not> out_ok then (False, 0, 0)
          else if has_gb_suffix s then
            (let (ok, bytes) = ds4_parse_gib_arg arg out_ok in (ok, 0, bytes))
          else if \<not> list_all c_isdigit s then (False, 0, 0)
          else
            let (v, _, erange) = c_strtoul s
            in if erange \<or> v = 0 \<or> UINT32_MAX < v then (False, 0, 0)
               else (True, ucast v, 0))"

definition ds4_ssd_cache_experts_for_byte_budget :: "u64 \<Rightarrow> u64 \<Rightarrow> u32" where
  "ds4_ssd_cache_experts_for_byte_budget bytes per_expert_bytes =
     (if bytes = 0 \<or> per_expert_bytes = 0 then 0
      else let experts = bytes div per_expert_bytes
           in if experts = 0 \<or> UINT32_MAX < experts then 0 else ucast experts)"

definition ds4_ssd_auto_cache_percent :: "string option \<Rightarrow> u32 \<Rightarrow> u64" where
  "ds4_ssd_auto_cache_percent env default_percent =
     (case env of
        None \<Rightarrow> ucast default_percent
      | Some e \<Rightarrow>
          if e = [] then ucast default_percent
          else let (v, rest, erange) = c_strtoul e
               in if length rest \<noteq> length e \<and> rest = [] \<and> \<not> erange \<and> 50 \<le> v \<and> v \<le> 95 then v
                  else ucast default_percent)"

record ssd_cache_plan =
  model_target_bytes :: u64
  cache_bytes :: u64
  effective_cache_bytes :: u64
  cache_experts :: u32

definition empty_plan :: ssd_cache_plan where
  "empty_plan = \<lparr>model_target_bytes = 0, cache_bytes = 0, effective_cache_bytes = 0, cache_experts = 0\<rparr>"

definition plan_target :: "u64 \<Rightarrow> u64 \<Rightarrow> u64 \<Rightarrow> u64" where
  "plan_target recommended pct model_limit =
     (let t = (if UINT64_MAX div pct < recommended then UINT64_MAX else (recommended * pct) div 100)
      in if model_limit \<noteq> 0 \<and> model_limit < t then model_limit else t)"

definition plan_experts :: "u64 \<Rightarrow> u64 \<Rightarrow> u64 \<Rightarrow> u64" where
  "plan_experts bytes per_expert_bytes max_model_experts =
     (let n = bytes div per_expert_bytes;
          n = (if n = 0 then 1 else n);
          n = (if max_model_experts \<noteq> 0 \<and> max_model_experts < n then max_model_experts else n)
      in if UINT32_MAX < n then UINT32_MAX else n)"

definition ds4_ssd_auto_cache_plan ::
  "string option \<Rightarrow> u64 \<Rightarrow> u32 \<Rightarrow> u64 \<Rightarrow> u64 \<Rightarrow> u64 \<Rightarrow> u64 \<Rightarrow> bool \<Rightarrow> bool \<times> ssd_cache_plan" where
  "ds4_ssd_auto_cache_plan env recommended_bytes default_percent model_limit_bytes
       non_routed_bytes per_expert_bytes max_model_experts out_ok =
     (if \<not> out_ok then (False, empty_plan)
      else if recommended_bytes = 0 \<or> per_expert_bytes = 0 \<or>
              default_percent < 50 \<or> 95 < default_percent then (False, empty_plan)
      else
        let pct = ds4_ssd_auto_cache_percent env default_percent;
            target = plan_target recommended_bytes pct model_limit_bytes;
            bytes = (if non_routed_bytes < target then target - non_routed_bytes else 0);
            experts = plan_experts bytes per_expert_bytes max_model_experts
        in (ucast experts \<noteq> (0::u32),
            \<lparr>model_target_bytes = target, cache_bytes = bytes,
             effective_cache_bytes = experts * per_expert_bytes, cache_experts = ucast experts\<rparr>))"

subsection \<open>Lemmas\<close>

lemma unat_UINT64_MAX [simp]: "unat UINT64_MAX = 18446744073709551615"
  by (simp add: UINT64_MAX_def)

lemma gib_limit: "UINT64_MAX div DS4_GIB = 0x3FFFFFFFF"
  by (simp add: UINT64_MAX_def DS4_GIB_def)

lemma auto_percent_range:
  assumes "50 \<le> default_percent" "default_percent \<le> (95::u32)"
  shows "50 \<le> ds4_ssd_auto_cache_percent env default_percent \<and>
         ds4_ssd_auto_cache_percent env default_percent \<le> 95"
proof -
  have "50 \<le> (ucast default_percent :: u64) \<and> ucast default_percent \<le> (95 :: u64)"
    using assms by (simp add: word_le_nat_alt)
  then show ?thesis
    by (auto simp: ds4_ssd_auto_cache_percent_def split: option.splits prod.splits)
qed

lemma plan_target_le_limit: "limit \<noteq> 0 \<Longrightarrow> plan_target rec pct limit \<le> limit"
  by (auto simp: plan_target_def Let_def)

lemma plan_target_no_wrap:
  assumes "pct \<noteq> 0" "rec \<le> UINT64_MAX div pct"
  shows "unat (plan_target rec pct 0) = unat rec * unat pct div 100"
proof -
  have "unat rec * unat pct \<le> unat UINT64_MAX div unat pct * unat pct"
    using assms(2) by (simp add: word_le_nat_alt unat_div_word)
  also have "\<dots> \<le> unat UINT64_MAX" by simp
  finally have "unat (rec * pct) = unat rec * unat pct"
    by (intro unat_mult_64) simp
  moreover have "unat (100 :: u64) = 100" by simp
  ultimately show ?thesis using assms(2) by (simp add: plan_target_def unat_div_word not_less)
qed

lemma plan_experts_range:
  assumes "per \<noteq> 0"
  shows "1 \<le> unat (plan_experts bytes per mx)"
    and "unat (plan_experts bytes per mx) \<le> 4294967295"
    and "unat (plan_experts bytes per mx) \<le> max 1 (unat bytes div unat per)"
    and "mx \<noteq> 0 \<Longrightarrow> plan_experts bytes per mx \<le> mx"
  using assms
  by (auto simp: plan_experts_def Let_def UINT32_MAX_def word_le_nat_alt word_less_nat_alt unat_div_word
      word_unat_eq_iff not_less)

subsection \<open>Properties\<close>

text \<open>The \<open>--...-gb\<close> size argument. A string is accepted exactly when it is a decimal number of at
  most 31 digits, between 1 and 2^34 - 1, optionally followed by \<open>GB\<close> in any case; the byte count is
  that number of GiB, computed without wrap-around.
\<close>

theorem parse_gib_arg_iff:
  "ds4_parse_gib_arg (Some s) True = (True, b) \<longleftrightarrow>
     (\<exists>ds suf. s = ds @ suf \<and> (suf = [] \<or> suf \<in> {''gb'', ''gB'', ''Gb'', ''GB''}) \<and>
        ds \<noteq> [] \<and> length ds < 32 \<and> list_all c_isdigit ds \<and>
        1 \<le> dec_value ds \<and> dec_value ds < 2 ^ 34 \<and> unat b = dec_value ds * 2 ^ 30)"
  (is "?L \<longleftrightarrow> ?R")
proof -
  have num: "(let (v, _, erange) = c_strtoul ds
              in if erange \<or> v = 0 \<or> UINT64_MAX div DS4_GIB < v then (False, 0)
                 else (True, v * DS4_GIB)) = (True, b) \<longleftrightarrow>
             1 \<le> dec_value ds \<and> dec_value ds < 2 ^ 34 \<and> unat b = dec_value ds * 2 ^ 30"
    if "ds \<noteq> []" "list_all c_isdigit ds" for ds
  proof (cases "dec_value ds < 2 ^ 64")
    case False
    with c_strtoul_digits [OF that] show ?thesis by auto
  next
    case True
    let ?v = "of_nat (dec_value ds) :: u64"
    have v: "unat ?v = dec_value ds" using True by (simp add: unat_of_nat take_bit_nat_eq_self)
    have "unat (?v * DS4_GIB) = dec_value ds * 2 ^ 30" if "dec_value ds < 2 ^ 34"
      using that v unat_mult_64 [of ?v DS4_GIB] by (simp add: DS4_GIB_def)
    moreover have "UINT64_MAX div DS4_GIB < ?v \<longleftrightarrow> \<not> dec_value ds < 2 ^ 34"
      using v by (simp add: gib_limit word_less_nat_alt) arith
    moreover have "?v = 0 \<longleftrightarrow> dec_value ds = 0"
      using v by (metis unat_0 word_unat_eq_iff)
    ultimately show ?thesis
      using c_strtoul_digits [OF that] True by (auto simp: word_unat_eq_iff)
  qed
  have suffix: "has_gb_suffix s \<longleftrightarrow> (\<exists>ds suf. s = ds @ suf \<and> ds \<noteq> [] \<and> suf \<in> {''gb'', ''gB'', ''Gb'', ''GB''})"
  proof
    assume g: "has_gb_suffix s"
    let ?suf = "[s ! (length s - 2), s ! (length s - 1)]"
    have "s = take (length s - 2) s @ drop (length s - 2) s" by simp
    moreover have "drop (length s - 2) s = ?suf"
      using g by (intro nth_equalityI) (auto simp: has_gb_suffix_def less_2_cases_iff nth_Cons')
    ultimately have "s = take (length s - 2) s @ ?suf" by metis
    moreover have "?suf \<in> {''gb'', ''gB'', ''Gb'', ''GB''}" "take (length s - 2) s \<noteq> []"
      using g by (auto simp: has_gb_suffix_def)
    ultimately show "\<exists>ds suf. s = ds @ suf \<and> ds \<noteq> [] \<and> suf \<in> {''gb'', ''gB'', ''Gb'', ''GB''}" by blast
  qed (auto simp: has_gb_suffix_def nth_append)
  have digit_last: "\<not> list_all c_isdigit s" if "has_gb_suffix s"
  proof -
    have "s ! (length s - 1) \<in> set s"
      using that by (intro nth_mem) (auto simp: has_gb_suffix_def)
    moreover have "\<not> c_isdigit (s ! (length s - 1))"
      using that by (auto simp: has_gb_suffix_def c_isdigit_def)
    ultimately show ?thesis by (auto simp: list_all_iff)
  qed
  define ds where "ds = take (if has_gb_suffix s then length s - 2 else length s) s"
  have R: "?R \<longleftrightarrow> ds \<noteq> [] \<and> length ds < 32 \<and> list_all c_isdigit ds \<and>
     1 \<le> dec_value ds \<and> dec_value ds < 2 ^ 34 \<and> unat b = dec_value ds * 2 ^ 30" (is "?R \<longleftrightarrow> ?D ds")
  proof (cases "has_gb_suffix s")
    case True
    then obtain ds' suf where s: "s = ds' @ suf" "suf \<in> {''gb'', ''gB'', ''Gb'', ''GB''}"
      using suffix by blast
    then have ds': "ds = ds'" using True by (auto simp: ds_def)
    have "?D es" if "s = es @ suf'" "suf' = [] \<or> suf' \<in> {''gb'', ''gB'', ''Gb'', ''GB''}" "?D es" for es suf'
      using that by simp
    have uniq: "es = ds" if "s = es @ suf'" "suf' \<in> {''gb'', ''gB'', ''Gb'', ''GB''}" for es suf'
      using that s ds' by auto
    show ?thesis
    proof
      assume ?R
      then obtain es suf' where es: "s = es @ suf'" "suf' = [] \<or> suf' \<in> {''gb'', ''gB'', ''Gb'', ''GB''}" "?D es"
        by blast
      from es digit_last [OF True] have "suf' \<noteq> []" by auto
      with es uniq [OF es(1)] show "?D ds" by auto
    next
      assume "?D ds"
      with s ds' show ?R by blast
    qed
  next
    case False
    then have ds': "ds = s" by (simp add: ds_def)
    show ?thesis
    proof
      assume ?R
      then obtain es suf' where es: "s = es @ suf'" "suf' = [] \<or> suf' \<in> {''gb'', ''gB'', ''Gb'', ''GB''}" "?D es"
        by blast
      with False suffix have "suf' = []" by blast
      with es ds' show "?D ds" by simp
    next
      assume "?D ds"
      with ds' show ?R by (intro exI [of _ s] exI [of _ "[]"]) simp
    qed
  qed
  have "?L \<longleftrightarrow> ds \<noteq> [] \<and> list_all c_isdigit ds \<and> length ds < 32 \<and>
     (let (v, _, erange) = c_strtoul ds
      in if erange \<or> v = 0 \<or> UINT64_MAX div DS4_GIB < v then (False, 0)
         else (True, v * DS4_GIB)) = (True, b)"
    by (auto simp: ds4_parse_gib_arg_def Let_def ds_def split: if_splits)
  with num [of ds] R show ?thesis by blast
qed

text \<open>
  The automatic cache plan. With valid arguments it succeeds; the target respects the model
  limit and, while the percentage product does not overflow, is exactly that percentage of the
  recommended size; the cache is what is left after the non-routed weights; it holds at least one
  expert and at most the model's; and the effective size is experts times expert size without
  wrap-around, within the cache whenever one expert fits.
\<close>

theorem auto_cache_plan_correct:
  assumes "rec \<noteq> 0" "per \<noteq> 0" "50 \<le> pc" "pc \<le> 95"
    and "ds4_ssd_auto_cache_plan env rec pc limit fixed per mx True = (ok, plan)"
  shows "ok \<and> 1 \<le> unat (cache_experts plan) \<and>
     (limit \<noteq> 0 \<longrightarrow> model_target_bytes plan \<le> limit) \<and>
     (limit = 0 \<and> rec \<le> UINT64_MAX div ds4_ssd_auto_cache_percent env pc \<longrightarrow>
        unat (model_target_bytes plan) = unat rec * unat (ds4_ssd_auto_cache_percent env pc) div 100) \<and>
     unat (cache_bytes plan) = unat (model_target_bytes plan) - unat fixed \<and>
     (mx \<noteq> 0 \<longrightarrow> unat (cache_experts plan) \<le> unat mx) \<and>
     unat (effective_cache_bytes plan) = unat (cache_experts plan) * unat per \<and>
     (per \<le> cache_bytes plan \<longrightarrow> effective_cache_bytes plan \<le> cache_bytes plan)"
proof -
  let ?pct = "ds4_ssd_auto_cache_percent env pc"
  define t where "t = plan_target rec ?pct limit"
  define b where "b = (if fixed < t then t - fixed else 0)"
  define n where "n = plan_experts b per mx"
  have pct: "?pct \<noteq> 0" using auto_percent_range [OF assms(3,4), of env] by (auto simp: word_le_nat_alt)
  have "\<not> pc < 50" "\<not> 95 < pc" using assms(3,4) by auto
  then have "(ok, plan) = (ucast n \<noteq> (0::u32), \<lparr>model_target_bytes = t, cache_bytes = b,
      effective_cache_bytes = n * per, cache_experts = ucast n\<rparr>)"
    using assms(1,2) by (simp add: assms(5) [symmetric] ds4_ssd_auto_cache_plan_def Let_def t_def b_def n_def)
  then have run: "ok = (ucast n \<noteq> (0::u32))"
    "plan = \<lparr>model_target_bytes = t, cache_bytes = b, effective_cache_bytes = n * per, cache_experts = ucast n\<rparr>"
    by simp_all
  note nr = plan_experts_range [OF assms(2), where bytes = b and mx = mx, folded n_def]
  have experts: "unat (ucast n :: u32) = unat n" using nr(2) by (intro unat_ucast_64_32) simp
  have bytes: "unat b = unat t - unat fixed"
    by (simp add: b_def unat_sub_if' word_le_nat_alt word_less_nat_alt not_less)
  have "unat n * unat per \<le> max 1 (unat b div unat per) * unat per" using nr(3) by simp
  also have "\<dots> \<le> max (unat per) (unat b)"
    by (cases "unat b div unat per = 0") (auto simp: max_def le_max_iff_disj)
  finally have prod: "unat n * unat per \<le> max (unat per) (unat b)" .
  then have eff: "unat (n * per) = unat n * unat per"
    using unat_u64_bound [of per] unat_u64_bound [of b] by (intro unat_mult_64) linarith
  have "ucast n \<noteq> (0::u32)" using nr(1) experts by (metis not_one_le_zero unat_0)
  moreover have "per \<le> b \<longrightarrow> n * per \<le> b" using prod eff by (auto simp: word_le_nat_alt max_def)
  ultimately show ?thesis
    using nr(1,4) experts eff bytes plan_target_le_limit [of limit rec ?pct] plan_target_no_wrap [OF pct, of rec] t_def
    by (auto simp: run word_le_nat_alt)
qed

theorem auto_cache_plan_correct_witness:
  "ds4_ssd_auto_cache_plan (Some ''90'') 1000 80 0 300 70 5 True =
     (True, \<lparr>model_target_bytes = 900, cache_bytes = 600, effective_cache_bytes = 350, cache_experts = 5\<rparr>) \<and>
   (70 :: u64) \<le> 600 \<and> unat (350 :: u64) = unat (5 :: u32) * unat (70 :: u64)"
proof -
  have run: "ds4_ssd_auto_cache_plan (Some ''90'') 1000 80 0 300 70 5 True =
     (True, \<lparr>model_target_bytes = 900, cache_bytes = 600, effective_cache_bytes = 350, cache_experts = 5\<rparr>)"
  proof -
    have "c_strtoul ''90'' = (90, [], False)"
      using c_strtoul_digits [of "''90''"] by (simp add: dec_value_def digit_value_def c_isdigit_def)
    then show ?thesis
      by (simp add: ds4_ssd_auto_cache_plan_def ds4_ssd_auto_cache_percent_def plan_target_def plan_experts_def
          UINT64_MAX_def UINT32_MAX_def)
  qed
  show ?thesis using run auto_cache_plan_correct [OF _ _ _ _ run] by simp
qed

end
