(* ===== verification/Sha1.thy ===== *)
theory Sha1
  imports Ds4_Prelude
begin

unbundle bit_operations_syntax

text \<open>
  The SHA-1 of \<open>ds4_kvstore.c\<close>, which names the cache files: the streaming context with its 64-byte
  block buffer, the compression function and the hexadecimal digest, against the textbook
  definition (pad the message, fold the compression function over its 64-byte blocks).
\<close>

subsection \<open>The code\<close>

record sha1_ctx =
  ctx_h :: "u32 list"
  ctx_bytes :: u64
  ctx_block :: "u8 list"
  ctx_used :: nat

definition rol32 :: "u32 \<Rightarrow> nat \<Rightarrow> u32" where
  "rol32 v n = push_bit n v OR drop_bit (32 - n) v"

definition be_word :: "u8 list \<Rightarrow> nat \<Rightarrow> u32" where
  "be_word b i =
     push_bit 24 (ucast (b ! (i * 4))) OR push_bit 16 (ucast (b ! (i * 4 + 1))) OR
     push_bit 8 (ucast (b ! (i * 4 + 2))) OR ucast (b ! (i * 4 + 3))"

text \<open>The message schedule: \<open>w[0..15]\<close> from the block, then \<open>w[16..79]\<close> one by one.\<close>

fun sha1_extend :: "nat \<Rightarrow> u32 list \<Rightarrow> u32 list" where
  "sha1_extend 0 w = w"
| "sha1_extend (Suc k) w =
     (let i = length w
      in sha1_extend k (w @ [rol32 (w ! (i - 3) XOR w ! (i - 8) XOR w ! (i - 14) XOR w ! (i - 16)) 1]))"

definition sha1_schedule :: "u8 list \<Rightarrow> u32 list" where
  "sha1_schedule blk = sha1_extend 64 (map (be_word blk) [0..<16])"

definition sha1_fk :: "nat \<Rightarrow> u32 \<Rightarrow> u32 \<Rightarrow> u32 \<Rightarrow> u32 \<times> u32" where
  "sha1_fk i b cc d =
     (if i < 20 then ((b AND cc) OR (NOT b AND d), 0x5a827999)
      else if i < 40 then (b XOR cc XOR d, 0x6ed9eba1)
      else if i < 60 then ((b AND cc) OR (b AND d) OR (cc AND d), 0x8f1bbcdc)
      else (b XOR cc XOR d, 0xca62c1d6))"

fun sha1_rounds :: "nat \<Rightarrow> u32 list \<Rightarrow> u32 \<times> u32 \<times> u32 \<times> u32 \<times> u32 \<Rightarrow> u32 \<times> u32 \<times> u32 \<times> u32 \<times> u32" where
  "sha1_rounds i [] s = s"
| "sha1_rounds i (w # ws) (a, b, cc, d, e) =
     (let (f, k) = sha1_fk i b cc d; tmp = rol32 a 5 + f + e + k + w
      in sha1_rounds (Suc i) ws (tmp, a, rol32 b 30, cc, d))"

definition sha1_transform :: "u32 list \<Rightarrow> u8 list \<Rightarrow> u32 list" where
  "sha1_transform hs blk =
     (let (a, b, cc, d, e) = sha1_rounds 0 (sha1_schedule blk) (hs ! 0, hs ! 1, hs ! 2, hs ! 3, hs ! 4)
      in [hs ! 0 + a, hs ! 1 + b, hs ! 2 + cc, hs ! 3 + d, hs ! 4 + e])"

definition sha1_h0 :: "u32 list" where
  "sha1_h0 = [0x67452301, 0xefcdab89, 0x98badcfe, 0x10325476, 0xc3d2e1f0]"

definition sha1_init :: sha1_ctx where
  "sha1_init = \<lparr>ctx_h = sha1_h0, ctx_bytes = 0, ctx_block = replicate 64 0, ctx_used = 0\<rparr>"

text \<open>
  The copy loop of \<open>sha1_update\<close>. \<open>used < 64\<close> whenever the loop is entered (\<open>sha1_wf\<close> below is kept
  by every operation), so the second test, which makes the recursion total, never fires.
\<close>

function sha1_absorb :: "sha1_ctx \<Rightarrow> u8 list \<Rightarrow> sha1_ctx" where
  "sha1_absorb c p =
     (if p = [] \<or> 64 \<le> ctx_used c then c
      else
        let n = min (64 - ctx_used c) (length p);
            blk = take (ctx_used c) (ctx_block c) @ take n p @ drop (ctx_used c + n) (ctx_block c);
            c = c\<lparr>ctx_block := blk, ctx_used := ctx_used c + n\<rparr>;
            c = (if ctx_used c = 64 then c\<lparr>ctx_h := sha1_transform (ctx_h c) (ctx_block c), ctx_used := 0\<rparr> else c)
        in sha1_absorb c (drop n p))"
  by pat_completeness auto
termination
  by (relation "measure (\<lambda>(_, p). length p)") (auto simp: min_def)

declare sha1_absorb.simps [simp del]

definition sha1_update :: "sha1_ctx \<Rightarrow> u8 list \<Rightarrow> sha1_ctx" where
  "sha1_update c p = sha1_absorb (c\<lparr>ctx_bytes := ctx_bytes c + of_nat (length p)\<rparr>) p"

lemma sha1_absorb_one:
  "ctx_used c < 64 \<Longrightarrow> ctx_used (sha1_absorb c [x]) = (if ctx_used c = 63 then 0 else Suc (ctx_used c))"
  by (subst sha1_absorb.simps) (auto simp: Let_def sha1_absorb.simps)

text \<open>\<open>while (c->used != 56) sha1_update (c, &zero, 1);\<close>\<close>

function sha1_pad_zeros :: "sha1_ctx \<Rightarrow> sha1_ctx" where
  "sha1_pad_zeros c = (if ctx_used c = 56 \<or> 64 \<le> ctx_used c then c else sha1_pad_zeros (sha1_update c [0]))"
  by pat_completeness auto
termination
  by (relation "measure (\<lambda>c. if ctx_used c \<le> 56 then 56 - ctx_used c else 120 - ctx_used c)")
     (auto simp: sha1_update_def sha1_absorb_one)

declare sha1_pad_zeros.simps [simp del]

definition be_bytes64 :: "u64 \<Rightarrow> u8 list" where
  "be_bytes64 bits = map (\<lambda>j. ucast (drop_bit (8 * (7 - j)) bits)) [0..<8]"

definition be_bytes32 :: "u32 \<Rightarrow> u8 list" where
  "be_bytes32 v = [ucast (drop_bit 24 v), ucast (drop_bit 16 v), ucast (drop_bit 8 v), ucast v]"

definition sha1_final :: "sha1_ctx \<Rightarrow> u8 list" where
  "sha1_final c =
     (let bits = ctx_bytes c * 8;
          c = sha1_update c [0x80];
          c = sha1_pad_zeros c;
          c = sha1_update c (be_bytes64 bits)
      in concat (map (\<lambda>i. be_bytes32 (ctx_h c ! i)) [0..<5]))"

definition hex_digit :: "u8 \<Rightarrow> char" where
  "hex_digit n = ''0123456789abcdef'' ! unat n"

definition hex20 :: "u8 list \<Rightarrow> string" where
  "hex20 d = concat (map (\<lambda>b. [hex_digit (drop_bit 4 b), hex_digit (b AND 15)]) d)"

definition ds4_kvstore_sha1_bytes_hex :: "u8 list \<Rightarrow> string" where
  "ds4_kvstore_sha1_bytes_hex p = hex20 (sha1_final (sha1_update sha1_init p))"

subsection \<open>The specification\<close>

text \<open>FIPS 180: append a one bit, zeros up to 56 modulo 64, and the bit length in 64 bits.\<close>

definition sha1_padding :: "nat \<Rightarrow> u8 list" where
  "sha1_padding n = [0x80] @ replicate ((119 - n mod 64) mod 64) 0 @ be_bytes64 (of_nat n * 8)"

function sha1_blocks :: "u32 list \<Rightarrow> u8 list \<Rightarrow> u32 list" where
  "sha1_blocks hs m = (if length m < 64 then hs else sha1_blocks (sha1_transform hs (take 64 m)) (drop 64 m))"
  by pat_completeness auto
termination
  by (relation "measure (\<lambda>(_, m). length m)") auto

declare sha1_blocks.simps [simp del]

definition sha1_spec :: "u8 list \<Rightarrow> u8 list" where
  "sha1_spec m = concat (map be_bytes32 (sha1_blocks sha1_h0 (m @ sha1_padding (length m))))"

subsection \<open>The buffer invariant\<close>

definition sha1_wf :: "sha1_ctx \<Rightarrow> bool" where
  "sha1_wf c \<longleftrightarrow> ctx_used c < 64 \<and> length (ctx_block c) = 64 \<and> length (ctx_h c) = 5"

definition buffered :: "sha1_ctx \<Rightarrow> u8 list" where
  "buffered c = take (ctx_used c) (ctx_block c)"

lemma length_sha1_transform [simp]: "length (sha1_transform hs b) = 5"
  by (simp add: sha1_transform_def split_beta Let_def)

lemma sha1_blocks_short [simp]: "length m < 64 \<Longrightarrow> sha1_blocks hs m = hs"
  by (simp add: sha1_blocks.simps)

lemma sha1_blocks_step: "64 \<le> length m \<Longrightarrow> sha1_blocks hs m = sha1_blocks (sha1_transform hs (take 64 m)) (drop 64 m)"
  by (subst sha1_blocks.simps) simp

lemma length_sha1_blocks: "length hs = 5 \<Longrightarrow> length (sha1_blocks hs m) = 5"
proof (induction hs m rule: sha1_blocks.induct)
  case (1 hs m)
  then show ?case by (cases "length m < 64") (simp_all add: sha1_blocks_step not_less)
qed

lemma length_sha1_blocks_h0 [simp]: "length (sha1_blocks sha1_h0 m) = 5"
  by (simp add: length_sha1_blocks sha1_h0_def)

text \<open>What is not yet compressed: the last \<open>length mod 64\<close> bytes.\<close>

definition tail64 :: "u8 list \<Rightarrow> u8 list" where
  "tail64 m = drop (64 * (length m div 64)) m"

lemma tail64_short [simp]: "length m < 64 \<Longrightarrow> tail64 m = m"
  by (simp add: tail64_def)

lemma tail64_step: "64 \<le> length m \<Longrightarrow> tail64 m = tail64 (drop 64 m)"
proof -
  assume "64 \<le> length m"
  then have "length m div 64 = Suc ((length m - 64) div 64)" by (simp add: le_div_geq)
  then show ?thesis by (simp add: tail64_def add.commute)
qed

lemma length_tail64: "length (tail64 m) = length m mod 64"
  by (simp add: tail64_def minus_mult_div_eq_mod)

text \<open>
  The copy loop in closed form: after absorbing \<open>p\<close> the hash is that of all complete blocks of the
  buffered bytes followed by \<open>p\<close>, and the buffer holds what is left over.
\<close>

lemma sha1_absorb_wf_spec:
  "sha1_wf c \<Longrightarrow>
     sha1_wf (sha1_absorb c p) \<and> ctx_bytes (sha1_absorb c p) = ctx_bytes c \<and>
     ctx_h (sha1_absorb c p) = sha1_blocks (ctx_h c) (buffered c @ p) \<and>
     buffered (sha1_absorb c p) = tail64 (buffered c @ p)"
proof (induction c p rule: sha1_absorb.induct)
  case (1 c p)
  have u: "ctx_used c < 64" "length (ctx_block c) = 64" "length (ctx_h c) = 5"
    using "1.prems" by (auto simp: sha1_wf_def)
  then have lb: "length (buffered c) = ctx_used c" by (simp add: buffered_def)
  show ?case
  proof (cases "p = []")
    case True
    with u lb "1.prems" show ?thesis by (simp add: sha1_absorb.simps)
  next
    case False
    define n where "n = min (64 - ctx_used c) (length p)"
    define blk where "blk = take (ctx_used c) (ctx_block c) @ take n p @ drop (ctx_used c + n) (ctx_block c)"
    define c1 where "c1 = c\<lparr>ctx_block := blk, ctx_used := ctx_used c + n\<rparr>"
    define c2 where "c2 = (if ctx_used c1 = 64 then c1\<lparr>ctx_h := sha1_transform (ctx_h c1) (ctx_block c1), ctx_used := 0\<rparr> else c1)"
    have n: "0 < n" "n \<le> length p" "ctx_used c + n \<le> 64" using u False by (auto simp: n_def)
    have step: "sha1_absorb c p = sha1_absorb c2 (drop n p)"
      using u False by (subst sha1_absorb.simps) (simp add: Let_def n_def blk_def c1_def c2_def)
    have len: "length blk = 64" using u n by (simp add: blk_def)
    have tk: "take (ctx_used c + n) blk = buffered c @ take n p"
      using u n by (simp add: blk_def buffered_def)
    have wf2: "sha1_wf c2"
      using u n len by (auto simp: sha1_wf_def c2_def c1_def)
    have IH: "sha1_wf (sha1_absorb c2 (drop n p)) \<and> ctx_bytes (sha1_absorb c2 (drop n p)) = ctx_bytes c2 \<and>
      ctx_h (sha1_absorb c2 (drop n p)) = sha1_blocks (ctx_h c2) (buffered c2 @ drop n p) \<and>
      buffered (sha1_absorb c2 (drop n p)) = tail64 (buffered c2 @ drop n p)"
      using "1.IH" [OF _ n_def blk_def c1_def c2_def wf2] False u by simp
    have b2: "ctx_bytes c2 = ctx_bytes c" by (simp add: c2_def c1_def)
    show ?thesis
    proof (cases "ctx_used c + n = 64")
      case True
      then have c2: "ctx_h c2 = sha1_transform (ctx_h c) blk" "buffered c2 = []"
        by (simp_all add: c2_def c1_def buffered_def)
      have blk: "blk = buffered c @ take n p" using tk True len by simp
      let ?m = "buffered c @ p"
      have m: "64 \<le> length ?m" using lb n True by simp
      have "64 - ctx_used c = n" using True by simp
      then have "take 64 ?m = blk" "drop 64 ?m = drop n p"
        using lb blk True by (simp_all add: take_append drop_append)
      with IH step b2 c2 m show ?thesis
        by (simp add: sha1_blocks_step [OF m] tail64_step [OF m])
    next
      case False
      then have "n = length p" using n by (auto simp: n_def)
      moreover have "ctx_h c2 = ctx_h c" "buffered c2 = buffered c @ take n p"
        using False tk by (simp_all add: c2_def c1_def buffered_def)
      ultimately show ?thesis using IH step b2 by simp
    qed
  qed
qed

subsection \<open>A context represents the message fed to it\<close>

definition represents :: "sha1_ctx \<Rightarrow> u8 list \<Rightarrow> bool" where
  "represents c m \<longleftrightarrow>
     sha1_wf c \<and> ctx_bytes c = of_nat (length m) \<and> ctx_h c = sha1_blocks sha1_h0 m \<and> buffered c = tail64 m"

lemma sha1_blocks_append: "sha1_blocks (sha1_blocks hs m) (tail64 m @ x) = sha1_blocks hs (m @ x)"
proof (induction hs m rule: sha1_blocks.induct)
  case (1 hs m)
  show ?case
  proof (cases "length m < 64")
    case True
    then show ?thesis by simp
  next
    case False
    then have m: "64 \<le> length m" and mx: "64 \<le> length (m @ x)" by simp_all
    from 1 [OF False] m show ?thesis
      by (simp add: sha1_blocks_step [OF m] tail64_step [OF m] sha1_blocks_step [OF mx])
  qed
qed

lemma tail64_append: "tail64 (tail64 m @ x) = tail64 (m @ x)"
proof (induction m rule: length_induct)
  case (1 m)
  show ?case
  proof (cases "length m < 64")
    case True
    then show ?thesis by simp
  next
    case False
    then have m: "64 \<le> length m" and mx: "64 \<le> length (m @ x)" by simp_all
    have "tail64 (tail64 (drop 64 m) @ x) = tail64 (drop 64 m @ x)"
      using 1 [rule_format, of "drop 64 m"] m by simp
    with m show ?thesis by (simp add: tail64_step [OF m] tail64_step [OF mx])
  qed
qed

lemma represents_init: "represents sha1_init []"
  by (simp add: represents_def sha1_init_def sha1_wf_def buffered_def sha1_h0_def)

lemma represents_update: "represents c m \<Longrightarrow> represents (sha1_update c p) (m @ p)"
proof -
  assume r: "represents c m"
  let ?c = "c\<lparr>ctx_bytes := ctx_bytes c + of_nat (length p)\<rparr>"
  have "sha1_wf ?c" "buffered ?c = buffered c"
    using r by (simp_all add: represents_def sha1_wf_def buffered_def)
  with sha1_absorb_wf_spec [of ?c p] r show ?thesis
    by (simp add: represents_def sha1_update_def sha1_blocks_append tail64_append)
qed

lemma represents_used: "represents c m \<Longrightarrow> ctx_used c = length m mod 64"
proof -
  assume r: "represents c m"
  then have "sha1_wf c" by (simp add: represents_def)
  then have "length (buffered c) = ctx_used c" by (simp add: sha1_wf_def buffered_def)
  with r show ?thesis by (simp add: represents_def length_tail64)
qed

lemma pad_count: "r < 64 \<Longrightarrow> (120 - Suc r mod 64) mod 64 = (119 - r) mod (64::nat)"
  by (cases "r = 63") simp_all

lemma pad_count_Suc: "r < 64 \<Longrightarrow> r \<noteq> 56 \<Longrightarrow> (120 - r) mod 64 = Suc ((119 - r) mod (64::nat))"
proof -
  have "\<forall>r \<in> set [0..<64]. r \<noteq> 56 \<longrightarrow> (120 - r) mod 64 = Suc ((119 - r) mod (64::nat))" by code_simp
  then show "r < 64 \<Longrightarrow> r \<noteq> 56 \<Longrightarrow> ?thesis" by simp
qed

lemma represents_pad_zeros:
  "represents c m \<Longrightarrow> represents (sha1_pad_zeros c) (m @ replicate ((120 - length m mod 64) mod 64) 0)"
proof (induction c arbitrary: m rule: sha1_pad_zeros.induct)
  case (1 c m)
  have u: "ctx_used c = length m mod 64" using represents_used [OF "1.prems"] .
  show ?case
  proof (cases "ctx_used c = 56")
    case True
    with "1.prems" u show ?thesis by (simp add: sha1_pad_zeros.simps)
  next
    case False
    have lt: "ctx_used c < 64" using u by simp
    let ?r = "length m mod 64"
    have k: "(120 - ?r) mod 64 = Suc ((120 - length (m @ [0::u8]) mod 64) mod 64)"
      using pad_count [of ?r] pad_count_Suc [of ?r] False u by (simp add: mod_Suc_eq)
    have "represents (sha1_pad_zeros (sha1_update c [0]))
            ((m @ [0]) @ replicate ((120 - length (m @ [0::u8]) mod 64) mod 64) 0)"
      using "1.IH" [OF _ represents_update [OF "1.prems", of "[0]"]] False lt by simp
    moreover have "sha1_pad_zeros c = sha1_pad_zeros (sha1_update c [0])"
      using False lt by (subst sha1_pad_zeros.simps) simp
    ultimately show ?thesis by (simp add: k)
  qed
qed

lemma represents_final:
  assumes "represents c m"
  shows "sha1_final c = sha1_spec m"
proof -
  let ?c1 = "sha1_update c [0x80]"
  let ?c2 = "sha1_pad_zeros ?c1"
  let ?c3 = "sha1_update ?c2 (be_bytes64 (ctx_bytes c * 8))"
  have "represents ?c1 (m @ [0x80])" using represents_update [OF assms] .
  from represents_pad_zeros [OF this]
  have "represents ?c2 ((m @ [0x80]) @ replicate ((119 - length m mod 64) mod 64) 0)"
    using pad_count [of "length m mod 64"] by (simp add: mod_Suc_eq)
  from represents_update [OF this, of "be_bytes64 (ctx_bytes c * 8)"] assms
  have r: "represents ?c3 (m @ sha1_padding (length m))"
    by (simp add: sha1_padding_def represents_def)
  then have hs: "ctx_h ?c3 = sha1_blocks sha1_h0 (m @ sha1_padding (length m))" "length (ctx_h ?c3) = 5"
    by (simp_all add: represents_def sha1_wf_def)
  have "map (\<lambda>i. be_bytes32 (ctx_h ?c3 ! i)) [0..<5] = map be_bytes32 (map ((!) (ctx_h ?c3)) [0..<length (ctx_h ?c3)])"
    using hs(2) by (simp only: map_map comp_def)
  also have "\<dots> = map be_bytes32 (ctx_h ?c3)" by (simp only: map_nth)
  finally show ?thesis using hs(1) by (simp add: sha1_final_def sha1_spec_def Let_def)
qed

lemma length_hex20: "length (hex20 d) = 2 * length d"
  by (induction d) (simp_all add: hex20_def)

lemma hex_digit_range: "unat n < 16 \<Longrightarrow> hex_digit n \<in> set ''0123456789abcdef''"
  unfolding hex_digit_def by (intro nth_mem) simp

lemma set_hex20: "set (hex20 d) \<subseteq> set ''0123456789abcdef''"
proof -
  have "unat (drop_bit 4 b) < 16" "unat (b AND 15) < 16" for b :: u8
  proof -
    have "unat (drop_bit 4 b) = unat b div 16" by (simp add: drop_bit_eq_div unat_div_distrib)
    then show "unat (drop_bit 4 b) < 16" using unat_u8_bound [of b] by simp
    have "b AND 15 = b mod 16" using take_bit_eq_mask [of 4 b] take_bit_eq_mod [of 4 b] by (simp add: mask_eq_exp_minus_1)
    then have "unat (b AND 15) = unat b mod 16" by (simp add: unat_mod_distrib)
    then show "unat (b AND 15) < 16" by simp
  qed
  then show ?thesis using hex_digit_range by (fastforce simp: hex20_def)
qed

lemma length_sha1_spec: "length (sha1_spec m) = 20"
proof -
  have "length (concat (map be_bytes32 hs)) = 4 * length hs" for hs
    by (induction hs) (simp_all add: be_bytes32_def)
  then show ?thesis by (simp add: sha1_spec_def length_sha1_blocks sha1_h0_def)
qed

lemma sha1_hex_eq: "ds4_kvstore_sha1_bytes_hex p = hex20 (sha1_spec p)"
  using represents_final [OF represents_update [OF represents_init, of p]]
  by (simp add: ds4_kvstore_sha1_bytes_hex_def)

lemma length_sha1_hex [simp]: "length (ds4_kvstore_sha1_bytes_hex p) = 40"
  by (simp add: sha1_hex_eq length_hex20 length_sha1_spec)

lemma set_sha1_hex: "set (ds4_kvstore_sha1_bytes_hex p) \<subseteq> set ''0123456789abcdef''"
  unfolding sha1_hex_eq by (rule set_hex20)

subsection \<open>Properties\<close>

text \<open>
  C6: the streaming SHA-1 equals the specification however the input is cut into updates: feeding
  the pieces one by one and finishing gives the digest of their concatenation, and the hexadecimal
  name of a byte string is the hexadecimal form of its specified digest, 40 lower-case characters.
\<close>

theorem sha1_streaming_correct:
  "sha1_final (foldl sha1_update sha1_init pieces) = sha1_spec (concat pieces) \<and>
   ds4_kvstore_sha1_bytes_hex p = hex20 (sha1_spec p) \<and>
   length (ds4_kvstore_sha1_bytes_hex p) = 40 \<and>
   set (ds4_kvstore_sha1_bytes_hex p) \<subseteq> set ''0123456789abcdef''"
proof -
  have "represents c m \<Longrightarrow> represents (foldl sha1_update c ps) (m @ concat ps)" for c m ps
  proof (induction ps arbitrary: c m)
    case Nil
    then show ?case by simp
  next
    case (Cons q ps)
    from Cons.IH [OF represents_update [OF Cons.prems, of q]] show ?case by simp
  qed
  from represents_final [OF this [OF represents_init]] set_hex20 show ?thesis
    by (simp add: sha1_hex_eq length_hex20 length_sha1_spec)
qed

end
