(* ===== verification/KvHeader.thy ===== *)
theory KvHeader
  imports Sha1 CString
begin

unbundle bit_operations_syntax

text \<open>
  The file format of the disk KV cache (\<open>ds4_kvstore.c\<close>): reason codes, little-endian fields, the
  48-byte header with its 4-byte text length, the cache file names and the reading of one entry.
  A file is its list of bytes and a \<open>FILE *\<close> is the list of bytes still to be read.
\<close>

subsection \<open>Data\<close>

type_synonym bytes = "u8 list"

definition DS4_KVSTORE_FIXED_HEADER :: nat where
  "DS4_KVSTORE_FIXED_HEADER = 48"

record kvstore_entry =
  e_sha :: string
  e_path :: string
  e_quant_bits :: u8
  e_model_id :: u8
  e_reason :: u8
  e_tokens :: u32
  e_hits :: u32
  e_ctx_size :: u32
  e_ext_flags :: u8
  e_created_at :: u64
  e_last_used :: u64
  e_payload_bytes :: u64
  e_text_bytes :: u64
  e_file_size :: u64

text \<open>\<open>ds4_kvstore_entry e = {0}\<close>.\<close>

definition entry_zero :: kvstore_entry where
  "entry_zero = \<lparr>e_sha = [], e_path = [], e_quant_bits = 0, e_model_id = 0, e_reason = 0, e_tokens = 0, e_hits = 0,
     e_ctx_size = 0, e_ext_flags = 0, e_created_at = 0, e_last_used = 0, e_payload_bytes = 0, e_text_bytes = 0,
     e_file_size = 0\<rparr>"

datatype kvstore_reason =
  REASON_UNKNOWN | REASON_COLD | REASON_CONTINUED | REASON_EVICT | REASON_SHUTDOWN |
  REASON_AGENT_SYSTEM | REASON_AGENT_SESSION

fun reason_number :: "kvstore_reason \<Rightarrow> u8" where
  "reason_number REASON_UNKNOWN = 0"
| "reason_number REASON_COLD = 1"
| "reason_number REASON_CONTINUED = 2"
| "reason_number REASON_EVICT = 3"
| "reason_number REASON_SHUTDOWN = 4"
| "reason_number REASON_AGENT_SYSTEM = 5"
| "reason_number REASON_AGENT_SESSION = 6"

definition ds4_kvstore_reason_code :: "string \<Rightarrow> u8" where
  "ds4_kvstore_reason_code r =
     (if r = ''cold'' then reason_number REASON_COLD
      else if r = ''continued'' then reason_number REASON_CONTINUED
      else if r = ''evict'' then reason_number REASON_EVICT
      else if r = ''shutdown'' then reason_number REASON_SHUTDOWN
      else if r = ''agent-system'' then reason_number REASON_AGENT_SYSTEM
      else if r = ''agent-session'' then reason_number REASON_AGENT_SESSION
      else reason_number REASON_UNKNOWN)"

definition ds4_kvstore_key_kind :: "u8 \<Rightarrow> string" where
  "ds4_kvstore_key_kind f =
     (if f AND 2 \<noteq> 0 then ''responses-visible''
      else if f AND 4 \<noteq> 0 then ''thinking-visible''
      else ''token-text'')"

subsection \<open>Little-endian fields\<close>

definition ds4_kvstore_le_put32 :: "u32 \<Rightarrow> bytes" where
  "ds4_kvstore_le_put32 v =
     [ucast v, ucast (drop_bit 8 v), ucast (drop_bit 16 v), ucast (drop_bit 24 v)]"

definition kv_le_put64 :: "u64 \<Rightarrow> bytes" where
  "kv_le_put64 v = map (\<lambda>i. ucast (drop_bit (8 * i) v)) [0..<8]"

definition ds4_kvstore_le_get32 :: "bytes \<Rightarrow> u32" where
  "ds4_kvstore_le_get32 p =
     ucast (p ! 0) OR push_bit 8 (ucast (p ! 1)) OR push_bit 16 (ucast (p ! 2)) OR
     push_bit 24 (ucast (p ! 3))"

definition kv_le_get64 :: "bytes \<Rightarrow> u64" where
  "kv_le_get64 p = fold (\<lambda>i v. push_bit 8 v OR ucast (p ! i)) (rev [0..<8]) 0"

lemma length_le_put32 [simp]: "length (ds4_kvstore_le_put32 v) = 4"
  by (simp add: ds4_kvstore_le_put32_def)

lemma length_le_put64 [simp]: "length (kv_le_put64 v) = 8"
  by (simp add: kv_le_put64_def)

lemma upt_8: "[0..<8] = [0, 1, 2, 3, 4, 5, 6, 7::nat]"
  by (simp add: upt_rec)

lemma le_get32_put32 [simp]: "ds4_kvstore_le_get32 (ds4_kvstore_le_put32 v) = v"
proof (rule bit_word_eqI)
  fix n assume n: "n < LENGTH(32)"
  then consider "n < 8" | "8 \<le> n" "n < 16" | "16 \<le> n" "n < 24" | "24 \<le> n" "n < 32"
    by fastforce
  then show "bit (ds4_kvstore_le_get32 (ds4_kvstore_le_put32 v)) n \<longleftrightarrow> bit v n"
    by cases (simp_all add: ds4_kvstore_le_get32_def ds4_kvstore_le_put32_def bit_simps, auto)
qed

lemma le_get64_put64 [simp]: "kv_le_get64 (kv_le_put64 v) = v"
proof (rule bit_word_eqI)
  fix n assume n: "n < LENGTH(64)"
  then consider "n < 8" | "8 \<le> n" "n < 16" | "16 \<le> n" "n < 24" | "24 \<le> n" "n < 32" |
    "32 \<le> n" "n < 40" | "40 \<le> n" "n < 48" | "48 \<le> n" "n < 56" | "56 \<le> n" "n < 64"
    by fastforce
  then show "bit (kv_le_get64 (kv_le_put64 v)) n \<longleftrightarrow> bit v n"
    by cases (simp_all add: kv_le_get64_def kv_le_put64_def upt_8 bit_simps, auto)
qed

subsection \<open>The header\<close>

text \<open>\<open>put_at off bs h\<close> writes \<open>bs\<close> at \<open>h + off\<close>.\<close>

definition put_at :: "nat \<Rightarrow> bytes \<Rightarrow> bytes \<Rightarrow> bytes" where
  "put_at off bs h = take off h @ bs @ drop (off + length bs) h"

definition get_at :: "nat \<Rightarrow> nat \<Rightarrow> bytes \<Rightarrow> bytes" where
  "get_at off n h = take n (drop off h)"

definition ds4_kvstore_fill_header ::
    "u8 \<Rightarrow> u8 \<Rightarrow> u8 \<Rightarrow> u8 \<Rightarrow> u32 \<Rightarrow> u32 \<Rightarrow> u32 \<Rightarrow> u64 \<Rightarrow> u64 \<Rightarrow> u64 \<Rightarrow> bytes" where
  "ds4_kvstore_fill_header model quant rsn ext toks hts ctx created used payload =
     (let h = replicate DS4_KVSTORE_FIXED_HEADER 0;
          h = h[0 := 0x4B]; h = h[1 := 0x56]; h = h[2 := 0x43]; h = h[3 := 1];
          h = h[4 := quant]; h = h[5 := rsn]; h = h[6 := ext]; h = h[7 := model];
          h = put_at 8 (ds4_kvstore_le_put32 toks) h;
          h = put_at 12 (ds4_kvstore_le_put32 hts) h;
          h = put_at 16 (ds4_kvstore_le_put32 ctx) h;
          h = h[20 := 2];
          h = put_at 24 (kv_le_put64 created) h;
          h = put_at 32 (kv_le_put64 used) h;
          h = put_at 40 (kv_le_put64 payload) h
      in h)"

definition ds4_kvstore_quant_bits_supported :: "int \<Rightarrow> bool" where
  "ds4_kvstore_quant_bits_supported q \<longleftrightarrow> q = 2 \<or> q = 4 \<or> q = 5 \<or> q = 6 \<or> q = 8"

text \<open>
  \<open>read_header\<close> on the bytes of the open file: the entry, the text length and the bytes that are
  left, or \<open>None\<close> where the code returns false.
\<close>

definition ds4_kvstore_read_header :: "bytes \<Rightarrow> (kvstore_entry \<times> u32 \<times> bytes) option" where
  "ds4_kvstore_read_header fp =
     (if length fp < DS4_KVSTORE_FIXED_HEADER then None
      else
        let h = take DS4_KVSTORE_FIXED_HEADER fp; fp = drop DS4_KVSTORE_FIXED_HEADER fp
        in if h ! 0 \<noteq> 0x4B \<or> h ! 1 \<noteq> 0x56 \<or> h ! 2 \<noteq> 0x43 \<or> h ! 3 \<noteq> 1 then None
           else if h ! 20 \<noteq> 2 then None
           else if length fp < 4 then None
           else
             let tb = ds4_kvstore_le_get32 (take 4 fp);
                 e = entry_zero\<lparr>
                   e_quant_bits := h ! 4,
                   e_reason := (if h ! 5 \<le> reason_number REASON_AGENT_SESSION then h ! 5
                              else reason_number REASON_UNKNOWN),
                   e_ext_flags := h ! 6,
                   e_model_id := h ! 7,
                   e_tokens := ds4_kvstore_le_get32 (get_at 8 4 h),
                   e_hits := ds4_kvstore_le_get32 (get_at 12 4 h),
                   e_ctx_size := ds4_kvstore_le_get32 (get_at 16 4 h),
                   e_created_at := kv_le_get64 (get_at 24 8 h),
                   e_last_used := kv_le_get64 (get_at 32 8 h),
                   e_payload_bytes := kv_le_get64 (get_at 40 8 h),
                   e_text_bytes := ucast tb\<rparr>
             in if e_tokens e \<noteq> 0 \<and> ds4_kvstore_quant_bits_supported (uint (e_quant_bits e))
                then Some (e, tb, drop 4 fp) else None)"

lemma list_update_numeral: "(x # xs)[numeral k := v] = x # xs[pred_numeral k := v]"
  by (simp add: numeral_eq_Suc)

lemma put_at_zeros:
  "length a \<le> off \<Longrightarrow> off + length bs \<le> length a + n \<Longrightarrow>
     put_at off bs (a @ replicate n 0) =
     (a @ replicate (off - length a) 0 @ bs) @ replicate (length a + n - off - length bs) 0"
  by (auto simp: put_at_def min_def)

text \<open>The layout the writes of \<open>fill_header\<close> produce.\<close>

lemma fill_header_layout:
  "ds4_kvstore_fill_header model quant rsn ext toks hts ctx created used payload =
     [0x4B, 0x56, 0x43, 1, quant, rsn, ext, model] @ ds4_kvstore_le_put32 toks @
     ds4_kvstore_le_put32 hts @ ds4_kvstore_le_put32 ctx @ [2, 0, 0, 0] @
     kv_le_put64 created @ kv_le_put64 used @ kv_le_put64 payload"
proof -
  define H :: bytes where "H = [0x4B, 0x56, 0x43, 1, quant, rsn, ext, model]"
  have H: "length H = 8" by (simp add: H_def)
  have z: "replicate 48 (0::u8) = [0, 0, 0, 0, 0, 0, 0, 0] @ replicate 40 0"
    by (simp add: eval_nat_numeral)
  have head: "(replicate 48 (0::u8))[0 := 0x4B, 1 := 0x56, 2 := 0x43, 3 := 1, 4 := quant, 5 := rsn,
      6 := ext, 7 := model] = H @ replicate 40 0"
    unfolding z H_def by (simp add: list_update_numeral)
  have abi: "(x @ replicate 28 (0::u8))[20 := 2] = (x @ [2, 0, 0, 0]) @ replicate 24 0"
    if "length x = 20" for x
    using that by (simp add: list_update_append eval_nat_numeral)
  show ?thesis
    unfolding ds4_kvstore_fill_header_def DS4_KVSTORE_FIXED_HEADER_def Let_def head H_def [symmetric]
    using H by (simp add: put_at_zeros abi del: append_assoc)
qed

lemma length_fill_header [simp]:
  "length (ds4_kvstore_fill_header model quant rsn ext toks hts ctx created used payload) = 48"
  by (simp add: fill_header_layout)

text \<open>Reading back what \<open>fill_header\<close> and the text length wrote.\<close>

lemma read_header_fill:
  assumes "toks \<noteq> 0" and "ds4_kvstore_quant_bits_supported (uint quant)" and "rsn \<le> 6"
    and "length tb = 4"
  shows "ds4_kvstore_read_header
      (ds4_kvstore_fill_header model quant rsn ext toks hts ctx created used payload @ tb @ rest) =
    Some (entry_zero\<lparr>e_quant_bits := quant, e_reason := rsn, e_ext_flags := ext, e_model_id := model,
       e_tokens := toks, e_hits := hts, e_ctx_size := ctx, e_created_at := created,
       e_last_used := used, e_payload_bytes := payload,
       e_text_bytes := ucast (ds4_kvstore_le_get32 tb)\<rparr>, ds4_kvstore_le_get32 tb, rest)"
proof -
  let ?h = "ds4_kvstore_fill_header model quant rsn ext toks hts ctx created used payload"
  have nths: "?h ! 0 = 0x4B" "?h ! Suc 0 = 0x56" "?h ! 2 = 0x43" "?h ! 3 = 1" "?h ! 4 = quant"
    "?h ! 5 = rsn" "?h ! 6 = ext" "?h ! 7 = model"
    by (simp_all add: fill_header_layout)
  have abi: "?h ! 20 = 2"
    by (simp add: fill_header_layout nth_append nth_Cons' ds4_kvstore_le_put32_def)
  have gets: "get_at 8 4 ?h = ds4_kvstore_le_put32 toks" "get_at 12 4 ?h = ds4_kvstore_le_put32 hts"
    "get_at 16 4 ?h = ds4_kvstore_le_put32 ctx"
    "get_at 24 8 ?h = kv_le_put64 created" "get_at 32 8 ?h = kv_le_put64 used"
    "get_at 40 8 ?h = kv_le_put64 payload"
    by (simp_all add: fill_header_layout get_at_def drop_Cons' numeral_2_eq_2 take_append drop_append)
  show ?thesis
    using assms
    by (simp add: ds4_kvstore_read_header_def DS4_KVSTORE_FIXED_HEADER_def nths abi gets Let_def)
qed

lemma read_header_fill_header:
  assumes "toks \<noteq> 0" and "ds4_kvstore_quant_bits_supported (uint quant)" and "rsn \<le> 6"
  shows "ds4_kvstore_read_header
      (ds4_kvstore_fill_header model quant rsn ext toks hts ctx created used payload @
       ds4_kvstore_le_put32 tb @ rest) =
    Some (entry_zero\<lparr>e_quant_bits := quant, e_reason := rsn, e_ext_flags := ext, e_model_id := model,
       e_tokens := toks, e_hits := hts, e_ctx_size := ctx, e_created_at := created,
       e_last_used := used, e_payload_bytes := payload, e_text_bytes := ucast tb\<rparr>, tb, rest)"
  using read_header_fill [OF assms] by simp

lemma read_header_prefix:
  "ds4_kvstore_read_header file = Some (e, tb, rest) \<Longrightarrow> take 52 file' = take 52 file \<Longrightarrow>
     52 \<le> length file' \<Longrightarrow> ds4_kvstore_read_header file' = Some (e, tb, drop 52 file')"
proof -
  assume a: "ds4_kvstore_read_header file = Some (e, tb, rest)" "take 52 file' = take 52 file" "52 \<le> length file'"
  then have l: "52 \<le> length file"
    by (auto simp: ds4_kvstore_read_header_def DS4_KVSTORE_FIXED_HEADER_def Let_def split: if_splits)
  have "take 48 (take 52 file') = take 48 (take 52 file)" "drop 48 (take 52 file') = drop 48 (take 52 file)"
    using a(2) by simp_all
  then have "take 48 file' = take 48 file" "take 4 (drop 48 file') = take 4 (drop 48 file)"
    by (simp_all add: drop_take)
  moreover have "\<not> length file' - 48 < 4" "\<not> length file' < 48" using a(3) by simp_all
  ultimately show ?thesis
    using a(1) l
    by (auto simp: ds4_kvstore_read_header_def DS4_KVSTORE_FIXED_HEADER_def Let_def split: if_splits)
qed

lemma read_header_fields:
  "ds4_kvstore_read_header fp = Some (e, tb, rest) \<Longrightarrow>
     52 \<le> length fp \<and> rest = drop 52 fp \<and> e_text_bytes e = ucast tb \<and>
     tb = ds4_kvstore_le_get32 (take 4 (drop 48 fp)) \<and> e_tokens e \<noteq> 0 \<and>
     ds4_kvstore_quant_bits_supported (uint (e_quant_bits e)) \<and> e_reason e \<le> 6"
  by (auto simp: ds4_kvstore_read_header_def DS4_KVSTORE_FIXED_HEADER_def Let_def entry_zero_def
      split: if_splits)

text \<open>Writing the header again, with other hit counts, flags or times, keeps everything else.\<close>

lemma read_header_rewrite:
  assumes "ds4_kvstore_read_header file = Some (e, tb, rest)"
  shows "ds4_kvstore_read_header
      (put_at 0 (ds4_kvstore_fill_header (e_model_id e) (e_quant_bits e) (e_reason e) ext (e_tokens e) hts
         (e_ctx_size e) created used (e_payload_bytes e)) file) =
    Some (entry_zero\<lparr>e_quant_bits := e_quant_bits e, e_reason := e_reason e, e_ext_flags := ext,
       e_model_id := e_model_id e, e_tokens := e_tokens e, e_hits := hts, e_ctx_size := e_ctx_size e,
       e_created_at := created, e_last_used := used, e_payload_bytes := e_payload_bytes e,
       e_text_bytes := e_text_bytes e\<rparr>, tb, rest)"
proof -
  note f = read_header_fields [OF assms]
  define t4 where "t4 = take 4 (drop 48 file)"
  have "drop 48 file = t4 @ drop 4 (drop 48 file)" unfolding t4_def by (simp only: append_take_drop_id)
  then have d: "drop 48 file = t4 @ rest" using f by simp
  have l4: "length t4 = 4" using f by (auto simp: t4_def min_def)
  have tb: "tb = ds4_kvstore_le_get32 t4" "e_text_bytes e = ucast tb"
    using f unfolding t4_def by blast+
  have "e_tokens e \<noteq> 0" "ds4_kvstore_quant_bits_supported (uint (e_quant_bits e))" "e_reason e \<le> 6"
    using f by blast+
  note H = read_header_fill [OF this l4]
  show ?thesis unfolding put_at_def by (simp add: d H tb)
qed

subsection \<open>File names\<close>

text \<open>\<open>sha_hex_name\<close>: \<open><40 hex digits>.kv\<close> gives the digits in lower case.\<close>

definition ds4_kvstore_sha_hex_name :: "string \<Rightarrow> string option" where
  "ds4_kvstore_sha_hex_name name =
     (if length name \<noteq> 43 \<or> drop 40 name \<noteq> ''.kv'' then None
      else if \<not> list_all c_isxdigit (take 40 name) then None
      else Some (List.map c_tolower (take 40 name)))"

definition ds4_kvstore_path_join :: "string \<Rightarrow> string \<Rightarrow> string" where
  "ds4_kvstore_path_join dir name =
     (let b = dir; b = (if b = [] \<or> last b \<noteq> CHR ''/'' then b @ ''/'' else b) in b @ name)"

definition kv_file_name :: "string \<Rightarrow> string" where
  "kv_file_name sha = take 40 sha @ ''.kv''"

definition ds4_kvstore_path_for_sha :: "string \<Rightarrow> string \<Rightarrow> string" where
  "ds4_kvstore_path_for_sha dir sha = ds4_kvstore_path_join dir (kv_file_name sha)"

text \<open>\<open>kv_mkdir_p\<close>, over a \<open>mkdir\<close> that reports whether the directory exists afterwards.\<close>

definition kv_mkdir_p :: "(string \<Rightarrow> bool) \<Rightarrow> string \<Rightarrow> bool" where
  "kv_mkdir_p mkdir path \<longleftrightarrow>
     path \<noteq> [] \<and> list_all mkdir [take i path. i \<leftarrow> [1..<length path], path ! i = CHR ''/''] \<and> mkdir path"

subsection \<open>One cache file\<close>

definition ds4_kvstore_read_entry_file :: "string \<Rightarrow> string \<Rightarrow> bytes \<Rightarrow> kvstore_entry option" where
  "ds4_kvstore_read_entry_file path sha file =
     (if length file < DS4_KVSTORE_FIXED_HEADER + 4 then None
      else case ds4_kvstore_read_header file of
        None \<Rightarrow> None
      | Some (e, tb, _) \<Rightarrow>
          let fixed = 52 :: u64; tb = ucast tb :: u64
          in if - 1 - fixed < tb \<or> - 1 - fixed - tb < e_payload_bytes e then None
             else if of_nat (length file) < fixed + tb + e_payload_bytes e then None
             else Some (e\<lparr>e_sha := sha, e_path := path, e_file_size := of_nat (length file)\<rparr>))"

lemma path_join_inj: "ds4_kvstore_path_join d n = ds4_kvstore_path_join d n' \<longleftrightarrow> n = n'"
  by (simp add: ds4_kvstore_path_join_def Let_def)

text \<open>A digest is its own file name: \<open>sha_hex_name\<close> inverts \<open>path_for_sha\<close> on the digests SHA-1 prints.\<close>

lemma c_tolower_hex: "x \<in> set ''0123456789abcdef'' \<Longrightarrow> c_isxdigit x \<and> c_tolower x = x"
  by (auto simp: c_isxdigit_def c_isdigit_def c_tolower_def)

lemma sha_hex_name_kv_file_name:
  assumes "length sha = 40" and "set sha \<subseteq> set ''0123456789abcdef''"
  shows "ds4_kvstore_sha_hex_name (kv_file_name sha) = Some sha"
proof -
  have "list_all c_isxdigit sha" "List.map c_tolower sha = sha"
    using assms(2) c_tolower_hex by (auto simp: list_all_iff intro!: map_idI)
  with assms(1) show ?thesis by (simp add: ds4_kvstore_sha_hex_name_def kv_file_name_def)
qed

lemma sha_hex_name_length: "ds4_kvstore_sha_hex_name n = Some s \<Longrightarrow> length s = 40"
  by (auto simp: ds4_kvstore_sha_hex_name_def split: if_splits)

text \<open>What \<open>read_entry_file\<close> accepts is backed by the file: header, text and payload are all inside it.\<close>

lemma read_entry_file_SomeD:
  assumes "ds4_kvstore_read_entry_file path sha file = Some e" and "length file < 2 ^ 64"
  shows "e_sha e = sha" "e_path e = path" "unat (e_file_size e) = length file"
    "52 + unat (e_text_bytes e) + unat (e_payload_bytes e) \<le> length file"
    "\<exists>h tb rest. ds4_kvstore_read_header file = Some (h, tb, rest) \<and>
       e = h\<lparr>e_sha := sha, e_path := path, e_file_size := of_nat (length file)\<rparr>"
proof -
  obtain h tb rest where h: "ds4_kvstore_read_header file = Some (h, tb, rest)"
    and nb: "\<not> (- 1 - 52 < (ucast tb :: u64))" "\<not> (- 1 - 52 - (ucast tb :: u64) < e_payload_bytes h)"
    and sz: "\<not> of_nat (length file) < (52::u64) + ucast tb + e_payload_bytes h"
    and e: "e = h\<lparr>e_sha := sha, e_path := path, e_file_size := of_nat (length file)\<rparr>"
    using assms(1) by (auto simp: ds4_kvstore_read_entry_file_def Let_def split: option.splits if_splits)
  have tb: "e_text_bytes h = ucast tb" using read_header_fields [OF h] by simp
  show "e_sha e = sha" "e_path e = path" using e by simp_all
  show fs: "unat (e_file_size e) = length file"
    using e assms(2) by (simp add: unat_of_nat take_bit_eq_mod)
  show "\<exists>h tb rest. ds4_kvstore_read_header file = Some (h, tb, rest) \<and>
       e = h\<lparr>e_sha := sha, e_path := path, e_file_size := of_nat (length file)\<rparr>"
    using h e by blast
  have "unat (ucast tb :: u64) < 2 ^ 32" using unat_u32_bound [of tb] by simp
  then have a: "unat (52 + ucast tb :: u64) = 52 + unat (ucast tb :: u64)"
    by (simp add: unat_plus_64)
  have "e_payload_bytes h \<le> - 1 - (52 + ucast tb)" using nb(2) by (simp add: not_less)
  then have "unat (e_payload_bytes h) + unat (52 + ucast tb :: u64) < 18446744073709551616"
    by (simp only: no_wrap_64)
  then have "unat (52 + ucast tb + e_payload_bytes h) = 52 + unat tb + unat (e_payload_bytes h)"
    using a by (simp add: unat_plus_64)
  then show "52 + unat (e_text_bytes e) + unat (e_payload_bytes e) \<le> length file"
    using sz fs e tb by (simp add: word_less_nat_alt)
qed

subsection \<open>Property\<close>

text \<open>
  Reading inverts writing. The 48-byte header with its text length and whatever follows reads
  back as the fields it was written from, the same text length and the rest of the file; and the
  file name made from a digest of SHA-1 reads back as that digest.
\<close>

theorem kv_header_roundtrip:
  assumes "toks \<noteq> 0" and "ds4_kvstore_quant_bits_supported (uint quant)"
    and "rsn = reason_number r" and "digest = ds4_kvstore_sha1_bytes_hex t"
  shows "(\<exists>e. ds4_kvstore_read_header
        (ds4_kvstore_fill_header model quant rsn ext toks hts ctx created used payload @
         ds4_kvstore_le_put32 tb @ rest) = Some (e, tb, rest) \<and>
      e_model_id e = model \<and> e_quant_bits e = quant \<and> e_reason e = rsn \<and> e_ext_flags e = ext \<and>
      e_tokens e = toks \<and> e_hits e = hts \<and> e_ctx_size e = ctx \<and> e_created_at e = created \<and>
      e_last_used e = used \<and> e_payload_bytes e = payload \<and> e_text_bytes e = ucast tb) \<and>
    ds4_kvstore_sha_hex_name (kv_file_name digest) = Some digest"
proof
  have "rsn \<le> 6" using assms(3) by (cases r) simp_all
  from read_header_fill_header [OF assms(1,2) this]
  show "\<exists>e. ds4_kvstore_read_header
        (ds4_kvstore_fill_header model quant rsn ext toks hts ctx created used payload @
         ds4_kvstore_le_put32 tb @ rest) = Some (e, tb, rest) \<and>
      e_model_id e = model \<and> e_quant_bits e = quant \<and> e_reason e = rsn \<and> e_ext_flags e = ext \<and>
      e_tokens e = toks \<and> e_hits e = hts \<and> e_ctx_size e = ctx \<and> e_created_at e = created \<and>
      e_last_used e = used \<and> e_payload_bytes e = payload \<and> e_text_bytes e = ucast tb"
    by simp
  show "ds4_kvstore_sha_hex_name (kv_file_name digest) = Some digest"
    unfolding assms(4) by (rule sha_hex_name_kv_file_name) (rule length_sha1_hex set_sha1_hex)+
qed

lemma kv_header_roundtrip_witness:
  "\<exists>e. ds4_kvstore_read_header (ds4_kvstore_fill_header 3 4 1 0 600 2 4096 7 8 90 @
      ds4_kvstore_le_put32 5 @ [1, 2]) = Some (e, 5, [1, 2]) \<and> e_tokens e = 600 \<and> e_payload_bytes e = 90"
  using kv_header_roundtrip [OF _ _ _ refl, where toks = 600 and quant = 4 and rsn = 1 and r = REASON_COLD
      and model = 3 and ext = 0 and hts = 2 and ctx = 4096 and created = 7 and used = 8 and payload = 90
      and tb = 5 and rest = "[1, 2]"]
  by (auto simp: ds4_kvstore_quant_bits_supported_def)

end
