(* ===== verification/KvStore.thy ===== *)
theory KvStore
  imports Complex_Main KvHeader "HOL-Library.Signed_Division"
begin

unbundle bit_operations_syntax

text \<open>
  The disk KV cache as a directory (\<open>ds4_kvstore.c\<close>): its options and checkpoint policy, the listing of
  the cache files, the eviction under the byte budget and the lookup of the longest cached text
  prefix. The cache directory is the list of its files (name, bytes) in the order \<open>readdir\<close> gives them.
\<close>

subsection \<open>State\<close>

record kvstore_options =
  o_min_tokens :: int
  o_cold_max_tokens :: int
  o_continued_interval_tokens :: int
  o_boundary_trim_tokens :: int
  o_boundary_align_tokens :: int

definition ds4_kvstore_default_options :: kvstore_options where
  "ds4_kvstore_default_options = \<lparr>o_min_tokens = 512, o_cold_max_tokens = 30000,
     o_continued_interval_tokens = 10000, o_boundary_trim_tokens = 32, o_boundary_align_tokens = 2048\<rparr>"

record kvstore =
  kc_enabled :: bool
  kc_dir :: string
  kc_budget_bytes :: u64
  kc_reject_different_quant :: bool
  kc_opt :: kvstore_options
  kc_continued_last_store_tokens :: int
  kc_entry :: "kvstore_entry list"

type_synonym kv_dir = "(string \<times> bytes) list"

text \<open>What the operating system answers: the clock and which calls fail.\<close>

record kv_env =
  env_now :: u64
  env_opendir_fails :: bool
  env_open_fails :: "string \<Rightarrow> bool"
  env_unlink_fails :: "string \<Rightarrow> bool"

definition kv_paths :: "string \<Rightarrow> kv_dir \<Rightarrow> string list" where
  "kv_paths dir fs = map (\<lambda>(n, _). ds4_kvstore_path_join dir n) fs"

definition kv_file_at :: "string \<Rightarrow> kv_dir \<Rightarrow> string \<Rightarrow> bytes option" where
  "kv_file_at dir fs p = map_of (map (\<lambda>(n, b). (ds4_kvstore_path_join dir n, b)) fs) p"

definition kv_remove :: "string \<Rightarrow> string \<Rightarrow> kv_dir \<Rightarrow> kv_dir" where
  "kv_remove dir p fs = filter (\<lambda>(n, _). ds4_kvstore_path_join dir n \<noteq> p) fs"

definition kv_unlink :: "kv_env \<Rightarrow> string \<Rightarrow> string \<Rightarrow> kv_dir \<Rightarrow> bool \<times> kv_dir" where
  "kv_unlink env dir p fs =
     (if env_unlink_fails env p \<or> p \<notin> set (kv_paths dir fs) then (False, fs)
      else (True, kv_remove dir p fs))"

subsection \<open>Checkpoint policy\<close>

definition ds4_kvstore_store_len :: "kvstore \<Rightarrow> int \<Rightarrow> int" where
  "ds4_kvstore_store_len kc toks =
     (let trim = o_boundary_trim_tokens (kc_opt kc); align = o_boundary_align_tokens (kc_opt kc)
      in if o_min_tokens (kc_opt kc) + trim < toks then
           let stable = toks - trim;
               stable = (if 0 < align then stable - stable smod align else stable)
           in if o_min_tokens (kc_opt kc) \<le> stable then stable else toks
         else toks)"

fun chat_anchor_scan :: "int \<Rightarrow> int \<Rightarrow> int \<Rightarrow> int \<Rightarrow> int list \<Rightarrow> int" where
  "chat_anchor_scan user assistant i last_user [] = last_user"
| "chat_anchor_scan user assistant i last_user (t # ts) =
     (if t = assistant then last_user
      else chat_anchor_scan user assistant (i + 1) (if t = user then i else last_user) ts)"

definition ds4_kvstore_chat_anchor_pos :: "kvstore \<Rightarrow> int list option \<Rightarrow> int \<Rightarrow> int \<Rightarrow> int" where
  "ds4_kvstore_chat_anchor_pos kc prompt user assistant =
     (case prompt of None \<Rightarrow> - 1
      | Some ts \<Rightarrow>
          if user < 0 \<or> assistant < 0 then - 1
          else let last_user = chat_anchor_scan user assistant 0 (- 1) ts
               in if o_min_tokens (kc_opt kc) \<le> last_user then last_user else - 1)"

definition kv_cache_continued_step :: "kvstore \<Rightarrow> int" where
  "kv_cache_continued_step kc =
     (if \<not> kc_enabled kc \<or> o_continued_interval_tokens (kc_opt kc) \<le> 0 then 0
      else
        let step = o_continued_interval_tokens (kc_opt kc); align = o_boundary_align_tokens (kc_opt kc)
        in if 0 < align then
             let step = ((step + align - 1) sdiv align) * align in if step \<le> 0 then align else step
           else step)"

definition ds4_kvstore_continued_store_target :: "kvstore \<Rightarrow> int \<Rightarrow> int" where
  "ds4_kvstore_continued_store_target kc live =
     (let step = kv_cache_continued_step kc
      in if step \<le> 0 then 0
         else if live < o_min_tokens (kc_opt kc) then 0
         else if live smod step \<noteq> 0 then 0
         else if live \<le> kc_continued_last_store_tokens kc then 0
         else live)"

definition ds4_kvstore_note_store :: "kvstore \<Rightarrow> int \<Rightarrow> kvstore" where
  "ds4_kvstore_note_store kc toks =
     (if kc_continued_last_store_tokens kc < toks then kc\<lparr>kc_continued_last_store_tokens := toks\<rparr> else kc)"

definition ds4_kvstore_suppress_continued_store :: "kvstore \<Rightarrow> int \<Rightarrow> int \<times> kvstore" where
  "ds4_kvstore_suppress_continued_store kc toks =
     (if ds4_kvstore_continued_store_target kc toks \<noteq> toks then (- 1, kc)
      else (kc_continued_last_store_tokens kc, ds4_kvstore_note_store kc toks))"

definition ds4_kvstore_restore_suppressed_continued :: "kvstore \<Rightarrow> int \<Rightarrow> int \<Rightarrow> kvstore" where
  "ds4_kvstore_restore_suppressed_continued kc old suppressed =
     (if 0 \<le> old \<and> kc_continued_last_store_tokens kc = suppressed
      then kc\<lparr>kc_continued_last_store_tokens := old\<rparr> else kc)"

subsection \<open>Size accounting\<close>

definition kv_cache_file_size_bytes :: "u64 \<Rightarrow> u64 \<Rightarrow> u64 \<Rightarrow> u64 option" where
  "kv_cache_file_size_bytes text payload trailer =
     (let fixed = 52
      in if - 1 - fixed < text \<or> - 1 - fixed - text < payload \<or> - 1 - fixed - text - payload < trailer
         then None else Some (fixed + text + payload + trailer))"

definition kv_cache_budget_required :: "u64 \<Rightarrow> u64 option" where
  "kv_cache_budget_required file =
     (let slack = file div 100; slack = (if file mod 100 \<noteq> 0 then slack + 1 else slack)
      in if - 1 - file < slack then None else Some (file + slack))"

text \<open>The result with the two sizes the code writes through its pointers (zero where it does not).\<close>

definition ds4_kvstore_file_size_fits :: "kvstore \<Rightarrow> u64 \<Rightarrow> u64 \<Rightarrow> u64 \<Rightarrow> bool \<times> u64 \<times> u64" where
  "ds4_kvstore_file_size_fits kc text payload trailer =
     (case kv_cache_file_size_bytes text payload trailer of
        None \<Rightarrow> (False, 0, 0)
      | Some file \<Rightarrow>
          if kc_budget_bytes kc = 0 then (True, file, 0)
          else case kv_cache_budget_required file of
            None \<Rightarrow> (False, file, 0)
          | Some required \<Rightarrow> (required \<le> kc_budget_bytes kc, file, required))"

subsection \<open>Listing the directory\<close>

definition kv_read_entry :: "kv_env \<Rightarrow> string \<Rightarrow> string \<times> bytes \<Rightarrow> kvstore_entry option" where
  "kv_read_entry env dir nb =
     (case ds4_kvstore_sha_hex_name (fst nb) of
        None \<Rightarrow> None
      | Some sha \<Rightarrow>
          let path = ds4_kvstore_path_join dir (fst nb)
          in if env_open_fails env path then None else ds4_kvstore_read_entry_file path sha (snd nb))"

definition ds4_kvstore_clear :: "kvstore \<Rightarrow> kvstore" where
  "ds4_kvstore_clear kc = kc\<lparr>kc_entry := []\<rparr>"

definition kv_cache_push :: "kvstore \<Rightarrow> kvstore_entry \<Rightarrow> kvstore" where
  "kv_cache_push kc e = kc\<lparr>kc_entry := kc_entry kc @ [e]\<rparr>"

definition kv_cache_refresh :: "kv_env \<Rightarrow> kvstore \<Rightarrow> kv_dir \<Rightarrow> kvstore" where
  "kv_cache_refresh env kc fs =
     (if \<not> kc_enabled kc then kc
      else
        let kc = ds4_kvstore_clear kc
        in if env_opendir_fails env then kc
           else fold (\<lambda>nb kc. case kv_read_entry env (kc_dir kc) nb of
                                None \<Rightarrow> kc | Some e \<Rightarrow> kv_cache_push kc e) fs kc)"

subsection \<open>Eviction score\<close>

text \<open>
  The score is computed in \<open>double\<close>. The arithmetic is a parameter, one field per operation the code
  uses, so that nothing proved here depends on its rounding.
\<close>

record 'd fp_ops =
  fp_of_u32 :: "u32 \<Rightarrow> 'd"
  fp_of_u64 :: "u64 \<Rightarrow> 'd"
  fp_lit :: "rat \<Rightarrow> 'd"
  fp_add :: "'d \<Rightarrow> 'd \<Rightarrow> 'd"
  fp_mul :: "'d \<Rightarrow> 'd \<Rightarrow> 'd"
  fp_div :: "'d \<Rightarrow> 'd \<Rightarrow> 'd"
  fp_neg :: "'d \<Rightarrow> 'd"
  fp_exp2 :: "'d \<Rightarrow> 'd"
  fp_lt :: "'d \<Rightarrow> 'd \<Rightarrow> bool"
  fp_eq :: "'d \<Rightarrow> 'd \<Rightarrow> bool"

record eviction_context =
  in_text :: bytes
  in_model_id :: u8
  in_quant_bits :: u8
  in_ctx_size :: u32
  in_reject_different_quant :: bool

definition kv_cache_incoming_supersedes_continued ::
    "kvstore_entry \<Rightarrow> eviction_context option \<Rightarrow> bool" where
  "kv_cache_incoming_supersedes_continued e incoming =
     (case incoming of
        None \<Rightarrow> False
      | Some inc \<Rightarrow>
          if e_reason e \<noteq> reason_number REASON_CONTINUED then False
          else if e_text_bytes e = 0 then False
          else if length (in_text inc) \<le> unat (e_text_bytes e) then False
          else if e_model_id e \<noteq> in_model_id inc then False
          else if in_reject_different_quant inc \<and> e_quant_bits e \<noteq> in_quant_bits inc then False
          else if e_ctx_size e < in_ctx_size inc then False
          else ds4_kvstore_sha1_bytes_hex (take (unat (e_text_bytes e)) (in_text inc)) = e_sha e)"

definition kv_cache_reason_is_anchor :: "u8 \<Rightarrow> bool" where
  "kv_cache_reason_is_anchor r \<longleftrightarrow>
     r = reason_number REASON_COLD \<or> r = reason_number REASON_EVICT \<or> r = reason_number REASON_SHUTDOWN"

definition kv_effective_hits :: "'d fp_ops \<Rightarrow> kvstore_entry \<Rightarrow> u64 \<Rightarrow> 'd" where
  "kv_effective_hits fp e now =
     (let hits = fp_of_u32 fp (e_hits e);
          used_at = (if e_last_used e \<noteq> 0 then e_last_used e else e_created_at e)
      in if used_at = 0 then fp_lit fp 0
         else if used_at < now then
           let elapsed = fp_of_u64 fp (now - used_at);
               hits = fp_mul fp hits (fp_exp2 fp (fp_div fp (fp_neg fp elapsed) (fp_of_u64 fp 21600)))
           in if fp_lt fp hits (fp_lit fp (1 / 100)) then fp_lit fp 0 else hits
         else hits)"

definition ds4_kvstore_entry_eviction_score ::
    "'d fp_ops \<Rightarrow> kvstore_entry \<Rightarrow> u64 \<Rightarrow> eviction_context option \<Rightarrow> 'd" where
  "ds4_kvstore_entry_eviction_score fp e now incoming =
     (if e_file_size e = 0 then fp_lit fp 0
      else
        let eff = kv_effective_hits fp e now;
            score = fp_div fp (fp_mul fp (fp_add fp eff (fp_lit fp 1)) (fp_of_u32 fp (e_tokens e)))
                      (fp_of_u64 fp (e_file_size e));
            score = (if kv_cache_reason_is_anchor (e_reason e) then fp_mul fp score (fp_lit fp 2) else score)
        in if kv_cache_incoming_supersedes_continued e incoming then
             let hf = (if fp_lt fp (fp_lit fp 0) eff
                       then fp_div fp eff (fp_add fp eff (fp_lit fp 1)) else fp_lit fp 0)
             in fp_mul fp score (fp_add fp (fp_lit fp (1 / 20)) (fp_mul fp (fp_lit fp (9 / 20)) hf))
           else score)"

subsection \<open>Eviction\<close>

definition victim_step ::
    "'d fp_ops \<Rightarrow> (kvstore_entry \<Rightarrow> 'd) \<Rightarrow> kvstore_entry list \<Rightarrow> nat \<Rightarrow> nat \<times> 'd \<Rightarrow> nat \<times> 'd" where
  "victim_step fp score es i vs =
     (let s = score (es ! i)
      in if fp_lt fp s (snd vs) \<or> (fp_eq fp s (snd vs) \<and> e_last_used (es ! i) < e_last_used (es ! fst vs))
         then (i, s) else vs)"

definition pick_victim :: "'d fp_ops \<Rightarrow> (kvstore_entry \<Rightarrow> 'd) \<Rightarrow> kvstore_entry list \<Rightarrow> nat" where
  "pick_victim fp score es = fst (fold (victim_step fp score es) [1..<length es] (0, score (es ! 0)))"

lemma pick_victim_bound: "pick_victim fp score es < length es" if "es \<noteq> []"
proof -
  have "fst (fold (victim_step fp score es) js vs) < n"
    if "fst vs < n" "set js \<subseteq> {..<n}" for n js vs
    using that by (induction js arbitrary: vs) (auto simp: victim_step_def Let_def)
  from this [where n = "length es" and js = "[1..<length es]"] that show ?thesis
    by (simp add: pick_victim_def subset_iff)
qed

definition remove_at :: "nat \<Rightarrow> 'a list \<Rightarrow> 'a list" where
  "remove_at i xs = take i xs @ drop (Suc i) xs"

lemma length_remove_at: "i < length xs \<Longrightarrow> length (remove_at i xs) = length xs - 1"
  by (simp add: remove_at_def)

function evict_loop ::
    "'d fp_ops \<Rightarrow> (kvstore_entry \<Rightarrow> 'd) \<Rightarrow> kv_env \<Rightarrow> string \<Rightarrow> u64 \<Rightarrow> u64 \<Rightarrow> kvstore_entry list \<Rightarrow> kv_dir \<Rightarrow>
     kvstore_entry list \<times> kv_dir" where
  "evict_loop fp score env dir target total_bytes es fs =
     (if total_bytes \<le> target \<or> es = [] then (es, fs)
      else
        let victim = pick_victim fp score es; e = es ! victim;
            (unlinked, fs) = kv_unlink env dir (e_path e) fs;
            total_bytes = (if unlinked then (if e_file_size e \<le> total_bytes then total_bytes - e_file_size e else 0) else 0)
        in evict_loop fp score env dir target total_bytes (remove_at victim es) fs)"
  by pat_completeness auto
termination
  by (relation "measure (\<lambda>(fp, score, env, dir, target, total_bytes, es, fs). length es)")
     (simp_all add: length_remove_at pick_victim_bound)

declare evict_loop.simps [simp del]

definition ds4_kvstore_evict ::
    "'d fp_ops \<Rightarrow> kv_env \<Rightarrow> kvstore \<Rightarrow> u64 \<Rightarrow> eviction_context option \<Rightarrow> kv_dir \<Rightarrow> kvstore \<times> kv_dir" where
  "ds4_kvstore_evict fp env kc extra incoming fs =
     (if \<not> kc_enabled kc \<or> kc_budget_bytes kc = 0 then (kc, fs)
      else if kc_budget_bytes kc < extra then (kc, fs)
      else
        let kc = kv_cache_refresh env kc fs;
            total_bytes = fold (\<lambda>e t. t + e_file_size e) (kc_entry kc) 0;
            target = kc_budget_bytes kc - extra;
            (es, fs) = evict_loop fp
              (\<lambda>e. ds4_kvstore_entry_eviction_score fp e (env_now env) incoming)
              env (kc_dir kc) target total_bytes (kc_entry kc) fs
        in (kc\<lparr>kc_entry := es\<rparr>, fs))"

definition ds4_kvstore_open ::
    "'d fp_ops \<Rightarrow> kv_env \<Rightarrow> (string \<Rightarrow> bool) \<Rightarrow> string \<Rightarrow> u64 \<Rightarrow> bool \<Rightarrow> kvstore_options \<Rightarrow> kv_dir \<Rightarrow>
     (kvstore \<times> kv_dir) option" where
  "ds4_kvstore_open fp env mkdir dir budget_mb reject opt fs =
     (if \<not> kv_mkdir_p mkdir dir then None
      else
        let budget_mb = (if budget_mb = 0 then 4096 else budget_mb);
            kc = \<lparr>kc_enabled = True, kc_dir = dir, kc_budget_bytes = budget_mb * 1024 * 1024,
                  kc_reject_different_quant = reject, kc_opt = opt,
                  kc_continued_last_store_tokens = 0, kc_entry = []\<rparr>
        in Some (ds4_kvstore_evict fp env kc 0 None fs))"

subsection \<open>Lookup\<close>

definition ds4_kvstore_byte_prefix_match :: "bytes \<Rightarrow> bytes \<Rightarrow> bool" where
  "ds4_kvstore_byte_prefix_match text prefix \<longleftrightarrow>
     length prefix \<le> length text \<and> (prefix = [] \<or> take (length prefix) text = prefix)"

text \<open>The tests of the loop of \<open>find_text_prefix\<close> that do not depend on the best entry so far.\<close>

definition text_prefix_eligible :: "kvstore \<Rightarrow> bytes \<Rightarrow> u8 \<Rightarrow> u8 \<Rightarrow> u32 \<Rightarrow> kvstore_entry \<Rightarrow> bool" where
  "text_prefix_eligible kc prompt model quant ctx e \<longleftrightarrow>
     unat (e_text_bytes e) \<le> length prompt \<and>
     o_min_tokens (kc_opt kc) \<le> sint (e_tokens e) \<and>
     e_model_id e = model \<and>
     e_ctx_size e \<le> ctx \<and>
     (kc_reject_different_quant kc \<longrightarrow> e_quant_bits e = quant)"

definition text_prefix_worse :: "kvstore_entry \<Rightarrow> kvstore_entry \<Rightarrow> bool" where
  "text_prefix_worse e b \<longleftrightarrow>
     e_text_bytes e < e_text_bytes b \<or> (e_text_bytes e = e_text_bytes b \<and> e_tokens e \<le> e_tokens b)"

definition text_prefix_hash_ok :: "bytes \<Rightarrow> kvstore_entry \<Rightarrow> bool" where
  "text_prefix_hash_ok prompt e \<longleftrightarrow>
     ds4_kvstore_sha1_bytes_hex (take (unat (e_text_bytes e)) prompt) = e_sha e"

definition find_step ::
    "kvstore \<Rightarrow> bytes \<Rightarrow> u8 \<Rightarrow> u8 \<Rightarrow> u32 \<Rightarrow> kvstore_entry \<Rightarrow> kvstore_entry option \<Rightarrow> kvstore_entry option" where
  "find_step kc prompt model quant ctx e best =
     (if \<not> text_prefix_eligible kc prompt model quant ctx e then best
      else if (case best of None \<Rightarrow> False | Some b \<Rightarrow> text_prefix_worse e b) then best
      else if text_prefix_hash_ok prompt e then Some e else best)"

text \<open>The code returns the index of the entry in the refreshed list; the model returns the entry.\<close>

definition ds4_kvstore_find_text_prefix ::
    "kv_env \<Rightarrow> kvstore \<Rightarrow> kv_dir \<Rightarrow> bytes \<Rightarrow> int \<Rightarrow> int \<Rightarrow> int \<Rightarrow> kvstore \<times> kvstore_entry option" where
  "ds4_kvstore_find_text_prefix env kc fs prompt model quant ctx =
     (let kc = kv_cache_refresh env kc fs
      in (kc, fold (find_step kc prompt (word_of_int model) (word_of_int quant) (word_of_int ctx))
                (kc_entry kc) None))"

subsection \<open>Listing: lemmas\<close>

lemma refresh_fold:
  "fold (\<lambda>nb kc. case kv_read_entry env (kc_dir kc) nb of None \<Rightarrow> kc | Some e \<Rightarrow> kv_cache_push kc e) fs kc =
     kc\<lparr>kc_entry := kc_entry kc @ List.map_filter (kv_read_entry env (kc_dir kc)) fs\<rparr>"
  by (induction fs arbitrary: kc)
     (auto simp: map_filter_simps kv_cache_push_def split: option.splits)

lemma refresh_entries:
  "kc_enabled kc \<Longrightarrow> \<not> env_opendir_fails env \<Longrightarrow>
     kv_cache_refresh env kc fs = kc\<lparr>kc_entry := List.map_filter (kv_read_entry env (kc_dir kc)) fs\<rparr>"
  by (simp add: kv_cache_refresh_def ds4_kvstore_clear_def refresh_fold)

lemma refresh_dir [simp]: "kc_dir (kv_cache_refresh env kc fs) = kc_dir kc"
  by (simp add: kv_cache_refresh_def ds4_kvstore_clear_def refresh_fold Let_def)

lemma read_entry_path:
  "kv_read_entry env dir nb = Some e \<Longrightarrow> e_path e = ds4_kvstore_path_join dir (fst nb)"
  by (auto simp: kv_read_entry_def ds4_kvstore_read_entry_file_def Let_def split: option.splits if_splits)

text \<open>Position \<open>v\<close> of a filtered list comes from one place of the list.\<close>

lemma map_filter_nth_split:
  "es = List.map_filter f fs \<Longrightarrow> v < length es \<Longrightarrow>
     \<exists>a x b. fs = a @ x # b \<and> List.map_filter f a = take v es \<and> f x = Some (es ! v) \<and>
       List.map_filter f b = drop (Suc v) es"
proof (induction fs arbitrary: es v)
  case Nil
  then show ?case by (simp add: map_filter_simps)
next
  case (Cons y fs)
  show ?case
  proof (cases "f y")
    case None
    with Cons obtain a x b where "fs = a @ x # b" "List.map_filter f a = take v es"
      "f x = Some (es ! v)" "List.map_filter f b = drop (Suc v) es"
      by (fastforce simp: map_filter_simps)
    with None show ?thesis by (intro exI [of _ "y # a"]) (auto simp: map_filter_simps)
  next
    case (Some e)
    then have es: "es = e # List.map_filter f fs" using Cons.prems(1) by (simp add: map_filter_simps)
    show ?thesis
    proof (cases v)
      case 0
      with es Some show ?thesis by (intro exI [of _ "[]"]) (auto simp: map_filter_simps)
    next
      case (Suc w)
      with es Cons.prems(2) Cons.IH [of "List.map_filter f fs" w]
      obtain a x b where "fs = a @ x # b" "List.map_filter f a = take w (List.map_filter f fs)"
        "f x = Some (List.map_filter f fs ! w)" "List.map_filter f b = drop (Suc w) (List.map_filter f fs)"
        by auto
      with Some es Suc show ?thesis by (intro exI [of _ "y # a"]) (auto simp: map_filter_simps)
    qed
  qed
qed

lemma map_filter_append': "List.map_filter f (xs @ ys) = List.map_filter f xs @ List.map_filter f ys"
  by (simp add: List.map_filter_def)

text \<open>Unlinking the file of a listed entry removes exactly that entry from the listing.\<close>

lemma kv_remove_split:
  "distinct (map fst (a @ x # b)) \<Longrightarrow> kv_remove dir (ds4_kvstore_path_join dir (fst x)) (a @ x # b) = a @ b"
  by (auto simp: kv_remove_def path_join_inj split_beta image_iff intro!: filter_True arg_cong2 [where f = append])

lemma kv_remove_listing:
  assumes "distinct (map fst fs)" and "es = List.map_filter (kv_read_entry env dir) fs" and "v < length es"
  shows "List.map_filter (kv_read_entry env dir) (kv_remove dir (e_path (es ! v)) fs) = remove_at v es"
    and "e_path (es ! v) \<in> set (kv_paths dir fs)"
proof -
  obtain a x b where sp: "fs = a @ x # b" "List.map_filter (kv_read_entry env dir) a = take v es"
    "kv_read_entry env dir x = Some (es ! v)" "List.map_filter (kv_read_entry env dir) b = drop (Suc v) es"
    using map_filter_nth_split [OF assms(2,3)] by blast
  have p: "e_path (es ! v) = ds4_kvstore_path_join dir (fst x)" using read_entry_path [OF sp(3)] .
  show "List.map_filter (kv_read_entry env dir) (kv_remove dir (e_path (es ! v)) fs) = remove_at v es"
    using kv_remove_split [of a x b dir] assms(1) sp
    by (simp add: p map_filter_append' remove_at_def)
  show "e_path (es ! v) \<in> set (kv_paths dir fs)"
    using sp(1) p by (auto simp: kv_paths_def split_beta)
qed

subsection \<open>Eviction: lemmas\<close>

text \<open>\<open><\<close> and \<open>==\<close> on the doubles the score takes (no NaN): a total preorder and its equivalence.\<close>

definition fp_order :: "'d fp_ops \<Rightarrow> bool" where
  "fp_order fp \<longleftrightarrow>
     (\<forall>x y. fp_lt fp x y \<longrightarrow> \<not> fp_lt fp y x) \<and>
     (\<forall>x y z. \<not> fp_lt fp x y \<and> \<not> fp_lt fp y z \<longrightarrow> \<not> fp_lt fp x z) \<and>
     (\<forall>x y. fp_eq fp x y \<longleftrightarrow> \<not> fp_lt fp x y \<and> \<not> fp_lt fp y x)"

lemma pick_victim_minimal:
  assumes o: "fp_order fp" and es: "es \<noteq> []" and r: "r \<in> set es"
  shows "\<not> fp_lt fp (score r) (score (es ! pick_victim fp score es))"
proof -
  let ?lt = "fp_lt fp"
  have inv: "snd vs' = score (es ! fst vs') \<and> (\<forall>j \<in> J \<union> set js. \<not> ?lt (score (es ! j)) (snd vs'))"
    if "snd vs = score (es ! fst vs)" "\<forall>j \<in> J. \<not> ?lt (score (es ! j)) (snd vs)"
      "vs' = fold (victim_step fp score es) js vs" for js vs vs' J
    using that
  proof (induction js arbitrary: vs J)
    case Nil
    then show ?case by simp
  next
    case (Cons i js)
    let ?w = "victim_step fp score es i vs"
    have A: "snd ?w = score (es ! fst ?w)" using Cons.prems(1) by (simp add: victim_step_def Let_def)
    have B: "\<forall>j \<in> insert i J. \<not> ?lt (score (es ! j)) (snd ?w)"
      using o Cons.prems(1,2) unfolding fp_order_def victim_step_def Let_def
      by (smt (verit) fst_conv insert_iff snd_conv)
    have "vs' = fold (victim_step fp score es) js ?w" using Cons.prems(3) by simp
    from Cons.IH [OF A B this] show ?case by auto
  qed
  obtain j where j: "j < length es" "r = es ! j" using r by (auto simp: in_set_conv_nth)
  have irr: "\<not> ?lt x x" for x using o unfolding fp_order_def by blast
  have "\<forall>j \<in> {0} \<union> set [1..<length es]. \<not> ?lt (score (es ! j)) (score (es ! pick_victim fp score es))"
    using inv [where vs = "(0, score (es ! 0))" and J = "{0}" and js = "[1..<length es]", OF _ _ refl] irr
    by (auto simp: pick_victim_def)
  moreover have "j \<in> {0} \<union> set [1..<length es]" using j(1) by auto
  ultimately show ?thesis using j(2) by blast
qed

definition entries_size :: "kvstore_entry list \<Rightarrow> nat" where
  "entries_size es = (\<Sum>e\<leftarrow>es. unat (e_file_size e))"

lemma entries_size_remove_at:
  "v < length es \<Longrightarrow> entries_size es = unat (e_file_size (es ! v)) + entries_size (remove_at v es)"
proof -
  assume v: "v < length es"
  show ?thesis
    unfolding entries_size_def remove_at_def by (subst id_take_nth_drop [OF v]) simp
qed

lemma fold_file_size:
  "unat t + entries_size es < 2 ^ 64 \<Longrightarrow>
     unat (fold (\<lambda>e t. t + e_file_size e) es t) = unat t + entries_size es"
  by (induction es arbitrary: t) (simp_all add: entries_size_def unat_plus_64)

lemma set_remove_at: "v < length es \<Longrightarrow> set es = insert (es ! v) (set (remove_at v es))"
proof -
  assume v: "v < length es"
  show ?thesis unfolding remove_at_def by (subst id_take_nth_drop [OF v]) simp
qed

text \<open>
  What the eviction loop leaves when no \<open>unlink\<close> fails: a listing of the files that are left, within
  the target, whose entries all score at least as much as every entry that was evicted.
\<close>

lemma evict_loop_correct:
  assumes "fp_order fp" and "\<forall>p. \<not> env_unlink_fails env p"
  shows "distinct (map fst fs) \<Longrightarrow> es = List.map_filter (kv_read_entry env dir) fs \<Longrightarrow>
    unat total_bytes = entries_size es \<Longrightarrow>
    evict_loop fp score env dir target total_bytes es fs = (es', fs') \<Longrightarrow>
    es' = List.map_filter (kv_read_entry env dir) fs' \<and> distinct (map fst fs') \<and>
    entries_size es' \<le> unat target \<and> (\<exists>P. fs' = filter P fs) \<and> set es' \<subseteq> set es \<and>
    (\<forall>e \<in> set es - set es'. \<forall>r \<in> set es'. \<not> fp_lt fp (score r) (score e))"
proof (induction "length es" arbitrary: es fs total_bytes)
  case 0
  then have "es' = es" "fs' = fs" by (auto simp: evict_loop.simps)
  moreover have "\<exists>P. fs = filter P fs" by (rule exI [of _ "\<lambda>_. True"]) simp
  ultimately show ?case using 0 by (auto simp: entries_size_def)
next
  case (Suc n)
  show ?case
  proof (cases "total_bytes \<le> target")
    case True
    then have "es' = es" "fs' = fs" using Suc.prems(4) by (auto simp: evict_loop.simps)
    moreover have "\<exists>P. fs = filter P fs" by (rule exI [of _ "\<lambda>_. True"]) simp
    ultimately show ?thesis using Suc.prems True by (auto simp: word_le_nat_alt)
  next
    case False
    have ne: "es \<noteq> []" using Suc.hyps(2) by auto
    define v where "v = pick_victim fp score es"
    have v: "v < length es" using pick_victim_bound [OF ne] by (simp add: v_def)
    define fs1 where "fs1 = kv_remove dir (e_path (es ! v)) fs"
    note rm = kv_remove_listing [OF Suc.prems(1,2) v]
    have le: "e_file_size (es ! v) \<le> total_bytes"
      using entries_size_remove_at [OF v] Suc.prems(3) by (simp add: word_le_nat_alt)
    have unl: "kv_unlink env dir (e_path (es ! v)) fs = (True, fs1)"
      using assms(2) rm(2) by (simp add: kv_unlink_def fs1_def)
    have step: "evict_loop fp score env dir target (total_bytes - e_file_size (es ! v)) (remove_at v es) fs1 = (es', fs')"
      using Suc.prems(4) False ne le unl by (subst (asm) evict_loop.simps) (simp add: v_def Let_def)
    have n: "n = length (remove_at v es)" using Suc.hyps(2) v by (simp add: length_remove_at)
    have d: "distinct (map fst fs1)"
      using Suc.prems(1) by (simp add: fs1_def kv_remove_def distinct_map_filter)
    have es1: "remove_at v es = List.map_filter (kv_read_entry env dir) fs1"
      using rm(1) by (simp add: fs1_def)
    have tot: "unat (total_bytes - e_file_size (es ! v)) = entries_size (remove_at v es)"
      using entries_size_remove_at [OF v] Suc.prems(3) le by (simp add: unat_sub)
    note IH = Suc.hyps(1) [OF n d es1 tot step]
    have mini: "\<forall>r \<in> set es. \<not> fp_lt fp (score r) (score (es ! v))"
      using pick_victim_minimal [OF assms(1) ne] by (simp add: v_def)
    have se: "set es = insert (es ! v) (set (remove_at v es))" using set_remove_at [OF v] .
    have "\<exists>P. fs' = filter P fs"
      using IH by (auto simp: fs1_def kv_remove_def)
    moreover have "\<not> fp_lt fp (score r) (score e)" if "e \<in> set es - set es'" "r \<in> set es'" for e r
    proof (cases "e = es ! v")
      case True
      moreover have "r \<in> set es" using that(2) IH se by auto
      ultimately show ?thesis using mini by simp
    next
      case False
      then have "e \<in> set (remove_at v es) - set es'" using that(1) se by simp
      then show ?thesis using that(2) IH by simp
    qed
    moreover have "set es' \<subseteq> set es" using IH se by blast
    ultimately show ?thesis using IH by blast
  qed
qed

subsection \<open>Lookup: lemmas\<close>

definition text_prefix_candidate :: "kvstore \<Rightarrow> bytes \<Rightarrow> u8 \<Rightarrow> u8 \<Rightarrow> u32 \<Rightarrow> kvstore_entry \<Rightarrow> bool" where
  "text_prefix_candidate kc prompt model quant ctx e \<longleftrightarrow>
     text_prefix_eligible kc prompt model quant ctx e \<and> text_prefix_hash_ok prompt e"

lemma text_prefix_worse_refl: "text_prefix_worse e e"
  by (simp add: text_prefix_worse_def)

lemma text_prefix_worse_trans: "text_prefix_worse a b \<Longrightarrow> text_prefix_worse b c \<Longrightarrow> text_prefix_worse a c"
  by (auto simp: text_prefix_worse_def)

lemma text_prefix_worse_total: "text_prefix_worse a b \<or> text_prefix_worse b a"
  by (auto simp: text_prefix_worse_def)

lemma find_fold:
  assumes "best = fold (find_step kc prompt model quant ctx) es b0"
    and "\<And>b. b0 = Some b \<Longrightarrow> text_prefix_candidate kc prompt model quant ctx b"
  shows "(\<forall>e. best = Some e \<longrightarrow> (e \<in> set es \<or> b0 = Some e) \<and> text_prefix_candidate kc prompt model quant ctx e) \<and>
     (\<forall>x. (x \<in> set es \<and> text_prefix_candidate kc prompt model quant ctx x) \<or> b0 = Some x \<longrightarrow>
       (\<exists>e. best = Some e \<and> text_prefix_worse x e))"
  using assms
proof (induction es arbitrary: b0)
  case Nil
  then show ?case by (auto simp: text_prefix_worse_refl)
next
  case (Cons a es)
  let ?b = "find_step kc prompt model quant ctx a b0"
  have c: "text_prefix_candidate kc prompt model quant ctx b" if "?b = Some b" for b
    using that Cons.prems(2)
    by (auto simp: find_step_def text_prefix_candidate_def split: if_splits option.splits)
  have best: "best = fold (find_step kc prompt model quant ctx) es ?b" using Cons.prems(1) by simp
  have from_b: "?b = Some a \<or> ?b = b0" by (simp add: find_step_def split: option.split)
  have grow: "\<exists>b. ?b = Some b \<and> text_prefix_worse x b"
    if "b0 = Some x \<or> (x = a \<and> text_prefix_candidate kc prompt model quant ctx a)" for x
    using that text_prefix_worse_refl [of x] text_prefix_worse_total [of x a]
    by (auto simp: find_step_def text_prefix_candidate_def split: option.splits)
  note IH = Cons.IH [OF best c]
  show ?case
  proof (intro conjI allI impI)
    fix e assume e: "best = Some e"
    show "e \<in> set (a # es) \<or> b0 = Some e" using IH e from_b by auto
    show "text_prefix_candidate kc prompt model quant ctx e" using IH e by blast
  next
    fix x assume x: "(x \<in> set (a # es) \<and> text_prefix_candidate kc prompt model quant ctx x) \<or> b0 = Some x"
    show "\<exists>e. best = Some e \<and> text_prefix_worse x e"
    proof (cases "x \<in> set es \<and> text_prefix_candidate kc prompt model quant ctx x")
      case True
      with IH show ?thesis by blast
    next
      case False
      with x have "b0 = Some x \<or> (x = a \<and> text_prefix_candidate kc prompt model quant ctx a)" by auto
      from grow [OF this] obtain b where b: "?b = Some b" "text_prefix_worse x b" by blast
      with IH obtain e where "best = Some e" "text_prefix_worse b e" by blast
      with b(2) text_prefix_worse_trans show ?thesis by blast
    qed
  qed
qed

lemma find_text_prefix_listing:
  assumes "ds4_kvstore_find_text_prefix env kc fs prompt model quant ctx = (kc', r)"
  shows "kc' = kv_cache_refresh env kc fs"
    and "r = Some e \<Longrightarrow> e \<in> set (kc_entry kc') \<and>
      text_prefix_candidate kc' prompt (word_of_int model) (word_of_int quant) (word_of_int ctx) e"
    and "x \<in> set (kc_entry kc') \<Longrightarrow>
      text_prefix_candidate kc' prompt (word_of_int model) (word_of_int quant) (word_of_int ctx) x \<Longrightarrow>
      \<exists>e. r = Some e \<and> text_prefix_worse x e"
proof -
  show kc: "kc' = kv_cache_refresh env kc fs"
    using assms by (auto simp: ds4_kvstore_find_text_prefix_def Let_def)
  have r: "r = fold (find_step kc' prompt (word_of_int model) (word_of_int quant) (word_of_int ctx)) (kc_entry kc') None"
    using assms by (auto simp: ds4_kvstore_find_text_prefix_def Let_def)
  note F = find_fold [OF r]
  show "r = Some e \<Longrightarrow> e \<in> set (kc_entry kc') \<and>
      text_prefix_candidate kc' prompt (word_of_int model) (word_of_int quant) (word_of_int ctx) e"
    using F by simp
  show "x \<in> set (kc_entry kc') \<Longrightarrow>
      text_prefix_candidate kc' prompt (word_of_int model) (word_of_int quant) (word_of_int ctx) x \<Longrightarrow>
      \<exists>e. r = Some e \<and> text_prefix_worse x e"
    using F by simp
qed

subsection \<open>Sizes: lemmas\<close>

lemma file_size_bytes_iff:
  "kv_cache_file_size_bytes t p r = Some f \<longleftrightarrow>
     52 + unat t + unat p + unat r < 18446744073709551616 \<and> f = 52 + t + p + r"
proof -
  have e: "- 1 - 52 - t = - 1 - (52 + t)" "- 1 - 52 - t - p = - 1 - (52 + t + p)" by simp_all
  have t: "t \<le> - 1 - 52 \<longleftrightarrow> 52 + unat t < 18446744073709551616"
    using no_wrap_64 [of t 52] by simp
  have p: "p \<le> - 1 - 52 - t \<longleftrightarrow> 52 + unat t + unat p < 18446744073709551616"
    if "52 + unat t < 18446744073709551616"
  proof -
    have "unat (52 + t) = 52 + unat t" using that by (simp add: unat_plus_64)
    then show ?thesis unfolding e(1) no_wrap_64 by (simp only: ac_simps)
  qed
  have r: "r \<le> - 1 - 52 - t - p \<longleftrightarrow> 52 + unat t + unat p + unat r < 18446744073709551616"
    if "52 + unat t + unat p < 18446744073709551616"
  proof -
    have "unat (52 + t + p) = 52 + unat t + unat p" using that by (simp add: unat_plus_64)
    then show ?thesis unfolding e(2) no_wrap_64 by (simp only: ac_simps)
  qed
  show ?thesis
    unfolding kv_cache_file_size_bytes_def Let_def not_le [symmetric] if_distrib
    using t p r by auto
qed

lemma unat_file_size:
  "52 + unat t + unat p + unat r < 18446744073709551616 \<Longrightarrow>
     unat (52 + t + p + r :: u64) = 52 + unat t + unat p + unat r"
  by (simp add: unat_plus_64)

definition one_percent_up :: "nat \<Rightarrow> nat" where
  "one_percent_up f = f div 100 + (if f mod 100 = 0 then 0 else 1)"

lemma budget_required_iff:
  "kv_cache_budget_required f = Some r \<longleftrightarrow>
     unat f + one_percent_up (unat f) < 18446744073709551616 \<and> unat r = unat f + one_percent_up (unat f)"
proof -
  define s where "s = (if f mod 100 \<noteq> 0 then f div 100 + 1 else f div 100)"
  have d: "unat (f div 100) = unat f div 100" "unat (f mod 100) = unat f mod 100"
    by (simp_all add: unat_div_distrib unat_mod_distrib)
  have "unat f div 100 + 1 < 18446744073709551616" using unat_u64_bound [of f] by simp
  then have s: "unat s = one_percent_up (unat f)"
    by (auto simp: s_def one_percent_up_def unat_plus_64 d unat_eq_zero [symmetric])
  have "kv_cache_budget_required f = (if s \<le> - 1 - f then Some (f + s) else None)"
    by (auto simp: kv_cache_budget_required_def s_def Let_def not_le)
  with no_wrap_64 [of s f] s show ?thesis
    by (auto simp: unat_plus_64 word_unat_eq_iff)
qed

lemma budget_required_le:
  "(case kv_cache_budget_required f of None \<Rightarrow> False | Some r \<Rightarrow> r \<le> b) \<longleftrightarrow>
     unat f + one_percent_up (unat f) \<le> unat b"
proof (cases "kv_cache_budget_required f")
  case None
  let ?n = "unat f + one_percent_up (unat f)"
  have "unat (of_nat m :: u64) = m" if "m < 18446744073709551616" for m
    using that by (simp add: unat_of_nat take_bit_eq_mod)
  then have "\<not> ?n < 18446744073709551616"
    using budget_required_iff [of f "of_nat ?n"] None by (metis option.distinct(1))
  with None unat_u64_bound [of b] show ?thesis by simp
next
  case (Some r)
  with budget_required_iff [of f r] show ?thesis by (simp add: word_le_nat_alt)
qed

lemma entries_size_listing:
  "entries_size (List.map_filter (kv_read_entry env dir) fs) \<le> (\<Sum>(n, b)\<leftarrow>fs. length b)"
proof (induction fs)
  case Nil
  then show ?case by (simp add: entries_size_def map_filter_simps)
next
  case (Cons nb fs)
  have "unat (e_file_size e) \<le> length (snd nb)" if "kv_read_entry env dir nb = Some e" for e
    using that
    by (auto simp: kv_read_entry_def ds4_kvstore_read_entry_file_def Let_def unat_of_nat take_bit_eq_mod
        split: option.splits if_splits)
  with Cons show ?case
    by (cases "kv_read_entry env dir nb")
       (fastforce simp: entries_size_def map_filter_simps split_beta)+
qed

text \<open>A rational instance of the score arithmetic, for examples.\<close>

definition rat_fp :: "rat fp_ops" where
  "rat_fp = \<lparr>fp_of_u32 = (\<lambda>v. of_nat (unat v)), fp_of_u64 = (\<lambda>v. of_nat (unat v)), fp_lit = (\<lambda>x. x),
     fp_add = (+), fp_mul = (*), fp_div = (/), fp_neg = uminus, fp_exp2 = (\<lambda>x. 2 powi \<lfloor>x\<rfloor>),
     fp_lt = (<), fp_eq = (=)\<rparr>"

lemma fp_order_rat: "fp_order rat_fp"
  by (auto simp: fp_order_def rat_fp_def)

subsection \<open>Policy: lemmas\<close>

lemma smod_nonneg: "0 \<le> x \<Longrightarrow> 0 < d \<Longrightarrow> x smod d = x mod (d::int)"
  by (cases "x = 0") (simp_all add: signed_modulo_int_def)

lemma sdiv_nonneg: "0 \<le> x \<Longrightarrow> 0 < d \<Longrightarrow> x sdiv d = x div (d::int)"
  by (cases "x = 0") (simp_all add: signed_divide_int_def)

lemma store_len_bounds:
  assumes "0 \<le> o_min_tokens (kc_opt kc)" "0 \<le> o_boundary_trim_tokens (kc_opt kc)"
  shows "ds4_kvstore_store_len kc toks \<le> toks \<and>
    (o_min_tokens (kc_opt kc) \<le> toks \<longrightarrow> o_min_tokens (kc_opt kc) \<le> ds4_kvstore_store_len kc toks) \<and>
    (ds4_kvstore_store_len kc toks \<noteq> toks \<longrightarrow>
       ds4_kvstore_store_len kc toks \<le> toks - o_boundary_trim_tokens (kc_opt kc) \<and>
       (0 < o_boundary_align_tokens (kc_opt kc) \<longrightarrow>
          o_boundary_align_tokens (kc_opt kc) dvd ds4_kvstore_store_len kc toks))"
proof -
  let ?st = "toks - o_boundary_trim_tokens (kc_opt kc)" and ?al = "o_boundary_align_tokens (kc_opt kc)"
  have "- o_boundary_trim_tokens (kc_opt kc) \<le> ?st mod ?al" if "0 < ?al"
    using pos_mod_sign [OF that, of ?st] assms by linarith
  moreover have "?st smod ?al = ?st mod ?al" "?al dvd ?st - ?st mod ?al"
    if "0 < ?al" "o_min_tokens (kc_opt kc) + o_boundary_trim_tokens (kc_opt kc) < toks"
    using that assms by (simp_all add: smod_nonneg dvd_minus_mod)
  ultimately show ?thesis
    using assms by (auto simp: ds4_kvstore_store_len_def Let_def)
qed

lemma continued_step_aligned:
  "0 < o_boundary_align_tokens (kc_opt kc) \<Longrightarrow> 0 < kv_cache_continued_step kc \<Longrightarrow>
     o_boundary_align_tokens (kc_opt kc) dvd kv_cache_continued_step kc \<and>
     o_continued_interval_tokens (kc_opt kc) \<le> kv_cache_continued_step kc"
proof -
  let ?al = "o_boundary_align_tokens (kc_opt kc)" and ?i = "o_continued_interval_tokens (kc_opt kc)"
  assume al: "0 < ?al" and st: "0 < kv_cache_continued_step kc"
  then have i: "kc_enabled kc" "0 < ?i" by (auto simp: kv_cache_continued_step_def split: if_splits)
  have "(?i + ?al - 1) sdiv ?al = (?i + ?al - 1) div ?al" using al i by (simp add: sdiv_nonneg)
  moreover have "?i \<le> (?i + ?al - 1) div ?al * ?al"
    using al pos_mod_bound [OF al, of "?i + ?al - 1"] minus_mod_eq_div_mult [of "?i + ?al - 1" ?al] by linarith
  ultimately show ?thesis using al i by (auto simp: kv_cache_continued_step_def Let_def)
qed

lemma continued_target_iff:
  "0 \<le> o_min_tokens (kc_opt kc) \<Longrightarrow> 0 \<le> kc_continued_last_store_tokens kc \<Longrightarrow>
     ds4_kvstore_continued_store_target kc toks \<noteq> 0 \<longleftrightarrow>
       0 < kv_cache_continued_step kc \<and> o_min_tokens (kc_opt kc) \<le> toks \<and>
       kv_cache_continued_step kc dvd toks \<and> kc_continued_last_store_tokens kc < toks"
  by (auto simp: ds4_kvstore_continued_store_target_def Let_def smod_nonneg dvd_eq_mod_eq_0)

lemma continued_step_update [simp]:
  "kv_cache_continued_step (kc\<lparr>kc_continued_last_store_tokens := n\<rparr>) = kv_cache_continued_step kc"
  by (simp add: kv_cache_continued_step_def)

lemma suppress_restore:
  assumes "0 \<le> kc_continued_last_store_tokens kc"
    and "ds4_kvstore_suppress_continued_store kc toks = (old, kc')"
  shows "(ds4_kvstore_continued_store_target kc toks = toks \<longrightarrow>
       ds4_kvstore_continued_store_target kc' toks = 0) \<and>
     ds4_kvstore_restore_suppressed_continued kc' old toks = kc"
proof (cases "ds4_kvstore_continued_store_target kc toks = toks")
  case False
  with assms show ?thesis
    by (auto simp: ds4_kvstore_suppress_continued_store_def ds4_kvstore_restore_suppressed_continued_def)
next
  case True
  then have "kc' = ds4_kvstore_note_store kc toks" "old = kc_continued_last_store_tokens kc"
    using assms(2) by (simp_all add: ds4_kvstore_suppress_continued_store_def)
  with True assms(1) show ?thesis
    by (auto simp: ds4_kvstore_restore_suppressed_continued_def ds4_kvstore_note_store_def
        ds4_kvstore_continued_store_target_def Let_def split: if_splits)
qed

lemma evict_facts:
  assumes "kc_enabled kc" and "kc_budget_bytes kc \<noteq> 0" and "extra \<le> kc_budget_bytes kc"
    and "\<not> env_opendir_fails env" and "\<forall>p. \<not> env_unlink_fails env p" and "fp_order fp"
    and "distinct (map fst fs)" and "(\<Sum>(n, b)\<leftarrow>fs. length b) < 2 ^ 64"
    and "ds4_kvstore_evict fp env kc extra inc fs = (kc', fs')"
    and "before = kc_entry (kv_cache_refresh env kc fs)"
    and "score = (\<lambda>e. ds4_kvstore_entry_eviction_score fp e (env_now env) inc)"
  shows "kc_entry kc' = kc_entry (kv_cache_refresh env kc fs') \<and> (\<exists>P. fs' = filter P fs) \<and>
     entries_size (kc_entry kc') + unat extra \<le> unat (kc_budget_bytes kc) \<and>
     (entries_size before + unat extra \<le> unat (kc_budget_bytes kc) \<longrightarrow> fs' = fs) \<and>
     (\<forall>e \<in> set before - set (kc_entry kc'). \<forall>r \<in> set (kc_entry kc'). \<not> fp_lt fp (score r) (score e))"
proof -
  let ?listing = "List.map_filter (kv_read_entry env (kc_dir kc))"
  define total_bytes where "total_bytes = fold (\<lambda>e t. t + e_file_size e) before 0"
  define target where "target = kc_budget_bytes kc - extra"
  have before: "before = ?listing fs" using assms(1,4,10) by (simp add: refresh_entries)
  have "entries_size before < 2 ^ 64" unfolding before
    using entries_size_listing assms(8) by (rule le_less_trans)
  then have tot: "unat total_bytes = entries_size before"
    using fold_file_size [of 0 before] by (simp add: total_bytes_def)
  have tgt: "unat target = unat (kc_budget_bytes kc) - unat extra"
    using assms(3) by (simp add: target_def unat_sub)
  have ext: "unat extra \<le> unat (kc_budget_bytes kc)" using assms(3) by (simp add: word_le_nat_alt)
  obtain es fs1 where es1: "evict_loop fp score env (kc_dir kc) target total_bytes before fs = (es, fs1)"
    by (cases "evict_loop fp score env (kc_dir kc) target total_bytes before fs")
  have "\<not> kc_budget_bytes kc < extra" using assms(3) by simp
  then have "ds4_kvstore_evict fp env kc extra inc fs = (kc\<lparr>kc_entry := es\<rparr>, fs1)"
    using assms(1,2,4) es1 before unfolding target_def total_bytes_def assms(11)
    by (simp add: ds4_kvstore_evict_def refresh_entries)
  with assms(9) have "kc' = kc\<lparr>kc_entry := es\<rparr>" and "fs1 = fs'" by simp_all
  then have kc': "kc_entry kc' = es"
    and es: "evict_loop fp score env (kc_dir kc) target total_bytes before fs = (es, fs')"
    using es1 by simp_all
  from evict_loop_correct [OF assms(6,5,7) before tot es] assms(1,4) kc' tgt ext
  have main: "kc_entry kc' = kc_entry (kv_cache_refresh env kc fs') \<and> (\<exists>P. fs' = filter P fs) \<and>
     entries_size (kc_entry kc') + unat extra \<le> unat (kc_budget_bytes kc) \<and>
     (\<forall>e \<in> set before - set (kc_entry kc'). \<forall>r \<in> set (kc_entry kc'). \<not> fp_lt fp (score r) (score e))"
    by (auto simp: refresh_entries)
  have "fs' = fs" if "entries_size before + unat extra \<le> unat (kc_budget_bytes kc)"
  proof -
    have "total_bytes \<le> target" using that tot tgt ext by (simp add: word_le_nat_alt)
    then show ?thesis using es by (auto simp: evict_loop.simps)
  qed
  with main show ?thesis by blast
qed

subsection \<open>Properties\<close>

text \<open>The size check before and after a store is exact: it succeeds exactly when header, text,
  payload and trailer add up without wrapping around 64 bits and, when there is a budget, the sum
  plus its one percent (rounded up) is within the budget.
\<close>

theorem kv_file_size_fits_exact:
  "fst (ds4_kvstore_file_size_fits kc t p r) \<longleftrightarrow>
     52 + unat t + unat p + unat r < 2 ^ 64 \<and>
     (kc_budget_bytes kc = 0 \<or>
      52 + unat t + unat p + unat r + one_percent_up (52 + unat t + unat p + unat r)
        \<le> unat (kc_budget_bytes kc))"
proof (cases "52 + unat t + unat p + unat r < 18446744073709551616")
  case False
  then have "kv_cache_file_size_bytes t p r = None"
    using file_size_bytes_iff [of t p r] by (cases "kv_cache_file_size_bytes t p r") auto
  with False show ?thesis by (simp add: ds4_kvstore_file_size_fits_def)
next
  case True
  then have f: "kv_cache_file_size_bytes t p r = Some (52 + t + p + r)" by (simp add: file_size_bytes_iff)
  note u = unat_file_size [OF True] unat_u64_bound [of "kc_budget_bytes kc"]
  show ?thesis
    using True f u budget_required_le [where f = "52 + t + p + r" and b = "kc_budget_bytes kc"]
    by (cases "kv_cache_budget_required (52 + t + p + r)")
       (auto simp: ds4_kvstore_file_size_fits_def)
qed

text \<open>
  The checkpoint policy. A cold prompt is cut to a boundary that is a multiple of the alignment,
  trims at least the configured tail and never goes below the minimum; a continued checkpoint is
  taken exactly at live lengths that are multiples of the (aligned) step, beyond the last one and
  not below the minimum; suppressing one stops it, and restoring afterwards gives the store back.
\<close>

theorem kv_checkpoint_policy:
  assumes "0 \<le> o_min_tokens (kc_opt kc)" and "0 \<le> o_boundary_trim_tokens (kc_opt kc)"
    and "0 \<le> kc_continued_last_store_tokens kc"
    and "n = ds4_kvstore_store_len kc toks" and "align = o_boundary_align_tokens (kc_opt kc)"
    and "step = kv_cache_continued_step kc"
    and "ds4_kvstore_suppress_continued_store kc toks = (old, kc')"
  shows "n \<le> toks \<and> (o_min_tokens (kc_opt kc) \<le> toks \<longrightarrow> o_min_tokens (kc_opt kc) \<le> n) \<and>
     (n \<noteq> toks \<longrightarrow> n \<le> toks - o_boundary_trim_tokens (kc_opt kc) \<and> (0 < align \<longrightarrow> align dvd n)) \<and>
     (0 < step \<longrightarrow> 0 < align \<longrightarrow> align dvd step \<and> o_continued_interval_tokens (kc_opt kc) \<le> step) \<and>
     (ds4_kvstore_continued_store_target kc toks \<noteq> 0 \<longleftrightarrow>
       0 < step \<and> o_min_tokens (kc_opt kc) \<le> toks \<and> step dvd toks \<and>
       kc_continued_last_store_tokens kc < toks) \<and>
     (ds4_kvstore_continued_store_target kc toks = toks \<longrightarrow>
       ds4_kvstore_continued_store_target kc' toks = 0) \<and>
     ds4_kvstore_restore_suppressed_continued kc' old toks = kc"
  using assms store_len_bounds [of kc toks] continued_step_aligned [of kc] continued_target_iff [of kc toks]
    suppress_restore [of kc toks] by simp

definition kv_example_store :: kvstore where
  "kv_example_store = \<lparr>kc_enabled = True, kc_dir = ''kv'', kc_budget_bytes = 80,
     kc_reject_different_quant = False, kc_opt = ds4_kvstore_default_options,
     kc_continued_last_store_tokens = 0, kc_entry = []\<rparr>"

lemma kv_checkpoint_policy_witness:
  "ds4_kvstore_store_len kv_example_store 5000 = 4096 \<and>
   2048 dvd ds4_kvstore_store_len kv_example_store 5000"
proof -
  have n: "ds4_kvstore_store_len kv_example_store 5000 = 4096"
    by (simp add: kv_example_store_def ds4_kvstore_default_options_def ds4_kvstore_store_len_def smod_nonneg)
  have "2048 dvd ds4_kvstore_store_len kv_example_store 5000"
    using kv_checkpoint_policy [OF _ _ _ refl refl refl surjective_pairing, of kv_example_store 5000] n
    by (simp add: kv_example_store_def ds4_kvstore_default_options_def)
  with n show ?thesis ..
qed


definition kv_example_file :: "u32 \<Rightarrow> bytes \<Rightarrow> bytes" where
  "kv_example_file toks txt =
     ds4_kvstore_fill_header 0 4 1 0 toks 0 4096 7 7 0 @ ds4_kvstore_le_put32 (of_nat (length txt)) @ txt"

definition kv_example_dir :: kv_dir where
  "kv_example_dir =
     [(kv_file_name (replicate 40 CHR ''A''), kv_example_file 600 []),
      (kv_file_name (ds4_kvstore_sha1_bytes_hex [72, 105]), kv_example_file 700 [72, 105])]"

definition kv_example_env :: kv_env where
  "kv_example_env = \<lparr>env_now = 9, env_opendir_fails = False, env_open_fails = (\<lambda>_. False),
     env_unlink_fails = (\<lambda>_. False)\<rparr>"

lemma kv_example_read_header:
  "toks \<noteq> 0 \<Longrightarrow> ds4_kvstore_read_header (kv_example_file toks txt) =
     Some (entry_zero\<lparr>e_quant_bits := 4, e_reason := 1, e_ext_flags := 0, e_model_id := 0,
       e_tokens := toks, e_hits := 0, e_ctx_size := 4096, e_created_at := 7, e_last_used := 7,
       e_payload_bytes := 0, e_text_bytes := ucast (of_nat (length txt) :: u32)\<rparr>, of_nat (length txt), txt)"
  unfolding kv_example_file_def
  by (rule read_header_fill_header) (simp_all add: ds4_kvstore_quant_bits_supported_def)

lemma length_kv_example_file: "length (kv_example_file toks txt) = 52 + length txt"
  by (simp add: kv_example_file_def)

lemma kv_example_listing:
  "\<exists>a b. kc_entry (kv_cache_refresh kv_example_env kv_example_store kv_example_dir) = [a, b] \<and>
     entries_size [a, b] = 106 \<and> e_tokens a = 600 \<and> e_tokens b = 700 \<and> e_text_bytes b = 2 \<and>
     e_sha b = ds4_kvstore_sha1_bytes_hex [72, 105] \<and> e_model_id b = 0 \<and> e_ctx_size b = 4096"
proof -
  have up: "c_tolower CHR ''A'' = CHR ''a''" by code_simp
  have a: "ds4_kvstore_sha_hex_name (kv_file_name (replicate 40 CHR ''A'')) = Some (replicate 40 CHR ''a'')"
    by (simp add: ds4_kvstore_sha_hex_name_def kv_file_name_def list_all_iff c_isxdigit_def c_isdigit_def up)
  have b: "ds4_kvstore_sha_hex_name (kv_file_name (ds4_kvstore_sha1_bytes_hex [72, 105])) =
      Some (ds4_kvstore_sha1_bytes_hex [72, 105])"
    by (rule sha_hex_name_kv_file_name) (simp_all only: length_sha1_hex set_sha1_hex)
  show ?thesis
    unfolding kv_example_dir_def
    by (simp add: refresh_entries kv_example_store_def kv_example_env_def map_filter_simps kv_read_entry_def a b
        ds4_kvstore_read_entry_file_def kv_example_read_header length_kv_example_file
        DS4_KVSTORE_FIXED_HEADER_def entry_zero_def entries_size_def Let_def)
qed


text \<open>
  C5: the lookup returns the best usable checkpoint. What it returns is a listed file of the same
  model (and quantisation where that is required), with a context that fits, whose name is the
  digest of that many leading bytes of the prompt; no usable listed file covers more of the prompt,
  and if there is a usable one the lookup does not miss.
\<close>

theorem kv_find_text_prefix_longest:
  assumes "kc_enabled kc" and "\<not> env_opendir_fails env"
    and "ds4_kvstore_find_text_prefix env kc fs prompt model quant ctx = (kc', r)"
    and "usable = (\<lambda>e. e \<in> set (List.map_filter (kv_read_entry env (kc_dir kc)) fs) \<and>
           text_prefix_eligible kc prompt (word_of_int model) (word_of_int quant) (word_of_int ctx) e \<and>
           ds4_kvstore_sha1_bytes_hex (take (unat (e_text_bytes e)) prompt) = e_sha e)"
  shows "(\<forall>e. r = Some e \<longrightarrow> usable e \<and> (\<forall>x. usable x \<longrightarrow> e_text_bytes x \<le> e_text_bytes e)) \<and>
     (r = None \<longrightarrow> (\<forall>x. \<not> usable x))"
proof -
  have kc': "kc' = kc\<lparr>kc_entry := List.map_filter (kv_read_entry env (kc_dir kc)) fs\<rparr>"
    using find_text_prefix_listing(1) [OF assms(3)] assms(1,2) by (simp add: refresh_entries)
  have us: "usable e \<longleftrightarrow> e \<in> set (kc_entry kc') \<and>
      text_prefix_candidate kc' prompt (word_of_int model) (word_of_int quant) (word_of_int ctx) e" for e
    by (simp add: assms(4) kc' text_prefix_candidate_def text_prefix_eligible_def text_prefix_hash_ok_def)
  show ?thesis
    using find_text_prefix_listing(2,3) [OF assms(3)] us
    by (fastforce simp: text_prefix_worse_def)
qed

lemma kv_find_text_prefix_longest_witness:
  "\<exists>e. snd (ds4_kvstore_find_text_prefix kv_example_env kv_example_store kv_example_dir
            [72, 105, 33] 0 4 4096) = Some e \<and> 2 \<le> unat (e_text_bytes e)"
proof -
  obtain a b where ab: "kc_entry (kv_cache_refresh kv_example_env kv_example_store kv_example_dir) = [a, b]"
    "e_tokens b = 700" "e_text_bytes b = 2" "e_sha b = ds4_kvstore_sha1_bytes_hex [72, 105]"
    "e_model_id b = 0" "e_ctx_size b = 4096"
    using kv_example_listing by auto
  then have l: "b \<in> set (List.map_filter (kv_read_entry kv_example_env (kc_dir kv_example_store)) kv_example_dir)"
    by (simp add: refresh_entries kv_example_store_def kv_example_env_def)
  have el: "text_prefix_eligible kv_example_store [72, 105, 33] (word_of_int 0) (word_of_int 4) (word_of_int 4096) b"
    "ds4_kvstore_sha1_bytes_hex (take (unat (e_text_bytes b)) [72, 105, 33]) = e_sha b"
    using ab by (simp_all add: text_prefix_eligible_def kv_example_store_def ds4_kvstore_default_options_def)
  let ?r = "snd (ds4_kvstore_find_text_prefix kv_example_env kv_example_store kv_example_dir [72, 105, 33] 0 4 4096)"
  have en: "kc_enabled kv_example_store" "\<not> env_opendir_fails kv_example_env"
    by (simp_all add: kv_example_store_def kv_example_env_def)
  note F = kv_find_text_prefix_longest [OF en surjective_pairing refl, of kv_example_dir "[72, 105, 33]" 0 4 4096]
  from F l el obtain e where "?r = Some e" by (cases ?r) auto
  moreover from this F l el have "e_text_bytes b \<le> e_text_bytes e" by blast
  ultimately show ?thesis using ab(3) by (auto simp: word_le_nat_alt)
qed

end
