(* ===== verification/KvCheckpoint.thy ===== *)
theory KvCheckpoint
  imports KvStore
begin

unbundle bit_operations_syntax

text \<open>
  Writing and restoring one checkpoint (\<open>ds4_kvstore.c\<close>): \<open>ds4_kvstore_store_live_prefix_text\<close>,
  \<open>ds4_kvstore_try_load_text\<close> and their helpers. The engine, the session and the trailer hooks are code
  of other files: they are parameters, records of the functions the store calls.
\<close>

subsection \<open>What the store calls\<close>

record kv_engine =
  en_quant_bits :: int
  en_model_id :: int
  en_token_text :: "int \<Rightarrow> bytes"
  en_tokenize_rendered_chat :: "bytes \<Rightarrow> int list"

text \<open>
  A session: its tokens, its context size, and the two payload calls. \<open>ss_stage_payload\<close> gives the
  staged payload or fails; \<open>load_payload\<close> below reads a payload from an open file.
\<close>

record kv_session =
  ss_tokens :: "int list option"
  ss_ctx :: int
  ss_stage_payload :: "bytes option"

type_synonym kv_load_payload = "kv_session \<Rightarrow> bytes \<Rightarrow> u64 \<Rightarrow> int \<times> kv_session \<times> bytes"

record kv_hooks =
  hk_ext_flag :: u8
  hk_serialized_size :: "(bytes \<Rightarrow> u64 option) option"
  hk_write :: "(bytes \<Rightarrow> bytes option) option"
  hk_load :: bool

text \<open>Which of the calls that write a new file fail, and the process id in the temporary name.\<close>

record kv_io =
  io_create_fails :: bool
  io_write_fails :: bool
  io_rename_fails :: bool
  io_pid :: string

definition kv_put :: "string \<Rightarrow> bytes \<Rightarrow> kv_dir \<Rightarrow> kv_dir" where
  "kv_put n b fs =
     (if n \<in> set (map fst fs) then map (\<lambda>(m, c). if m = n then (m, b) else (m, c)) fs else fs @ [(n, b)])"

definition kv_delete :: "string \<Rightarrow> kv_dir \<Rightarrow> kv_dir" where
  "kv_delete n fs = filter (\<lambda>(m, _). m \<noteq> n) fs"

definition kv_rename :: "string \<Rightarrow> string \<Rightarrow> kv_dir \<Rightarrow> kv_dir" where
  "kv_rename a b fs =
     (case map_of fs a of None \<Rightarrow> fs | Some c \<Rightarrow> kv_put b c (kv_delete a fs))"

subsection \<open>Helpers\<close>

definition ds4_kvstore_render_tokens_text :: "kv_engine \<Rightarrow> int list \<Rightarrow> bytes" where
  "ds4_kvstore_render_tokens_text engine ts = fold (\<lambda>t b. b @ en_token_text engine t) ts []"

definition ds4_kvstore_tokens_copy_prefix :: "int list \<Rightarrow> int \<Rightarrow> int list" where
  "ds4_kvstore_tokens_copy_prefix src n =
     (let n = (if int (length src) < n then int (length src) else n) in take (nat n) src)"

definition ds4_kvstore_build_prompt_from_exact_prefix_and_text_suffix ::
    "kv_engine \<Rightarrow> int list \<Rightarrow> bytes \<Rightarrow> int list" where
  "ds4_kvstore_build_prompt_from_exact_prefix_and_text_suffix engine exact suffix =
     exact @ en_tokenize_rendered_chat engine suffix"

text \<open>\<open>touch_file\<close> on the bytes of the file: \<open>None\<close> where it returns false.\<close>

definition ds4_kvstore_touch_file :: "u64 \<Rightarrow> u32 \<Rightarrow> bytes \<Rightarrow> bytes option" where
  "ds4_kvstore_touch_file now hts file =
     (case ds4_kvstore_read_header file of
        None \<Rightarrow> None
      | Some (e, _, _) \<Rightarrow>
          Some (put_at 0 (ds4_kvstore_fill_header (e_model_id e) (e_quant_bits e) (e_reason e)
                  (e_ext_flags e) (e_tokens e) hts (e_ctx_size e) (e_created_at e) now
                  (e_payload_bytes e)) file))"

definition kv_cache_file_text_matches :: "string \<Rightarrow> bytes \<Rightarrow> bytes \<Rightarrow> bool" where
  "kv_cache_file_text_matches sha text file \<longleftrightarrow>
     (if 4294967295 < length text then False
      else case ds4_kvstore_read_header file of
        None \<Rightarrow> False
      | Some (_, tb, rest) \<Rightarrow>
          if tb \<noteq> of_nat (length text) then False
          else if length rest < unat tb then False
          else let stored = take (unat tb) rest
               in ds4_kvstore_sha1_bytes_hex stored = sha \<and> (text = [] \<or> stored = text))"

text \<open>\<open>existing_compatible\<close> removes a readable file that does not fit; a file it cannot read stays.\<close>

definition kv_cache_existing_compatible ::
    "kv_env \<Rightarrow> kvstore \<Rightarrow> kv_dir \<Rightarrow> string \<Rightarrow> string \<Rightarrow> bytes \<Rightarrow> int \<Rightarrow> int \<Rightarrow> int \<Rightarrow> bool \<times> kv_dir" where
  "kv_cache_existing_compatible env kc fs path sha text model quant ctx =
     (case kv_file_at (kc_dir kc) fs path of
        None \<Rightarrow> (False, fs)
      | Some file \<Rightarrow>
          if env_open_fails env path then (False, fs)
          else case ds4_kvstore_read_entry_file path sha file of
            None \<Rightarrow> (False, fs)
          | Some e \<Rightarrow>
              if e_model_id e = word_of_int model \<and>
                 (\<not> kc_reject_different_quant kc \<or> e_quant_bits e = word_of_int quant) \<and>
                 e_ctx_size e \<le> word_of_int ctx \<and> kv_cache_file_text_matches sha text file
              then (True, fs)
              else (False, snd (kv_unlink env (kc_dir kc) path fs)))"

definition kv_trailer_serialized_size :: "kv_hooks option \<Rightarrow> bytes \<Rightarrow> u64 option" where
  "kv_trailer_serialized_size hooks text =
     (case hooks of None \<Rightarrow> Some 0
      | Some hk \<Rightarrow> (case hk_serialized_size hk of None \<Rightarrow> Some 0 | Some f \<Rightarrow> f text))"

definition kv_trailer_write :: "kv_hooks option \<Rightarrow> bytes \<Rightarrow> bytes option" where
  "kv_trailer_write hooks text =
     (case hooks of None \<Rightarrow> Some []
      | Some hk \<Rightarrow> (case hk_write hk of None \<Rightarrow> Some [] | Some f \<Rightarrow> f text))"

text \<open>
  \<open>rewrite_trailer\<close> on the bytes of the file: cut after the payload, append the new trailer and, when
  it is not empty, write the header again with the trailer's flag.
\<close>

definition kv_cache_rewrite_trailer :: "u64 \<Rightarrow> kv_hooks option \<Rightarrow> bytes \<Rightarrow> bytes \<Rightarrow> bytes" where
  "kv_cache_rewrite_trailer now hooks text file =
     (case hooks of
        None \<Rightarrow> file
      | Some hk \<Rightarrow>
          if hk_write hk = None \<or> hk_serialized_size hk = None then file
          else if kv_trailer_serialized_size hooks text \<in> {None, Some 0} then file
          else case ds4_kvstore_read_header file of
            None \<Rightarrow> file
          | Some (hdr, tb, _) \<Rightarrow>
              let end_pos = 48 + 4 + ucast tb + e_payload_bytes hdr :: u64
              in if 9223372036854775807 < end_pos then file
                 else
                   let cut = take (unat end_pos) file @ replicate (unat end_pos - length file) 0
                   in case kv_trailer_write hooks text of
                        None \<Rightarrow> cut
                      | Some trailer \<Rightarrow>
                          if trailer = [] then cut
                          else put_at 0 (ds4_kvstore_fill_header (e_model_id hdr) (e_quant_bits hdr)
                                 (e_reason hdr) (e_ext_flags hdr OR hk_ext_flag hk) (e_tokens hdr)
                                 (e_hits hdr) (e_ctx_size hdr) (e_created_at hdr) now
                                 (e_payload_bytes hdr)) (cut @ trailer))"

subsection \<open>Storing\<close>

text \<open>
  The file that is written: header, text length, text, payload, trailer. With \<open>staged\<close> the payload and
  \<open>trailer\<close> the bytes the hook wrote.
\<close>

definition kv_checkpoint_file ::
    "u64 \<Rightarrow> int \<Rightarrow> int \<Rightarrow> u8 \<Rightarrow> u8 \<Rightarrow> int \<Rightarrow> int \<Rightarrow> bytes \<Rightarrow> bytes \<Rightarrow> bytes \<Rightarrow> bytes" where
  "kv_checkpoint_file now model quant rsn ext toks ctx text staged trailer =
     ds4_kvstore_fill_header (word_of_int model) (word_of_int quant) rsn ext (word_of_int toks) 0
       (word_of_int ctx) now now (of_nat (length staged)) @
     ds4_kvstore_le_put32 (of_nat (length text)) @ text @ staged @ trailer"

text \<open>The part of \<open>store_live_prefix_text\<close> after eviction: write the temporary file, check, rename.\<close>

definition kv_write_checkpoint ::
    "kv_env \<Rightarrow> kv_io \<Rightarrow> kvstore \<Rightarrow> string \<Rightarrow> bytes \<Rightarrow> kv_hooks option \<Rightarrow> bytes \<Rightarrow> (bytes \<Rightarrow> bytes) \<Rightarrow> kv_dir \<Rightarrow>
     bool \<times> kv_dir" where
  "kv_write_checkpoint env io kc name text hooks staged content fs =
     (let tmp = name @ ''.tmp.'' @ io_pid io; path = ds4_kvstore_path_join (kc_dir kc) name
      in if io_create_fails io then (False, fs)
         else
           let fs1 = kv_put tmp [] fs;
               unlink_tmp = (\<lambda>fs. snd (kv_unlink env (kc_dir kc) (ds4_kvstore_path_join (kc_dir kc) tmp) fs))
           in if io_write_fails io then (False, unlink_tmp fs1)
              else case kv_trailer_write hooks text of
                None \<Rightarrow> (False, unlink_tmp fs1)
              | Some trailer \<Rightarrow>
                  let fs2 = kv_put tmp (content trailer) fs1
                  in if \<not> fst (ds4_kvstore_file_size_fits kc (of_nat (length text))
                              (of_nat (length staged)) (of_nat (length trailer)))
                     then (False, unlink_tmp fs2)
                     else if io_rename_fails io then (False, unlink_tmp fs2)
                     else (True, kv_rename tmp name fs2))"

definition ds4_kvstore_store_live_prefix_text ::
    "'d fp_ops \<Rightarrow> kv_env \<Rightarrow> kv_io \<Rightarrow> kvstore \<Rightarrow> kv_engine \<Rightarrow> kv_session \<Rightarrow> int list option \<Rightarrow> int \<Rightarrow>
     string \<Rightarrow> bytes \<Rightarrow> u8 \<Rightarrow> kv_hooks option \<Rightarrow> kv_dir \<Rightarrow> bool \<times> kvstore \<times> kv_dir" where
  "ds4_kvstore_store_live_prefix_text fp env io kc engine session toks store_len rsn override override_ext hooks fs =
     (if \<not> kc_enabled kc then (False, kc, fs)
      else if toks = None \<or> store_len < o_min_tokens (kc_opt kc) then (False, kc, fs)
      else
        let store_tokens = ds4_kvstore_tokens_copy_prefix (the toks) store_len;
            quant = en_quant_bits engine; model = en_model_id engine; ctx = ss_ctx session
        in if \<not> ds4_kvstore_quant_bits_supported quant then (False, kc, fs)
           else case ss_tokens session of
             None \<Rightarrow> (False, kc, fs)
           | Some live \<Rightarrow>
               if length live \<noteq> length store_tokens \<or> \<not> starts_with live store_tokens then (False, kc, fs)
               else
                 let text_override = override \<noteq> [];
                     text = (if text_override then override
                             else ds4_kvstore_render_tokens_text engine store_tokens)
                 in if 4294967295 < length text then (False, kc, fs)
                    else case kv_trailer_serialized_size hooks text of
                      None \<Rightarrow> (False, kc, fs)
                    | Some trailer_est \<Rightarrow>
                        let sha = ds4_kvstore_sha1_bytes_hex text;
                            name = kv_file_name sha;
                            path = ds4_kvstore_path_for_sha (kc_dir kc) sha;
                            rcode = ds4_kvstore_reason_code rsn;
                            (compatible, fs) = kv_cache_existing_compatible env kc fs path sha text model quant ctx
                        in if compatible then
                             (True, kc, map (\<lambda>(n, b). if n = name
                                then (n, kv_cache_rewrite_trailer (env_now env) hooks text b) else (n, b)) fs)
                           else case ss_stage_payload session of
                             None \<Rightarrow> (False, kc, fs)
                           | Some staged \<Rightarrow>
                               let (fits, est, _) = ds4_kvstore_file_size_fits kc (of_nat (length text))
                                     (of_nat (length staged)) trailer_est
                               in if \<not> fits then (False, kc, fs)
                                  else
                                    let incoming = \<lparr>in_text = text, in_model_id = word_of_int model,
                                          in_quant_bits = word_of_int quant, in_ctx_size = word_of_int ctx,
                                          in_reject_different_quant = kc_reject_different_quant kc\<rparr>;
                                        (kc, fs) = ds4_kvstore_evict fp env kc est (Some incoming) fs;
                                        ext = (case hooks of None \<Rightarrow> 0
                                               | Some hk \<Rightarrow> if 0 < trailer_est then hk_ext_flag hk else 0);
                                        ext = (if text_override then ext OR override_ext else ext);
                                        (ok, fs) = kv_write_checkpoint env io kc name text hooks staged
                                          (kv_checkpoint_file (env_now env) model quant rcode ext
                                             (int (length store_tokens)) ctx text staged) fs
                                    in (ok, kc, fs))"

definition ds4_kvstore_store_live_prefix ::
    "'d fp_ops \<Rightarrow> kv_env \<Rightarrow> kv_io \<Rightarrow> kvstore \<Rightarrow> kv_engine \<Rightarrow> kv_session \<Rightarrow> int list option \<Rightarrow> int \<Rightarrow>
     string \<Rightarrow> kv_hooks option \<Rightarrow> kv_dir \<Rightarrow> bool \<times> kvstore \<times> kv_dir" where
  "ds4_kvstore_store_live_prefix fp env io kc engine session toks store_len rsn hooks fs =
     ds4_kvstore_store_live_prefix_text fp env io kc engine session toks store_len rsn [] 0 hooks fs"

definition ds4_kvstore_maybe_store_continued ::
    "'d fp_ops \<Rightarrow> kv_env \<Rightarrow> kv_io \<Rightarrow> kvstore \<Rightarrow> kv_engine \<Rightarrow> kv_session \<Rightarrow> kv_hooks option \<Rightarrow> kv_dir \<Rightarrow>
     bool \<times> kvstore \<times> kv_dir" where
  "ds4_kvstore_maybe_store_continued fp env io kc engine session hooks fs =
     (case ss_tokens session of
        None \<Rightarrow> (False, kc, fs)
      | Some toks \<Rightarrow>
          let target = ds4_kvstore_continued_store_target kc (int (length toks))
          in if target = 0 then (False, kc, fs)
             else
               let (ok, kc, fs) = ds4_kvstore_store_live_prefix fp env io kc engine session (Some toks)
                     target ''continued'' hooks fs
               in if ok then (True, ds4_kvstore_note_store kc target, fs) else (False, kc, fs))"

subsection \<open>Restoring\<close>

record kv_load_result =
  lr_loaded :: int
  lr_store :: kvstore
  lr_session :: kv_session
  lr_dir :: kv_dir
  lr_effective_prompt :: "int list"
  lr_hook_input :: "bytes option"

text \<open>
  The checks of \<open>try_load_text\<close> on the opened file: the header, the text bytes and the bytes that
  follow them, or \<open>None\<close> with the session untouched.
\<close>

definition kv_load_check :: "u8 \<Rightarrow> bytes \<Rightarrow> string \<Rightarrow> bytes \<Rightarrow> (kvstore_entry \<times> bytes \<times> bytes) option" where
  "kv_load_check model prompt sha file =
     (case ds4_kvstore_read_header file of
        None \<Rightarrow> None
      | Some (hdr, tb, fp) \<Rightarrow>
          if e_model_id hdr \<noteq> model then None
          else if length prompt < unat tb then None
          else if length fp < unat tb then None
          else
            let cached = take (unat tb) fp
            in if ds4_kvstore_sha1_bytes_hex cached \<noteq> sha then None
               else if \<not> ds4_kvstore_byte_prefix_match prompt cached then None
               else Some (hdr, cached, drop (unat tb) fp))"

definition kv_load_miss :: "kvstore \<Rightarrow> kv_session \<Rightarrow> kv_dir \<Rightarrow> kv_load_result" where
  "kv_load_miss kc session fs = \<lparr>lr_loaded = 0, lr_store = kc, lr_session = session, lr_dir = fs,
     lr_effective_prompt = [], lr_hook_input = None\<rparr>"

text \<open>From the opened file of the entry that was found to the end of \<open>try_load_text\<close>.\<close>

definition kv_load_entry ::
    "kv_env \<Rightarrow> kv_load_payload \<Rightarrow> (kv_session \<Rightarrow> kv_session) \<Rightarrow> kvstore \<Rightarrow> kv_engine \<Rightarrow> kv_session \<Rightarrow>
     bytes \<Rightarrow> kv_hooks option \<Rightarrow> kvstore_entry \<Rightarrow> bytes \<Rightarrow> kv_dir \<Rightarrow> kv_load_result" where
  "kv_load_entry env load_payload invalidate kc engine session text hooks e file fs =
     (case kv_load_check (word_of_int (en_model_id engine)) text (e_sha e) file of
        None \<Rightarrow> kv_load_miss kc session fs
      | Some (hdr, cached, rest) \<Rightarrow>
          let (rc, session, rest) = load_payload session rest (e_payload_bytes hdr)
          in if rc \<noteq> 0 then kv_load_miss kc (invalidate session) fs
             else case ss_tokens session of
               None \<Rightarrow> kv_load_miss kc (invalidate session) (snd (kv_unlink env (kc_dir kc) (e_path e) fs))
             | Some loaded_tokens \<Rightarrow>
                 if int (length loaded_tokens) \<noteq> sint (e_tokens hdr)
                 then kv_load_miss kc (invalidate session) (snd (kv_unlink env (kc_dir kc) (e_path e) fs))
                 else
                   let loaded = sint (e_tokens hdr);
                       prompt_tokens =
                         ds4_kvstore_build_prompt_from_exact_prefix_and_text_suffix
                           engine loaded_tokens (drop (length cached) text);
                       hook_input = (case hooks of None \<Rightarrow> None
                         | Some hk \<Rightarrow> if hk_load hk \<and> e_ext_flags hdr AND hk_ext_flag hk \<noteq> 0
                                     then Some rest else None);
                       fs = (case ds4_kvstore_touch_file (env_now env) (e_hits hdr + 1) file of
                               None \<Rightarrow> fs
                             | Some file' \<Rightarrow>
                                 map (\<lambda>(n, b). if ds4_kvstore_path_join (kc_dir kc) n = e_path e
                                               then (n, file') else (n, b)) fs)
                   in \<lparr>lr_loaded = loaded,
                       lr_store = kc\<lparr>kc_continued_last_store_tokens := loaded\<rparr>,
                       lr_session = session, lr_dir = fs,
                       lr_effective_prompt = prompt_tokens,
                       lr_hook_input = hook_input\<rparr>)"

definition ds4_kvstore_try_load_text ::
    "kv_env \<Rightarrow> kv_load_payload \<Rightarrow> (kv_session \<Rightarrow> kv_session) \<Rightarrow> kvstore \<Rightarrow> kv_engine \<Rightarrow> kv_session \<Rightarrow>
     bytes option \<Rightarrow> kv_hooks option \<Rightarrow> kv_dir \<Rightarrow> kv_load_result" where
  "ds4_kvstore_try_load_text env load_payload invalidate kc engine session prompt hooks fs =
     (if \<not> kc_enabled kc then kv_load_miss kc session fs
      else case prompt of
        None \<Rightarrow> kv_load_miss kc session fs
      | Some text \<Rightarrow>
          if \<not> ds4_kvstore_quant_bits_supported (en_quant_bits engine) then kv_load_miss kc session fs
          else
            let (kc, found) = ds4_kvstore_find_text_prefix env kc fs text (en_model_id engine)
                                (en_quant_bits engine) (ss_ctx session)
            in case found of
                 None \<Rightarrow> kv_load_miss kc session fs
               | Some e \<Rightarrow>
                   if env_open_fails env (e_path e) then kv_load_miss kc session fs
                   else case kv_file_at (kc_dir kc) fs (e_path e) of
                     None \<Rightarrow> kv_load_miss kc session fs
                   | Some file \<Rightarrow> kv_load_entry env load_payload invalidate kc engine session text hooks e file fs)"

subsection \<open>Directory lemmas\<close>

lemma map_of_kv_put: "map_of (kv_put n b fs) m = (if m = n then Some b else map_of fs m)"
proof -
  let ?put = "map (\<lambda>(m, c). if m = n then (m, b) else (m, c)) fs"
  have "map_of ?put m = map_of fs m" if "m \<noteq> n"
    using that by (induction fs) (simp_all add: split_beta)
  moreover have "map_of ?put n = Some b" if "n \<in> fst ` set fs"
    using that by (induction fs) (auto simp: split_beta)
  moreover have "map_of fs n = None" if "n \<notin> fst ` set fs" using that by (simp add: map_of_eq_None_iff)
  ultimately show ?thesis by (cases "m = n") (auto simp: kv_put_def map_add_def split: option.split)
qed

lemma map_of_kv_delete: "map_of (kv_delete n fs) m = (if m = n then None else map_of fs m)"
  by (induction fs) (auto simp: kv_delete_def)

lemma map_of_kv_rename:
  "a \<noteq> b \<Longrightarrow> map_of fs a = Some c \<Longrightarrow> map_of (kv_rename a b fs) b = Some c"
  by (simp add: kv_rename_def map_of_kv_put)

lemma kv_file_at_join: "kv_file_at dir fs (ds4_kvstore_path_join dir n) = map_of fs n"
  by (induction fs) (auto simp: kv_file_at_def path_join_inj)

lemma map_of_map_at:
  "map_of (map (\<lambda>(n, b). if n = m then (n, g b) else (n, b)) fs) m = map_option g (map_of fs m)"
  by (induction fs) auto

lemma tmp_name_neq: "name @ ''.tmp.'' @ pid \<noteq> name"
  by simp

lemma kv_write_checkpoint_SomeD:
  assumes "kv_write_checkpoint env io kc name text hooks staged content fs = (True, fs')"
  shows "\<exists>trailer. kv_trailer_write hooks text = Some trailer \<and> map_of fs' name = Some (content trailer) \<and>
    fs' = kv_rename (name @ ''.tmp.'' @ io_pid io) name
       (kv_put (name @ ''.tmp.'' @ io_pid io) (content trailer) (kv_put (name @ ''.tmp.'' @ io_pid io) [] fs))"
  using assms tmp_name_neq [of name "io_pid io"]
  by (auto simp: kv_write_checkpoint_def Let_def map_of_kv_rename map_of_kv_put
      split: if_splits option.splits)

subsection \<open>The load check on a stored file\<close>

lemma reason_code_bound: "ds4_kvstore_reason_code r \<le> 6"
  by (simp add: ds4_kvstore_reason_code_def)

lemma quant_bits_word:
  "ds4_kvstore_quant_bits_supported q \<Longrightarrow> ds4_kvstore_quant_bits_supported (uint (word_of_int q :: u8))"
  by (auto simp: ds4_kvstore_quant_bits_supported_def)

lemma prefix_match_starts_with: "ds4_kvstore_byte_prefix_match p t \<longleftrightarrow> starts_with p t"
  using starts_with_length [of p t] by (auto simp: ds4_kvstore_byte_prefix_match_def starts_with_take)

text \<open>Passing the load check is a property of the header, its text length and the text bytes.\<close>

lemma load_check_I:
  assumes "ds4_kvstore_read_header file = Some (hdr, tb, fp)" and "e_model_id hdr = model"
    and "unat tb = length text" and "take (unat tb) fp = text" and "starts_with p text"
  shows "kv_load_check model p (ds4_kvstore_sha1_bytes_hex text) file = Some (hdr, text, drop (unat tb) fp)"
proof -
  have "length (take (unat tb) fp) = unat tb" using assms(3,4) by simp
  then have "unat tb \<le> length fp" by simp
  moreover have "length text \<le> length p" using starts_with_length [OF assms(5)] .
  ultimately show ?thesis
    using assms by (simp add: kv_load_check_def Let_def prefix_match_starts_with)
qed

lemma unat_of_nat_32: "n \<le> 4294967295 \<Longrightarrow> unat (of_nat n :: u32) = n"
  by (simp add: unat_of_nat take_bit_eq_mod)

lemma checkpoint_file_header:
  assumes "word_of_int toks \<noteq> (0 :: u32)" and "ds4_kvstore_quant_bits_supported quant" and "rsn \<le> 6"
    and "length text \<le> 4294967295"
  shows "\<exists>hdr. ds4_kvstore_read_header (kv_checkpoint_file now model quant rsn ext toks ctx text staged trailer) =
      Some (hdr, of_nat (length text), text @ staged @ trailer) \<and>
    e_model_id hdr = word_of_int model \<and> e_tokens hdr = word_of_int toks \<and>
    e_payload_bytes hdr = of_nat (length staged) \<and> e_ext_flags hdr = ext"
  using read_header_fill_header [OF assms(1) quant_bits_word [OF assms(2)] assms(3)]
  by (simp add: kv_checkpoint_file_def)

lemma rewrite_trailer_keeps:
  assumes e: "ds4_kvstore_read_entry_file path sha file = Some e" and len: "length file < 2 ^ 64"
    and h: "ds4_kvstore_read_header file = Some (hdr, tb, rest)"
  shows "\<exists>hdr' rest'. ds4_kvstore_read_header (kv_cache_rewrite_trailer now hooks text file) = Some (hdr', tb, rest') \<and>
    e_model_id hdr' = e_model_id hdr \<and> e_tokens hdr' = e_tokens hdr \<and>
    e_payload_bytes hdr' = e_payload_bytes hdr \<and>
    take (unat tb + unat (e_payload_bytes hdr)) rest' = take (unat tb + unat (e_payload_bytes hdr)) rest"
proof -
  note f = read_header_fields [OF h]
  have sz: "52 + unat tb + unat (e_payload_bytes hdr) \<le> length file"
    using read_entry_file_SomeD(4,5) [OF e len] h f by auto
  define n where "n = unat tb + unat (e_payload_bytes hdr)"
  have end_pos: "unat (48 + 4 + ucast tb + e_payload_bytes hdr :: u64) = 52 + n"
    using sz len by (simp add: n_def unat_plus_64)
  define cut where "cut = take (52 + n) file"
  have cut52: "take 52 (cut @ x) = take 52 file" "52 \<le> length (cut @ x)"
    "take n (drop 52 (cut @ x)) = take n (drop 52 file)" for x
    using sz by (auto simp: cut_def n_def drop_take take_append drop_append min_def)
  have c: "ds4_kvstore_read_header (cut @ x) = Some (hdr, tb, drop 52 (cut @ x))" for x
    using read_header_prefix [OF h cut52(1) cut52(2)] .
  have "kv_cache_rewrite_trailer now hooks text file \<in> {file, cut} \<union>
      {put_at 0 (ds4_kvstore_fill_header (e_model_id hdr) (e_quant_bits hdr) (e_reason hdr) ext (e_tokens hdr)
         (e_hits hdr) (e_ctx_size hdr) (e_created_at hdr) now (e_payload_bytes hdr)) (cut @ trailer) | ext trailer. True}"
    using sz end_pos
    by (auto simp: kv_cache_rewrite_trailer_def h Let_def cut_def n_def split: option.splits)
  then consider "kv_cache_rewrite_trailer now hooks text file = file"
    | "kv_cache_rewrite_trailer now hooks text file = cut @ []"
    | ext trailer where "kv_cache_rewrite_trailer now hooks text file =
        put_at 0 (ds4_kvstore_fill_header (e_model_id hdr) (e_quant_bits hdr) (e_reason hdr) ext (e_tokens hdr)
         (e_hits hdr) (e_ctx_size hdr) (e_created_at hdr) now (e_payload_bytes hdr)) (cut @ trailer)"
    by auto
  then show ?thesis
  proof cases
    case 1
    then show ?thesis using h by auto
  next
    case 2
    then show ?thesis using c [of "[]"] cut52(3) [of "[]"] f by (simp only: n_def) auto
  next
    case 3
    then show ?thesis using read_header_rewrite [OF c [of trailer]] cut52(3) [of trailer] f
      by (simp only: n_def) auto
  qed
qed

lemma existing_compatible_TrueD:
  assumes "kv_cache_existing_compatible env kc fs (ds4_kvstore_path_join (kc_dir kc) name) sha text model quant ctx =
      (True, fs1)"
  shows "fs1 = fs" and "\<exists>file e. map_of fs name = Some file \<and> e_model_id e = word_of_int model \<and>
      ds4_kvstore_read_entry_file (ds4_kvstore_path_join (kc_dir kc) name) sha file = Some e \<and>
      kv_cache_file_text_matches sha text file"
  using assms
  by (auto simp: kv_cache_existing_compatible_def kv_file_at_join split: option.splits if_splits)

lemma file_text_matches_D:
  assumes "kv_cache_file_text_matches sha text file"
  shows "\<exists>hdr tb rest. ds4_kvstore_read_header file = Some (hdr, tb, rest) \<and> unat tb = length text \<and>
    take (unat tb) rest = text"
proof -
  obtain hdr tb rest where h: "ds4_kvstore_read_header file = Some (hdr, tb, rest)"
    and l: "length text \<le> 4294967295" and tb: "tb = of_nat (length text)"
    and m: "text = [] \<or> take (unat tb) rest = text"
    using assms by (auto simp: kv_cache_file_text_matches_def Let_def split: if_splits option.splits)
  have "unat tb = length text" using tb l by (simp add: unat_of_nat_32)
  with h m show ?thesis by auto
qed

text \<open>An existing compatible file still passes the load check after its trailer was rewritten.\<close>

lemma existing_compatible_loads:
  assumes c: "kv_cache_existing_compatible env kc fs (ds4_kvstore_path_join (kc_dir kc) name)
      (ds4_kvstore_sha1_bytes_hex text) text model quant ctx = (True, fs1)"
    and len: "\<forall>(n, b) \<in> set fs. length b < 2 ^ 64"
  shows "\<exists>file hdr rest. map_of fs1 name = Some file \<and>
    (\<forall>p. starts_with p text \<longrightarrow> kv_load_check (word_of_int model) p (ds4_kvstore_sha1_bytes_hex text)
        (kv_cache_rewrite_trailer now hooks text file) = Some (hdr, text, rest))"
proof -
  obtain cf e where cf: "map_of fs name = Some cf" "e_model_id e = word_of_int model"
    "ds4_kvstore_read_entry_file (ds4_kvstore_path_join (kc_dir kc) name) (ds4_kvstore_sha1_bytes_hex text) cf = Some e"
    "kv_cache_file_text_matches (ds4_kvstore_sha1_bytes_hex text) text cf"
    using existing_compatible_TrueD(2) [OF c] by blast
  have lf: "length cf < 2 ^ 64" using len map_of_SomeD [OF cf(1)] by auto
  obtain hdr tb rest where h: "ds4_kvstore_read_header cf = Some (hdr, tb, rest)"
    "unat tb = length text" "take (unat tb) rest = text"
    using file_text_matches_D [OF cf(4)] by blast
  have hm: "e_model_id hdr = word_of_int model"
    using read_entry_file_SomeD(5) [OF cf(3) lf] h(1) cf(2) by auto
  obtain hdr' rest' where r: "ds4_kvstore_read_header (kv_cache_rewrite_trailer now hooks text cf) = Some (hdr', tb, rest')"
    "e_model_id hdr' = e_model_id hdr"
    "take (unat tb + unat (e_payload_bytes hdr)) rest' = take (unat tb + unat (e_payload_bytes hdr)) rest"
    using rewrite_trailer_keeps [OF cf(3) lf h(1)] by blast
  from arg_cong [OF r(3), of "take (unat tb)"] h(3) have "take (unat tb) rest' = text"
    by (simp add: min_def)
  from load_check_I [OF r(1) _ h(2) this] r(2) hm
  have "\<forall>p. starts_with p text \<longrightarrow> kv_load_check (word_of_int model) p (ds4_kvstore_sha1_bytes_hex text)
        (kv_cache_rewrite_trailer now hooks text cf) = Some (hdr', text, drop (unat tb) rest')"
    by auto
  then show ?thesis using cf(1) existing_compatible_TrueD(1) [OF c] by blast
qed

lemma load_check_D:
  "kv_load_check model p sha file = Some (hdr, cached, rest) \<Longrightarrow>
     ds4_kvstore_read_header file = Some (hdr, of_nat (length cached), cached @ rest) \<and>
     e_model_id hdr = model \<and> ds4_kvstore_sha1_bytes_hex cached = sha \<and> starts_with p cached"
  by (auto simp: kv_load_check_def Let_def prefix_match_starts_with min_def split: option.splits if_splits)

lemma kv_load_entry_cases:
  assumes "r = kv_load_entry env load_payload invalidate kc engine session text hooks e file fs"
  shows "(\<exists>s d. r = kv_load_miss kc s d) \<or>
    (lr_loaded r \<noteq> 0 \<and> (\<exists>hdr cached rest ts rest'.
       ds4_kvstore_read_header file = Some (hdr, of_nat (length cached), cached @ rest) \<and>
       e_model_id hdr = word_of_int (en_model_id engine) \<and>
       ds4_kvstore_sha1_bytes_hex cached = e_sha e \<and> starts_with text cached \<and>
       load_payload session rest (e_payload_bytes hdr) = (0, lr_session r, rest') \<and>
       ss_tokens (lr_session r) = Some ts \<and> int (length ts) = lr_loaded r \<and> lr_loaded r = sint (e_tokens hdr) \<and>
       lr_effective_prompt r = ts @ en_tokenize_rendered_chat engine (drop (length cached) text) \<and>
       kc_continued_last_store_tokens (lr_store r) = lr_loaded r))"
proof (cases "kv_load_check (word_of_int (en_model_id engine)) text (e_sha e) file")
  case None
  with assms show ?thesis by (auto simp: kv_load_entry_def)
next
  case (Some x)
  obtain hdr cached rest where x: "x = (hdr, cached, rest)" by (cases x)
  obtain rc s rest' where pay: "load_payload session rest (e_payload_bytes hdr) = (rc, s, rest')"
    by (cases "load_payload session rest (e_payload_bytes hdr)")
  note D = load_check_D [OF Some [unfolded x]]
  have nz: "sint (e_tokens hdr) \<noteq> 0" using D read_header_fields by (metis signed_eq_0_iff)
  show ?thesis
  proof (cases "rc \<noteq> 0 \<or> (\<forall>ts. ss_tokens s = Some ts \<longrightarrow> int (length ts) \<noteq> sint (e_tokens hdr))")
    case True
    with assms show ?thesis
      by (cases "ss_tokens s") (auto simp: kv_load_entry_def Some x pay)
  next
    case False
    then obtain ts where ts: "rc = 0" "ss_tokens s = Some ts" "int (length ts) = sint (e_tokens hdr)" by auto
    have r: "lr_loaded r = sint (e_tokens hdr)" "lr_session r = s"
      "kc_continued_last_store_tokens (lr_store r) = sint (e_tokens hdr)"
      "lr_effective_prompt r = ts @ en_tokenize_rendered_chat engine (drop (length cached) text)"
      using assms ts
      by (simp_all add: kv_load_entry_def Some x pay Let_def
          ds4_kvstore_build_prompt_from_exact_prefix_and_text_suffix_def)
    from r ts nz D pay show ?thesis by auto
  qed
qed

lemma find_text_prefix_store:
  "kc_dir (fst (ds4_kvstore_find_text_prefix env kc fs p m q c)) = kc_dir kc"
  "kc_continued_last_store_tokens (fst (ds4_kvstore_find_text_prefix env kc fs p m q c)) =
     kc_continued_last_store_tokens kc"
  by (simp_all add: ds4_kvstore_find_text_prefix_def Let_def kv_cache_refresh_def ds4_kvstore_clear_def refresh_fold)

subsection \<open>The size of the listing after a write\<close>

definition listed_size :: "kv_env \<Rightarrow> string \<Rightarrow> string \<times> bytes \<Rightarrow> nat" where
  "listed_size env dir nb = (case kv_read_entry env dir nb of None \<Rightarrow> 0 | Some e \<Rightarrow> unat (e_file_size e))"

definition dir_size :: "kv_env \<Rightarrow> string \<Rightarrow> kv_dir \<Rightarrow> nat" where
  "dir_size env dir fs = (\<Sum>nb\<leftarrow>fs. listed_size env dir nb)"

lemma entries_size_dir: "entries_size (List.map_filter (kv_read_entry env dir) fs) = dir_size env dir fs"
  by (induction fs) (auto simp: dir_size_def entries_size_def listed_size_def map_filter_simps split: option.split)

lemma listed_size_le: "listed_size env dir (n, b) \<le> unat (of_nat (length b) :: u64)"
  by (auto simp: listed_size_def kv_read_entry_def ds4_kvstore_read_entry_file_def Let_def
      split: option.split if_splits)

lemma listed_size_other: "length n \<noteq> 43 \<Longrightarrow> listed_size env dir (n, b) = 0"
  by (simp add: listed_size_def kv_read_entry_def ds4_kvstore_sha_hex_name_def)

lemma kv_put_names: "distinct (map fst fs) \<Longrightarrow> distinct (map fst (kv_put n b fs))"
proof -
  have "map fst (map (\<lambda>(m, c). if m = n then (m, b) else (m, c)) fs) = map fst fs"
    by (induction fs) auto
  then show "distinct (map fst fs) \<Longrightarrow> ?thesis" by (auto simp: kv_put_def simp del: map_map)
qed

lemma dir_size_kv_put:
  "distinct (map fst fs) \<Longrightarrow> dir_size env dir (kv_put n b fs) \<le> dir_size env dir fs + listed_size env dir (n, b)"
proof (cases "n \<in> set (map fst fs)")
  case False
  then show ?thesis by (simp add: kv_put_def dir_size_def)
next
  case True
  assume d: "distinct (map fst fs)"
  from True obtain c where "(n, c) \<in> set fs" by auto
  then obtain a z where sp: "fs = a @ (n, c) # z" by (auto simp: in_set_conv_decomp)
  have "map (\<lambda>(m, c). if m = n then (m, b) else (m, c)) xs = xs" if "n \<notin> fst ` set xs" for xs
    using that by (intro map_idI) (auto simp: rev_image_eqI)
  then have "kv_put n b fs = a @ (n, b) # z"
    using True d by (simp add: kv_put_def sp)
  then show ?thesis by (simp add: dir_size_def sp)
qed

lemma dir_size_kv_delete: "dir_size env dir (kv_delete n fs) \<le> dir_size env dir fs"
  by (induction fs) (auto simp: dir_size_def kv_delete_def)

lemma dir_size_write:
  assumes "kv_write_checkpoint env io kc name text hooks staged content fs = (True, fs')"
    and "distinct (map fst fs)" and "length name = 43"
  shows "\<exists>trailer. kv_trailer_write hooks text = Some trailer \<and>
    dir_size env' dir fs' \<le> dir_size env' dir fs + unat (of_nat (length (content trailer)) :: u64)"
proof -
  define tmp where "tmp = name @ ''.tmp.'' @ io_pid io"
  obtain trailer where t: "kv_trailer_write hooks text = Some trailer"
    and fs': "fs' = kv_rename tmp name (kv_put tmp (content trailer) (kv_put tmp [] fs))"
    using kv_write_checkpoint_SomeD [OF assms(1)] unfolding tmp_def by blast
  let ?fs1 = "kv_put tmp [] fs" and ?c = "content trailer"
  let ?fs2 = "kv_put tmp ?c ?fs1"
  have z: "listed_size env' dir (tmp, b) = 0" for b by (rule listed_size_other) (simp add: assms(3) tmp_def)
  have d: "distinct (map fst ?fs1)" "distinct (map fst ?fs2)" "distinct (map fst (kv_delete tmp ?fs2))"
    using assms(2) kv_put_names by (simp_all add: kv_delete_def distinct_map_filter)
  have "dir_size env' dir fs' \<le> dir_size env' dir (kv_delete tmp ?fs2) + listed_size env' dir (name, ?c)"
    unfolding fs' kv_rename_def map_of_kv_put by (simp add: dir_size_kv_put [OF d(3)])
  also have "\<dots> \<le> dir_size env' dir fs + listed_size env' dir (name, ?c)"
    using dir_size_kv_delete [of env' dir tmp ?fs2] dir_size_kv_put [OF d(1), of env' dir tmp ?c]
      dir_size_kv_put [OF assms(2), of env' dir tmp "[]"] z by simp
  finally show ?thesis using t listed_size_le [of env' dir name ?c] by (auto intro: le_trans)
qed

lemma existing_compatible_filter:
  "kv_cache_existing_compatible env kc fs path sha text model quant ctx = (ok, fs1) \<Longrightarrow> \<exists>P. fs1 = filter P fs"
proof -
  have "\<exists>P. fs = filter P fs" by (rule exI [of _ "\<lambda>_. True"]) simp
  then show "kv_cache_existing_compatible env kc fs path sha text model quant ctx = (ok, fs1) \<Longrightarrow> ?thesis"
    by (auto simp: kv_cache_existing_compatible_def kv_unlink_def kv_remove_def split: option.splits if_splits)
qed

subsection \<open>Properties\<close>

text \<open>
  C2: what is stored can be loaded. After a successful store the file named by the digest of the
  text is in the directory, and for every prompt that begins with that text it passes all checks of
  the load, which finds exactly the stored text; both when the file is written anew and when an
  existing file is kept and only its trailer is rewritten.
\<close>

theorem kv_store_then_load_check:
  assumes "ds4_kvstore_store_live_prefix_text fp env io kc engine session toks store_len rsn override ext hooks fs =
      (True, kc', fs')"
    and "ss_tokens session = Some live" and "live \<noteq> []" and "length live < 2 ^ 31"
    and "text = (if override \<noteq> [] then override else ds4_kvstore_render_tokens_text engine live)"
    and "\<forall>(n, b) \<in> set fs. length b < 2 ^ 64"
    and "sha = ds4_kvstore_sha1_bytes_hex text"
  shows "\<exists>file hdr rest. kv_file_at (kc_dir kc) fs' (ds4_kvstore_path_for_sha (kc_dir kc) sha) = Some file \<and>
     (\<forall>p. starts_with p text \<longrightarrow>
        kv_load_check (word_of_int (en_model_id engine)) p sha file = Some (hdr, text, rest))"
proof -
  let ?st = "ds4_kvstore_tokens_copy_prefix (the toks) store_len"
  let ?name = "kv_file_name sha"
  have st: "?st = live"
    using assms(1,2) starts_with_drop [of live ?st]
    by (auto simp: ds4_kvstore_store_live_prefix_text_def Let_def split: if_splits)
  have q: "ds4_kvstore_quant_bits_supported (en_quant_bits engine)" and tl: "length text \<le> 4294967295"
    using assms(1,2,5) st
    by (auto simp: ds4_kvstore_store_live_prefix_text_def Let_def split: if_splits)
  obtain compatible fs1 where c: "kv_cache_existing_compatible env kc fs (ds4_kvstore_path_join (kc_dir kc) ?name)
      sha text (en_model_id engine) (en_quant_bits engine) (ss_ctx session) = (compatible, fs1)"
    by fastforce
  have path: "ds4_kvstore_path_for_sha (kc_dir kc) sha = ds4_kvstore_path_join (kc_dir kc) ?name"
    by (simp add: ds4_kvstore_path_for_sha_def)
  show ?thesis
  proof (cases compatible)
    case True
    have fs': "fs' = map (\<lambda>(n, b). if n = ?name then (n, kv_cache_rewrite_trailer (env_now env) hooks text b)
        else (n, b)) fs1"
      using assms(1,2,5,7) st c True path
      by (auto simp: ds4_kvstore_store_live_prefix_text_def Let_def split: if_splits option.splits)
    have c': "kv_cache_existing_compatible env kc fs (ds4_kvstore_path_join (kc_dir kc) ?name)
        (ds4_kvstore_sha1_bytes_hex text) text (en_model_id engine) (en_quant_bits engine) (ss_ctx session) = (True, fs1)"
      using c True unfolding assms(7) by simp
    obtain cf hdr rest where f: "map_of fs1 ?name = Some cf"
      "\<forall>p. starts_with p text \<longrightarrow> kv_load_check (word_of_int (en_model_id engine)) p sha
        (kv_cache_rewrite_trailer (env_now env) hooks text cf) = Some (hdr, text, rest)"
      using existing_compatible_loads [OF c' assms(6), where now = "env_now env" and hooks = hooks] assms(7) by blast
    then show ?thesis unfolding path kv_file_at_join fs' map_of_map_at by auto
  next
    case False
    obtain staged kcw fsw ext' where w: "kv_write_checkpoint env io kcw ?name text hooks staged
        (kv_checkpoint_file (env_now env) (en_model_id engine) (en_quant_bits engine)
           (ds4_kvstore_reason_code rsn) ext' (int (length live)) (ss_ctx session) text staged) fsw = (True, fs')"
      using assms(1,2,5,7) st c False path
      by (auto simp: ds4_kvstore_store_live_prefix_text_def Let_def split: if_splits option.splits prod.splits)
    obtain trailer where t: "map_of fs' ?name = Some (kv_checkpoint_file (env_now env) (en_model_id engine)
        (en_quant_bits engine) (ds4_kvstore_reason_code rsn) ext' (int (length live)) (ss_ctx session) text staged trailer)"
      using kv_write_checkpoint_SomeD [OF w] by blast
    have "unat (word_of_int (int (length live)) :: u32) = length live"
      using assms(4) by (simp add: unat_of_nat take_bit_eq_mod)
    then have "word_of_int (int (length live)) \<noteq> (0 :: u32)" using assms(3) by (metis length_0_conv unat_0)
    from checkpoint_file_header [OF this q reason_code_bound tl]
    obtain hdr where "ds4_kvstore_read_header (kv_checkpoint_file (env_now env) (en_model_id engine)
        (en_quant_bits engine) (ds4_kvstore_reason_code rsn) ext' (int (length live)) (ss_ctx session) text staged trailer) =
        Some (hdr, of_nat (length text), text @ staged @ trailer)" "e_model_id hdr = word_of_int (en_model_id engine)"
      by blast
    from load_check_I [OF this, of "text"] unat_of_nat_32 [OF tl] t assms(7)
    show ?thesis unfolding path kv_file_at_join by auto
  qed
qed

definition kv_example_io :: kv_io where
  "kv_example_io = \<lparr>io_create_fails = False, io_write_fails = False, io_rename_fails = False, io_pid = ''42''\<rparr>"

definition kv_example_engine :: kv_engine where
  "kv_example_engine = \<lparr>en_quant_bits = 4, en_model_id = 0, en_token_text = (\<lambda>t. [word_of_int t]),
     en_tokenize_rendered_chat = map uint\<rparr>"

definition kv_example_session :: kv_session where
  "kv_example_session = \<lparr>ss_tokens = Some [72, 105], ss_ctx = 4096, ss_stage_payload = Some [1, 2, 3]\<rparr>"

definition kv_small_store :: kvstore where
  "kv_small_store = kv_example_store\<lparr>kc_opt := ds4_kvstore_default_options\<lparr>o_min_tokens := 1\<rparr>\<rparr>"

lemma evict_empty_dir:
  "kc_enabled kc \<Longrightarrow> \<not> env_opendir_fails env \<Longrightarrow> extra \<le> kc_budget_bytes kc \<Longrightarrow>
     ds4_kvstore_evict fp env kc extra inc [] = (if kc_budget_bytes kc = 0 then kc else kc\<lparr>kc_entry := []\<rparr>, [])"
  by (auto simp: ds4_kvstore_evict_def refresh_entries map_filter_simps evict_loop.simps Let_def split_beta)

lemma kv_example_store_ok:
  "fst (ds4_kvstore_store_live_prefix_text rat_fp kv_example_env kv_example_io kv_small_store kv_example_engine
     kv_example_session (Some [72, 105]) 2 ''cold'' [] 0 None []) = True"
  by (simp add: ds4_kvstore_store_live_prefix_text_def kv_small_store_def kv_example_store_def
      kv_example_engine_def kv_example_session_def kv_example_env_def kv_example_io_def
      ds4_kvstore_default_options_def ds4_kvstore_tokens_copy_prefix_def ds4_kvstore_quant_bits_supported_def
      ds4_kvstore_render_tokens_text_def kv_trailer_serialized_size_def kv_cache_existing_compatible_def
      kv_file_at_def ds4_kvstore_file_size_fits_def kv_cache_file_size_bytes_def kv_cache_budget_required_def
      evict_empty_dir kv_write_checkpoint_def kv_trailer_write_def Let_def starts_with_refl)

lemma kv_store_then_load_check_witness:
  "\<exists>file hdr rest.
     kv_file_at ''kv'' (snd (snd (ds4_kvstore_store_live_prefix_text rat_fp kv_example_env kv_example_io
        kv_small_store kv_example_engine kv_example_session (Some [72, 105]) 2 ''cold'' [] 0 None [])))
       (ds4_kvstore_path_for_sha ''kv'' (ds4_kvstore_sha1_bytes_hex [72, 105])) = Some file \<and>
     kv_load_check 0 [72, 105, 33] (ds4_kvstore_sha1_bytes_hex [72, 105]) file = Some (hdr, [72, 105], rest)"
proof -
  let ?r = "ds4_kvstore_store_live_prefix_text rat_fp kv_example_env kv_example_io kv_small_store kv_example_engine
     kv_example_session (Some [72, 105]) 2 ''cold'' [] 0 None []"
  have "x = (True, fst (snd x), snd (snd x))" if "fst x = True" for x :: "bool \<times> kvstore \<times> kv_dir"
    using that by (cases x) simp
  from this [OF kv_example_store_ok] have r: "?r = (True, fst (snd ?r), snd (snd ?r))" .
  have t: "[72, 105] = (if ([] :: bytes) \<noteq> [] then [] else ds4_kvstore_render_tokens_text kv_example_engine [72, 105])"
    by (simp add: ds4_kvstore_render_tokens_text_def kv_example_engine_def)
  have s: "ss_tokens kv_example_session = Some [72, 105]" by (simp add: kv_example_session_def)
  have k: "kc_dir kv_small_store = ''kv''" "word_of_int (en_model_id kv_example_engine) = (0 :: u8)"
    by (simp_all add: kv_small_store_def kv_example_store_def kv_example_engine_def)
  have c: "[72, 105] \<noteq> ([] :: int list)" "length [72, 105 :: int] < 2 ^ 31"
    "\<forall>(n, b) \<in> set ([] :: kv_dir). length b < 2 ^ 64"
    by simp_all
  obtain cf hdr rest where "kv_file_at ''kv'' (snd (snd ?r))
      (ds4_kvstore_path_for_sha ''kv'' (ds4_kvstore_sha1_bytes_hex [72, 105])) = Some cf"
    and "\<forall>p. starts_with p [72, 105] \<longrightarrow>
      kv_load_check 0 p (ds4_kvstore_sha1_bytes_hex [72, 105]) cf = Some (hdr, [72, 105], rest)"
    using kv_store_then_load_check [OF r s c(1,2) t c(3) refl, unfolded k] by blast
  moreover have "starts_with [72, 105, 33] [72, 105 :: u8]" by simp
  ultimately show ?thesis by blast
qed



text \<open>
  C1: a load that succeeds is sound. The restored file's header names the engine's model, its cached
  text is a true byte prefix of the prompt with the digest the file is named by, the payload was
  loaded without error, the session then holds exactly the number of tokens the header states, and
  the effective prompt is those tokens followed by the tokens of the rest of the prompt only. A load
  that fails leaves no effective prompt and does not move the continued checkpoint.
\<close>

theorem kv_load_sound:
  assumes "r = ds4_kvstore_try_load_text env load_payload invalidate kc engine session prompt hooks fs"
  shows "(lr_loaded r \<noteq> 0 \<longrightarrow>
      (\<exists>text (e :: kvstore_entry) file. prompt = Some text \<and> kv_file_at (kc_dir kc) fs (e_path e) = Some file \<and>
       (\<exists>hdr cached rest ts rest'.
         ds4_kvstore_read_header file = Some (hdr, of_nat (length cached), cached @ rest) \<and>
         e_model_id hdr = word_of_int (en_model_id engine) \<and>
         ds4_kvstore_sha1_bytes_hex cached = e_sha e \<and>
         starts_with text cached \<and>
         load_payload session rest (e_payload_bytes hdr) = (0, lr_session r, rest') \<and>
         ss_tokens (lr_session r) = Some ts \<and> int (length ts) = lr_loaded r \<and> lr_loaded r = sint (e_tokens hdr) \<and>
         lr_effective_prompt r = ts @ en_tokenize_rendered_chat engine (drop (length cached) text) \<and>
         kc_continued_last_store_tokens (lr_store r) = lr_loaded r))) \<and>
     (lr_loaded r = 0 \<longrightarrow> lr_effective_prompt r = [] \<and> lr_hook_input r = None \<and>
       kc_continued_last_store_tokens (lr_store r) = kc_continued_last_store_tokens kc)"
proof -
  define f where "f = ds4_kvstore_find_text_prefix env kc fs (the prompt) (en_model_id engine)
      (en_quant_bits engine) (ss_ctx session)"
  note fk = find_text_prefix_store [of env kc fs "the prompt" "en_model_id engine" "en_quant_bits engine"
      "ss_ctx session", folded f_def]
  consider (miss) k s d where "r = kv_load_miss k s d"
      "kc_continued_last_store_tokens k = kc_continued_last_store_tokens kc"
    | (entry) tx e cf where "prompt = Some tx" "kv_file_at (kc_dir kc) fs (e_path e) = Some cf"
      "r = kv_load_entry env load_payload invalidate (fst f) engine session tx hooks e cf fs"
  proof (cases "\<not> kc_enabled kc \<or> prompt = None \<or> \<not> ds4_kvstore_quant_bits_supported (en_quant_bits engine)")
    case True
    then have "r = kv_load_miss kc session fs"
      using assms by (auto simp: ds4_kvstore_try_load_text_def split: option.split)
    then show ?thesis using that(1) by blast
  next
    case False
    then obtain tx where tx: "prompt = Some tx" by auto
    have f_tx: "f = ds4_kvstore_find_text_prefix env kc fs tx (en_model_id engine) (en_quant_bits engine) (ss_ctx session)"
      by (simp add: f_def tx)
    have r: "r = (case snd f of None \<Rightarrow> kv_load_miss (fst f) session fs
        | Some e \<Rightarrow> if env_open_fails env (e_path e) then kv_load_miss (fst f) session fs
           else case kv_file_at (kc_dir (fst f)) fs (e_path e) of None \<Rightarrow> kv_load_miss (fst f) session fs
           | Some file \<Rightarrow> kv_load_entry env load_payload invalidate (fst f) engine session tx hooks e file fs)"
      using assms False by (simp add: ds4_kvstore_try_load_text_def tx f_tx [symmetric] split_beta)
    show ?thesis
    proof (cases "snd f")
      case None
      with r fk(2) that(1) show ?thesis by simp
    next
      case (Some e)
      show ?thesis
      proof (cases "env_open_fails env (e_path e) \<or> kv_file_at (kc_dir kc) fs (e_path e) = None")
        case True
        with r Some have "r = kv_load_miss (fst f) session fs" using fk(1) by auto
        with fk(2) that(1) show ?thesis by blast
      next
        case False
        with r Some tx that(2) show ?thesis using fk(1) by auto
      qed
    qed
  qed
  then show ?thesis
  proof cases
    case miss
    then show ?thesis by (simp add: kv_load_miss_def)
  next
    case entry
    note D = kv_load_entry_cases [OF entry(3)]
    show ?thesis
    proof (cases "lr_loaded r = 0")
      case True
      then show ?thesis using D fk(2) by (auto simp: kv_load_miss_def)
    next
      case False
      then have "\<not> (\<exists>s d. r = kv_load_miss (fst f) s d)" by (auto simp: kv_load_miss_def)
      with D entry(1,2) False show ?thesis
        by (intro conjI impI) (rule exI [of _ tx], rule exI [of _ e], rule exI [of _ cf], simp_all)
    qed
  qed
qed

definition kv_one_file_dir :: kv_dir where
  "kv_one_file_dir = [(kv_file_name (ds4_kvstore_sha1_bytes_hex [72, 105]), kv_example_file 700 [72, 105])]"

definition kv_example_load :: kv_load_payload where
  "kv_example_load s fp n = (0, s\<lparr>ss_tokens := Some (replicate 700 0)\<rparr>, fp)"

lemma kv_one_file_loads:
  "lr_loaded (ds4_kvstore_try_load_text kv_example_env kv_example_load (\<lambda>s. s) kv_example_store kv_example_engine
     kv_example_session (Some [72, 105, 33]) None kv_one_file_dir) = 700"
proof -
  have b: "ds4_kvstore_sha_hex_name (kv_file_name (ds4_kvstore_sha1_bytes_hex [72, 105])) =
      Some (ds4_kvstore_sha1_bytes_hex [72, 105])"
    by (rule sha_hex_name_kv_file_name) (simp_all only: length_sha1_hex set_sha1_hex)
  show ?thesis
    unfolding kv_one_file_dir_def
    by (simp add: ds4_kvstore_try_load_text_def kv_load_entry_def kv_load_check_def
        ds4_kvstore_find_text_prefix_def refresh_entries kv_example_store_def kv_example_env_def
        map_filter_simps kv_read_entry_def b ds4_kvstore_read_entry_file_def kv_example_read_header
        length_kv_example_file DS4_KVSTORE_FIXED_HEADER_def entry_zero_def Let_def find_step_def
        text_prefix_eligible_def text_prefix_hash_ok_def ds4_kvstore_default_options_def kv_example_engine_def
        kv_example_session_def kv_file_at_def kv_example_load_def ds4_kvstore_quant_bits_supported_def
        prefix_match_starts_with)
qed

lemma kv_load_sound_witness:
  "\<exists>ts rest. lr_effective_prompt (ds4_kvstore_try_load_text kv_example_env kv_example_load (\<lambda>s. s)
       kv_example_store kv_example_engine kv_example_session (Some [72, 105, 33]) None kv_one_file_dir) =
     ts @ map uint (rest :: bytes) \<and> length ts = 700"
proof -
  have "en_tokenize_rendered_chat kv_example_engine = map uint" by (simp add: kv_example_engine_def)
  then show ?thesis
    using kv_load_sound [OF refl, of kv_example_env kv_example_load "\<lambda>s. s" kv_example_store kv_example_engine
        kv_example_session "Some [72, 105, 33]" None kv_one_file_dir] kv_one_file_loads by auto
qed

end
