(* ===== verification/Json.thy ===== *)
theory Json
  imports CString "HOL-Library.Sublist"
begin

unbundle bit_operations_syntax

text \<open>
  The JSON reader and writer of \<open>ds4_server.c\<close>. A \<open>const char **p\<close> is the NUL-terminated string from
  the cursor on, as a list of bytes without the NUL: the end of the list is where the code reads a
  NUL. A reader returns the string that is left, or \<open>None\<close> where the code returns false.
\<close>

subsection \<open>Lexical elements\<close>

definition json_ws :: "string \<Rightarrow> string" where
  "json_ws s = dropWhile c_isspace s"

definition json_lit :: "string \<Rightarrow> string \<Rightarrow> string option" where
  "json_lit lit s = (if starts_with s lit then Some (drop (length lit) s) else None)"

definition json_hex :: "char \<Rightarrow> u32 option" where
  "json_hex c =
     (let n = of_char c :: nat
      in if 48 \<le> n \<and> n \<le> 57 then Some (of_nat (n - 48))
         else if 97 \<le> n \<and> n \<le> 102 then Some (of_nat (10 + n - 97))
         else if 65 \<le> n \<and> n \<le> 70 then Some (of_nat (10 + n - 65))
         else None)"

definition byte_char :: "u32 \<Rightarrow> char" where
  "byte_char w = char_of (unat w)"

definition utf8_put :: "u32 \<Rightarrow> string" where
  "utf8_put cp =
     (let cp = (if 0x10ffff < cp \<or> 0xd800 \<le> cp \<and> cp \<le> 0xdfff then 0xfffd else cp)
      in if cp \<le> 0x7f then [byte_char cp]
         else if cp \<le> 0x7ff then
           [byte_char (0xc0 OR drop_bit 6 cp), byte_char (0x80 OR cp AND 0x3f)]
         else if cp \<le> 0xffff then
           [byte_char (0xe0 OR drop_bit 12 cp), byte_char (0x80 OR drop_bit 6 cp AND 0x3f),
            byte_char (0x80 OR cp AND 0x3f)]
         else
           [byte_char (0xf0 OR drop_bit 18 cp), byte_char (0x80 OR drop_bit 12 cp AND 0x3f),
            byte_char (0x80 OR drop_bit 6 cp AND 0x3f), byte_char (0x80 OR cp AND 0x3f)])"

text \<open>The four digits of a \<open>u\<close> escape; the code reads a NUL, which is no digit, at the end of the string.\<close>

fun json_hex4 :: "nat \<Rightarrow> u32 \<Rightarrow> string \<Rightarrow> (u32 \<times> string) option" where
  "json_hex4 0 cp s = Some (cp, s)"
| "json_hex4 (Suc k) cp [] = None"
| "json_hex4 (Suc k) cp (c # s) =
     (case json_hex c of None \<Rightarrow> None | Some h \<Rightarrow> json_hex4 k (push_bit 4 cp OR h) s)"

definition json_u16 :: "string \<Rightarrow> (u32 \<times> string) option" where
  "json_u16 s = (if starts_with s [CHR 0x5C, CHR ''u''] then json_hex4 4 0 (drop 2 s) else None)"

text \<open>
  One escape: \<open>s\<close> is the string from the backslash on. The bytes it stands for and what is left.
\<close>

definition json_unicode_escape :: "string \<Rightarrow> (string \<times> string) option" where
  "json_unicode_escape s =
     (case json_u16 s of
        None \<Rightarrow> None
      | Some (cp, r) \<Rightarrow>
          if 0xd800 \<le> cp \<and> cp \<le> 0xdbff then
            (case json_u16 r of
               Some (lo, r2) \<Rightarrow>
                 if 0xdc00 \<le> lo \<and> lo \<le> 0xdfff
                 then Some (utf8_put (0x10000 + push_bit 10 (cp - 0xd800) + (lo - 0xdc00)), r2)
                 else Some (utf8_put 0xfffd, r)
             | None \<Rightarrow> Some (utf8_put 0xfffd, r))
          else Some (utf8_put cp, r))"

definition json_escape_char :: "string \<Rightarrow> (string \<times> string) option" where
  "json_escape_char s =
     (case s of
        b # c # r \<Rightarrow>
          if c = CHR 0x22 then Some ([CHR 0x22], r)
          else if c = CHR 0x5C then Some ([CHR 0x5C], r)
          else if c = CHR ''/'' then Some (''/'', r)
          else if c = CHR ''b'' then Some ([CHR 0x08], r)
          else if c = CHR ''f'' then Some ([CHR 0x0C], r)
          else if c = CHR ''n'' then Some ([CHR 0x0A], r)
          else if c = CHR ''r'' then Some ([CHR 0x0D], r)
          else if c = CHR ''t'' then Some ([CHR 0x09], r)
          else if c = CHR ''u'' then json_unicode_escape s
          else None
      | _ \<Rightarrow> None)"

lemma json_hex4_shorter: "json_hex4 k cp s = Some (v, r) \<Longrightarrow> length s = length r + k"
  by (induction k cp s rule: json_hex4.induct) (auto split: option.splits)

lemma json_u16_shorter: "json_u16 s = Some (v, r) \<Longrightarrow> length r + 6 = length s"
  by (auto simp: json_u16_def dest!: json_hex4_shorter starts_with_length split: if_splits)

lemma json_unicode_escape_shorter: "json_unicode_escape s = Some (t, r) \<Longrightarrow> length r < length s"
  by (auto simp: json_unicode_escape_def dest!: json_u16_shorter split: option.splits if_splits prod.splits)

lemma json_escape_char_shorter: "json_escape_char s = Some (t, r) \<Longrightarrow> length r < length s"
  by (auto simp: json_escape_char_def dest: json_unicode_escape_shorter split: list.splits if_splits)

text \<open>The loop of \<open>json_string\<close> after the opening quote, with the bytes written so far.\<close>

function json_string_body :: "string \<Rightarrow> string \<Rightarrow> (string \<times> string) option" where
  "json_string_body s acc =
     (case s of
        [] \<Rightarrow> None
      | c # r \<Rightarrow>
          if c = CHR 0x22 then Some (acc, r)
          else if c \<noteq> CHR 0x5C then json_string_body r (acc @ [c])
          else case json_escape_char s of
                 None \<Rightarrow> None
               | Some (t, r) \<Rightarrow> json_string_body r (acc @ t))"
  by pat_completeness auto
termination
  by (relation "measure (\<lambda>(s, _). length s)") (auto dest: json_escape_char_shorter)

declare json_string_body.simps [simp del]

definition json_string :: "string \<Rightarrow> (string \<times> string) option" where
  "json_string s =
     (case json_ws s of
        [] \<Rightarrow> None
      | c # r \<Rightarrow> if c = CHR 0x22 then json_string_body r [] else None)"

definition json_bool :: "string \<Rightarrow> (bool \<times> string) option" where
  "json_bool s =
     (let s = json_ws s
      in case json_lit ''true'' s of
           Some r \<Rightarrow> Some (True, r)
         | None \<Rightarrow> (case json_lit ''false'' s of Some r \<Rightarrow> Some (False, r) | None \<Rightarrow> None))"

subsection \<open>Numbers\<close>

text \<open>
  \<open>json_number\<close> accepts what \<open>strtod\<close> accepts, in the C locale: an optional sign, then \<open>inf\<close>,
  \<open>infinity\<close>, \<open>nan\<close> with an optional parenthesised sequence, a hexadecimal or a decimal number. Only
  where the number ends is modelled, not the double it denotes.
\<close>

definition lower_starts_with :: "string \<Rightarrow> string \<Rightarrow> bool" where
  "lower_starts_with s p \<longleftrightarrow> starts_with (List.map c_tolower s) p"

text \<open>Digits with at most one point; the number of digits seen and the rest.\<close>

definition scan_mantissa :: "(char \<Rightarrow> bool) \<Rightarrow> string \<Rightarrow> nat \<times> string" where
  "scan_mantissa digit s =
     (let a = takeWhile digit s; r = dropWhile digit s
      in case r of
           c # r' \<Rightarrow>
             if c = CHR ''.'' then (length a + length (takeWhile digit r'), dropWhile digit r')
             else (length a, r)
         | [] \<Rightarrow> (length a, r))"

definition scan_exponent :: "char \<Rightarrow> string \<Rightarrow> string" where
  "scan_exponent e s =
     (case s of
        c # r \<Rightarrow>
          if c_tolower c = e then
            let r' = (case r of d # q \<Rightarrow> if d = CHR ''+'' \<or> d = CHR ''-'' then q else r | [] \<Rightarrow> r)
            in if r' \<noteq> [] \<and> c_isdigit (hd r') then dropWhile c_isdigit r' else s
          else s
      | [] \<Rightarrow> s)"

definition nan_char :: "char \<Rightarrow> bool" where
  "nan_char c \<longleftrightarrow> c_isdigit c \<or> c = CHR ''_'' \<or> (97 \<le> (of_char (c_tolower c) :: nat) \<and> of_char (c_tolower c) \<le> (122 :: nat))"

definition scan_nan :: "string \<Rightarrow> string" where
  "scan_nan r =
     (if starts_with r ''('' \<and> starts_with (dropWhile nan_char (tl r)) '')''
      then tl (dropWhile nan_char (tl r)) else r)"

definition strtod_rest :: "string \<Rightarrow> string option" where
  "strtod_rest s =
     (let s = dropWhile c_isspace s;
          s = (case s of c # r \<Rightarrow> if c = CHR ''+'' \<or> c = CHR ''-'' then r else s | [] \<Rightarrow> s)
      in if lower_starts_with s ''infinity'' then Some (drop 8 s)
         else if lower_starts_with s ''inf'' then Some (drop 3 s)
         else if lower_starts_with s ''nan'' then Some (scan_nan (drop 3 s))
         else if lower_starts_with s ''0x'' \<and> 0 < fst (scan_mantissa c_isxdigit (drop 2 s)) then
           Some (scan_exponent CHR ''p'' (snd (scan_mantissa c_isxdigit (drop 2 s))))
         else if 0 < fst (scan_mantissa c_isdigit s) then
           Some (scan_exponent CHR ''e'' (snd (scan_mantissa c_isdigit s)))
         else None)"

definition json_number :: "string \<Rightarrow> string option" where
  "json_number s = strtod_rest (json_ws s)"

subsection \<open>Skipping a value\<close>

definition JSON_MAX_NESTING :: nat where
  "JSON_MAX_NESTING = 256"

lemma json_ws_le [termination_simp]: "length (json_ws s) \<le> length s"
  by (simp add: json_ws_def length_dropWhile_le)

lemma json_string_body_shorter: "json_string_body s acc = Some (t, r) \<Longrightarrow> length r < length s"
proof (induction s acc rule: json_string_body.induct)
  case (1 s acc)
  show ?case
  proof (cases s)
    case Nil
    with "1.prems" show ?thesis by (simp add: json_string_body.simps)
  next
    case (Cons c q)
    show ?thesis
    proof (cases "c = CHR 0x22")
      case True
      with "1.prems" Cons show ?thesis by (simp add: json_string_body.simps)
    next
      case nq: False
      show ?thesis
      proof (cases "c = CHR 0x5C")
        case True
        then obtain t' r' where e: "json_escape_char s = Some (t', r')" "json_string_body r' (acc @ t') = Some (t, r)"
          using "1.prems" Cons by (subst (asm) json_string_body.simps) (auto split: option.splits)
        have "length r < length r'" using "1.IH"(2) [OF Cons nq _ e(1) refl e(2)] True by simp
        with json_escape_char_shorter [OF e(1)] show ?thesis by simp
      next
        case False
        then have "json_string_body q (acc @ [c]) = Some (t, r)"
          using "1.prems" Cons nq by (subst (asm) json_string_body.simps) auto
        then have "length r < length q" using "1.IH"(1) [OF Cons nq False] by simp
        then show ?thesis by (simp add: Cons)
      qed
    qed
  qed
qed

lemma json_string_shorter: "json_string s = Some (t, r) \<Longrightarrow> length r < length s"
  using json_ws_le [of s]
  by (auto simp: json_string_def dest!: json_string_body_shorter split: list.splits if_splits)

lemma starts_with_ne: "starts_with s (c # p) \<Longrightarrow> s \<noteq> []"
  by (cases s) auto

lemma tl_ws_less: "starts_with (json_ws s) [c] \<Longrightarrow> length (tl (json_ws s)) < length s"
proof -
  assume "starts_with (json_ws s) [c]"
  then have "json_ws s \<noteq> []" by (rule starts_with_ne)
  then have "length (tl (json_ws s)) < length (json_ws s)" by simp
  also have "\<dots> \<le> length s" by (rule json_ws_le)
  finally show ?thesis .
qed

lemma ws_less: "length x < n \<Longrightarrow> length (json_ws x) < n"
  using json_ws_le [of x] by linarith

lemma ws_pred: "length x < n \<Longrightarrow> length (json_ws x) - Suc 0 < n"
  using json_ws_le [of x] by linarith

lemma ws_pred2: "length x < length (json_ws b) - Suc 0 \<Longrightarrow> length b < n \<Longrightarrow> length (json_ws x) - Suc 0 < n"
  using json_ws_le [of x] json_ws_le [of b] by linarith

text \<open>
  \<open>skip_value\<close>, \<open>skip_array\<close> and \<open>skip_object\<close> with their loops. The tests on the length of what is
  left after a nested value only serve the termination proof: a value that was skipped has consumed
  something (\<open>json_array_loop_eq\<close> and \<open>json_object_loop_eq\<close> below), so they never fail.
\<close>

function (sequential)
  json_skip_value_depth :: "nat \<Rightarrow> string \<Rightarrow> string option" and
  json_skip_array_depth :: "nat \<Rightarrow> string \<Rightarrow> string option" and
  json_array_loop :: "nat \<Rightarrow> string \<Rightarrow> string option" and
  json_skip_object_depth :: "nat \<Rightarrow> string \<Rightarrow> string option" and
  json_object_loop :: "nat \<Rightarrow> string \<Rightarrow> string option" where
  "json_skip_value_depth d s =
     (let s = json_ws s
      in if starts_with s [CHR 0x22] then map_option snd (json_string s)
         else if starts_with s ''{'' then json_skip_object_depth d s
         else if starts_with s ''['' then json_skip_array_depth d s
         else case json_lit ''true'' s of Some r \<Rightarrow> Some r
              | None \<Rightarrow> case json_lit ''false'' s of Some r \<Rightarrow> Some r
              | None \<Rightarrow> case json_lit ''null'' s of Some r \<Rightarrow> Some r
              | None \<Rightarrow> json_number s)"
| "json_skip_array_depth d s =
     (if JSON_MAX_NESTING \<le> d then None
      else let s = json_ws s
           in if \<not> starts_with s ''['' then None
              else let s = json_ws (tl s)
                   in if starts_with s '']'' then Some (tl s) else json_array_loop d s)"
| "json_array_loop d s =
     (case json_skip_value_depth (d + 1) s of
        None \<Rightarrow> None
      | Some r \<Rightarrow>
          if \<not> length r < length s then None
          else let r = json_ws r
               in if starts_with r '']'' then Some (tl r)
                  else if starts_with r '','' then json_array_loop d (tl r)
                  else None)"
| "json_skip_object_depth d s =
     (if JSON_MAX_NESTING \<le> d then None
      else let s = json_ws s
           in if \<not> starts_with s ''{'' then None
              else let s = json_ws (tl s)
                   in if starts_with s ''}'' then Some (tl s) else json_object_loop d s)"
| "json_object_loop d s =
     (case json_string s of
        None \<Rightarrow> None
      | Some (_, r) \<Rightarrow>
          let r = json_ws r
          in if \<not> starts_with r '':'' then None
             else case json_skip_value_depth (d + 1) (tl r) of
               None \<Rightarrow> None
             | Some r2 \<Rightarrow>
                 if \<not> length r2 < length (tl r) then None
                 else let r2 = json_ws r2
                      in if starts_with r2 ''}'' then Some (tl r2)
                         else if starts_with r2 '','' then json_object_loop d (tl r2)
                         else None)"
  by pat_completeness auto

termination
proof (relation "measures
    [\<lambda>x. case x of Inl (Inl (d, s)) \<Rightarrow> length s | Inl (Inr (d, s)) \<Rightarrow> length s
        | Inr (Inl (d, s)) \<Rightarrow> length s | Inr (Inr (Inl (d, s))) \<Rightarrow> length s | Inr (Inr (Inr (d, s))) \<Rightarrow> length s,
     \<lambda>x. case x of Inl (Inl _) \<Rightarrow> 1 | Inl (Inr _) \<Rightarrow> 0 | Inr (Inl _) \<Rightarrow> 2 | Inr (Inr (Inl _)) \<Rightarrow> 0
        | Inr (Inr (Inr _)) \<Rightarrow> 2]", goal_cases)
qed (auto intro: ws_less ws_pred ws_pred2 tl_ws_less le_neq_trans json_ws_le dest: json_string_shorter)

declare json_skip_value_depth.simps [simp del] json_skip_array_depth.simps [simp del]
  json_array_loop.simps [simp del] json_skip_object_depth.simps [simp del] json_object_loop.simps [simp del]

definition json_skip_value :: "string \<Rightarrow> string option" where
  "json_skip_value s = json_skip_value_depth 0 s"

text \<open>\<open>json_raw_value\<close>: the bytes of the value and what is left.\<close>

definition json_raw_value :: "string \<Rightarrow> (string \<times> string) option" where
  "json_raw_value s =
     (let start = json_ws s
      in case json_skip_value start of
           None \<Rightarrow> None
         | Some r \<Rightarrow> Some (take (length start - length r) start, r))"

fun json_minify_loop :: "bool \<Rightarrow> bool \<Rightarrow> string \<Rightarrow> string" where
  "json_minify_loop in_string escape [] = []"
| "json_minify_loop in_string escape (c # s) =
     (if in_string then
        c # (if escape then json_minify_loop True False s
             else if c = CHR 0x5C then json_minify_loop True True s
             else if c = CHR 0x22 then json_minify_loop False False s
             else json_minify_loop True False s)
      else if c = CHR 0x22 then c # json_minify_loop True escape s
      else if \<not> c_isspace c then c # json_minify_loop False escape s
      else json_minify_loop False escape s)"

definition json_minify_raw_value :: "string \<Rightarrow> string" where
  "json_minify_raw_value json =
     (let start = json_ws json
      in case json_skip_value start of
           None \<Rightarrow> json
         | Some r \<Rightarrow> json_minify_loop False False (take (length start - length r) start))"

subsection \<open>Writing strings\<close>

definition hex_lower :: "nat \<Rightarrow> char" where
  "hex_lower n = char_of (if n < 10 then 48 + n else 87 + n)"

text \<open>The escape of one byte; a \<open>u\<close> escape with four hexadecimal digits for the other control characters.\<close>

definition json_escape_byte :: "char \<Rightarrow> string" where
  "json_escape_byte c =
     (if c = CHR 0x22 \<or> c = CHR 0x5C then [CHR 0x5C, c]
      else if c = CHR 0x0A then [CHR 0x5C, CHR ''n'']
      else if c = CHR 0x0D then [CHR 0x5C, CHR ''r'']
      else if c = CHR 0x09 then [CHR 0x5C, CHR ''t'']
      else if (of_char c :: nat) < 32 then
        [CHR 0x5C, CHR ''u'', CHR ''0'', CHR ''0'', hex_lower (of_char c div 16), hex_lower (of_char c mod 16)]
      else [c])"

definition json_escape_fragment_n :: "string \<Rightarrow> string" where
  "json_escape_fragment_n s = concat (map json_escape_byte s)"

definition json_escape :: "string \<Rightarrow> string" where
  "json_escape s = [CHR 0x22] @ concat (map json_escape_byte s) @ [CHR 0x22]"

definition json_escape_n :: "string \<Rightarrow> nat \<Rightarrow> string" where
  "json_escape_n s n = json_escape (take n s)"

subsection \<open>What a reader leaves is a proper suffix\<close>

lemma suffix_ws: "suffix (json_ws s) s"
  by (simp add: json_ws_def suffix_dropWhile)

definition proper_suffix :: "string \<Rightarrow> string \<Rightarrow> bool" where
  "proper_suffix r s \<longleftrightarrow> suffix r s \<and> length r < length s"

lemma proper_suffixI [intro]: "suffix r s \<Longrightarrow> length r < length s \<Longrightarrow> proper_suffix r s"
  by (simp add: proper_suffix_def)

lemma proper_suffix_trans1: "suffix a b \<Longrightarrow> proper_suffix b c \<Longrightarrow> proper_suffix a c"
  by (auto simp: proper_suffix_def dest: suffix_length_le intro: suffix_order.trans)

lemma proper_suffix_trans2: "proper_suffix a b \<Longrightarrow> suffix b c \<Longrightarrow> proper_suffix a c"
  by (auto simp: proper_suffix_def dest: suffix_length_le intro: suffix_order.trans)

lemma suffix_Cons_self: "suffix xs (x # xs)"
  using suffix_tl [of "x # xs"] by (simp only: list.sel)

lemma proper_suffix_tl: "starts_with s (c # p) \<Longrightarrow> proper_suffix (tl s) s"
  by (cases s) (auto simp: proper_suffix_def suffix_Cons_self)

lemma json_hex4_suffix: "json_hex4 k cp s = Some (v, r) \<Longrightarrow> suffix r s"
  by (induction k cp s rule: json_hex4.induct) (auto simp: suffix_Cons split: option.splits)

lemma json_u16_suffix: "json_u16 s = Some (v, r) \<Longrightarrow> suffix r s"
  by (auto simp: json_u16_def dest!: json_hex4_suffix split: if_splits intro: suffix_order.trans suffix_drop)

lemma json_unicode_escape_suffix: "json_unicode_escape s = Some (t, r) \<Longrightarrow> suffix r s"
  by (auto simp: json_unicode_escape_def dest!: json_u16_suffix split: option.splits if_splits prod.splits
      intro: suffix_order.trans)

lemma json_escape_char_suffix: "json_escape_char s = Some (t, r) \<Longrightarrow> suffix r s"
  by (auto simp: json_escape_char_def suffix_Cons dest: json_unicode_escape_suffix split: list.splits if_splits)

lemma json_string_body_suffix: "json_string_body s acc = Some (t, r) \<Longrightarrow> suffix r s"
proof (induction s acc rule: json_string_body.induct)
  case (1 s acc)
  show ?case
  proof (cases s)
    case Nil
    with "1.prems" show ?thesis by (simp add: json_string_body.simps)
  next
    case (Cons c q)
    consider "c = CHR 0x22" | "c \<noteq> CHR 0x22" "c \<noteq> CHR 0x5C" | "c \<noteq> CHR 0x22" "c = CHR 0x5C" by blast
    then show ?thesis
    proof cases
      case 1
      with "1.prems" Cons show ?thesis by (simp add: json_string_body.simps suffix_Cons)
    next
      case 2
      then have "json_string_body q (acc @ [c]) = Some (t, r)"
        using "1.prems" Cons by (subst (asm) json_string_body.simps) auto
      with "1.IH"(1) [OF Cons 2] show ?thesis by (simp add: Cons suffix_Cons)
    next
      case 3
      then obtain t' r' where e: "json_escape_char s = Some (t', r')" "json_string_body r' (acc @ t') = Some (t, r)"
        using "1.prems" Cons by (subst (asm) json_string_body.simps) (auto split: option.splits)
      have "suffix r r'" using "1.IH"(2) [OF Cons 3(1) _ e(1) refl e(2)] 3(2) by simp
      from suffix_order.trans [OF this json_escape_char_suffix [OF e(1)]] show ?thesis .
    qed
  qed
qed

lemma json_string_suffix: "json_string s = Some (t, r) \<Longrightarrow> proper_suffix r s"
  using json_string_shorter [of s t r] suffix_ws [of s]
  by (auto simp: json_string_def dest!: json_string_body_suffix suffix_ConsD
      split: list.splits if_splits intro: suffix_order.trans)

lemma json_lit_suffix: "json_lit l s = Some r \<Longrightarrow> l \<noteq> [] \<Longrightarrow> proper_suffix r s"
  using starts_with_length [of s l]
  by (cases l) (auto simp: json_lit_def proper_suffix_def suffix_drop split: if_splits)

lemma scan_mantissa_suffix: "suffix (snd (scan_mantissa d s)) s"
proof -
  have "suffix (dropWhile d r) s" if "dropWhile d s = c # r" for c r
    using that suffix_dropWhile [of d s] suffix_dropWhile [of d r]
    by (metis suffix_ConsD suffix_order.trans)
  then show ?thesis
    using suffix_dropWhile [of d s] by (auto simp: scan_mantissa_def Let_def split: list.split)
qed

lemma scan_mantissa_pos: "0 < fst (scan_mantissa d s) \<Longrightarrow> length (snd (scan_mantissa d s)) < length s"
proof -
  assume p: "0 < fst (scan_mantissa d s)"
  have len: "length x = length (takeWhile d x) + length (dropWhile d x)" for x
    by (metis length_append takeWhile_dropWhile_id)
  show ?thesis
  proof (cases "dropWhile d s")
    case Nil
    show ?thesis using p len [of s] unfolding scan_mantissa_def Let_def Nil by simp
  next
    case (Cons c r)
    with p len [of s] len [of r] show ?thesis
      by (cases "c = CHR ''.''") (simp_all add: scan_mantissa_def Let_def)
  qed
qed

lemma scan_exponent_suffix: "suffix (scan_exponent e s) s"
proof -
  have "suffix (dropWhile c_isdigit q) q" for q by (rule suffix_dropWhile)
  then show ?thesis
    by (auto simp: scan_exponent_def Let_def suffix_Cons split: list.split)
qed

lemma scan_nan_suffix: "suffix (scan_nan r) r"
proof -
  have "suffix (tl (dropWhile nan_char (tl r))) r"
    by (meson suffix_dropWhile suffix_order.trans suffix_tl)
  then show ?thesis by (simp add: scan_nan_def)
qed

lemma strtod_rest_suffix: "strtod_rest s = Some r \<Longrightarrow> proper_suffix r s"
proof -
  define t where "t = dropWhile c_isspace s"
  define u where "u = (case t of c # r \<Rightarrow> if c = CHR ''+'' \<or> c = CHR ''-'' then r else t | [] \<Rightarrow> t)"
  have u: "suffix u s"
  proof -
    have "suffix u t" by (auto simp: u_def suffix_Cons split: list.split)
    then show ?thesis unfolding t_def using suffix_dropWhile suffix_order.trans by blast
  qed
  have l: "length p \<le> length u" if "lower_starts_with u p" for p
    using starts_with_length that by (fastforce simp: lower_starts_with_def)
  have m: "suffix (scan_exponent e (snd (scan_mantissa d v))) v \<and>
      length (scan_exponent e (snd (scan_mantissa d v))) < length v" if "0 < fst (scan_mantissa d v)" for e d v
    using scan_exponent_suffix scan_mantissa_suffix scan_mantissa_pos [OF that]
    by (meson le_less_trans suffix_length_le suffix_order.trans)
  assume s: "strtod_rest s = Some r"
  consider "lower_starts_with u ''infinity''" "r = drop 8 u" | "lower_starts_with u ''inf''" "r = drop 3 u"
    | "lower_starts_with u ''nan''" "r = scan_nan (drop 3 u)"
    | "lower_starts_with u ''0x''" "0 < fst (scan_mantissa c_isxdigit (drop 2 u))"
      "r = scan_exponent CHR ''p'' (snd (scan_mantissa c_isxdigit (drop 2 u)))"
    | "0 < fst (scan_mantissa c_isdigit u)" "r = scan_exponent CHR ''e'' (snd (scan_mantissa c_isdigit u))"
    using s unfolding strtod_rest_def Let_def t_def [symmetric] u_def [symmetric] by (auto split: if_splits)
  then have "proper_suffix r u"
  proof cases
    case 1
    with l [of "''infinity''"] show ?thesis by (auto simp: proper_suffix_def suffix_drop)
  next
    case 2
    with l [of "''inf''"] show ?thesis by (auto simp: proper_suffix_def suffix_drop)
  next
    case 3
    have "suffix r (drop 3 u)" using 3 scan_nan_suffix by simp
    moreover have "proper_suffix (drop 3 u) u" using l [OF 3(1)] by (auto simp: proper_suffix_def suffix_drop)
    ultimately show ?thesis by (rule proper_suffix_trans1)
  next
    case 4
    have "proper_suffix r (drop 2 u)" using m [OF 4(2)] 4(3) by (simp add: proper_suffix_def)
    then show ?thesis using suffix_drop by (rule proper_suffix_trans2)
  next
    case 5
    then show ?thesis using m [OF 5(1)] by (simp add: proper_suffix_def)
  qed
  then show "proper_suffix r s" using u by (rule proper_suffix_trans2)
qed

subsection \<open>Skipping consumes\<close>

lemma json_skip_suffix_all:
  shows "json_skip_value_depth d s = Some r \<Longrightarrow> proper_suffix r s"
    and "json_skip_array_depth d s = Some r \<Longrightarrow> proper_suffix r s"
    and "json_array_loop d s = Some r \<Longrightarrow> proper_suffix r s"
    and "json_skip_object_depth d s = Some r \<Longrightarrow> proper_suffix r s"
    and "json_object_loop d s = Some r \<Longrightarrow> proper_suffix r s"
proof (induction d s and d s and d s and d s and d s arbitrary: r and r and r and r and r
    rule: json_skip_value_depth_json_skip_array_depth_json_array_loop_json_skip_object_depth_json_object_loop.induct)
  case (1 d s)
  have "proper_suffix r (json_ws s)"
  proof -
    consider (str) x where "json_string (json_ws s) = Some (x, r)"
      | (obj) "\<not> starts_with (json_ws s) [CHR 0x22]" "starts_with (json_ws s) ''{''"
          "json_skip_object_depth d (json_ws s) = Some r"
      | (arr) "\<not> starts_with (json_ws s) [CHR 0x22]" "\<not> starts_with (json_ws s) ''{''"
          "starts_with (json_ws s) ''[''" "json_skip_array_depth d (json_ws s) = Some r"
      | (lit) l where "l \<noteq> []" "json_lit l (json_ws s) = Some r"
      | (num) "json_number (json_ws s) = Some r"
      using "1.prems"
      by (subst (asm) json_skip_value_depth.simps) (auto simp: Let_def split: if_splits option.splits)
    then show ?thesis
    proof cases
      case str
      then show ?thesis by (rule json_string_suffix)
    next
      case obj
      with "1.IH"(1) show ?thesis by blast
    next
      case arr
      with "1.IH"(2) show ?thesis by blast
    next
      case lit
      then show ?thesis using json_lit_suffix by blast
    next
      case num
      then show ?thesis unfolding json_number_def
        using proper_suffix_trans2 [OF strtod_rest_suffix suffix_ws] by blast
    qed
  qed
  then show ?case using suffix_ws by (rule proper_suffix_trans2)
next
  case (2 d s)
  let ?s = "json_ws s"
  have c: "starts_with ?s ''[''" "\<not> JSON_MAX_NESTING \<le> d"
    using "2.prems" by (auto simp: json_skip_array_depth.simps Let_def split: if_splits)
  have t: "proper_suffix (json_ws (tl ?s)) s"
    using proper_suffix_trans2 [OF proper_suffix_trans1 [OF suffix_ws proper_suffix_tl [OF c(1)]] suffix_ws] .
  show ?case
  proof (cases "starts_with (json_ws (tl ?s)) '']''")
    case True
    then have "r = tl (json_ws (tl ?s))" using "2.prems" c by (simp add: json_skip_array_depth.simps Let_def)
    with proper_suffix_trans1 [OF suffix_tl t] show ?thesis by simp
  next
    case False
    then have "json_array_loop d (json_ws (tl ?s)) = Some r"
      using "2.prems" c by (simp add: json_skip_array_depth.simps Let_def)
    with "2.IH" c False have "proper_suffix r (json_ws (tl ?s))" by blast
    with t show ?thesis by (meson proper_suffix_def proper_suffix_trans2)
  qed
next
  case (3 d s)
  obtain r1 where r1: "json_skip_value_depth (d + 1) s = Some r1" "length r1 < length s"
    using "3.prems" by (subst (asm) json_array_loop.simps) (auto split: option.splits if_splits)
  have p1: "proper_suffix r1 s" using "3.IH"(1) r1 by blast
  have t: "proper_suffix (tl (json_ws r1)) s"
    using p1 by (meson proper_suffix_trans1 suffix_order.trans suffix_tl suffix_ws)
  show ?case
  proof (cases "starts_with (json_ws r1) '']''")
    case True
    then have "r = tl (json_ws r1)" using "3.prems" r1 by (subst (asm) json_array_loop.simps) (simp add: Let_def)
    with t show ?thesis by simp
  next
    case False
    then have c: "starts_with (json_ws r1) '',''" and "json_array_loop d (tl (json_ws r1)) = Some r"
      using "3.prems" r1 by (subst (asm) json_array_loop.simps, auto simp: Let_def split: if_splits)+
    with "3.IH"(2) r1 False have "proper_suffix r (tl (json_ws r1))" by blast
    with t show ?thesis by (meson proper_suffix_def proper_suffix_trans2)
  qed
next
  case (4 d s)
  let ?s = "json_ws s"
  have c: "starts_with ?s ''{''" "\<not> JSON_MAX_NESTING \<le> d"
    using "4.prems" by (auto simp: json_skip_object_depth.simps Let_def split: if_splits)
  have t: "proper_suffix (json_ws (tl ?s)) s"
    using proper_suffix_trans2 [OF proper_suffix_trans1 [OF suffix_ws proper_suffix_tl [OF c(1)]] suffix_ws] .
  show ?case
  proof (cases "starts_with (json_ws (tl ?s)) ''}''")
    case True
    then have "r = tl (json_ws (tl ?s))" using "4.prems" c by (simp add: json_skip_object_depth.simps Let_def)
    with proper_suffix_trans1 [OF suffix_tl t] show ?thesis by simp
  next
    case False
    then have "json_object_loop d (json_ws (tl ?s)) = Some r"
      using "4.prems" c by (simp add: json_skip_object_depth.simps Let_def)
    with "4.IH" c False have "proper_suffix r (json_ws (tl ?s))" by blast
    with t show ?thesis by (meson proper_suffix_def proper_suffix_trans2)
  qed
next
  case (5 d s)
  obtain k r0 r1 where r0: "json_string s = Some (k, r0)" "starts_with (json_ws r0) '':''"
    and r1: "json_skip_value_depth (d + 1) (tl (json_ws r0)) = Some r1" "length r1 < length (tl (json_ws r0))"
    using "5.prems" by (subst (asm) json_object_loop.simps) (auto simp: Let_def split: option.splits if_splits)
  have p0: "proper_suffix (tl (json_ws r0)) s"
    using json_string_suffix [OF r0(1)] by (meson proper_suffix_trans1 suffix_order.trans suffix_tl suffix_ws)
  have p1: "proper_suffix r1 (tl (json_ws r0))" using "5.IH"(1) r0 r1 by blast
  then have "proper_suffix r1 s" using p0 by (meson proper_suffix_def proper_suffix_trans2)
  then have t: "proper_suffix (tl (json_ws r1)) s"
    by (meson proper_suffix_trans1 suffix_order.trans suffix_tl suffix_ws)
  show ?case
  proof (cases "starts_with (json_ws r1) ''}''")
    case True
    then have "r = tl (json_ws r1)" using "5.prems" r0 r1 by (subst (asm) json_object_loop.simps) (simp add: Let_def)
    with t show ?thesis by simp
  next
    case False
    then have c: "starts_with (json_ws r1) '',''" and "json_object_loop d (tl (json_ws r1)) = Some r"
      using "5.prems" r0 r1 by (subst (asm) json_object_loop.simps, auto simp: Let_def split: if_splits)+
    with "5.IH"(2) r0 r1 False have "proper_suffix r (tl (json_ws r1))" by blast
    with t show ?thesis by (meson proper_suffix_def proper_suffix_trans2)
  qed
qed

lemmas json_skip_value_suffix = json_skip_suffix_all(1)

text \<open>With this the loops obey the equations of the code, without the tests on lengths.\<close>

lemma json_array_loop_eq:
  "json_array_loop d s =
     (case json_skip_value_depth (d + 1) s of
        None \<Rightarrow> None
      | Some r \<Rightarrow> let r = json_ws r
                  in if starts_with r '']'' then Some (tl r)
                     else if starts_with r '','' then json_array_loop d (tl r) else None)"
  using json_skip_value_suffix [of "d + 1" s]
  by (subst json_array_loop.simps) (auto simp: proper_suffix_def split: option.split)

lemma json_object_loop_eq:
  "json_object_loop d s =
     (case json_string s of
        None \<Rightarrow> None
      | Some (_, r) \<Rightarrow>
          let r = json_ws r
          in if \<not> starts_with r '':'' then None
             else case json_skip_value_depth (d + 1) (tl r) of
               None \<Rightarrow> None
             | Some r2 \<Rightarrow> let r2 = json_ws r2
                          in if starts_with r2 ''}'' then Some (tl r2)
                             else if starts_with r2 '','' then json_object_loop d (tl r2) else None)"
proof -
  have "length r2 < length (tl q)" if "json_skip_value_depth (d + 1) (tl q) = Some r2" for q r2
    using json_skip_value_suffix [OF that] by (simp add: proper_suffix_def)
  then show ?thesis
    by (subst json_object_loop.simps) (auto simp: Let_def split: option.split)
qed

subsection \<open>Strings round-trip\<close>

lemma json_hex_lower: "n < 16 \<Longrightarrow> json_hex (hex_lower n) = Some (of_nat n)"
  by (auto simp: json_hex_def hex_lower_def Let_def of_char_of take_bit_eq_mod)

lemma json_hex_0: "json_hex CHR ''0'' = Some 0"
  by (simp add: json_hex_def)

lemma control_code:
  assumes "n < 32"
  shows "push_bit 4 (of_nat (n div 16)) OR of_nat (n mod 16) = (of_nat n :: u32)"
    "utf8_put (of_nat n) = [char_of n]" "\<not> 0xd800 \<le> (of_nat n :: u32)"
proof -
  have n: "n \<in> {0, 1, 2, 3, 4, 5, 6, 7, 8, 9, 10, 11, 12, 13, 14, 15, 16, 17, 18, 19, 20, 21, 22, 23, 24,
      25, 26, 27, 28, 29, 30, 31}"
    using assms by simp presburger
  then show "push_bit 4 (of_nat (n div 16)) OR of_nat (n mod 16) = (of_nat n :: u32)" by auto
  have u: "unat (of_nat n :: u32) = n" using assms by (simp add: unat_of_nat take_bit_eq_mod)
  have l: "of_nat n \<le> (m :: u32) \<longleftrightarrow> n \<le> unat m" "m \<le> of_nat n \<longleftrightarrow> unat m \<le> n"
    "m < of_nat n \<longleftrightarrow> unat m < n" for m
    using u by (simp_all add: word_le_nat_alt word_less_nat_alt)
  show "utf8_put (of_nat n) = [char_of n]" "\<not> 0xd800 \<le> (of_nat n :: u32)"
    using assms by (simp_all add: utf8_put_def l byte_char_def u Let_def)
qed

lemma json_hex4_4: "json_hex4 4 cp s = json_hex4 (Suc (Suc (Suc (Suc 0)))) cp s"
proof -
  have "4 = Suc (Suc (Suc (Suc 0)))" by simp
  then show ?thesis by (rule arg_cong)
qed

lemma json_string_body_quote: "json_string_body (CHR 0x22 # r) acc = Some (acc, r)"
  by (subst json_string_body.simps) simp

lemma json_string_body_plain:
  "c \<noteq> CHR 0x22 \<Longrightarrow> c \<noteq> CHR 0x5C \<Longrightarrow> json_string_body (c # r) acc = json_string_body r (acc @ [c])"
  by (subst json_string_body.simps) simp

lemma json_string_body_escaped:
  "json_string_body (CHR 0x5C # r) acc =
     (case json_escape_char (CHR 0x5C # r) of None \<Rightarrow> None | Some (t, r) \<Rightarrow> json_string_body r (acc @ t))"
  by (subst json_string_body.simps) simp

lemma json_string_body_byte:
  "json_string_body (json_escape_byte c @ r) acc = json_string_body r (acc @ [c])"
proof -
  define n where "n = (of_char c :: nat)"
  have c: "c = char_of n" by (simp add: n_def)
  show ?thesis
  proof (cases "json_escape_byte c = [CHR 0x5C, CHR ''u'', CHR ''0'', CHR ''0'', hex_lower (n div 16), hex_lower (n mod 16)]")
    case True
    then have n: "n < 32" by (auto simp: json_escape_byte_def n_def split: if_splits)
    then have "n div 16 < 16" "n mod 16 < 16" by simp_all
    then have "json_unicode_escape (json_escape_byte c @ r) = Some ([c], r)"
      using control_code(1,3) [OF n] control_code(2) [OF n, folded c]
      by (simp add: True json_unicode_escape_def json_u16_def json_hex4_4 json_hex_0 json_hex_lower)
    then show ?thesis
      by (simp add: True json_string_body_escaped json_escape_char_def)
  next
    case False
    then show ?thesis
      by (auto simp: json_escape_byte_def n_def json_escape_char_def json_string_body_escaped
          json_string_body_plain split: if_splits)
  qed
qed

lemma json_string_body_escape:
  "json_string_body (json_escape_fragment_n s @ CHR 0x22 # r) acc = Some (acc @ s, r)"
proof (induction s arbitrary: acc)
  case Nil
  show ?case by (simp add: json_escape_fragment_n_def json_string_body_quote)
next
  case (Cons c s)
  then show ?case by (simp add: json_escape_fragment_n_def json_string_body_byte)
qed

lemma json_string_escape [simp]: "json_string (json_escape s @ r) = Some (s, r)"
  using json_string_body_escape [of s r "[]"]
  by (simp add: json_string_def json_escape_def json_ws_def c_isspace_def json_escape_fragment_n_def)

subsection \<open>Values and their text\<close>

text \<open>JSON values as the code writes them, with numbers in decimal digits.\<close>

datatype json = JNull | JBool bool | JNum string | JStr string | JArr "json list" | JObj "(string \<times> json) list"

fun join_comma :: "string list \<Rightarrow> string" where
  "join_comma [] = []"
| "join_comma [x] = x"
| "join_comma (x # y # ys) = x @ '','' @ join_comma (y # ys)"

fun json_text :: "json \<Rightarrow> string" where
  "json_text JNull = ''null''"
| "json_text (JBool b) = (if b then ''true'' else ''false'')"
| "json_text (JNum ds) = ds"
| "json_text (JStr t) = json_escape t"
| "json_text (JArr vs) = ''['' @ join_comma (map json_text vs) @ '']''"
| "json_text (JObj kvs) = ''{'' @ join_comma (map (\<lambda>(k, v). json_escape k @ '':'' @ json_text v) kvs) @ ''}''"

fun json_depth :: "json \<Rightarrow> nat" where
  "json_depth (JArr vs) = Suc (foldr max (map json_depth vs) 0)"
| "json_depth (JObj kvs) = Suc (foldr max (map (\<lambda>(k, v). json_depth v) kvs) 0)"
| "json_depth _ = 0"

fun json_ok :: "json \<Rightarrow> bool" where
  "json_ok (JNum ds) \<longleftrightarrow> ds \<noteq> [] \<and> list_all c_isdigit ds"
| "json_ok (JArr vs) \<longleftrightarrow> list_all json_ok vs"
| "json_ok (JObj kvs) \<longleftrightarrow> list_all (\<lambda>(k, v). json_ok v) kvs"
| "json_ok _ \<longleftrightarrow> True"

text \<open>What may follow a value: the end, a comma or a closing bracket.\<close>

definition json_follow :: "string \<Rightarrow> bool" where
  "json_follow r \<longleftrightarrow> r = [] \<or> hd r \<in> set '',]}''"

definition json_start :: "char \<Rightarrow> bool" where
  "json_start c \<longleftrightarrow> c_isdigit c \<or> c \<in> set ''ntf[{'' \<or> c = CHR 0x22"

lemma json_start_not_space: "json_start c \<Longrightarrow> \<not> c_isspace c"
  by (auto simp: json_start_def c_isdigit_def c_isspace_def)

lemma json_ws_start [simp]: "\<not> c_isspace c \<Longrightarrow> json_ws (c # s) = c # s"
  by (simp add: json_ws_def)

lemma json_text_start: "json_ok v \<Longrightarrow> \<exists>c s. json_text v = c # s \<and> json_start c"
  by (cases v) (auto simp: json_start_def json_escape_def list_all_iff neq_Nil_conv)

lemma json_digits_rest:
  assumes "ds \<noteq> []" "list_all c_isdigit ds" "json_follow r"
  shows "strtod_rest (ds @ r) = Some r"
proof -
  obtain d es where ds: "ds = d # es" using assms(1) by (cases ds) auto
  have d: "c_isdigit d" using assms(2) ds by simp
  then have ns: "\<not> c_isspace d" "d \<noteq> CHR ''+''" "d \<noteq> CHR ''-''"
    by (auto simp: c_isdigit_def c_isspace_def)
  have low: "c_tolower c = c" "c \<notin> set ''inx''" if "c_isdigit c" for c
    using that by (auto simp: c_isdigit_def c_tolower_def)
  have rc: "\<not> c_isdigit c" "c \<noteq> CHR ''.''" "c_tolower c \<noteq> CHR ''e''" "c_tolower c \<noteq> CHR ''x''"
    if "r = c # q" for c q
    using assms(3) that by (auto simp: json_follow_def c_isdigit_def c_tolower_def)
  have nx: "\<not> lower_starts_with (ds @ r) ''0x''"
  proof (cases es)
    case Nil
    then show ?thesis using rc(4) by (cases r) (auto simp: lower_starts_with_def ds)
  next
    case (Cons e fs)
    then show ?thesis using low [of e] assms(2) by (auto simp: lower_starts_with_def ds)
  qed
  have ni: "\<not> lower_starts_with (ds @ r) (c # p)" if "c \<in> set ''in''" for c p
    using low [OF d] that by (auto simp: lower_starts_with_def ds)
  have tw: "takeWhile c_isdigit (ds @ r) = ds" "dropWhile c_isdigit (ds @ r) = r"
    using assms(2) rc(1) by (cases r; simp add: list_all_iff takeWhile_append2 dropWhile_append2)+
  have sm: "scan_mantissa c_isdigit (ds @ r) = (length ds, r)"
    unfolding scan_mantissa_def tw Let_def using rc(2) by (cases r) auto
  have se: "scan_exponent CHR ''e'' r = r" using rc(3) by (cases r) (auto simp: scan_exponent_def)
  have ws: "dropWhile c_isspace (ds @ r) = ds @ r" using ns ds by simp
  have sg: "(case ds @ r of c # q \<Rightarrow> if c = CHR ''+'' \<or> c = CHR ''-'' then q else ds @ r | [] \<Rightarrow> ds @ r) = ds @ r"
    using ns ds by simp
  show ?thesis
    unfolding strtod_rest_def ws Let_def sg using nx ni [of "CHR ''i''"] ni [of "CHR ''n''"] sm se assms(1) by simp
qed

lemma json_array_loop_values:
  assumes "vs \<noteq> []"
    and "\<And>v r. v \<in> set vs \<Longrightarrow> json_follow r \<Longrightarrow> json_skip_value_depth (Suc d) (json_text v @ r) = Some r"
  shows "json_array_loop d (join_comma (map json_text vs) @ '']'' @ r) = Some r"
  using assms
proof (induction vs rule: induct_list012)
  case 1
  then show ?case by simp
next
  case (2 v)
  then show ?case by (subst json_array_loop_eq) (simp add: json_follow_def c_isspace_def)
next
  case (3 v w ws)
  then have "json_array_loop d (join_comma (map json_text (w # ws)) @ '']'' @ r) = Some r" by simp
  then show ?case using "3.prems"(2) [of v]
    by (subst json_array_loop_eq) (simp add: json_follow_def c_isspace_def)
qed

lemma json_object_loop_values:
  assumes "kvs \<noteq> []"
    and "\<And>k v r. (k, v) \<in> set kvs \<Longrightarrow> json_follow r \<Longrightarrow> json_skip_value_depth (Suc d) (json_text v @ r) = Some r"
  shows "json_object_loop d (join_comma (map (\<lambda>(k, v). json_escape k @ '':'' @ json_text v) kvs) @ ''}'' @ r) = Some r"
  using assms
proof (induction kvs rule: induct_list012)
  case 1
  then show ?case by simp
next
  case (2 kv)
  obtain k v where kv: "kv = (k, v)" by (cases kv)
  then show ?case using 2(2) [of k v]
    by (subst json_object_loop_eq) (simp add: json_follow_def c_isspace_def)
next
  case (3 kv w ws)
  obtain k v where kv: "kv = (k, v)" by (cases kv)
  have "json_object_loop d (join_comma (map (\<lambda>(k, v). json_escape k @ '':'' @ json_text v) (w # ws)) @ ''}'' @ r) = Some r"
    using 3 by (metis list.distinct(1) list.set_intros(2))
  then show ?case using "3.prems"(2) [of k v] kv
    by (subst json_object_loop_eq) (simp add: json_follow_def c_isspace_def)
qed

lemma foldr_max_ge: "x \<in> set xs \<Longrightarrow> x \<le> foldr max xs (0::nat)"
  by (induction xs) auto

lemma json_array_text_ws:
  "vs \<noteq> [] \<Longrightarrow> list_all json_ok vs \<Longrightarrow> \<exists>c s. join_comma (map json_text vs) @ q = c # s \<and> json_start c"
  by (cases vs; cases "tl vs") (auto dest!: json_text_start)

lemma json_object_text_ws:
  "kvs \<noteq> [] \<Longrightarrow> \<exists>s. join_comma (map (\<lambda>(k, v). json_escape k @ '':'' @ json_text v) kvs) @ q = CHR 0x22 # s"
  by (cases kvs; cases "tl kvs") (auto simp: json_escape_def split_beta)

lemma json_skip_text:
  "json_ok v \<Longrightarrow> json_depth v + d \<le> JSON_MAX_NESTING \<Longrightarrow> json_follow r \<Longrightarrow>
     json_skip_value_depth d (json_text v @ r) = Some r"
proof (induction v arbitrary: d r)
  case JNull
  then show ?case by (subst json_skip_value_depth.simps) (simp add: json_lit_def c_isspace_def)
next
  case (JBool b)
  then show ?case by (subst json_skip_value_depth.simps) (simp add: json_lit_def c_isspace_def)
next
  case (JNum ds)
  then obtain c es where ds: "ds = c # es" "c_isdigit c" by (cases ds) auto
  then have c: "\<not> c_isspace c" "c \<notin> set ''{[tfn''" "c \<noteq> CHR 0x22"
    by (auto simp: c_isdigit_def c_isspace_def)
  have "json_number (ds @ r) = Some r"
    using json_digits_rest [of ds r] JNum c ds by (simp add: json_number_def)
  then show ?case using c ds by (subst json_skip_value_depth.simps) (simp add: json_lit_def Let_def)
next
  case (JStr t)
  have "json_ws (json_escape t @ r) = json_escape t @ r" "starts_with (json_escape t @ r) [CHR 0x22]"
    by (simp_all add: json_escape_def c_isspace_def)
  then show ?case by (subst json_skip_value_depth.simps) simp
next
  case (JArr vs)
  have ih: "json_skip_value_depth (Suc d) (json_text v @ r) = Some r" if "v \<in> set vs" "json_follow r" for v r
  proof -
    have "json_depth v \<le> foldr max (map json_depth vs) 0" using that(1) by (intro foldr_max_ge) simp
    with that JArr show ?thesis by (simp add: list_all_iff)
  qed
  have d: "\<not> JSON_MAX_NESTING \<le> d" using JArr.prems(2) by simp
  show ?case
  proof (cases "vs = []")
    case True
    then show ?thesis using d
      by (subst json_skip_value_depth.simps) (simp add: c_isspace_def json_skip_array_depth.simps)
  next
    case False
    with JArr.prems(1) json_array_text_ws [of vs "'']'' @ r"] obtain c s where
      cs: "join_comma (map json_text vs) @ '']'' @ r = c # s" "json_start c" by auto
    then have c: "\<not> c_isspace c" "c \<noteq> CHR '']''" by (auto simp: json_start_def c_isdigit_def c_isspace_def)
    have "json_array_loop d (c # s) = Some r"
      unfolding cs(1) [symmetric] by (rule json_array_loop_values [OF False ih])
    then show ?thesis using d c cs(1)
      by (subst json_skip_value_depth.simps) (simp add: c_isspace_def json_skip_array_depth.simps)
  qed
next
  case (JObj kvs)
  have ih: "json_skip_value_depth (Suc d) (json_text v @ r) = Some r" if "(k, v) \<in> set kvs" "json_follow r" for k v r
  proof -
    have "json_depth v \<le> foldr max (map (\<lambda>(k, v). json_depth v) kvs) 0"
      using that(1) by (intro foldr_max_ge) (auto intro!: rev_image_eqI)
    with that JObj show ?thesis by (fastforce simp: list_all_iff)
  qed
  have d: "\<not> JSON_MAX_NESTING \<le> d" using JObj.prems(2) by simp
  show ?case
  proof (cases "kvs = []")
    case True
    then show ?thesis using d
      by (subst json_skip_value_depth.simps) (simp add: c_isspace_def json_skip_object_depth.simps)
  next
    case False
    with json_object_text_ws [of kvs "''}'' @ r"] obtain s where
      cs: "join_comma (map (\<lambda>(k, v). json_escape k @ '':'' @ json_text v) kvs) @ ''}'' @ r = CHR 0x22 # s" by auto
    have "json_object_loop d (CHR 0x22 # s) = Some r"
      unfolding cs [symmetric] by (rule json_object_loop_values [OF False ih])
    then show ?thesis using d cs
      by (subst json_skip_value_depth.simps) (simp add: c_isspace_def json_skip_object_depth.simps)
  qed
qed

lemma json_raw_value_text:
  "json_ok v \<Longrightarrow> json_depth v \<le> JSON_MAX_NESTING \<Longrightarrow> json_follow r \<Longrightarrow>
     json_raw_value (json_text v @ r) = Some (json_text v, r)"
proof -
  assume a: "json_ok v" "json_depth v \<le> JSON_MAX_NESTING" "json_follow r"
  obtain c s where "json_text v = c # s" "json_start c" using json_text_start [OF a(1)] by auto
  then have "json_ws (json_text v @ r) = json_text v @ r" by (simp add: json_start_not_space)
  with json_skip_text [OF a(1) _ a(3), of 0] a(2) show ?thesis
    by (simp add: json_raw_value_def json_skip_value_def)
qed

subsection \<open>Nesting\<close>

lemma json_too_deep:
  "JSON_MAX_NESTING < d + n \<Longrightarrow> d \<le> JSON_MAX_NESTING \<Longrightarrow>
     json_skip_value_depth d (replicate n (CHR ''['') @ s) = None"
proof (induction n arbitrary: d)
  case 0
  then show ?case by simp
next
  case (Suc n)
  have v: "json_skip_value_depth d (CHR ''['' # q) = json_skip_array_depth d (CHR ''['' # q)" for q
    by (subst json_skip_value_depth.simps) (simp add: c_isspace_def)
  show ?case
  proof (cases "d = JSON_MAX_NESTING")
    case True
    with v show ?thesis by (simp add: json_skip_array_depth.simps)
  next
    case False
    then have d: "d < JSON_MAX_NESTING" using Suc.prems(2) by simp
    then obtain m where m: "n = Suc m" using Suc.prems(1) by (cases n) auto
    have ws: "json_ws (replicate n (CHR ''['') @ s) = replicate n (CHR ''['') @ s"
      by (simp add: m c_isspace_def)
    have "json_skip_value_depth (Suc d) (replicate n (CHR ''['') @ s) = None"
      using Suc.IH [of "Suc d"] Suc.prems(1) d by simp
    then have "json_array_loop d (replicate n (CHR ''['') @ s) = None"
      by (subst json_array_loop_eq) simp
    moreover have "\<not> starts_with (replicate n (CHR ''['') @ s) '']''" by (simp add: m)
    ultimately show ?thesis using d ws
      by (simp add: v json_skip_array_depth.simps c_isspace_def)
  qed
qed

fun json_nested :: "nat \<Rightarrow> json" where
  "json_nested 0 = JArr []"
| "json_nested (Suc n) = JArr [json_nested n]"

lemma json_nested_text: "json_text (json_nested n) = replicate (Suc n) (CHR ''['') @ replicate (Suc n) (CHR '']'')"
  by (induction n) (simp_all add: replicate_app_Cons_same)

lemma json_nested_depth: "json_depth (json_nested n) = Suc n" "json_ok (json_nested n)"
  by (induction n) simp_all

subsection \<open>Properties\<close>

text \<open>
  C7: strings survive the round trip. Every byte string, quotes, backslashes and control bytes
  included, reads back as itself after it was escaped, whatever follows; and the escaped form holds
  no raw control byte, so it cannot break the line structure of a stream.
\<close>

theorem json_string_roundtrip:
  "json_string (json_escape s @ r) = Some (s, r) \<and> list_all (\<lambda>c. 32 \<le> (of_char c :: nat)) (json_escape s)"
proof
  show "json_string (json_escape s @ r) = Some (s, r)" by simp
  have "list_all (\<lambda>c. 32 \<le> (of_char c :: nat)) (json_escape_byte c)" for c
    by (auto simp: json_escape_byte_def hex_lower_def of_char_of take_bit_eq_mod)
  then show "list_all (\<lambda>c. 32 \<le> (of_char c :: nat)) (json_escape s)"
    by (auto simp: json_escape_def list_all_iff)
qed


definition json_example :: json where
  "json_example = JObj [(''a'', JArr [JNum ''12'', JStr ''x'']), (''b'', JNull)]"


text \<open>Nesting is bounded. The reader follows at most 256 levels: more opening brackets are refused
  whatever follows them, so the recursion of the code is bounded, and 256 levels are accepted.
\<close>

theorem json_nesting_bound:
  "json_skip_value (replicate n (CHR ''['') @ replicate n (CHR '']'')) =
     (if 0 < n \<and> n \<le> 256 then Some [] else None) \<and>
   json_skip_value (replicate (257 + n) (CHR ''['') @ s) = None"
proof
  show "json_skip_value (replicate (257 + n) (CHR ''['') @ s) = None"
    unfolding json_skip_value_def by (rule json_too_deep) (simp_all add: JSON_MAX_NESTING_def)
  show "json_skip_value (replicate n (CHR ''['') @ replicate n (CHR '']'')) =
     (if 0 < n \<and> n \<le> 256 then Some [] else None)"
  proof (cases n)
    case 0
    then show ?thesis
      by (simp add: json_skip_value_def json_skip_value_depth.simps json_ws_def json_lit_def json_number_def
          strtod_rest_def scan_mantissa_def lower_starts_with_def)
  next
    case (Suc m)
    show ?thesis
    proof (cases "n \<le> 256")
      case True
      then show ?thesis
        using json_skip_text [of "json_nested m" 0 "[]"] Suc
        by (simp add: json_nested_text json_nested_depth JSON_MAX_NESTING_def json_follow_def json_skip_value_def
            del: replicate.simps)
    next
      case False
      then show ?thesis
        using json_too_deep [of 0 n "replicate n (CHR '']'')"]
        by (simp add: JSON_MAX_NESTING_def json_skip_value_def)
    qed
  qed
qed

end
