(* ===== verification/JsonApi.thy ===== *)
theory JsonApi
  imports Json
begin

text \<open>
  Reading request bodies (\<open>ds4_server.c\<close>): every API object is read by the same two loops, the
  member loop \<open>while (**p && **p != '}') ...\<close> over \<open>"key": value\<close> pairs and the element loop
  \<open>while (**p && **p != ']') ...\<close>, which differ only in what they do with a key or an element. The
  loops are modelled once, with the treatment of a member (or an element) as an argument; a reader
  takes the text at \<open>*p\<close> and the values the C code writes through its pointers, and returns those
  values (also when it fails, since the C code does not undo its writes) together with the rest of
  the text, or None when it returns false.

  The locales \<open>json_field\<close> and \<open>json_element\<close> state what such an argument has to guarantee for the
  loop to end and to stay inside the text; \<open>json_field_meaning\<close> and \<open>json_element_meaning\<close> what it
  has to guarantee for the loop to compute a fold over the parsed JSON value.
\<close>

type_synonym 's reader = "string \<Rightarrow> 's \<Rightarrow> 's \<times> string option"

named_theorems reader_suffix \<open>what a reader leaves is a tail of what it was given\<close>

subsection \<open>Values\<close>

text \<open>A decoded string is a C string: the code sees it up to a NUL that \<open>\u0000\<close> may have put in.\<close>

definition c_str :: "string \<Rightarrow> string" where
  "c_str s = takeWhile (\<lambda>c. c \<noteq> CHR 0x00) s"

definition json_cstring :: "string \<Rightarrow> (string \<times> string) option" where
  "json_cstring s = (case json_string s of None \<Rightarrow> None | Some (t, r) \<Rightarrow> Some (c_str t, r))"

definition read_into :: "(string \<Rightarrow> ('a \<times> string) option) \<Rightarrow> ('a \<Rightarrow> 's \<Rightarrow> 's) \<Rightarrow> 's reader" where
  "read_into get put s st = (case get s of None \<Rightarrow> (st, None) | Some (v, r) \<Rightarrow> (put v st, Some r))"

definition skip_member :: "'s reader" where
  "skip_member s st = (st, json_skip_value s)"

definition json_comma :: "string \<Rightarrow> string" where
  "json_comma s = (let s = json_ws s in json_ws (if starts_with s '','' then tl s else s))"

definition json_close :: "char \<Rightarrow> string \<Rightarrow> string option" where
  "json_close c s = (if starts_with s [c] then Some (tl s) else None)"

subsection \<open>The member loop and the element loop\<close>

function json_members_loop :: "(string \<Rightarrow> 's reader) \<Rightarrow> 's reader" where
  "json_members_loop field s st =
     (if s = [] \<or> hd s = CHR ''}'' then (st, Some s)
      else case json_cstring s of
        None \<Rightarrow> (st, None)
      | Some (key, s1) \<Rightarrow>
          (let s2 = json_ws s1 in
           if \<not> starts_with s2 '':'' then (st, None)
           else case field key (tl s2) st of
             (st', None) \<Rightarrow> (st', None)
           | (st', Some s3) \<Rightarrow>
               if length (json_comma s3) < length s then json_members_loop field (json_comma s3) st'
               else (st', None)))"
  by pat_completeness auto
termination by (relation "measure (\<lambda>(_, s, _). length s)") auto

definition json_members :: "(string \<Rightarrow> 's reader) \<Rightarrow> 's reader" where
  "json_members field s st =
     (case json_members_loop field (json_ws s) st of
        (st', None) \<Rightarrow> (st', None) | (st', Some r) \<Rightarrow> (st', json_close CHR ''}'' r))"

definition json_object :: "(string \<Rightarrow> 's reader) \<Rightarrow> 's reader" where
  "json_object field s st =
     (let s = json_ws s in if starts_with s ''{'' then json_members field (tl s) st else (st, None))"

function json_elements_loop :: "'s reader \<Rightarrow> 's reader" where
  "json_elements_loop elem s st =
     (if s = [] \<or> hd s = CHR '']'' then (st, Some s)
      else case elem s st of
        (st', None) \<Rightarrow> (st', None)
      | (st', Some s1) \<Rightarrow>
          if length (json_comma s1) < length s then json_elements_loop elem (json_comma s1) st'
          else (st', None))"
  by pat_completeness auto
termination by (relation "measure (\<lambda>(_, s, _). length s)") auto

definition json_elements :: "'s reader \<Rightarrow> 's reader" where
  "json_elements elem s st =
     (case json_elements_loop elem (json_ws s) st of
        (st', None) \<Rightarrow> (st', None) | (st', Some r) \<Rightarrow> (st', json_close CHR '']'' r))"

declare json_members_loop.simps [simp del] json_elements_loop.simps [simp del]

subsection \<open>Reading stays inside the text\<close>

lemma json_ws_suffix: "suffix (json_ws s) s"
  by (rule suffix_ws)

lemma json_comma_suffix: "suffix (json_comma s) s"
proof -
  have "suffix (if starts_with t '','' then tl t else t) t" for t
    by (cases t) (auto simp: suffix_Cons)
  then show ?thesis
    unfolding json_comma_def Let_def by (meson suffix_ws suffix_order.trans)
qed

lemma json_close_suffix: "json_close c s = Some r \<Longrightarrow> proper_suffix r s"
  by (auto simp: json_close_def proper_suffix_tl split: if_splits)

lemma json_cstring_suffix: "json_cstring s = Some (t, r) \<Longrightarrow> proper_suffix r s"
  by (auto simp: json_cstring_def dest: json_string_suffix split: option.splits)

lemma json_bool_suffix: "json_bool s = Some (b, r) \<Longrightarrow> proper_suffix r s"
  unfolding json_bool_def Let_def
  by (auto dest!: json_lit_suffix split: option.splits intro: proper_suffix_trans2 [OF _ suffix_ws])

lemma json_raw_value_suffix: "json_raw_value s = Some (t, r) \<Longrightarrow> proper_suffix r s"
  unfolding json_raw_value_def json_skip_value_def Let_def
  by (auto dest!: json_skip_value_suffix split: option.splits intro: proper_suffix_trans2 [OF _ suffix_ws])

lemma json_skip_suffix: "json_skip_value s = Some r \<Longrightarrow> proper_suffix r s"
  unfolding json_skip_value_def by (rule json_skip_value_suffix)

lemma proper_suffix_suffix: "proper_suffix r s \<Longrightarrow> suffix r s"
  by (simp add: proper_suffix_def)

lemma proper_suffix_ws: "proper_suffix r (json_ws s) \<Longrightarrow> proper_suffix r s"
  by (rule proper_suffix_trans2 [OF _ suffix_ws])

lemma suffix_json_ws: "suffix r (json_ws s) \<Longrightarrow> suffix r s"
  by (meson suffix_ws suffix_order.trans)

lemma proper_suffix_after: "suffix r (tl s) \<Longrightarrow> starts_with s (c # p) \<Longrightarrow> proper_suffix r s"
  using proper_suffix_tl proper_suffix_trans1 by blast

lemma read_into_rest:
  "read_into get put s st = (st', Some r) \<Longrightarrow> \<exists>v. get s = Some (v, r) \<and> st' = put v st"
  by (auto simp: read_into_def split: option.splits)

lemma skip_member_rest: "skip_member s st = (st', Some r) \<Longrightarrow> proper_suffix r s \<and> st' = st"
  by (auto simp: skip_member_def dest: json_skip_suffix)

text \<open>What a loop needs of the code that reads one member, or one element.\<close>

locale json_field =
  fixes field :: "string \<Rightarrow> 's reader"
  assumes field_suffix: "field k s st = (st', Some r) \<Longrightarrow> suffix r s"
begin

lemma after_member:
  assumes "json_cstring s = Some (key, s1)" "starts_with (json_ws s1) '':''"
    and "field key (tl (json_ws s1)) st = (st', Some s3)"
  shows "proper_suffix (json_comma s3) s"
proof -
  have "proper_suffix s3 (json_ws s1)"
    using proper_suffix_after [OF field_suffix [OF assms(3)] assms(2)] .
  then have "proper_suffix s3 s"
    using json_cstring_suffix [OF assms(1)] by (meson proper_suffix_suffix proper_suffix_trans2 proper_suffix_ws)
  then show ?thesis using json_comma_suffix proper_suffix_trans1 by blast
qed

text \<open>The test of the model that ends a loop whose text does not shrink is never taken.\<close>

lemma loop_eq:
  "json_members_loop field s st =
     (if s = [] \<or> hd s = CHR ''}'' then (st, Some s)
      else case json_cstring s of
        None \<Rightarrow> (st, None)
      | Some (key, s1) \<Rightarrow>
          (let s2 = json_ws s1 in
           if \<not> starts_with s2 '':'' then (st, None)
           else case field key (tl s2) st of
             (st', None) \<Rightarrow> (st', None)
           | (st', Some s3) \<Rightarrow> json_members_loop field (json_comma s3) st'))"
  using after_member [of s]
  by (subst json_members_loop.simps) (auto simp: Let_def proper_suffix_def split: option.splits prod.splits)

lemma loop_end:
  "json_members_loop field s st = (st', Some r) \<Longrightarrow> suffix r s \<and> (r = [] \<or> hd r = CHR ''}'')"
proof (induction "length s" arbitrary: s st rule: less_induct)
  case less
  show ?case
  proof (cases "s = [] \<or> hd s = CHR ''}''")
    case True
    with less.prems show ?thesis by (subst (asm) loop_eq) auto
  next
    case False
    with less.prems obtain key s1 st1 s3 where
      1: "json_cstring s = Some (key, s1)" "starts_with (json_ws s1) '':''"
        "field key (tl (json_ws s1)) st = (st1, Some s3)"
        "json_members_loop field (json_comma s3) st1 = (st', Some r)"
      by (subst (asm) loop_eq) (auto simp: Let_def split: option.splits if_splits prod.splits)
    from after_member [OF 1(1-3)] have 2: "proper_suffix (json_comma s3) s" .
    from less.hyps [OF _ 1(4)] 2 have "suffix r (json_comma s3) \<and> (r = [] \<or> hd r = CHR ''}'')"
      by (simp add: proper_suffix_def)
    with 2 show ?thesis by (meson proper_suffix_suffix suffix_order.trans)
  qed
qed

lemma members_suffix: "json_members field s st = (st', Some r) \<Longrightarrow> suffix r s"
  unfolding json_members_def
  by (auto split: prod.splits option.splits dest!: json_close_suffix loop_end
           intro: suffix_json_ws suffix_order.trans [OF proper_suffix_suffix])

lemma object_suffix: "json_object field s st = (st', Some r) \<Longrightarrow> proper_suffix r s"
proof -
  assume "json_object field s st = (st', Some r)"
  then have 1: "starts_with (json_ws s) ''{''" "json_members field (tl (json_ws s)) st = (st', Some r)"
    by (auto simp: json_object_def Let_def split: if_splits)
  show ?thesis
    by (rule proper_suffix_ws [OF proper_suffix_after [OF members_suffix [OF 1(2)] 1(1)]])
qed

end

locale json_element =
  fixes elem :: "'s reader"
  assumes elem_consumes: "elem s st = (st', Some r) \<Longrightarrow> proper_suffix r s"
begin

lemma after_element: "elem s st = (st', Some s1) \<Longrightarrow> proper_suffix (json_comma s1) s"
  by (rule proper_suffix_trans1 [OF json_comma_suffix elem_consumes])

lemma loop_eq:
  "json_elements_loop elem s st =
     (if s = [] \<or> hd s = CHR '']'' then (st, Some s)
      else case elem s st of
        (st', None) \<Rightarrow> (st', None)
      | (st', Some s1) \<Rightarrow> json_elements_loop elem (json_comma s1) st')"
  using after_element [of s st]
  by (subst json_elements_loop.simps) (auto simp: proper_suffix_def split: option.splits prod.splits)

lemma loop_end:
  "json_elements_loop elem s st = (st', Some r) \<Longrightarrow> suffix r s \<and> (r = [] \<or> hd r = CHR '']'')"
proof (induction "length s" arbitrary: s st rule: less_induct)
  case less
  show ?case
  proof (cases "s = [] \<or> hd s = CHR '']''")
    case True
    with less.prems show ?thesis by (subst (asm) loop_eq) auto
  next
    case False
    with less.prems obtain st1 s1 where
      1: "elem s st = (st1, Some s1)" "json_elements_loop elem (json_comma s1) st1 = (st', Some r)"
      by (subst (asm) loop_eq) (auto split: option.splits if_splits prod.splits)
    from after_element [OF 1(1)] have 2: "proper_suffix (json_comma s1) s" .
    from less.hyps [OF _ 1(2)] 2 have "suffix r (json_comma s1) \<and> (r = [] \<or> hd r = CHR '']'')"
      by (simp add: proper_suffix_def)
    with 2 show ?thesis by (meson proper_suffix_suffix suffix_order.trans)
  qed
qed

lemma elements_suffix: "json_elements elem s st = (st', Some r) \<Longrightarrow> suffix r s"
  unfolding json_elements_def
  by (auto split: prod.splits option.splits dest!: json_close_suffix loop_end
           intro: suffix_json_ws suffix_order.trans [OF proper_suffix_suffix])

end

subsection \<open>Invariants of what is read\<close>

text \<open>A property of the values that every member, or every element, keeps is kept by the loop.\<close>

locale json_field_invariant = json_field field
  for field :: "string \<Rightarrow> 's reader" +
  fixes I :: "'s \<Rightarrow> bool"
  assumes field_keeps: "I st \<Longrightarrow> field k s st = (st', Some r) \<Longrightarrow> I st'"
begin

lemma loop_keeps: "I st \<Longrightarrow> json_members_loop field s st = (st', Some r) \<Longrightarrow> I st'"
proof (induction "length s" arbitrary: s st rule: less_induct)
  case less
  show ?case
  proof (cases "s = [] \<or> hd s = CHR ''}''")
    case True
    with less.prems show ?thesis by (subst (asm) loop_eq) auto
  next
    case False
    with less.prems obtain key s1 st1 s3 where
      1: "json_cstring s = Some (key, s1)" "starts_with (json_ws s1) '':''"
        "field key (tl (json_ws s1)) st = (st1, Some s3)"
        "json_members_loop field (json_comma s3) st1 = (st', Some r)"
      by (subst (asm) loop_eq) (auto simp: Let_def split: option.splits if_splits prod.splits)
    have "length (json_comma s3) < length s" using after_member [OF 1(1-3)] by (simp add: proper_suffix_def)
    from less.hyps [OF this field_keeps [OF less.prems(1) 1(3)] 1(4)] show ?thesis .
  qed
qed

lemma members_keep: "I st \<Longrightarrow> json_members field s st = (st', Some r) \<Longrightarrow> I st'"
  unfolding json_members_def by (auto split: prod.splits option.splits intro: loop_keeps)

end

locale json_element_invariant = json_element elem
  for elem :: "'s reader" +
  fixes I :: "'s \<Rightarrow> bool"
  assumes elem_keeps: "I st \<Longrightarrow> elem s st = (st', Some r) \<Longrightarrow> I st'"
begin

lemma loop_keeps: "I st \<Longrightarrow> json_elements_loop elem s st = (st', Some r) \<Longrightarrow> I st'"
proof (induction "length s" arbitrary: s st rule: less_induct)
  case less
  show ?case
  proof (cases "s = [] \<or> hd s = CHR '']''")
    case True
    with less.prems show ?thesis by (subst (asm) loop_eq) auto
  next
    case False
    with less.prems obtain st1 s1 where
      1: "elem s st = (st1, Some s1)" "json_elements_loop elem (json_comma s1) st1 = (st', Some r)"
      by (subst (asm) loop_eq) (auto split: option.splits if_splits prod.splits)
    have "length (json_comma s1) < length s" using after_element [OF 1(1)] by (simp add: proper_suffix_def)
    from less.hyps [OF this elem_keeps [OF less.prems(1) 1(1)] 1(2)] show ?thesis .
  qed
qed

lemma elements_keep: "I st \<Longrightarrow> json_elements elem s st = (st', Some r) \<Longrightarrow> I st'"
  unfolding json_elements_def by (auto split: prod.splits option.splits intro: loop_keeps)

end

text \<open>Some loops leave their effect behind when they fail; this needs more of the element.\<close>

locale json_element_total_invariant = json_element elem
  for elem :: "'s reader" +
  fixes I :: "'s \<Rightarrow> bool"
  assumes elem_keeps_any: "I st \<Longrightarrow> elem s st = (st', q) \<Longrightarrow> I st'"
begin

lemma loop_keeps_any: "I st \<Longrightarrow> I (fst (json_elements_loop elem s st))"
proof (induction "length s" arbitrary: s st rule: less_induct)
  case less
  obtain st1 q where e: "elem s st = (st1, q)" by (cases "elem s st")
  have I1: "I st1" by (rule elem_keeps_any [OF less.prems e])
  show ?case
  proof (cases q)
    case None
    with e I1 less.prems show ?thesis by (subst loop_eq) simp
  next
    case (Some s1)
    have "length (json_comma s1) < length s" using after_element e Some by (simp add: proper_suffix_def)
    from less.hyps [OF this I1] e Some less.prems show ?thesis by (subst loop_eq) simp
  qed
qed

end

sublocale json_element_total_invariant \<subseteq> total: json_element_invariant
  by unfold_locales (rule elem_keeps_any)

subsection \<open>What the loops compute on the text of a JSON value\<close>

lemma json_cstring_escape [simp]: "json_cstring (json_escape k @ r) = Some (c_str k, r)"
  by (simp add: json_cstring_def)

lemma json_comma_follow: "c \<noteq> CHR '','' \<Longrightarrow> \<not> c_isspace c \<Longrightarrow> json_comma (c # s) = c # s"
  by (simp add: json_comma_def)

lemma json_comma_next: "\<not> c_isspace c \<Longrightarrow> json_comma (CHR '','' # c # s) = c # s"
  by (simp add: json_comma_def c_isspace_def)

lemma json_ws_escape [simp]: "json_ws (json_escape k @ r) = json_escape k @ r"
  by (simp add: json_escape_def c_isspace_def)

lemma json_ws_text: "json_ok v \<Longrightarrow> json_ws (json_text v @ r) = json_text v @ r"
  using json_text_start [of v] by (auto simp: json_start_not_space)

lemma json_escape_head: "json_escape k @ r \<noteq> [] \<and> hd (json_escape k @ r) = CHR 0x22"
  by (simp add: json_escape_def)

abbreviation members_text :: "(string \<times> json) list \<Rightarrow> string" where
  "members_text kvs \<equiv> join_comma (map (\<lambda>(k, v). json_escape k @ '':'' @ json_text v) kvs)"

abbreviation elements_text :: "json list \<Rightarrow> string" where
  "elements_text vs \<equiv> join_comma (map json_text vs)"

locale json_field_meaning = json_field field
  for field :: "string \<Rightarrow> 's reader" +
  fixes step :: "string \<Rightarrow> json \<Rightarrow> 's \<Rightarrow> 's" and ok :: "string \<Rightarrow> json \<Rightarrow> bool"
  assumes field_text:
    "ok k v \<Longrightarrow> json_follow r \<Longrightarrow> field (c_str k) (json_text v @ r) st = (step k v st, Some r)"
begin

lemma loop_text:
  assumes "kvs \<noteq> []" "\<And>k v. (k, v) \<in> set kvs \<Longrightarrow> ok k v"
  shows "json_members_loop field (members_text kvs @ ''}'' @ r) st =
           (fold (\<lambda>(k, v). step k v) kvs st, Some (''}'' @ r))"
  using assms
proof (induction kvs arbitrary: st rule: induct_list012)
  case 1
  then show ?case by simp
next
  case (2 kv)
  obtain k v where kv: "kv = (k, v)" by (cases kv)
  have "json_members_loop field (CHR ''}'' # r) st' = (st', Some (CHR ''}'' # r))" for st'
    by (subst loop_eq) simp
  with 2 kv field_text [of k v "''}'' @ r" st] json_escape_head [of k "'':'' @ json_text v @ ''}'' @ r"]
  show ?case
    by (subst loop_eq) (simp add: json_follow_def c_isspace_def json_comma_follow)
next
  case (3 kv w ws)
  obtain k v where kv: "kv = (k, v)" by (cases kv)
  define q where "q = members_text (w # ws) @ ''}'' @ r"
  obtain q' where q': "q = CHR 0x22 # q'" unfolding q_def using json_object_text_ws [of "w # ws" "''}'' @ r"] by auto
  have rest: "json_members_loop field q st' = (fold (\<lambda>(k, v). step k v) (w # ws) st', Some (''}'' @ r))" for st'
    unfolding q_def using "3.IH"(2) "3.prems"(2) by simp
  have "ok k v" using "3.prems"(2) kv by simp
  then have "field (c_str k) (json_text v @ '','' @ q) st = (step k v st, Some ('','' @ q))"
    by (rule field_text) (simp add: json_follow_def)
  moreover have "json_comma ('','' @ q) = q" using q' by (simp add: json_comma_next c_isspace_def)
  moreover have "members_text (kv # w # ws) @ ''}'' @ r = json_escape k @ '':'' @ json_text v @ '','' @ q"
    by (simp add: kv q_def)
  moreover have "fold (\<lambda>(k, v). step k v) (kv # w # ws) st = fold (\<lambda>(k, v). step k v) (w # ws) (step k v st)"
    by (simp add: kv)
  ultimately show ?case using rest json_escape_head [of k "'':'' @ json_text v @ '','' @ q"]
    by (simp only:) (subst loop_eq, simp add: c_isspace_def)
qed

lemma object_text:
  assumes "\<And>k v. (k, v) \<in> set kvs \<Longrightarrow> ok k v"
  shows "json_object field (json_text (JObj kvs) @ r) st = (fold (\<lambda>(k, v). step k v) kvs st, Some r)"
proof (cases "kvs = []")
  case True
  have "json_members_loop field (CHR ''}'' # r) st = (st, Some (CHR ''}'' # r))"
    by (subst loop_eq) simp
  with True show ?thesis
    by (simp add: json_object_def json_members_def json_close_def c_isspace_def)
next
  case False
  from json_object_text_ws [OF this, of "''}'' @ r"] obtain q where q: "members_text kvs @ ''}'' @ r = CHR 0x22 # q" by auto
  with loop_text [OF False assms, of r st] have "json_members_loop field (CHR 0x22 # q) st =
      (fold (\<lambda>(k, v). step k v) kvs st, Some (''}'' @ r))" by simp
  with q show ?thesis
    by (simp add: json_object_def json_members_def json_close_def c_isspace_def)
qed

end

locale json_element_meaning = json_element elem
  for elem :: "'s reader" +
  fixes step :: "json \<Rightarrow> 's \<Rightarrow> 's" and ok :: "json \<Rightarrow> bool"
  assumes elem_text: "ok v \<Longrightarrow> json_follow r \<Longrightarrow> elem (json_text v @ r) st = (step v st, Some r)"
    and ok_json: "ok v \<Longrightarrow> json_ok v"
begin

lemma text_head: "ok v \<Longrightarrow> json_text v @ r \<noteq> [] \<and> hd (json_text v @ r) \<noteq> CHR '']'' \<and> \<not> c_isspace (hd (json_text v @ r))"
  using json_text_start [OF ok_json] by (fastforce simp: json_start_def c_isdigit_def c_isspace_def)

lemma loop_text:
  assumes "vs \<noteq> []" "\<And>v. v \<in> set vs \<Longrightarrow> ok v"
  shows "json_elements_loop elem (elements_text vs @ '']'' @ r) st = (fold step vs st, Some ('']'' @ r))"
  using assms
proof (induction vs arbitrary: st rule: induct_list012)
  case 1
  then show ?case by simp
next
  case (2 v)
  have "json_elements_loop elem (CHR '']'' # r) st' = (st', Some (CHR '']'' # r))" for st'
    by (subst loop_eq) simp
  with 2 elem_text [of v "'']'' @ r" st] text_head [of v "'']'' @ r"] show ?case
    by (subst loop_eq) (simp add: json_follow_def c_isspace_def json_comma_follow)
next
  case (3 v w ws)
  define q where "q = elements_text (w # ws) @ '']'' @ r"
  have "\<exists>r'. q = json_text w @ r'" by (cases ws) (simp_all add: q_def)
  then have q': "q \<noteq> []" "\<not> c_isspace (hd q)" using text_head [of w] "3.prems"(2) by fastforce+
  have rest: "json_elements_loop elem q st' = (fold step (w # ws) st', Some ('']'' @ r))" for st'
    unfolding q_def using "3.IH"(2) "3.prems"(2) by simp
  have v: "ok v" using "3.prems"(2) by simp
  then have "elem (json_text v @ '','' @ q) st = (step v st, Some ('','' @ q))"
    by (rule elem_text) (simp add: json_follow_def)
  moreover have "json_comma ('','' @ q) = q" using q' by (cases q) (simp_all add: json_comma_next)
  moreover have "elements_text (v # w # ws) @ '']'' @ r = json_text v @ '','' @ q"
    by (simp add: q_def)
  ultimately show ?case using rest text_head [OF v, of "'','' @ q"]
    by (simp only:) (subst loop_eq, simp)
qed

lemma elements_text:
  assumes "\<And>v. v \<in> set vs \<Longrightarrow> ok v"
  shows "json_elements elem (elements_text vs @ '']'' @ r) st = (fold step vs st, Some r)"
proof (cases "vs = []")
  case True
  have "json_elements_loop elem (CHR '']'' # r) st = (st, Some (CHR '']'' # r))"
    by (subst loop_eq) simp
  with True show ?thesis by (simp add: json_elements_def json_close_def c_isspace_def)
next
  case False
  then have "\<exists>v r'. ok v \<and> elements_text vs @ '']'' @ r = json_text v @ r'"
    using assms by (cases vs; cases "tl vs") (fastforce intro: exI)+
  then have "json_ws (elements_text vs @ '']'' @ r) = elements_text vs @ '']'' @ r"
    using json_ws_text [OF ok_json] by metis
  then show ?thesis using loop_text [OF False assms, of r st]
    by (simp add: json_elements_def json_close_def)
qed

end

end
