(* ===== verification/ImageInput.thy ===== *)
theory ImageInput
  imports CString
begin

text \<open>
  Images in request bodies (\<open>ds4_server.c\<close>): the base64 decoder, the accepted media types, the
  \<open>data:\<close> URIs, and the list of image inputs of a message. Each image is stored under a marker, a
  text of its own that stands for it in the prompt until the prompt is tokenised; the marker is made
  of a nonce, which the code draws from \<open>/dev/urandom\<close> (or, failing that, from the time and the
  process) and which is an argument here.
\<close>

unbundle bit_operations_syntax

subsection \<open>Base64\<close>

definition base64_value :: "char \<Rightarrow> u32 option" where
  "base64_value c =
     (let n = of_char c :: nat in
      if 65 \<le> n \<and> n \<le> 90 then Some (of_nat (n - 65))
      else if 97 \<le> n \<and> n \<le> 122 then Some (of_nat (26 + n - 97))
      else if 48 \<le> n \<and> n \<le> 57 then Some (of_nat (52 + n - 48))
      else if c = CHR ''+'' then Some 62
      else if c = CHR ''/'' then Some 63
      else None)"

definition pad_value :: "char \<Rightarrow> u32 option" where
  "pad_value c = (if c = CHR ''='' then Some 0 else base64_value c)"

definition base64_bits :: "u32 \<Rightarrow> u32 \<Rightarrow> u32 \<Rightarrow> u32 \<Rightarrow> u32" where
  "base64_bits a b c d = push_bit 18 a OR push_bit 12 b OR push_bit 6 c OR d"

definition base64_group :: "char \<Rightarrow> char \<Rightarrow> char \<Rightarrow> char \<Rightarrow> bool \<Rightarrow> u8 list option" where
  "base64_group c0 c1 c2 c3 last_group =
     (case (base64_value c0, base64_value c1, pad_value c2, pad_value c3) of
        (Some a, Some b, Some c, Some d) \<Rightarrow>
          (let pad2 = (c2 = CHR ''=''); pad3 = (c3 = CHR ''=''); bits = base64_bits a b c d in
           if (pad2 \<and> \<not> pad3) \<or> ((pad2 \<or> pad3) \<and> \<not> last_group) then None
           else Some ([ucast (drop_bit 16 bits)] @ (if pad2 then [] else [ucast (drop_bit 8 bits)])
                      @ (if pad3 then [] else [ucast bits])))
      | _ \<Rightarrow> None)"

fun base64_groups :: "string \<Rightarrow> u8 list option" where
  "base64_groups (c0 # c1 # c2 # c3 # r) =
     (case base64_group c0 c1 c2 c3 (r = []) of
        None \<Rightarrow> None
      | Some bs \<Rightarrow> (case base64_groups r of None \<Rightarrow> None | Some rs \<Rightarrow> Some (bs @ rs)))"
| "base64_groups _ = Some []"

definition server_decode_base64 :: "string \<Rightarrow> u8 list option" where
  "server_decode_base64 src =
     (let n = length src in
      if n = 0 \<or> n mod 4 \<noteq> 0 \<or> 64 * 1024 * 1024 < n then None else base64_groups src)"

subsection \<open>Media types, data URIs and the image list\<close>

definition c_strcaseeq :: "string \<Rightarrow> string \<Rightarrow> bool" where
  "c_strcaseeq s t \<longleftrightarrow> map c_tolower s = map c_tolower t"

definition server_image_media_type :: "string option \<Rightarrow> bool" where
  "server_image_media_type mt = (case mt of None \<Rightarrow> False
     | Some m \<Rightarrow> c_strcaseeq m ''image/png'' \<or> c_strcaseeq m ''image/jpeg'' \<or> c_strcaseeq m ''image/jpg'')"

record image_input =
  img_marker :: string
  img_encoded :: "u8 list"

definition nibble_hex :: "nat \<Rightarrow> char" where
  "nibble_hex n = ''0123456789abcdef'' ! n"

definition byte_hex :: "u8 \<Rightarrow> string" where
  "byte_hex b = [nibble_hex (unat (drop_bit 4 b)), nibble_hex (unat (b AND 15))]"

text \<open>The marker buffer has 64 bytes; the loop over the nonce stops when it is nearly full.\<close>

definition SERVER_IMAGE_MARKER_BYTES :: nat where
  "SERVER_IMAGE_MARKER_BYTES = 64"

fun marker_hex :: "u8 list \<Rightarrow> nat \<Rightarrow> string" where
  "marker_hex [] pos = []"
| "marker_hex (b # bs) pos =
     (if pos + 2 < SERVER_IMAGE_MARKER_BYTES then byte_hex b @ marker_hex bs (pos + 2) else [])"

definition image_marker :: "u8 list \<Rightarrow> string" where
  "image_marker nonce =
     (let p = CHR 0x1E # ''DS4_IMAGE_'' in p @ marker_hex nonce (length p) @ [CHR 0x1F])"

definition server_image_inputs_push_base64 ::
  "u8 list \<Rightarrow> image_input list \<Rightarrow> string option \<Rightarrow> string option \<Rightarrow> (image_input list \<times> string) option" where
  "server_image_inputs_push_base64 nonce images media_type base64 =
     (if \<not> server_image_media_type media_type then None
      else case server_decode_base64 (case base64 of None \<Rightarrow> [] | Some b \<Rightarrow> b) of
        None \<Rightarrow> None
      | Some bytes \<Rightarrow>
          Some (images @ [\<lparr>img_marker = image_marker nonce, img_encoded = bytes\<rparr>], image_marker nonce))"

definition server_image_inputs_push_data_uri ::
  "u8 list \<Rightarrow> image_input list \<Rightarrow> string option \<Rightarrow> (image_input list \<times> string) option" where
  "server_image_inputs_push_data_uri nonce images uri =
     (case uri of
        None \<Rightarrow> None
      | Some u \<Rightarrow>
          (let png = ''data:image/png;base64,''; jpeg = ''data:image/jpeg;base64,''; jpg = ''data:image/jpg;base64,'' in
           if starts_with u png then
             server_image_inputs_push_base64 nonce images (Some ''image/png'') (Some (drop (length png) u))
           else if starts_with u jpeg then
             server_image_inputs_push_base64 nonce images (Some ''image/jpeg'') (Some (drop (length jpeg) u))
           else if starts_with u jpg then
             server_image_inputs_push_base64 nonce images (Some ''image/jpg'') (Some (drop (length jpg) u))
           else None))"

subsection \<open>The encoder of the standard, and the round trip\<close>

definition base64_char :: "nat \<Rightarrow> char" where
  "base64_char n = ''ABCDEFGHIJKLMNOPQRSTUVWXYZabcdefghijklmnopqrstuvwxyz0123456789+/'' ! n"

definition sextet :: "u32 \<Rightarrow> nat \<Rightarrow> char" where
  "sextet v k = base64_char (unat (drop_bit k v AND 63))"

definition octets :: "u8 \<Rightarrow> u8 \<Rightarrow> u8 \<Rightarrow> u32" where
  "octets x y z = push_bit 16 (ucast x) OR push_bit 8 (ucast y) OR ucast z"

fun base64_encode :: "u8 list \<Rightarrow> string" where
  "base64_encode [] = []"
| "base64_encode [x] = (let v = octets x 0 0 in [sextet v 18, sextet v 12, CHR ''='', CHR ''=''])"
| "base64_encode [x, y] = (let v = octets x y 0 in [sextet v 18, sextet v 12, sextet v 6, CHR ''=''])"
| "base64_encode (x # y # z # r) =
     (let v = octets x y z in [sextet v 18, sextet v 12, sextet v 6, sextet v 0] @ base64_encode r)"

lemma base64_char_cases: "n < 64 \<Longrightarrow> base64_value (base64_char n) = Some (of_nat n) \<and> base64_char n \<noteq> CHR ''=''"
proof -
  have "\<forall>n\<in>set [0..<64]. base64_value (base64_char n) = Some (of_nat n) \<and> base64_char n \<noteq> CHR ''=''"
    by (simp add: base64_char_def base64_value_def Let_def upt_rec)
  then show "n < 64 \<Longrightarrow> ?thesis" by simp
qed

lemma base64_value_sextet: "base64_value (sextet v k) = Some (drop_bit k v AND 63)" "sextet v k \<noteq> CHR ''=''"
proof -
  have "unat (drop_bit k v AND 63) < 64"
    using word_and_le1 [of "drop_bit k v" 63] by (simp add: word_le_nat_alt)
  then show "base64_value (sextet v k) = Some (drop_bit k v AND 63)" "sextet v k \<noteq> CHR ''=''"
    unfolding sextet_def using base64_char_cases by simp_all
qed

lemma mask_63: "(63 :: u32) = mask 6"
  by (simp add: mask_eq_exp_minus_1)

lemma base64_bits_octets:
  "base64_bits (drop_bit 18 v AND 63) (drop_bit 12 v AND 63) (drop_bit 6 v AND 63) (drop_bit 0 v AND 63) = v"
  if "v = octets x y z"
proof (rule bit_word_eqI)
  fix n assume "n < LENGTH(32)"
  then consider "n < 6" | "6 \<le> n" "n < 12" | "12 \<le> n" "n < 18" | "18 \<le> n" "n < 24" | "24 \<le> n" "n < 32" by fastforce
  then show "bit (base64_bits (drop_bit 18 v AND 63) (drop_bit 12 v AND 63) (drop_bit 6 v AND 63) (drop_bit 0 v AND 63)) n = bit v n"
    by cases (auto simp: that base64_bits_def octets_def mask_63 bit_simps dest: bit_imp_le_length)
qed

lemma octets_bytes:
  "ucast (drop_bit 16 (octets x y z)) = x" "ucast (drop_bit 8 (octets x y z)) = y" "ucast (octets x y z) = z"
  by (rule bit_word_eqI; auto simp: octets_def bit_simps dest: bit_imp_le_length)+

lemma octets_low:
  "drop_bit 6 (octets x 0 0) AND 63 = 0" "drop_bit 0 (octets x 0 0) AND 63 = 0" "drop_bit 0 (octets x y 0) AND 63 = 0"
  by (rule bit_word_eqI; auto simp: octets_def mask_63 bit_simps)+

lemma base64_group_full:
  "base64_group (sextet (octets x y z) 18) (sextet (octets x y z) 12) (sextet (octets x y z) 6) (sextet (octets x y z) 0) l = Some [x, y, z]"
  using base64_bits_octets [OF refl, of x y z]
  by (simp add: base64_group_def base64_value_sextet pad_value_def octets_bytes)

lemma base64_group_two:
  "base64_group (sextet (octets x y 0) 18) (sextet (octets x y 0) 12) (sextet (octets x y 0) 6) CHR ''='' True = Some [x, y]"
  using base64_bits_octets [OF refl, of x y 0] octets_low(3) [of x y]
  by (simp add: base64_group_def base64_value_sextet pad_value_def octets_bytes)

lemma base64_group_one:
  "base64_group (sextet (octets x 0 0) 18) (sextet (octets x 0 0) 12) CHR ''='' CHR ''='' True = Some [x]"
  using base64_bits_octets [OF refl, of x 0 0] octets_low(1,2) [of x]
  by (simp add: base64_group_def base64_value_sextet pad_value_def octets_bytes)

lemma base64_encode_Nil: "base64_encode bs = [] \<longleftrightarrow> bs = []"
  by (cases bs rule: base64_encode.cases) (simp_all add: Let_def)

lemma base64_groups_encode: "base64_groups (base64_encode bs) = Some bs"
proof (induction bs rule: base64_encode.induct)
  case (4 x y z r)
  then show ?case by (simp add: Let_def base64_group_full)
qed (simp_all add: Let_def base64_group_one base64_group_two)

lemma group_steps: "(5 + n) div 3 = Suc (Suc (Suc n) div (3::nat))" "(4 + n) div 4 = Suc (n div (4::nat))"
  by presburger+

lemma base64_encode_length: "length (base64_encode bs) = 4 * ((length bs + 2) div 3)"
proof (induction bs rule: base64_encode.induct)
  case (4 x y z r)
  then show ?case using group_steps(1) [of "length r"] by (simp add: Let_def)
qed (simp_all add: Let_def)

lemma base64_group_length: "base64_group a b c d l = Some bs \<Longrightarrow> length bs \<le> 3"
  by (auto simp: base64_group_def Let_def split: option.splits if_splits)

lemma base64_groups_length: "base64_groups s = Some bs \<Longrightarrow> length bs \<le> 3 * (length s div 4)"
proof (induction s arbitrary: bs rule: base64_groups.induct)
  case (1 c0 c1 c2 c3 r)
  then obtain g rs where "base64_group c0 c1 c2 c3 (r = []) = Some g" "base64_groups r = Some rs" "bs = g @ rs"
    by (auto split: option.splits)
  with 1(1) [of g rs] base64_group_length [of c0 c1 c2 c3 "r = []" g] show ?case
    by (simp add: group_steps(2))
qed simp_all

text \<open>
  Decoding inverts the base64 of the standard, whatever the bytes, up to the size limit of
  64 MiB of text; and no decoded image has more than the three quarters of its text that the code
  allocates for it.
\<close>

theorem base64_roundtrip:
  assumes "bs \<noteq> []" and "(length bs + 2) div 3 \<le> 16 * 1024 * 1024"
  shows "server_decode_base64 (base64_encode bs) = Some bs
       \<and> (\<forall>s. case server_decode_base64 s of None \<Rightarrow> True | Some ds \<Rightarrow> length ds \<le> 3 * (length s div 4))"
proof -
  have "case server_decode_base64 s of None \<Rightarrow> True | Some ds \<Rightarrow> length ds \<le> 3 * (length s div 4)" for s
    by (auto simp: server_decode_base64_def Let_def dest: base64_groups_length split: option.splits if_splits)
  moreover have "server_decode_base64 (base64_encode bs) = Some bs"
    using assms base64_encode_length [of bs] base64_encode_Nil [of bs]
    by (auto simp: server_decode_base64_def base64_groups_encode div_greater_zero_iff Suc_le_eq)
  ultimately show ?thesis by blast
qed

lemma base64_roundtrip_witness: "server_decode_base64 (base64_encode [255, 0, 127, 1]) = Some [255, 0, 127, 1]"
  using base64_roundtrip [of "[255, 0, 127, 1]"] by simp

end
