(* ===== verification/ChatParse.thy ===== *)
theory ChatParse
  imports JsonApi ImageInput
begin

text \<open>
  The fields of the chat API (\<open>ds4_server.c\<close>): message contents, stop lists, stream options, the
  controls of the thinking mode, tool calls and the messages of a conversation. Every reader is an
  instance of the two loops of \<open>JsonApi\<close>; its interpretations of \<open>json_field\<close> and \<open>json_element\<close>
  show that it ends and stays inside the request.
\<close>

definition quoted :: "string \<Rightarrow> bool" where
  "quoted s \<longleftrightarrow> starts_with s [CHR 0x22]"

text \<open>A reader of a part of the state.\<close>

definition within :: "('s \<Rightarrow> 'a) \<Rightarrow> ('a \<Rightarrow> 's \<Rightarrow> 's) \<Rightarrow> 'a reader \<Rightarrow> 's reader" where
  "within get put rd s st = (case rd s (get st) of (v, r) \<Rightarrow> (put v st, r))"

subsection \<open>Text content\<close>

definition json_content_member :: "string \<Rightarrow> string reader" where
  "json_content_member key s b =
     (if key = ''text'' then read_into json_cstring (\<lambda>t b. b @ t) s b else skip_member s b)"

definition json_content_element :: "string reader" where
  "json_content_element s b =
     (if quoted s then read_into json_cstring (\<lambda>t b. b @ t) s b
      else if starts_with s ''{'' then json_members json_content_member (tl s) b
      else skip_member s b)"

definition json_content :: "string \<Rightarrow> (string \<times> string) option" where
  "json_content s =
     (let s = json_ws s in
      if quoted s then json_cstring s
      else case json_lit ''null'' s of
        Some r \<Rightarrow> Some ([], r)
      | None \<Rightarrow>
          if \<not> starts_with s ''['' then (case json_skip_value s of None \<Rightarrow> None | Some r \<Rightarrow> Some ([], r))
          else case json_elements json_content_element (tl s) [] of
            (_, None) \<Rightarrow> None
          | (b, Some r) \<Rightarrow> Some (b, r))"

definition json_string_replace :: "(string option \<Rightarrow> 's \<Rightarrow> 's) \<Rightarrow> 's reader" where
  "json_string_replace put = read_into json_cstring (\<lambda>v. put (Some v))"

definition json_raw_value_replace :: "(string option \<Rightarrow> 's \<Rightarrow> 's) \<Rightarrow> 's reader" where
  "json_raw_value_replace put = read_into json_raw_value (\<lambda>v. put (Some v))"

definition json_content_replace :: "(string option \<Rightarrow> 's \<Rightarrow> 's) \<Rightarrow> 's reader" where
  "json_content_replace put = read_into json_content (\<lambda>v. put (Some v))"

subsection \<open>Thinking mode\<close>

datatype think_mode = DS4_THINK_NONE | DS4_THINK_HIGH | DS4_THINK_MAX | DS4_THINK_LOW | DS4_THINK_MEDIUM
  | DS4_THINK_LEVEL nat

fun ds4_think_mode_level :: "think_mode \<Rightarrow> int" where
  "ds4_think_mode_level (DS4_THINK_LEVEL n) = (if n \<le> 100 then int n else - 1)"
| "ds4_think_mode_level _ = - 1"

definition ds4_think_mode_enabled :: "think_mode \<Rightarrow> bool" where
  "ds4_think_mode_enabled m \<longleftrightarrow>
     m = DS4_THINK_LOW \<or> m = DS4_THINK_MEDIUM \<or> m = DS4_THINK_HIGH \<or> m = DS4_THINK_MAX \<or> 0 < ds4_think_mode_level m"

fun think_level_loop :: "string \<Rightarrow> nat \<Rightarrow> nat option" where
  "think_level_loop [] level = (if 100 < level then None else Some level)"
| "think_level_loop (c # r) level =
     (if \<not> c_isdigit c \<or> 100 < level then None else think_level_loop r (level * 10 + digit_value c))"

definition ds4_think_mode_parse_level :: "string \<Rightarrow> think_mode option" where
  "ds4_think_mode_parse_level t =
     (if t = [] then None else map_option DS4_THINK_LEVEL (think_level_loop t 0))"

definition think_mode_from_enabled :: "bool \<Rightarrow> think_mode \<Rightarrow> think_mode" where
  "think_mode_from_enabled enabled effort =
     (if \<not> enabled \<or> effort = DS4_THINK_NONE then DS4_THINK_NONE else effort)"

definition parse_reasoning_effort_name :: "string \<Rightarrow> think_mode option" where
  "parse_reasoning_effort_name s =
     (if s = ''max'' then Some DS4_THINK_MAX
      else if s = ''xhigh'' \<or> s = ''high'' then Some DS4_THINK_HIGH
      else if s = ''medium'' then Some DS4_THINK_MEDIUM
      else if s = ''low'' \<or> s = ''minimal'' then Some DS4_THINK_LOW
      else if s = ''none'' then Some DS4_THINK_NONE
      else None)"

definition reasoning_effort :: "string \<Rightarrow> think_mode option" where
  "reasoning_effort s =
     (case parse_reasoning_effort_name s of Some m \<Rightarrow> Some m | None \<Rightarrow> ds4_think_mode_parse_level s)"

definition parse_reasoning_effort_value :: "think_mode reader" where
  "parse_reasoning_effort_value s m =
     (let s = json_ws s in
      case json_lit ''null'' s of
        Some r \<Rightarrow> (m, Some r)
      | None \<Rightarrow>
          (case json_cstring s of
             None \<Rightarrow> (m, None)
           | Some (effort, r) \<Rightarrow>
               (case reasoning_effort effort of None \<Rightarrow> (m, None) | Some m' \<Rightarrow> (m', Some r))))"

definition thinking_type_member :: "string \<Rightarrow> bool reader" where
  "thinking_type_member key s enabled =
     (if key = ''type'' then
        read_into json_cstring
          (\<lambda>t e. if t = ''enabled'' then True else if t = ''disabled'' then False else e) s enabled
      else skip_member s enabled)"

definition parse_thinking_control_value :: "bool reader" where
  "parse_thinking_control_value s enabled =
     (let s = json_ws s in
      case json_lit ''null'' s of
        Some r \<Rightarrow> (enabled, Some r)
      | None \<Rightarrow>
          if starts_with s ''t'' \<or> starts_with s ''f'' then read_into json_bool (\<lambda>b _. b) s enabled
          else if \<not> starts_with s ''{'' then skip_member s enabled
          else json_members thinking_type_member (tl s) enabled)"

record template_kwargs =
  tk_thinking :: bool
  tk_got_thinking :: bool
  tk_effort :: think_mode

definition template_kwargs_member :: "string \<Rightarrow> template_kwargs reader" where
  "template_kwargs_member key s k =
     (let s = json_ws s in
      if key = ''enable_thinking'' then
        read_into json_bool (\<lambda>b k. k\<lparr>tk_thinking := b, tk_got_thinking := True\<rparr>) s k
      else if key = ''reasoning_effort'' then
        within tk_effort (\<lambda>m k. k\<lparr>tk_effort := m\<rparr>) parse_reasoning_effort_value s k
      else skip_member s k)"

definition parse_chat_template_kwargs :: "template_kwargs reader" where
  "parse_chat_template_kwargs s k =
     (let s = json_ws s in
      case json_lit ''null'' s of
        Some r \<Rightarrow> (k, Some r)
      | None \<Rightarrow> if \<not> starts_with s ''{'' then skip_member s k
                else json_members template_kwargs_member (tl s) k)"

definition output_config_member :: "string \<Rightarrow> think_mode reader" where
  "output_config_member key s m =
     (if key = ''effort'' then parse_reasoning_effort_value s m else skip_member s m)"

definition parse_output_config_effort :: "think_mode reader" where
  "parse_output_config_effort s m =
     (let s = json_ws s in
      case json_lit ''null'' s of
        Some r \<Rightarrow> (m, Some r)
      | None \<Rightarrow> if \<not> starts_with s ''{'' then skip_member s m
                else json_members output_config_member (tl s) m)"

definition model_alias_disables_thinking :: "string option \<Rightarrow> bool" where
  "model_alias_disables_thinking model \<longleftrightarrow>
     model \<in> Some ` {''qwen3.8-flash-next-chat'', ''qwen3.8-flash-next-no-think'',
       ''qwen3.8-flash-next-nothink'', ''qwen/qwen3.8-flash-next-chat''}"

definition model_alias_enables_thinking :: "string option \<Rightarrow> bool" where
  "model_alias_enables_thinking model \<longleftrightarrow>
     model \<in> Some ` {''qwen3.8-flash-next-reasoner'', ''qwen/qwen3.8-flash-next-reasoner''}"

subsection \<open>Stop lists and stream options\<close>

record stop_list =
  stops_v :: "string list"
  stops_max_len :: nat

definition stop_list_clear :: stop_list where
  "stop_list_clear = \<lparr>stops_v = [], stops_max_len = 0\<rparr>"

definition stop_list_push :: "string \<Rightarrow> stop_list \<Rightarrow> stop_list" where
  "stop_list_push t l =
     (if t = [] then l else l\<lparr>stops_max_len := max (stops_max_len l) (length t), stops_v := stops_v l @ [t]\<rparr>)"

definition stop_element :: "stop_list reader" where
  "stop_element s l = (if quoted s then read_into json_cstring stop_list_push s l else skip_member s l)"

definition parse_stop :: "stop_list reader" where
  "parse_stop s out =
     (let s = json_ws s; l = stop_list_clear in
      if quoted s then read_into json_cstring stop_list_push s l
      else if \<not> starts_with s ''['' then skip_member s l
      else json_elements stop_element (tl s) l)"

definition stream_options_member :: "string \<Rightarrow> bool reader" where
  "stream_options_member key s usage =
     (if key = ''include_usage'' then read_into json_bool (\<lambda>b _. b) s usage else skip_member s usage)"

definition parse_stream_options :: "bool reader" where
  "parse_stream_options s usage =
     (let s = json_ws s in
      if \<not> starts_with s ''{'' then skip_member s usage else json_members stream_options_member (tl s) usage)"

subsection \<open>Tool calls\<close>

record tool_call =
  tc_id :: "string option"
  tc_name :: "string option"
  tc_arguments :: "string option"

definition no_tool_call :: tool_call where
  "no_tool_call = \<lparr>tc_id = None, tc_name = None, tc_arguments = None\<rparr>"

definition function_call_member :: "string \<Rightarrow> tool_call reader" where
  "function_call_member key s tc =
     (if key = ''name'' then json_string_replace (\<lambda>v tc. tc\<lparr>tc_name := v\<rparr>) s tc
      else if key = ''arguments'' then
        (let s = json_ws s in
         if quoted s then json_string_replace (\<lambda>v tc. tc\<lparr>tc_arguments := v\<rparr>) s tc
         else json_raw_value_replace (\<lambda>v tc. tc\<lparr>tc_arguments := v\<rparr>) s tc)
      else skip_member s tc)"

definition parse_function_call :: "tool_call reader" where
  "parse_function_call s tc = json_object function_call_member s tc"

definition tool_call_member :: "string \<Rightarrow> tool_call reader" where
  "tool_call_member key s tc =
     (if key = ''id'' then json_string_replace (\<lambda>v tc. tc\<lparr>tc_id := v\<rparr>) s tc
      else if key = ''function'' then parse_function_call s tc
      else skip_member s tc)"

definition tool_call_element :: "tool_call list reader" where
  "tool_call_element s calls =
     (if \<not> starts_with s ''{'' then (calls, None)
      else case json_members tool_call_member (tl s) no_tool_call of
        (_, None) \<Rightarrow> (calls, None)
      | (tc, Some r) \<Rightarrow>
          (if tc_name tc \<noteq> None \<and> tc_arguments tc \<noteq> None then calls @ [tc] else calls, Some r))"

definition parse_tool_calls_value :: "tool_call list reader" where
  "parse_tool_calls_value s calls =
     (let s = json_ws s in
      case json_lit ''null'' s of
        Some r \<Rightarrow> (calls, Some r)
      | None \<Rightarrow> if \<not> starts_with s ''['' then (calls, None)
                else json_elements tool_call_element (tl s) calls)"

subsection \<open>Messages\<close>

record tool_result_span =
  tr_begin :: nat
  tr_end :: nat
  tr_id :: "string option"
  tr_content :: "string option"

record chat_msg =
  msg_role :: "string option"
  msg_content :: "string option"
  msg_images :: "image_input list"
  msg_reasoning :: "string option"
  msg_tool_call_id :: "string option"
  msg_tool_call_ids :: "string list"
  msg_calls :: "tool_call list"
  msg_raw_tool_text :: "string option"
  msg_tool_results :: "tool_result_span list"

definition no_chat_msg :: chat_msg where
  "no_chat_msg =
     \<lparr>msg_role = None, msg_content = None, msg_images = [], msg_reasoning = None, msg_tool_call_id = None,
      msg_tool_call_ids = [], msg_calls = [], msg_raw_tool_text = None, msg_tool_results = []\<rparr>"

definition chat_msg_add_tool_call_id :: "string \<Rightarrow> chat_msg \<Rightarrow> chat_msg" where
  "chat_msg_add_tool_call_id cid m =
     (if cid = [] then m
      else
        let m = (if msg_tool_call_id m = None then m\<lparr>msg_tool_call_id := Some cid\<rparr> else m)
        in if cid \<in> set (msg_tool_call_ids m) then m
           else m\<lparr>msg_tool_call_ids := msg_tool_call_ids m @ [cid]\<rparr>)"

definition append_owned_text :: "string option \<Rightarrow> string \<Rightarrow> string option" where
  "append_owned_text dst t = Some ((case dst of None \<Rightarrow> [] | Some d \<Rightarrow> d) @ t)"

definition append_content :: "string \<Rightarrow> chat_msg \<Rightarrow> chat_msg" where
  "append_content t m = m\<lparr>msg_content := append_owned_text (msg_content m) t\<rparr>"

definition image_url_member :: "string \<Rightarrow> string option reader" where
  "image_url_member key s url =
     (if key = ''url'' then read_into json_cstring (\<lambda>v _. Some v) s url else skip_member s url)"

definition parse_image_url_value :: "string option reader" where
  "parse_image_url_value s url =
     (let s = json_ws s in
      if quoted s then read_into json_cstring (\<lambda>v _. Some v) s None
      else if \<not> starts_with s ''{'' then (url, None)
      else case json_members image_url_member (tl s) url of
        (url', None) \<Rightarrow> (url', None)
      | (url', Some r) \<Rightarrow> (url', if url' = None then None else Some r))"

record content_block =
  cb_type :: "string option"
  cb_text :: "string option"
  cb_image_url :: "string option"

definition no_content_block :: content_block where
  "no_content_block = \<lparr>cb_type = None, cb_text = None, cb_image_url = None\<rparr>"

definition content_block_member :: "string \<Rightarrow> content_block reader" where
  "content_block_member key s b =
     (if key = ''type'' then json_string_replace (\<lambda>v b. b\<lparr>cb_type := v\<rparr>) s b
      else if key = ''text'' then json_content_replace (\<lambda>v b. b\<lparr>cb_text := v\<rparr>) s b
      else if key = ''image_url'' then
        within (\<lambda>_. None) (\<lambda>u b. b\<lparr>cb_image_url := u\<rparr>) parse_image_url_value s b
      else skip_member s b)"

text \<open>
  The nonce of an image is an argument of the readers, as a function of the text that follows the
  image: no two images of a request have the same rest, so this is as general as a fresh value each
  time.
\<close>

definition parse_openai_content_object :: "(string \<Rightarrow> u8 list) \<Rightarrow> chat_msg reader" where
  "parse_openai_content_object nonce s msg =
     (if \<not> starts_with s ''{'' then (msg, None)
      else case json_members content_block_member (tl s) no_content_block of
        (_, None) \<Rightarrow> (msg, None)
      | (b, Some r) \<Rightarrow>
          (if cb_type b = Some ''image_url'' \<or> cb_type b = Some ''input_image'' then
             (case server_image_inputs_push_data_uri (nonce r) (msg_images msg) (cb_image_url b) of
                None \<Rightarrow> (msg, None)
              | Some (images, marker) \<Rightarrow> (append_content marker (msg\<lparr>msg_images := images\<rparr>), Some r))
           else case cb_text b of
             Some t \<Rightarrow> (append_content t msg, Some r)
           | None \<Rightarrow> (msg, Some r)))"

definition openai_content_element :: "(string \<Rightarrow> u8 list) \<Rightarrow> chat_msg reader" where
  "openai_content_element nonce s msg =
     (if quoted s then read_into json_cstring append_content s msg
      else if starts_with s ''{'' then parse_openai_content_object nonce s msg
      else skip_member s msg)"

definition parse_openai_content :: "(string \<Rightarrow> u8 list) \<Rightarrow> chat_msg reader" where
  "parse_openai_content nonce s msg =
     (let s = json_ws s in
      if quoted s then read_into json_cstring append_content s msg
      else case json_lit ''null'' s of
        Some r \<Rightarrow> (msg, Some r)
      | None \<Rightarrow> if \<not> starts_with s ''['' then (msg, None)
                else json_elements (openai_content_element nonce) (tl s) msg)"

definition message_member :: "(string \<Rightarrow> u8 list) \<Rightarrow> string \<Rightarrow> chat_msg reader" where
  "message_member nonce key s msg =
     (if key = ''role'' then json_string_replace (\<lambda>v m. m\<lparr>msg_role := v\<rparr>) s msg
      else if key = ''content'' then parse_openai_content nonce s (msg\<lparr>msg_content := None, msg_images := []\<rparr>)
      else if key = ''reasoning_content'' then json_content_replace (\<lambda>v m. m\<lparr>msg_reasoning := v\<rparr>) s msg
      else if key = ''tool_call_id'' then read_into json_cstring chat_msg_add_tool_call_id s msg
      else if key = ''tool_calls'' then
        within msg_calls (\<lambda>c m. m\<lparr>msg_calls := c\<rparr>) parse_tool_calls_value s
          (msg\<lparr>msg_calls := [], msg_raw_tool_text := None\<rparr>)
      else skip_member s msg)"

definition default_message :: "chat_msg \<Rightarrow> chat_msg" where
  "default_message m =
     m\<lparr>msg_role := Some (case msg_role m of None \<Rightarrow> ''user'' | Some r \<Rightarrow> r),
       msg_content := Some (case msg_content m of None \<Rightarrow> [] | Some c \<Rightarrow> c)\<rparr>"

definition message_element :: "(string \<Rightarrow> u8 list) \<Rightarrow> chat_msg list reader" where
  "message_element nonce s msgs =
     (if \<not> starts_with s ''{'' then (msgs, None)
      else case json_members (message_member nonce) (tl s) no_chat_msg of
        (_, None) \<Rightarrow> (msgs, None)
      | (m, Some r) \<Rightarrow>
          (let m = default_message m in
           if msg_images m \<noteq> [] \<and> msg_role m \<noteq> Some ''user'' then (msgs, None) else (msgs @ [m], Some r)))"

definition parse_messages :: "(string \<Rightarrow> u8 list) \<Rightarrow> chat_msg list reader" where
  "parse_messages nonce s msgs =
     (let s = json_ws s in
      if \<not> starts_with s ''['' then (msgs, None) else json_elements (message_element nonce) (tl s) msgs)"

subsection \<open>Every reader consumes text of the request\<close>

lemma read_into_suffix:
  "read_into get put s st = (st', Some r) \<Longrightarrow> (\<And>v r. get s = Some (v, r) \<Longrightarrow> proper_suffix r s) \<Longrightarrow>
     proper_suffix r s"
  by (auto dest: read_into_rest)

lemmas cstring_rest [reader_suffix] = read_into_suffix [where get = json_cstring, OF _ json_cstring_suffix]
lemmas bool_rest [reader_suffix] = read_into_suffix [where get = json_bool, OF _ json_bool_suffix]
lemmas raw_value_rest [reader_suffix] = read_into_suffix [where get = json_raw_value, OF _ json_raw_value_suffix]

lemma skip_rest [reader_suffix]: "skip_member s st = (st', Some r) \<Longrightarrow> proper_suffix r s"
  by (simp add: skip_member_rest)

lemma within_rest: "within get put rd s st = (st', Some r) \<Longrightarrow> \<exists>v v'. rd s v = (v', Some r)"
  by (auto simp: within_def split: prod.splits)

lemma null_rest [reader_suffix]: "json_lit ''null'' s = Some r \<Longrightarrow> proper_suffix r s"
  by (erule json_lit_suffix) simp

context json_field
begin

lemma after_brace: "json_members field (tl s) st = (st', Some r) \<Longrightarrow> starts_with s ''{'' \<Longrightarrow> proper_suffix r s"
  by (rule proper_suffix_after [OF members_suffix])

end

context json_element
begin

lemma after_bracket: "json_elements elem (tl s) st = (st', Some r) \<Longrightarrow> starts_with s ''['' \<Longrightarrow> proper_suffix r s"
  by (rule proper_suffix_after [OF elements_suffix])

end

interpretation content_member: json_field json_content_member
  by unfold_locales (auto simp: json_content_member_def split: if_splits dest!: reader_suffix dest: proper_suffix_suffix)

interpretation content_element: json_element json_content_element
  by unfold_locales
    (auto simp: json_content_element_def split: if_splits dest!: reader_suffix dest: content_member.after_brace)

lemma json_content_suffix: "json_content s = Some (t, r) \<Longrightarrow> proper_suffix r s"
  by (auto simp: json_content_def Let_def split: if_splits option.splits prod.splits
           dest!: json_cstring_suffix json_skip_suffix null_rest dest: content_element.after_bracket proper_suffix_ws)

lemmas content_rest [reader_suffix] = read_into_suffix [where get = json_content, OF _ json_content_suffix]

lemmas replace_defs = json_string_replace_def json_raw_value_replace_def json_content_replace_def

lemma effort_rest [reader_suffix]: "parse_reasoning_effort_value s m = (m', Some r) \<Longrightarrow> proper_suffix r s"
  by (auto simp: parse_reasoning_effort_value_def Let_def split: option.splits prod.splits
           dest!: json_cstring_suffix null_rest dest: proper_suffix_ws)

interpretation thinking_type: json_field thinking_type_member
  by unfold_locales (auto simp: thinking_type_member_def split: if_splits dest!: reader_suffix dest: proper_suffix_suffix)

lemma thinking_rest [reader_suffix]: "parse_thinking_control_value s e = (e', Some r) \<Longrightarrow> proper_suffix r s"
  by (auto simp: parse_thinking_control_value_def Let_def split: if_splits option.splits
           dest!: reader_suffix dest: thinking_type.after_brace proper_suffix_ws)

interpretation template_kwargs: json_field template_kwargs_member
  by unfold_locales
    (auto simp: template_kwargs_member_def Let_def split: if_splits
          dest!: within_rest reader_suffix proper_suffix_ws dest: proper_suffix_suffix)

lemma template_kwargs_rest [reader_suffix]: "parse_chat_template_kwargs s k = (k', Some r) \<Longrightarrow> proper_suffix r s"
  by (auto simp: parse_chat_template_kwargs_def Let_def split: if_splits option.splits
           dest!: reader_suffix dest: template_kwargs.after_brace proper_suffix_ws)

interpretation output_config: json_field output_config_member
  by unfold_locales (auto simp: output_config_member_def split: if_splits dest!: reader_suffix dest: proper_suffix_suffix)

lemma output_config_rest [reader_suffix]: "parse_output_config_effort s m = (m', Some r) \<Longrightarrow> proper_suffix r s"
  by (auto simp: parse_output_config_effort_def Let_def split: if_splits option.splits
           dest!: reader_suffix dest: output_config.after_brace proper_suffix_ws)

interpretation stops: json_element stop_element
  by unfold_locales (auto simp: stop_element_def split: if_splits dest!: reader_suffix)

lemma stop_rest [reader_suffix]: "parse_stop s l = (l', Some r) \<Longrightarrow> proper_suffix r s"
  by (auto simp: parse_stop_def Let_def split: if_splits
           dest!: reader_suffix dest: stops.after_bracket proper_suffix_ws)

interpretation stream_options: json_field stream_options_member
  by unfold_locales (auto simp: stream_options_member_def split: if_splits dest!: reader_suffix dest: proper_suffix_suffix)

lemma stream_options_rest [reader_suffix]: "parse_stream_options s u = (u', Some r) \<Longrightarrow> proper_suffix r s"
  by (auto simp: parse_stream_options_def Let_def split: if_splits
           dest!: reader_suffix dest: stream_options.after_brace proper_suffix_ws)

interpretation function_call: json_field function_call_member
  by unfold_locales
    (auto simp: function_call_member_def Let_def replace_defs split: if_splits
          dest!: reader_suffix proper_suffix_ws dest: proper_suffix_suffix)

lemma function_call_rest [reader_suffix]: "parse_function_call s tc = (tc', Some r) \<Longrightarrow> proper_suffix r s"
  unfolding parse_function_call_def by (rule function_call.object_suffix)

interpretation tool_call_fields: json_field tool_call_member
  by unfold_locales
    (auto simp: tool_call_member_def replace_defs split: if_splits dest!: reader_suffix dest: proper_suffix_suffix)

interpretation tool_call_items: json_element tool_call_element
  by unfold_locales
    (auto simp: tool_call_element_def split: if_splits option.splits prod.splits dest: tool_call_fields.after_brace)

lemma tool_calls_rest [reader_suffix]: "parse_tool_calls_value s c = (c', Some r) \<Longrightarrow> proper_suffix r s"
  by (auto simp: parse_tool_calls_value_def Let_def split: if_splits option.splits
           dest!: null_rest dest: tool_call_items.after_bracket proper_suffix_ws)

interpretation image_url: json_field image_url_member
  by unfold_locales (auto simp: image_url_member_def split: if_splits dest!: reader_suffix dest: proper_suffix_suffix)

lemma image_url_rest [reader_suffix]: "parse_image_url_value s u = (u', Some r) \<Longrightarrow> proper_suffix r s"
  by (auto simp: parse_image_url_value_def Let_def split: if_splits option.splits prod.splits
           dest!: cstring_rest dest: image_url.after_brace proper_suffix_ws)

interpretation content_block: json_field content_block_member
  by unfold_locales
    (auto simp: content_block_member_def replace_defs split: if_splits
          dest!: within_rest reader_suffix dest: proper_suffix_suffix)

lemma openai_content_object_rest [reader_suffix]:
  "parse_openai_content_object nonce s m = (m', Some r) \<Longrightarrow> proper_suffix r s"
  by (auto simp: parse_openai_content_object_def split: if_splits option.splits prod.splits
           dest: content_block.after_brace)

interpretation openai_content: json_element "openai_content_element nonce" for nonce
  by unfold_locales (auto simp: openai_content_element_def split: if_splits dest!: reader_suffix)

lemma openai_content_rest [reader_suffix]: "parse_openai_content nonce s m = (m', Some r) \<Longrightarrow> proper_suffix r s"
  by (auto simp: parse_openai_content_def Let_def split: if_splits option.splits
           dest!: cstring_rest null_rest dest: openai_content.after_bracket proper_suffix_ws)

interpretation messages: json_field "message_member nonce" for nonce
  by unfold_locales
    (auto simp: message_member_def replace_defs split: if_splits
          dest!: within_rest reader_suffix dest: proper_suffix_suffix)

interpretation message_items: json_element "message_element nonce" for nonce
  by unfold_locales
    (auto simp: message_element_def Let_def split: if_splits option.splits prod.splits dest: messages.after_brace)

lemma messages_rest [reader_suffix]: "parse_messages nonce s m = (m', Some r) \<Longrightarrow> proper_suffix r s"
  by (auto simp: parse_messages_def Let_def split: if_splits dest: message_items.after_bracket proper_suffix_ws)

end
