(* ===== verification/ToolSchema.thy ===== *)
theory ToolSchema
  imports ChatParse ToolText
begin

text \<open>
  Tools and tool arguments (\<open>ds4_server.c\<close>): the table of tool schemas with the order of their
  properties, the flattening of the \<open>tools\<close> of the OpenAI and Responses APIs into one function schema
  per line, and the argument lists of tool calls.
\<close>

subsection \<open>The table of schemas\<close>

record tool_schema_order =
  tso_name :: "string option"
  tso_wire_name :: "string option"
  tso_namespace :: "string option"
  tso_responses_tool_search :: bool
  tso_props :: "(string \<times> string) list"

definition no_schema_order :: tool_schema_order where
  "no_schema_order = \<lparr>tso_name = None, tso_wire_name = None, tso_namespace = None,
     tso_responses_tool_search = False, tso_props = []\<rparr>"

definition tool_schema_order_prop_push :: "string \<Rightarrow> string \<Rightarrow> tool_schema_order \<Rightarrow> tool_schema_order" where
  "tool_schema_order_prop_push prop schema o' = o'\<lparr>tso_props := tso_props o' @ [(prop, schema)]\<rparr>"

fun tool_schema_orders_find_index :: "tool_schema_order list \<Rightarrow> string \<Rightarrow> nat option" where
  "tool_schema_orders_find_index [] name = None"
| "tool_schema_orders_find_index (o' # orders) name =
     (if tso_name o' = Some name then Some 0 else map_option Suc (tool_schema_orders_find_index orders name))"

definition tool_schema_orders_push :: "tool_schema_order list \<Rightarrow> tool_schema_order \<Rightarrow> tool_schema_order list" where
  "tool_schema_orders_push orders order =
     (case (case tso_name order of None \<Rightarrow> None | Some n \<Rightarrow> tool_schema_orders_find_index orders n) of
        Some i \<Rightarrow> orders[i := order]
      | None \<Rightarrow> orders @ [order])"

definition tool_schema_orders_find :: "tool_schema_order list \<Rightarrow> string option \<Rightarrow> tool_schema_order option" where
  "tool_schema_orders_find orders name =
     (case (case name of None \<Rightarrow> None | Some n \<Rightarrow> tool_schema_orders_find_index orders n) of
        Some i \<Rightarrow> Some (orders ! i) | None \<Rightarrow> None)"

subsection \<open>Reading one schema\<close>

definition append_raw_json_line :: "string \<Rightarrow> string \<Rightarrow> string" where
  "append_raw_json_line b json = (if json = [] then b else (if b = [] then [] else b @ [CHR 0x0A]) @ json)"

definition openai_function_member :: "string \<Rightarrow> string option reader" where
  "openai_function_member key s found =
     (if key = ''function'' then
        (case json_raw_value s of None \<Rightarrow> (None, None) | Some (v, _) \<Rightarrow> (Some v, None))
      else skip_member s found)"

text \<open>The loop returns from its middle when the member is found, and None otherwise.\<close>

definition openai_function_schema_from_tool :: "string \<Rightarrow> string option" where
  "openai_function_schema_from_tool raw =
     (let s = json_ws raw in
      if \<not> starts_with s ''{'' then None
      else fst (json_members_loop openai_function_member (json_ws (tl s)) None))"

definition schema_property :: "string \<Rightarrow> tool_schema_order reader" where
  "schema_property key = read_into json_raw_value (tool_schema_order_prop_push key)"

definition schema_member :: "string \<Rightarrow> tool_schema_order reader" where
  "schema_member key s order =
     (if key = ''properties'' then
        (let s = json_ws s in if \<not> starts_with s ''{'' then (order, None) else json_members schema_property (tl s) order)
      else skip_member s order)"

definition parse_schema_properties :: "string \<Rightarrow> tool_schema_order \<Rightarrow> tool_schema_order \<times> bool" where
  "parse_schema_properties json order =
     (case json_object schema_member json order of (order', rest) \<Rightarrow> (order', rest \<noteq> None))"

definition schema_order_member :: "string \<Rightarrow> tool_schema_order reader" where
  "schema_order_member key s order =
     (if key = ''name'' then json_string_replace (\<lambda>v o'. o'\<lparr>tso_name := v\<rparr>) s order
      else if key = ''input_schema'' \<or> key = ''parameters'' then
        read_into json_raw_value (\<lambda>schema o'. fst (parse_schema_properties schema o')) s order
      else skip_member s order)"

definition nonempty :: "string option \<Rightarrow> string option" where
  "nonempty x = (if x = Some [] then None else x)"

text \<open>The loop's end is not checked for the closing brace.\<close>

definition tool_schema_orders_add_json_wire ::
  "tool_schema_order list \<Rightarrow> string \<Rightarrow> string option \<Rightarrow> string option \<Rightarrow> bool \<Rightarrow> tool_schema_order list" where
  "tool_schema_orders_add_json_wire orders json namespace wire_name search =
     (let s = json_ws json in
      if \<not> starts_with s ''{'' then orders
      else case json_members_loop schema_order_member (json_ws (tl s)) no_schema_order of
        (_, None) \<Rightarrow> orders
      | (order, Some _) \<Rightarrow>
          (if tso_name order = None then orders
           else tool_schema_orders_push orders
             (order\<lparr>tso_namespace := nonempty namespace, tso_wire_name := nonempty wire_name,
                tso_responses_tool_search := search\<rparr>)))"

definition tool_schema_orders_add_json :: "tool_schema_order list \<Rightarrow> string \<Rightarrow> tool_schema_order list" where
  "tool_schema_orders_add_json orders json = tool_schema_orders_add_json_wire orders json None None False"

record tool_fields =
  tf_type :: "string option"
  tf_name :: "string option"
  tf_description :: "string option"
  tf_parameters :: "string option"
  tf_tools :: "string option"

definition no_tool_fields :: tool_fields where
  "no_tool_fields = \<lparr>tf_type = None, tf_name = None, tf_description = None, tf_parameters = None, tf_tools = None\<rparr>"

definition quoted_key :: "string \<Rightarrow> string" where
  "quoted_key k = CHR 0x22 # k @ [CHR 0x22]"

definition empty_parameters :: string where
  "empty_parameters =
     ''{'' @ quoted_key ''type'' @ '':'' @ quoted_key ''object'' @ '','' @ quoted_key ''properties'' @ '':{}}''"

definition function_schema_text :: "string \<Rightarrow> string \<Rightarrow> string option \<Rightarrow> string" where
  "function_schema_text name description parameters =
     ''{'' @ quoted_key ''name'' @ '':'' @ json_escape name @ '','' @ quoted_key ''description'' @ '':'' @ json_escape description
     @ '','' @ quoted_key ''parameters'' @ '':'' @ (case parameters of None \<Rightarrow> empty_parameters | Some q \<Rightarrow> q) @ ''}''"

definition special_tool_member :: "string \<Rightarrow> tool_fields reader" where
  "special_tool_member key s f =
     (if key = ''type'' then json_string_replace (\<lambda>v f. f\<lparr>tf_type := v\<rparr>) s f
      else if key = ''description'' then json_string_replace (\<lambda>v f. f\<lparr>tf_description := v\<rparr>) s f
      else if key = ''parameters'' then json_raw_value_replace (\<lambda>v f. f\<lparr>tf_parameters := v\<rparr>) s f
      else skip_member s f)"

definition responses_special_schema_from_tool :: "string \<Rightarrow> string option" where
  "responses_special_schema_from_tool raw =
     (let s = json_ws raw in
      if \<not> starts_with s ''{'' then None
      else case json_members_loop special_tool_member (json_ws (tl s)) no_tool_fields of
        (_, None) \<Rightarrow> None
      | (f, Some _) \<Rightarrow>
          (if tf_type f = Some ''tool_search'' then
             Some (function_schema_text ''tool_search''
               (case tf_description f of None \<Rightarrow> ''Search available tools.'' | Some d \<Rightarrow> d) (tf_parameters f))
           else None))"

definition namespace_function_member :: "string \<Rightarrow> tool_fields reader" where
  "namespace_function_member key s f =
     (if key = ''type'' then json_string_replace (\<lambda>v f. f\<lparr>tf_type := v\<rparr>) s f
      else if key = ''name'' then json_string_replace (\<lambda>v f. f\<lparr>tf_name := v\<rparr>) s f
      else if key = ''description'' then json_string_replace (\<lambda>v f. f\<lparr>tf_description := v\<rparr>) s f
      else if key = ''parameters'' \<or> key = ''input_schema'' then
        json_raw_value_replace (\<lambda>v f. f\<lparr>tf_parameters := v\<rparr>) s f
      else skip_member s f)"

text \<open>The schema for the prompt, whose name is qualified, and the name the client knows.\<close>

definition responses_namespace_function_schema_from_tool :: "string \<Rightarrow> string \<Rightarrow> (string \<times> string) option" where
  "responses_namespace_function_schema_from_tool raw namespace =
     (let s = json_ws raw in
      if \<not> starts_with s ''{'' then None
      else case json_members_loop namespace_function_member (json_ws (tl s)) no_tool_fields of
        (_, None) \<Rightarrow> None
      | (f, Some _) \<Rightarrow>
          (case tf_name f of
             None \<Rightarrow> None
           | Some name \<Rightarrow>
               (if (tf_type f = None \<or> tf_type f = Some ''function'') \<and> name \<noteq> [] then
                  Some (function_schema_text (namespace @ name)
                          (case tf_description f of None \<Rightarrow> [] | Some d \<Rightarrow> d) (tf_parameters f), name)
                else None)))"

definition namespace_member :: "string \<Rightarrow> tool_fields reader" where
  "namespace_member key s f =
     (if key = ''type'' then json_string_replace (\<lambda>v f. f\<lparr>tf_type := v\<rparr>) s f
      else if key = ''name'' then json_string_replace (\<lambda>v f. f\<lparr>tf_name := v\<rparr>) s f
      else if key = ''tools'' then json_raw_value_replace (\<lambda>v f. f\<lparr>tf_tools := v\<rparr>) s f
      else skip_member s f)"

subsection \<open>Reading the list of tools\<close>

record tools_state =
  ts_schemas :: string
  ts_orders :: "tool_schema_order list"
  ts_appended :: bool

definition namespace_tool_element :: "string \<Rightarrow> tools_state reader" where
  "namespace_tool_element name =
     read_into json_raw_value (\<lambda>raw st.
       case responses_namespace_function_schema_from_tool raw name of
         None \<Rightarrow> st
       | Some (schema, wire) \<Rightarrow>
           st\<lparr>ts_schemas := append_raw_json_line (ts_schemas st) schema,
              ts_orders := tool_schema_orders_add_json_wire (ts_orders st) schema (Some name) (Some wire) False,
              ts_appended := True\<rparr>)"

definition append_responses_namespace_tool_schemas :: "string \<Rightarrow> tools_state \<Rightarrow> tools_state" where
  "append_responses_namespace_tool_schemas raw st =
     (let st = st\<lparr>ts_appended := False\<rparr>; s = json_ws raw in
      if \<not> starts_with s ''{'' then st
      else case json_members_loop namespace_member (json_ws (tl s)) no_tool_fields of
        (_, None) \<Rightarrow> st
      | (f, Some _) \<Rightarrow>
          (if tf_type f \<noteq> Some ''namespace'' then st
           else case (tf_name f, tf_tools f) of
             (Some name, Some tools) \<Rightarrow>
               (let t = json_ws tools in
                if \<not> starts_with t ''['' then st
                else fst (json_elements_loop (namespace_tool_element name) (json_ws (tl t)) st))
           | _ \<Rightarrow> st))"

definition add_tool :: "string \<Rightarrow> tools_state \<Rightarrow> tools_state" where
  "add_tool raw st =
     (case openai_function_schema_from_tool raw of
        Some function \<Rightarrow>
          st\<lparr>ts_schemas := append_raw_json_line (ts_schemas st) function,
             ts_orders := tool_schema_orders_add_json (ts_orders st) function\<rparr>
      | None \<Rightarrow>
          (let st' = append_responses_namespace_tool_schemas raw st in
           if ts_appended st' then st'
           else case responses_special_schema_from_tool raw of
             Some special \<Rightarrow>
               st'\<lparr>ts_schemas := append_raw_json_line (ts_schemas st') special,
                   ts_orders := tool_schema_orders_add_json_wire (ts_orders st') special None None True\<rparr>
           | None \<Rightarrow>
               st'\<lparr>ts_schemas := append_raw_json_line (ts_schemas st') raw,
                   ts_orders := tool_schema_orders_add_json (ts_orders st') raw\<rparr>))"

definition tool_element :: "tools_state reader" where
  "tool_element = read_into json_raw_value add_tool"

text \<open>The schemas are handed out only on success; the table of orders is the caller's.\<close>

definition parse_tools_value :: "(string option \<times> tool_schema_order list) reader" where
  "parse_tools_value s st =
     (let s = json_ws s in
      case json_lit ''null'' s of
        Some r \<Rightarrow> ((Some [], snd st), Some r)
      | None \<Rightarrow>
          if \<not> starts_with s ''['' then (st, None)
          else case json_elements tool_element (tl s) \<lparr>ts_schemas = [], ts_orders = snd st, ts_appended = False\<rparr> of
            (t, None) \<Rightarrow> ((fst st, ts_orders t), None)
          | (t, Some r) \<Rightarrow> ((Some (ts_schemas t), ts_orders t), Some r))"

subsection \<open>Termination and the table\<close>

interpretation schema_properties: json_field schema_property
  by unfold_locales (auto simp: schema_property_def dest!: reader_suffix dest: proper_suffix_suffix)

interpretation schema_fields: json_field schema_member
  by unfold_locales
    (auto simp: schema_member_def Let_def split: if_splits dest!: skip_rest
          dest: proper_suffix_suffix proper_suffix_ws schema_properties.after_brace)

interpretation schema_order_fields: json_field schema_order_member
  by unfold_locales
    (auto simp: schema_order_member_def replace_defs split: if_splits dest!: reader_suffix dest: proper_suffix_suffix)

interpretation openai_function: json_field openai_function_member
  by unfold_locales
    (auto simp: openai_function_member_def split: if_splits option.splits dest!: reader_suffix dest: proper_suffix_suffix)

interpretation special_tool: json_field special_tool_member
  by unfold_locales
    (auto simp: special_tool_member_def replace_defs split: if_splits dest!: reader_suffix dest: proper_suffix_suffix)

interpretation namespace_function: json_field namespace_function_member
proof
  fix k s st st' r
  assume "namespace_function_member k s st = (st', Some r)"
  then consider put where "read_into json_cstring put s st = (st', Some r)"
    | put where "read_into json_raw_value put s st = (st', Some r)" | "skip_member s st = (st', Some r)"
    unfolding namespace_function_member_def replace_defs by meson
  then show "suffix r s" by cases (auto dest!: reader_suffix dest: proper_suffix_suffix)
qed

interpretation namespace_fields: json_field namespace_member
  by unfold_locales
    (auto simp: namespace_member_def replace_defs split: if_splits dest!: reader_suffix dest: proper_suffix_suffix)

interpretation namespace_tools: json_element "namespace_tool_element name" for name
  by unfold_locales (auto simp: namespace_tool_element_def dest!: reader_suffix)

interpretation tool_items: json_element tool_element
  by unfold_locales (auto simp: tool_element_def dest!: reader_suffix)

lemma parse_tools_rest: "parse_tools_value s st = (st', Some r) \<Longrightarrow> proper_suffix r s"
  by (auto simp: parse_tools_value_def Let_def split: if_splits option.splits prod.splits
           dest!: null_rest dest: tool_items.after_bracket proper_suffix_ws)

text \<open>Names are unique in the table, so that looking a tool up is unambiguous.\<close>

definition orders_wf :: "tool_schema_order list \<Rightarrow> bool" where
  "orders_wf orders \<longleftrightarrow> distinct (map tso_name orders) \<and> None \<notin> set (map tso_name orders)"

lemma find_index_Some: "tool_schema_orders_find_index orders n = Some i \<Longrightarrow> i < length orders \<and> tso_name (orders ! i) = Some n"
  by (induction orders arbitrary: i) (auto split: if_splits)

lemma find_index_None: "tool_schema_orders_find_index orders n = None \<longleftrightarrow> Some n \<notin> set (map tso_name orders)"
  by (induction orders) auto

lemma orders_push_wf:
  assumes "orders_wf orders" "tso_name order = Some n"
  shows "orders_wf (tool_schema_orders_push orders order)"
proof (cases "tool_schema_orders_find_index orders n")
  case None
  with assms find_index_None [of orders n] show ?thesis
    by (auto simp: tool_schema_orders_push_def orders_wf_def)
next
  case (Some i)
  from find_index_Some [OF Some] have i: "i < length orders" "tso_name (orders ! i) = Some n" by auto
  then have "map tso_name (orders[i := order]) = map tso_name orders"
    using assms(2) by (metis list_update_id map_update nth_map)
  with Some assms show ?thesis by (simp add: tool_schema_orders_push_def orders_wf_def)
qed

lemma orders_find: "tool_schema_orders_find orders (Some n) = find (\<lambda>o'. tso_name o' = Some n) orders"
  by (induction orders) (auto simp: tool_schema_orders_find_def split: option.splits)

lemma find_snoc: "find P (xs @ [y]) = (case find P xs of Some z \<Rightarrow> Some z | None \<Rightarrow> if P y then Some y else None)"
  by (induction xs) auto

lemma find_update_other: "\<not> P y \<Longrightarrow> \<not> P (xs ! i) \<Longrightarrow> i < length xs \<Longrightarrow> find P (xs[i := y]) = find P xs"
  by (induction xs arbitrary: i) (auto split: nat.splits)

lemma find_update_first:
  "tool_schema_orders_find_index orders n = Some i \<Longrightarrow> tso_name y = Some n \<Longrightarrow>
     find (\<lambda>o'. tso_name o' = Some n) (orders[i := y]) = Some y"
  by (induction orders arbitrary: i) (auto split: if_splits)

text \<open>The table is a map: the schema pushed last is the one found, and no other name is affected.\<close>

lemma orders_push_find:
  assumes "tso_name order = Some n"
  shows "tool_schema_orders_find (tool_schema_orders_push orders order) (Some m) =
           (if m = n then Some order else tool_schema_orders_find orders (Some m))"
proof (cases "tool_schema_orders_find_index orders n")
  case None
  then have "find (\<lambda>o'. tso_name o' = Some n) orders = None"
    by (simp add: find_index_None find_None_iff) (metis image_eqI)
  with None assms show ?thesis
    by (auto simp: orders_find tool_schema_orders_push_def find_snoc split: option.splits)
next
  case (Some i)
  from find_index_Some [OF Some] have "i < length orders" "tso_name (orders ! i) = Some n" by auto
  with Some assms find_update_first [OF Some assms] show ?thesis
    by (auto simp: orders_find tool_schema_orders_push_def intro!: find_update_other)
qed

lemma add_json_wire_wf: "orders_wf orders \<Longrightarrow> orders_wf (tool_schema_orders_add_json_wire orders json ns w b)"
  by (auto simp: tool_schema_orders_add_json_wire_def Let_def intro: orders_push_wf split: option.splits prod.splits)

lemma read_into_keeps: "read_into get put s st = (st', q) \<Longrightarrow> P st \<Longrightarrow> (\<And>v. P (put v st)) \<Longrightarrow> P st'"
  by (auto simp: read_into_def split: option.splits)

interpretation namespace_invariant: json_element_total_invariant "namespace_tool_element name" "\<lambda>st. orders_wf (ts_orders st)" for name
proof
  fix s st st' q
  assume "orders_wf (ts_orders st)" "namespace_tool_element name s st = (st', q)"
  then show "orders_wf (ts_orders st')" unfolding namespace_tool_element_def
    by (elim read_into_keeps) (auto simp: add_json_wire_wf split: option.splits)
qed

lemma namespace_schemas_wf:
  "orders_wf (ts_orders st) \<Longrightarrow> orders_wf (ts_orders (append_responses_namespace_tool_schemas raw st))"
  by (auto simp: append_responses_namespace_tool_schemas_def Let_def namespace_invariant.loop_keeps_any
           split: option.splits prod.splits)

lemma add_tool_wf: "orders_wf (ts_orders st) \<Longrightarrow> orders_wf (ts_orders (add_tool raw st))"
  by (simp add: add_tool_def Let_def tool_schema_orders_add_json_def add_json_wire_wf namespace_schemas_wf split: option.split)

interpretation tool_invariant: json_element_total_invariant tool_element "\<lambda>st. orders_wf (ts_orders st)"
proof
  fix s st st' q
  assume "orders_wf (ts_orders st)" "tool_element s st = (st', q)"
  then show "orders_wf (ts_orders st')" unfolding tool_element_def
    by (elim read_into_keeps) (simp_all add: add_tool_wf)
qed

text \<open>Whatever a request gives as its tools, the reader stays inside the request, and the table of
  schemas it extends keeps one entry per name: a schema replaces the one of the same name in place,
  is then the one found under it, and leaves every other entry alone.
\<close>

theorem parse_tools_table:
  assumes "orders_wf orders" "parse_tools_value s (out, orders) = ((schemas, orders'), Some r)"
  shows "orders_wf orders' \<and> proper_suffix r s \<and>
    (\<forall>order n m. tso_name order = Some n \<longrightarrow>
       tool_schema_orders_find (tool_schema_orders_push orders' order) (Some m) =
         (if m = n then Some order else tool_schema_orders_find orders' (Some m)))"
proof -
  have "orders_wf orders'"
    using assms
    by (auto simp: parse_tools_value_def Let_def split: if_splits option.splits prod.splits
             dest!: tool_invariant.total.elements_keep [rotated])
  then show ?thesis using parse_tools_rest [OF assms(2)] orders_push_find by blast
qed

definition example_tools :: string where
  "example_tools = ''[{'' @ quoted_key ''name'' @ '':'' @ quoted_key ''read'' @ ''}]''"

lemma parse_tools_table_witness:
  "orders_wf (snd (fst (parse_tools_value example_tools (None, []))))
   \<and> map tso_name (snd (fst (parse_tools_value example_tools (None, [])))) = [Some ''read'']"
proof -
  have "snd (parse_tools_value example_tools (None, [])) = Some []"
    and names: "map tso_name (snd (fst (parse_tools_value example_tools (None, [])))) = [Some ''read'']"
    by code_simp+
  then obtain schemas orders where p: "parse_tools_value example_tools (None, []) = ((schemas, orders), Some [])"
    by (metis prod.collapse)
  show ?thesis using parse_tools_table [of "[]", OF _ p] names p by (simp add: orders_wf_def)
qed

end
