(* ===== verification/ChatSpec.thy ===== *)
theory ChatSpec
  imports ChatParse
begin

text \<open>
  What the chat fields mean, as functions on JSON values, and the proof that the readers compute
  them on the text of every well-formed value: the stop list, the text of a content, the tool calls
  of a message and the messages of a conversation.
\<close>

subsection \<open>The first character of a value\<close>

definition json_fits :: "json \<Rightarrow> bool" where
  "json_fits v \<longleftrightarrow> json_ok v \<and> json_depth v \<le> JSON_MAX_NESTING"

definition is_string :: "json \<Rightarrow> bool" where
  "is_string v = (case v of JStr _ \<Rightarrow> True | _ \<Rightarrow> False)"

definition is_object :: "json \<Rightarrow> bool" where
  "is_object v = (case v of JObj _ \<Rightarrow> True | _ \<Rightarrow> False)"

definition is_array :: "json \<Rightarrow> bool" where
  "is_array v = (case v of JArr _ \<Rightarrow> True | _ \<Rightarrow> False)"

lemmas kind_defs = is_string_def is_object_def is_array_def

lemma json_fits_ok: "json_fits v \<Longrightarrow> json_ok v"
  by (simp add: json_fits_def)

lemma json_fits_string [simp]: "json_fits (JStr t)"
  by (simp add: json_fits_def)

lemma digits_cons: "json_ok (JNum ds) \<Longrightarrow> \<exists>c q. ds = c # q \<and> c_isdigit c"
  by (cases ds) auto

lemma digit_other: "c_isdigit c \<Longrightarrow> c \<noteq> CHR 0x22 \<and> c \<noteq> CHR ''{'' \<and> c \<noteq> CHR ''['' \<and> c \<noteq> CHR ''n'' \<and> c \<noteq> CHR ''t'' \<and> c \<noteq> CHR ''f''"
  by (auto simp: c_isdigit_def)

lemma text_kind:
  assumes "json_ok v"
  shows "quoted (json_text v @ r) = is_string v"
    "starts_with (json_text v @ r) ''{'' = is_object v"
    "starts_with (json_text v @ r) ''['' = is_array v"
    "json_lit ''null'' (json_text v @ r) = (if v = JNull then Some r else None)"
proof -
  have "quoted (json_text v @ r) = is_string v \<and> starts_with (json_text v @ r) ''{'' = is_object v
      \<and> starts_with (json_text v @ r) ''['' = is_array v
      \<and> json_lit ''null'' (json_text v @ r) = (if v = JNull then Some r else None)"
  proof (cases v)
    case (JNum ds)
    with assms obtain c q where "ds = c # q" "c_isdigit c" using digits_cons by blast
    with JNum digit_other [of c] show ?thesis by (simp add: quoted_def kind_defs json_lit_def)
  next
    case (JBool b)
    then show ?thesis by (cases b) (simp_all add: quoted_def kind_defs json_lit_def)
  qed (simp_all add: quoted_def kind_defs json_lit_def json_escape_def)
  then show "quoted (json_text v @ r) = is_string v"
    "starts_with (json_text v @ r) ''{'' = is_object v"
    "starts_with (json_text v @ r) ''['' = is_array v"
    "json_lit ''null'' (json_text v @ r) = (if v = JNull then Some r else None)"
    by blast+
qed

lemma skip_text: "json_fits v \<Longrightarrow> json_follow r \<Longrightarrow> skip_member (json_text v @ r) st = (st, Some r)"
  using json_skip_text [of v 0 r] by (simp add: skip_member_def json_skip_value_def json_fits_def)

lemma raw_text: "json_fits v \<Longrightarrow> json_follow r \<Longrightarrow> read_into json_raw_value put (json_text v @ r) st = (put (json_text v) st, Some r)"
  using json_raw_value_text [of v r] by (simp add: read_into_def json_fits_def)

lemma cstring_text: "read_into json_cstring put (json_escape t @ r) st = (put (c_str t) st, Some r)"
  by (simp add: read_into_def)

subsection \<open>Objects and arrays\<close>

definition members :: "json \<Rightarrow> (string \<times> json) list" where
  "members v = (case v of JObj kvs \<Rightarrow> kvs | _ \<Rightarrow> [])"

definition items :: "json \<Rightarrow> json list" where
  "items v = (case v of JArr vs \<Rightarrow> vs | _ \<Rightarrow> [])"

definition string_value :: "json \<Rightarrow> string" where
  "string_value v = (case v of JStr t \<Rightarrow> c_str t | _ \<Rightarrow> [])"

definition all_members :: "(string \<Rightarrow> json \<Rightarrow> bool) \<Rightarrow> json \<Rightarrow> bool" where
  "all_members P v \<longleftrightarrow> list_all (\<lambda>(k, w). P (c_str k) w) (members v)"

definition fold_members :: "(string \<Rightarrow> json \<Rightarrow> 's \<Rightarrow> 's) \<Rightarrow> json \<Rightarrow> 's \<Rightarrow> 's" where
  "fold_members f v st = fold (\<lambda>(k, w). f (c_str k) w) (members v) st"

lemma string_text: "is_string v \<Longrightarrow> read_into json_cstring put (json_text v @ r) st = (put (string_value v) st, Some r)"
  by (auto simp: is_string_def string_value_def cstring_text split: json.splits)

lemma string_text': "is_string v \<Longrightarrow> json_cstring (json_text v @ r) = Some (string_value v, r)"
  by (auto simp: is_string_def string_value_def split: json.splits)

lemma object_members: "is_object v \<Longrightarrow> v = JObj (members v)"
  by (auto simp: is_object_def members_def split: json.splits)

lemma array_items: "is_array v \<Longrightarrow> v = JArr (items v)"
  by (auto simp: is_array_def items_def split: json.splits)

lemma fits_item: "json_fits v \<Longrightarrow> w \<in> set (items v) \<Longrightarrow> json_fits w"
  using foldr_max_ge [of "json_depth w" "map json_depth (items v)"]
  by (cases v) (auto simp: items_def json_fits_def list_all_iff)

lemma fits_member: "json_fits v \<Longrightarrow> (k, w) \<in> set (members v) \<Longrightarrow> json_fits w"
  using foldr_max_ge [of "json_depth w" "map (\<lambda>(k, v). json_depth v) (members v)"]
  by (cases v) (fastforce simp: members_def json_fits_def list_all_iff)+

text \<open>The interpretations of \<open>json_field_meaning\<close> all take the key as the C code sees it.\<close>

context json_field_meaning
begin

lemma after_brace_text:
  assumes "is_object v" "\<And>k w. (k, w) \<in> set (members v) \<Longrightarrow> ok k w"
  shows "json_members field (tl (json_text v @ r)) st = (fold (\<lambda>(k, w). step k w) (members v) st, Some r)"
proof -
  have v: "v = JObj (members v)" by (rule object_members [OF assms(1)])
  have "json_object field (json_text v @ r) st = json_members field (tl (json_text v @ r)) st"
    by (subst (1 2) v) (simp add: json_object_def c_isspace_def)
  with object_text [of "members v" r st] assms(2) v show ?thesis by simp
qed

end

context json_element_meaning
begin

lemma after_bracket_text:
  assumes "is_array v" "\<And>w. w \<in> set (items v) \<Longrightarrow> ok w"
  shows "json_elements elem (tl (json_text v @ r)) st = (fold step (items v) st, Some r)"
  using elements_text [of "items v" r st] assms(2)
  by (subst array_items [OF assms(1)]) simp

end

subsection \<open>Stop lists\<close>

definition stop_step :: "json \<Rightarrow> stop_list \<Rightarrow> stop_list" where
  "stop_step v l = (case v of JStr t \<Rightarrow> stop_list_push (c_str t) l | _ \<Rightarrow> l)"

interpretation stop_meaning: json_element_meaning stop_element stop_step json_fits
  by unfold_locales
    (auto simp: stop_element_def stop_step_def text_kind json_fits_ok skip_text is_string_def cstring_text
          split: json.splits)

definition stop_strings :: "json \<Rightarrow> string list" where
  "stop_strings v = filter (\<lambda>t. t \<noteq> [])
     (case v of JStr t \<Rightarrow> [c_str t] | JArr vs \<Rightarrow> map string_value (filter is_string vs) | _ \<Rightarrow> [])"

lemma stop_fold:
  "fold stop_step vs l =
     \<lparr>stops_v = stops_v l @ filter (\<lambda>t. t \<noteq> []) (map string_value (filter is_string vs)),
      stops_max_len = fold max (map length (filter (\<lambda>t. t \<noteq> []) (map string_value (filter is_string vs)))) (stops_max_len l)\<rparr>"
  by (induction vs arbitrary: l)
    (auto simp: stop_step_def stop_list_push_def is_string_def string_value_def max.commute split: json.splits)

lemma parse_stop_text:
  assumes "json_fits v" "json_follow r"
  shows "parse_stop (json_text v @ r) l =
           (\<lparr>stops_v = stop_strings v, stops_max_len = fold max (map length (stop_strings v)) 0\<rparr>, Some r)"
proof -
  have ws: "json_ws (json_text v @ r) = json_text v @ r" by (rule json_ws_text [OF json_fits_ok [OF assms(1)]])
  note kind = text_kind [OF json_fits_ok [OF assms(1)], of r]
  consider (str) t where "v = JStr t" | (arr) vs where "v = JArr vs"
    | (other) "\<not> is_string v" "\<not> is_array v" by (cases v) (auto simp: kind_defs)
  then show ?thesis
  proof cases
    case str
    then show ?thesis using kind(1) ws
      by (simp add: parse_stop_def is_string_def cstring_text stop_list_push_def stop_list_clear_def stop_strings_def)
  next
    case arr
    have "json_elements stop_element (tl (json_text v @ r)) stop_list_clear = (fold stop_step (items v) stop_list_clear, Some r)"
      by (rule stop_meaning.after_bracket_text) (use assms(1) fits_item arr in \<open>auto simp: is_array_def\<close>)
    then show ?thesis using kind(1,3) ws arr
      by (simp add: parse_stop_def kind_defs Let_def stop_fold stop_list_clear_def items_def stop_strings_def)
  next
    case other
    then have "stop_strings v = []" by (cases v) (simp_all add: kind_defs stop_strings_def)
    with other show ?thesis using kind(1,3) ws skip_text [OF assms]
      by (simp add: parse_stop_def Let_def stop_list_clear_def)
  qed
qed

subsection \<open>The text of a content\<close>

definition text_member_ok :: "string \<Rightarrow> json \<Rightarrow> bool" where
  "text_member_ok k v \<longleftrightarrow> k = ''text'' \<longrightarrow> is_string v"

definition text_member_step :: "string \<Rightarrow> json \<Rightarrow> string \<Rightarrow> string" where
  "text_member_step k v b = (if k = ''text'' then b @ string_value v else b)"

definition content_element_ok :: "json \<Rightarrow> bool" where
  "content_element_ok v \<longleftrightarrow> json_fits v \<and> all_members text_member_ok v"

definition content_element_step :: "json \<Rightarrow> string \<Rightarrow> string" where
  "content_element_step v b = (if is_string v then b @ string_value v else fold_members text_member_step v b)"

definition content_ok :: "json \<Rightarrow> bool" where
  "content_ok v \<longleftrightarrow> json_fits v \<and> list_all content_element_ok (items v)"

definition content_text :: "json \<Rightarrow> string" where
  "content_text v = (if is_string v then string_value v else fold content_element_step (items v) [])"

interpretation text_member_meaning: json_field_meaning json_content_member
  "\<lambda>k. text_member_step (c_str k)" "\<lambda>k v. json_fits v \<and> text_member_ok (c_str k) v"
  by unfold_locales
    (auto simp: json_content_member_def text_member_step_def text_member_ok_def string_text skip_text)

lemma not_string_members: "is_object v \<Longrightarrow> \<not> is_string v" "\<not> is_object v \<Longrightarrow> members v = []"
  by (auto simp: kind_defs members_def split: json.splits)

lemma content_element_text:
  assumes "content_element_ok v" "json_follow r"
  shows "json_content_element (json_text v @ r) b = (content_element_step v b, Some r)"
proof -
  note ok = assms(1) [unfolded content_element_ok_def]
  note kind = text_kind [OF json_fits_ok, of v r]
  show ?thesis
  proof (cases "is_object v")
    case True
    have "json_members json_content_member (tl (json_text v @ r)) b =
        (fold (\<lambda>(k, w). text_member_step (c_str k) w) (members v) b, Some r)"
      by (rule text_member_meaning.after_brace_text [OF True])
        (use ok fits_member in \<open>auto simp: all_members_def list_all_iff\<close>)
    with True ok kind show ?thesis
      by (simp add: json_content_element_def content_element_step_def fold_members_def not_string_members)
  next
    case False
    with ok kind skip_text [of v r b] assms(2) show ?thesis
      by (auto simp: json_content_element_def content_element_step_def fold_members_def not_string_members string_text)
  qed
qed

interpretation content_meaning: json_element_meaning json_content_element content_element_step content_element_ok
  by unfold_locales (auto simp: content_element_text content_element_ok_def json_fits_ok)

lemma json_content_text:
  assumes "content_ok v" "json_follow r"
  shows "json_content (json_text v @ r) = Some (content_text v, r)"
proof -
  have fits: "json_fits v" using assms(1) by (simp add: content_ok_def)
  have ws: "json_ws (json_text v @ r) = json_text v @ r" by (rule json_ws_text [OF json_fits_ok [OF fits]])
  note kind = text_kind [OF json_fits_ok [OF fits], of r]
  have sk: "json_skip_value (json_text v @ r) = Some r" using skip_text [OF fits assms(2)] by (simp add: skip_member_def)
  have "json_elements json_content_element (tl (json_text v @ r)) b = (fold content_element_step (items v) b, Some r)"
    if "is_array v" for b
    by (rule content_meaning.after_bracket_text [OF that]) (use assms(1) in \<open>auto simp: content_ok_def list_all_iff\<close>)
  with kind ws sk fits show ?thesis
    by (auto simp: json_content_def Let_def content_text_def kind_defs items_def string_text' split: json.splits)
qed

lemma content_into: "content_ok v \<Longrightarrow> json_follow r \<Longrightarrow>
    read_into json_content put (json_text v @ r) st = (put (content_text v) st, Some r)"
  by (simp add: read_into_def json_content_text)

subsection \<open>Tool calls\<close>

definition function_ok :: "string \<Rightarrow> json \<Rightarrow> bool" where
  "function_ok k v \<longleftrightarrow> k = ''name'' \<longrightarrow> is_string v"

definition function_step :: "string \<Rightarrow> json \<Rightarrow> tool_call \<Rightarrow> tool_call" where
  "function_step k v tc =
     (if k = ''name'' then tc\<lparr>tc_name := Some (string_value v)\<rparr>
      else if k = ''arguments'' then
        tc\<lparr>tc_arguments := Some (if is_string v then string_value v else json_text v)\<rparr>
      else tc)"

definition call_ok :: "string \<Rightarrow> json \<Rightarrow> bool" where
  "call_ok k v \<longleftrightarrow> (k = ''id'' \<longrightarrow> is_string v)
                 \<and> (k = ''function'' \<longrightarrow> is_object v \<and> all_members function_ok v)"

definition call_step :: "string \<Rightarrow> json \<Rightarrow> tool_call \<Rightarrow> tool_call" where
  "call_step k v tc =
     (if k = ''id'' then tc\<lparr>tc_id := Some (string_value v)\<rparr>
      else if k = ''function'' then fold_members function_step v tc
      else tc)"

definition calls_step :: "json \<Rightarrow> tool_call list \<Rightarrow> tool_call list" where
  "calls_step v calls =
     (let tc = fold_members call_step v no_tool_call in
      if tc_name tc \<noteq> None \<and> tc_arguments tc \<noteq> None then calls @ [tc] else calls)"

definition call_element_ok :: "json \<Rightarrow> bool" where
  "call_element_ok v \<longleftrightarrow> json_fits v \<and> is_object v \<and> all_members call_ok v"

definition calls_ok :: "json \<Rightarrow> bool" where
  "calls_ok v \<longleftrightarrow> json_fits v \<and> (v = JNull \<or> is_array v) \<and> list_all call_element_ok (items v)"

interpretation function_meaning: json_field_meaning function_call_member
  "\<lambda>k. function_step (c_str k)" "\<lambda>k v. json_fits v \<and> function_ok (c_str k) v"
  by unfold_locales
    (auto simp: function_call_member_def function_step_def function_ok_def replace_defs string_text skip_text
       raw_text json_ws_text json_fits_ok text_kind)

lemma function_call_text:
  assumes "json_fits v" "is_object v" "all_members function_ok v"
  shows "parse_function_call (json_text v @ r) tc = (fold_members function_step v tc, Some r)"
proof -
  have "\<And>k w. (k, w) \<in> set (members v) \<Longrightarrow> json_fits w \<and> function_ok (c_str k) w"
    using assms(1,3) fits_member by (auto simp: all_members_def list_all_iff)
  from function_meaning.object_text [OF this, of "members v" r tc] show ?thesis
    by (simp add: parse_function_call_def fold_members_def object_members [OF assms(2), symmetric])
qed

interpretation call_meaning: json_field_meaning tool_call_member
  "\<lambda>k. call_step (c_str k)" "\<lambda>k v. json_fits v \<and> call_ok (c_str k) v"
  by unfold_locales
    (auto simp: tool_call_member_def call_step_def call_ok_def replace_defs string_text skip_text function_call_text)

interpretation calls_meaning: json_element_meaning tool_call_element calls_step call_element_ok
proof
  fix v r st
  assume v: "call_element_ok v" and r: "json_follow r"
  have "json_members tool_call_member (tl (json_text v @ r)) no_tool_call = (fold_members call_step v no_tool_call, Some r)"
    unfolding fold_members_def using v fits_member
    by (intro call_meaning.after_brace_text) (auto simp: call_element_ok_def all_members_def list_all_iff)
  with v show "tool_call_element (json_text v @ r) st = (calls_step v st, Some r)"
    by (simp add: tool_call_element_def calls_step_def call_element_ok_def text_kind json_fits_ok Let_def)
qed (simp add: call_element_ok_def json_fits_ok)

lemma tool_calls_text:
  assumes "calls_ok v" "json_follow r"
  shows "parse_tool_calls_value (json_text v @ r) calls = (fold calls_step (items v) calls, Some r)"
proof -
  have v: "json_ok v" using assms(1) by (simp add: calls_ok_def json_fits_ok)
  have "json_elements tool_call_element (tl (json_text v @ r)) calls = (fold calls_step (items v) calls, Some r)"
    if "is_array v"
    by (rule calls_meaning.after_bracket_text [OF that]) (use assms(1) in \<open>auto simp: calls_ok_def list_all_iff\<close>)
  with assms(1) show ?thesis
    by (auto simp: parse_tool_calls_value_def Let_def json_ws_text [OF v] text_kind [OF v] calls_ok_def items_def is_array_def)
qed

subsection \<open>Messages of text\<close>

text \<open>A text block has no image; an image block is stored apart and leaves its marker in the text.\<close>

definition block_ok :: "string \<Rightarrow> json \<Rightarrow> bool" where
  "block_ok k v \<longleftrightarrow> k \<noteq> ''image_url''
     \<and> (k = ''type'' \<longrightarrow> is_string v \<and> string_value v \<noteq> ''image_url'' \<and> string_value v \<noteq> ''input_image'')
     \<and> (k = ''text'' \<longrightarrow> content_ok v)"

definition block_step :: "string \<Rightarrow> json \<Rightarrow> content_block \<Rightarrow> content_block" where
  "block_step k v b =
     (if k = ''type'' then b\<lparr>cb_type := Some (string_value v)\<rparr>
      else if k = ''text'' then b\<lparr>cb_text := Some (content_text v)\<rparr>
      else b)"

definition part_ok :: "json \<Rightarrow> bool" where
  "part_ok v \<longleftrightarrow> json_fits v \<and> all_members block_ok v"

definition part_step :: "json \<Rightarrow> chat_msg \<Rightarrow> chat_msg" where
  "part_step v m =
     (if is_string v then append_content (string_value v) m
      else case cb_text (fold_members block_step v no_content_block) of
        Some t \<Rightarrow> append_content t m | None \<Rightarrow> m)"

definition parts_ok :: "json \<Rightarrow> bool" where
  "parts_ok v \<longleftrightarrow> json_fits v \<and> (v = JNull \<or> is_string v \<or> is_array v) \<and> list_all part_ok (items v)"

definition parts_step :: "json \<Rightarrow> chat_msg \<Rightarrow> chat_msg" where
  "parts_step v m = (if is_string v then append_content (string_value v) m else fold part_step (items v) m)"

interpretation block_meaning: json_field_meaning content_block_member
  "\<lambda>k. block_step (c_str k)" "\<lambda>k v. json_fits v \<and> block_ok (c_str k) v"
  by unfold_locales
    (auto simp: content_block_member_def block_step_def block_ok_def replace_defs string_text skip_text content_into)

definition image_block :: "content_block \<Rightarrow> bool" where
  "image_block b \<longleftrightarrow> cb_type b = Some ''image_url'' \<or> cb_type b = Some ''input_image''"

lemma block_step_type: "block_ok k v \<Longrightarrow> \<not> image_block b \<Longrightarrow> \<not> image_block (block_step k v b)"
  by (simp add: block_ok_def block_step_def image_block_def)

lemma block_fold_type:
  "list_all (\<lambda>(k, w). block_ok (c_str k) w) kvs \<Longrightarrow> \<not> image_block b \<Longrightarrow>
     \<not> image_block (fold (\<lambda>(k, w). block_step (c_str k) w) kvs b)"
proof (induction kvs arbitrary: b)
  case Nil
  then show ?case by simp
next
  case (Cons kw kvs)
  obtain k w where kw: "kw = (k, w)" by (cases kw)
  with Cons.prems have "\<not> image_block (block_step (c_str k) w b)" by (intro block_step_type) simp_all
  with Cons.IH [OF _ this] Cons.prems(1) kw show ?case by simp
qed

lemma content_object_text:
  assumes "part_ok v" "is_object v"
  shows "parse_openai_content_object nonce (json_text v @ r) m =
           (case cb_text (fold_members block_step v no_content_block) of
              Some t \<Rightarrow> append_content t m | None \<Rightarrow> m, Some r)"
proof -
  have "json_members content_block_member (tl (json_text v @ r)) no_content_block =
      (fold_members block_step v no_content_block, Some r)"
    unfolding fold_members_def using assms fits_member
    by (intro block_meaning.after_brace_text) (auto simp: part_ok_def all_members_def list_all_iff)
  moreover have "\<not> image_block (fold_members block_step v no_content_block)"
    unfolding fold_members_def using assms
    by (intro block_fold_type) (auto simp: part_ok_def all_members_def no_content_block_def image_block_def)
  ultimately show ?thesis using assms
    by (simp add: parse_openai_content_object_def part_ok_def text_kind json_fits_ok image_block_def split: option.split)
qed

interpretation part_meaning: json_element_meaning "openai_content_element nonce" part_step part_ok for nonce
proof
  fix v r st
  assume v: "part_ok v" and r: "json_follow r"
  then have fits: "json_fits v" by (simp add: part_ok_def)
  note kind = text_kind [OF json_fits_ok [OF fits], of r]
  show "openai_content_element nonce (json_text v @ r) st = (part_step v st, Some r)"
  proof (cases "is_object v")
    case True
    then show ?thesis using content_object_text [OF v True] kind
      by (simp add: openai_content_element_def part_step_def not_string_members)
  next
    case False
    then show ?thesis using kind skip_text [OF fits r]
      by (auto simp: openai_content_element_def part_step_def fold_members_def not_string_members string_text
           no_content_block_def)
  qed
qed (simp add: part_ok_def json_fits_ok)

lemma parts_text:
  assumes "parts_ok v" "json_follow r"
  shows "parse_openai_content nonce (json_text v @ r) m = (parts_step v m, Some r)"
proof -
  have v: "json_ok v" using assms(1) by (simp add: parts_ok_def json_fits_ok)
  have "json_elements (openai_content_element nonce) (tl (json_text v @ r)) m = (fold part_step (items v) m, Some r)"
    if "is_array v"
    by (rule part_meaning.after_bracket_text [OF that]) (use assms(1) in \<open>auto simp: parts_ok_def list_all_iff\<close>)
  with assms(1) show ?thesis
    by (auto simp: parse_openai_content_def Let_def json_ws_text [OF v] text_kind [OF v] parts_ok_def
          string_text parts_step_def items_def kind_defs split: json.splits)
qed

definition message_ok :: "string \<Rightarrow> json \<Rightarrow> bool" where
  "message_ok k v \<longleftrightarrow>
     (k = ''role'' \<or> k = ''tool_call_id'' \<longrightarrow> is_string v) \<and> (k = ''content'' \<longrightarrow> parts_ok v)
     \<and> (k = ''reasoning_content'' \<longrightarrow> content_ok v) \<and> (k = ''tool_calls'' \<longrightarrow> calls_ok v)"

definition message_step :: "string \<Rightarrow> json \<Rightarrow> chat_msg \<Rightarrow> chat_msg" where
  "message_step k v m =
     (if k = ''role'' then m\<lparr>msg_role := Some (string_value v)\<rparr>
      else if k = ''content'' then parts_step v (m\<lparr>msg_content := None, msg_images := []\<rparr>)
      else if k = ''reasoning_content'' then m\<lparr>msg_reasoning := Some (content_text v)\<rparr>
      else if k = ''tool_call_id'' then chat_msg_add_tool_call_id (string_value v) m
      else if k = ''tool_calls'' then
        m\<lparr>msg_calls := fold calls_step (items v) [], msg_raw_tool_text := None\<rparr>
      else m)"

definition message_of :: "json \<Rightarrow> chat_msg" where
  "message_of v = default_message (fold_members message_step v no_chat_msg)"

definition message_value_ok :: "json \<Rightarrow> bool" where
  "message_value_ok v \<longleftrightarrow> json_fits v \<and> is_object v \<and> all_members message_ok v"

definition messages_ok :: "json \<Rightarrow> bool" where
  "messages_ok v \<longleftrightarrow> json_fits v \<and> is_array v \<and> list_all message_value_ok (items v)"

interpretation message_meaning: json_field_meaning "message_member nonce"
  "\<lambda>k. message_step (c_str k)" "\<lambda>k v. json_fits v \<and> message_ok (c_str k) v" for nonce
  by unfold_locales
    (auto simp: message_member_def message_step_def message_ok_def replace_defs string_text skip_text content_into
       parts_text tool_calls_text within_def split: prod.splits)

lemma add_id_images [simp]: "msg_images (chat_msg_add_tool_call_id t m) = msg_images m"
  by (simp add: chat_msg_add_tool_call_id_def Let_def)

lemma append_content_images [simp]: "msg_images (append_content t m) = msg_images m"
  by (simp add: append_content_def)

lemma part_fold_images: "msg_images (fold part_step vs m) = msg_images m"
  by (induction vs arbitrary: m) (simp_all add: part_step_def split: option.split)

lemma message_step_images: "msg_images m = [] \<Longrightarrow> msg_images (message_step k v m) = []"
  by (simp add: message_step_def parts_step_def part_fold_images)

lemma message_images: "msg_images (message_of v) = []"
proof -
  have "msg_images (fold (\<lambda>(k, w). message_step (c_str k) w) kvs m) = []" if "msg_images m = []" for kvs m
    using that by (induction kvs arbitrary: m) (auto simp: message_step_images)
  then show ?thesis by (simp add: message_of_def default_message_def fold_members_def no_chat_msg_def)
qed

interpretation messages_meaning: json_element_meaning "message_element nonce"
  "\<lambda>v msgs. msgs @ [message_of v]" message_value_ok for nonce
proof
  fix v r st
  assume v: "message_value_ok v" and r: "json_follow r"
  have "json_members (message_member nonce) (tl (json_text v @ r)) no_chat_msg =
      (fold_members message_step v no_chat_msg, Some r)"
    unfolding fold_members_def using v fits_member
    by (intro message_meaning.after_brace_text) (auto simp: message_value_ok_def all_members_def list_all_iff)
  with v message_images [of v] show "message_element nonce (json_text v @ r) st = (st @ [message_of v], Some r)"
    by (simp add: message_element_def message_value_ok_def text_kind json_fits_ok Let_def message_of_def)
qed (simp add: message_value_ok_def json_fits_ok)

lemma messages_text:
  assumes "messages_ok v" "json_follow r"
  shows "parse_messages nonce (json_text v @ r) msgs = (msgs @ map message_of (items v), Some r)"
proof -
  have v: "json_ok v" using assms(1) by (simp add: messages_ok_def json_fits_ok)
  have f: "fold (\<lambda>v msgs. msgs @ [message_of v]) vs msgs = msgs @ map message_of vs" for vs
    by (induction vs arbitrary: msgs) simp_all
  have "json_elements (message_element nonce) (tl (json_text v @ r)) msgs = (msgs @ map message_of (items v), Some r)"
    unfolding f [symmetric]
    by (rule messages_meaning.after_bracket_text) (use assms(1) in \<open>auto simp: messages_ok_def list_all_iff\<close>)
  with assms(1) show ?thesis
    by (simp add: parse_messages_def Let_def json_ws_text [OF v] text_kind [OF v] messages_ok_def)
qed

subsection \<open>Well-formed messages\<close>

text \<open>What holds of every message the reader accepts, whatever the request.\<close>

definition occurs_in :: "string \<Rightarrow> string \<Rightarrow> bool" where
  "occurs_in t s \<longleftrightarrow> (\<exists>a b. s = a @ t @ b)"

definition call_wf :: "tool_call \<Rightarrow> bool" where
  "call_wf tc \<longleftrightarrow> tc_name tc \<noteq> None \<and> tc_arguments tc \<noteq> None"

definition ids_wf :: "chat_msg \<Rightarrow> bool" where
  "ids_wf m \<longleftrightarrow> distinct (msg_tool_call_ids m) \<and> [] \<notin> set (msg_tool_call_ids m)
     \<and> msg_tool_call_id m = (case msg_tool_call_ids m of [] \<Rightarrow> None | t # _ \<Rightarrow> Some t)"

definition images_wf :: "chat_msg \<Rightarrow> bool" where
  "images_wf m \<longleftrightarrow> (\<forall>i\<in>set (msg_images m). msg_content m \<noteq> None \<and> occurs_in (img_marker i) (the (msg_content m)))"

definition partial_wf :: "chat_msg \<Rightarrow> bool" where
  "partial_wf m \<longleftrightarrow> list_all call_wf (msg_calls m) \<and> ids_wf m \<and> images_wf m"

definition message_wf :: "chat_msg \<Rightarrow> bool" where
  "message_wf m \<longleftrightarrow> partial_wf m \<and> msg_role m \<noteq> None \<and> msg_content m \<noteq> None
     \<and> (msg_images m \<noteq> [] \<longrightarrow> msg_role m = Some ''user'')"

lemma add_id_wf: "ids_wf m \<Longrightarrow> ids_wf (chat_msg_add_tool_call_id t m)"
  by (auto simp: ids_wf_def chat_msg_add_tool_call_id_def Let_def split: list.splits)

lemma occurs_append: "occurs_in t s \<Longrightarrow> occurs_in t (s @ u)"
  by (auto simp: occurs_in_def) (metis append.assoc)

lemma append_content_wf: "partial_wf m \<Longrightarrow> partial_wf (append_content t m)"
  by (auto simp: partial_wf_def append_content_def append_owned_text_def images_wf_def ids_wf_def occurs_append)

lemma add_image_wf:
  assumes "partial_wf m" "server_image_inputs_push_data_uri n (msg_images m) u = Some (images, marker)"
  shows "partial_wf (append_content marker (m\<lparr>msg_images := images\<rparr>))"
proof -
  obtain bytes where i: "images = msg_images m @ [\<lparr>img_marker = marker, img_encoded = bytes\<rparr>]"
    using assms(2)
    by (auto simp: server_image_inputs_push_data_uri_def server_image_inputs_push_base64_def Let_def
             split: option.splits if_splits)
  have "occurs_in marker (c @ marker)" for c unfolding occurs_in_def by (metis append.right_neutral)
  with assms(1) i show ?thesis
    by (auto simp: partial_wf_def append_content_def append_owned_text_def images_wf_def ids_wf_def occurs_append)
qed

interpretation calls_invariant: json_element_invariant tool_call_element "list_all call_wf"
  by unfold_locales
    (auto simp: tool_call_element_def call_wf_def split: if_splits option.splits prod.splits)

lemma tool_calls_wf: "parse_tool_calls_value s calls = (calls', Some r) \<Longrightarrow> list_all call_wf calls \<Longrightarrow> list_all call_wf calls'"
  by (auto simp: parse_tool_calls_value_def Let_def split: option.splits if_splits intro: calls_invariant.elements_keep)

lemma content_object_wf:
  "parse_openai_content_object nonce s m = (m', Some r) \<Longrightarrow> partial_wf m \<Longrightarrow> partial_wf m'"
  by (auto simp: parse_openai_content_object_def append_content_wf add_image_wf
           split: if_splits option.splits prod.splits)

interpretation content_invariant: json_element_invariant "openai_content_element nonce" partial_wf for nonce
  by unfold_locales
    (auto simp: openai_content_element_def append_content_wf split: if_splits
          dest!: read_into_rest skip_member_rest dest: content_object_wf)

lemma openai_content_wf: "parse_openai_content nonce s m = (m', Some r) \<Longrightarrow> partial_wf m \<Longrightarrow> partial_wf m'"
  by (auto simp: parse_openai_content_def Let_def append_content_wf split: if_splits option.splits
           dest!: read_into_rest intro: content_invariant.elements_keep)

lemma within_calls_wf:
  assumes "within msg_calls (\<lambda>c m. m\<lparr>msg_calls := c\<rparr>) parse_tool_calls_value s (m\<lparr>msg_calls := [], msg_raw_tool_text := None\<rparr>) = (m', Some r)"
    and "partial_wf m"
  shows "partial_wf m'"
proof -
  obtain c where c: "parse_tool_calls_value s [] = (c, Some r)" "m' = m\<lparr>msg_calls := c, msg_raw_tool_text := None\<rparr>"
    using assms(1) by (auto simp: within_def split: prod.splits)
  from tool_calls_wf [OF c(1)] assms(2) show ?thesis
    by (simp add: c(2) partial_wf_def images_wf_def ids_wf_def)
qed

lemma partial_wf_updates:
  "partial_wf m \<Longrightarrow> partial_wf (m\<lparr>msg_role := x\<rparr>)" "partial_wf m \<Longrightarrow> partial_wf (m\<lparr>msg_reasoning := x\<rparr>)"
  "partial_wf m \<Longrightarrow> partial_wf (m\<lparr>msg_content := None, msg_images := []\<rparr>)"
  by (simp_all add: partial_wf_def images_wf_def ids_wf_def)

lemma partial_wf_add_id: "partial_wf m \<Longrightarrow> partial_wf (chat_msg_add_tool_call_id t m)"
proof -
  have "msg_content (chat_msg_add_tool_call_id t m) = msg_content m" "msg_calls (chat_msg_add_tool_call_id t m) = msg_calls m"
    by (simp_all add: chat_msg_add_tool_call_id_def Let_def)
  then show "partial_wf m \<Longrightarrow> ?thesis" by (simp add: partial_wf_def images_wf_def add_id_wf)
qed

lemma message_member_wf:
  assumes "message_member nonce k s m = (m', Some r)" "partial_wf m"
  shows "partial_wf m'"
proof -
  consider (role) "k = ''role''" | (content) "k = ''content''" | (reasoning) "k = ''reasoning_content''"
    | (tid) "k = ''tool_call_id''" | (calls) "k = ''tool_calls''"
    | (other) "k \<notin> {''role'', ''content'', ''reasoning_content'', ''tool_call_id'', ''tool_calls''}" by blast
  then show ?thesis
  proof cases
    case content
    with assms show ?thesis using openai_content_wf [OF _ partial_wf_updates(3)] by (simp add: message_member_def)
  next
    case calls
    with assms show ?thesis using within_calls_wf by (simp add: message_member_def)
  qed (use assms partial_wf_updates partial_wf_add_id in
      \<open>auto simp: message_member_def replace_defs dest!: read_into_rest skip_member_rest\<close>)
qed

interpretation message_invariant: json_field_invariant "message_member nonce" partial_wf for nonce
  by unfold_locales (rule message_member_wf)

lemma message_element_wf:
  assumes "message_element nonce s msgs = (msgs', Some r)"
  shows "\<exists>m. msgs' = msgs @ [m] \<and> message_wf m"
proof -
  obtain m0 where m: "json_members (message_member nonce) (tl s) no_chat_msg = (m0, Some r)"
      "msgs' = msgs @ [default_message m0]" "msg_images (default_message m0) = [] \<or> msg_role (default_message m0) = Some ''user''"
    using assms by (auto simp: message_element_def Let_def split: if_splits option.splits prod.splits)
  have "partial_wf no_chat_msg" by (simp add: no_chat_msg_def partial_wf_def images_wf_def ids_wf_def)
  then have "partial_wf m0" by (rule message_invariant.members_keep [OF _ m(1)])
  then have "message_wf (default_message m0)" using m(3)
    by (auto simp: message_wf_def partial_wf_def default_message_def images_wf_def ids_wf_def split: option.splits)
  with m(2) show ?thesis by blast
qed

interpretation messages_invariant: json_element_invariant "message_element nonce" "list_all message_wf" for nonce
  by unfold_locales (auto dest: message_element_wf)

lemma messages_wf: "parse_messages nonce s msgs = (msgs', Some r) \<Longrightarrow> list_all message_wf msgs \<Longrightarrow> list_all message_wf msgs'"
  by (auto simp: parse_messages_def Let_def split: if_splits intro: messages_invariant.elements_keep)

subsection \<open>Properties\<close>

text \<open>
  C9: On the text of any conversation whose fields have the documented types, with text contents,
  the message reader returns exactly the messages the JSON value denotes (later duplicates of a key
  win, unknown keys are ignored, a missing role is \<open>user\<close>) and stops right behind the array.
\<close>

theorem parse_messages_refines:
  assumes "messages_ok v" "json_follow r"
  shows "parse_messages nonce (json_text v @ r) [] = (map message_of (items v), Some r)"
  using messages_text [OF assms, of nonce "[]"] by simp

definition example_messages :: json where
  "example_messages = JArr
     [JObj [(''role'', JStr ''system''), (''content'', JStr ''s''), (''x'', JArr [JNum ''1''])],
      JObj [(''content'', JArr [JObj [(''type'', JStr ''text''), (''text'', JStr ''hi'')], JStr ''!'']), (''tool_call_id'', JStr ''c1'')]]"

lemma example_messages_ok: "messages_ok example_messages" "json_follow '',''"
  by (simp_all add: example_messages_def messages_ok_def message_value_ok_def all_members_def message_ok_def items_def
      members_def kind_defs parts_ok_def part_ok_def block_ok_def content_ok_def json_fits_def JSON_MAX_NESTING_def
      c_isdigit_def c_str_def string_value_def json_follow_def)

lemma parse_messages_refines_witness:
  "messages_ok example_messages \<and>
   parse_messages (\<lambda>_. []) (json_text example_messages @ '','') [] = (map message_of (items example_messages), Some '','')
   \<and> map msg_content (map message_of (items example_messages)) = [Some ''s'', Some ''hi!'']
   \<and> map msg_role (map message_of (items example_messages)) = [Some ''system'', Some ''user'']"
proof -
  note ok = example_messages_ok
  have "map msg_content (map message_of (items example_messages)) = [Some ''s'', Some ''hi!''] \<and>
      map msg_role (map message_of (items example_messages)) = [Some ''system'', Some ''user'']"
    by (simp add: example_messages_def message_of_def fold_members_def members_def items_def message_step_def parts_step_def
        part_step_def block_step_def content_text_def kind_defs string_value_def c_str_def append_content_def
        append_owned_text_def no_chat_msg_def no_content_block_def default_message_def chat_msg_add_tool_call_id_def)
  with ok parse_messages_refines [OF ok, of "\<lambda>_. []"] show ?thesis by blast
qed

text \<open>
  C10: Whatever the request says, every message the reader accepts has a role and a content, its
  images belong to a user message and are each announced by their marker in its content, its tool
  calls have a name and arguments, and its tool call ids are distinct and not empty, the first being
  the one in \<open>tool_call_id\<close>; and the reader has read up to the array's closing bracket, inside the
  request.
\<close>

theorem parse_messages_wf:
  assumes "parse_messages nonce s [] = (msgs, Some r)"
  shows "list_all message_wf msgs \<and> proper_suffix r s"
  using messages_wf [OF assms] messages_rest [OF assms] by simp

lemma parse_messages_wf_witness:
  "list_all message_wf (map message_of (items example_messages))"
proof -
  note ok = example_messages_ok
  show ?thesis using parse_messages_wf [of "\<lambda>_. []" "json_text example_messages @ '',''"] messages_text [OF ok, of "\<lambda>_. []" "[]"]
    by simp
qed

text \<open>On the text of any JSON value the stop reader collects exactly the non-empty strings it offers,
  in order, and records the length of the longest, which is what the streaming hold-back relies on;
  a value of another kind clears the list.
\<close>

theorem parse_stop_refines:
  assumes "json_fits v" "json_follow r"
  shows "parse_stop (json_text v @ r) l =
           (\<lparr>stops_v = stop_strings v, stops_max_len = fold max (map length (stop_strings v)) 0\<rparr>, Some r)"
  using assms by (rule parse_stop_text)

lemma parse_stop_refines_witness:
  "stops_v (fst (parse_stop (json_text (JArr [JStr ''ab'', JStr [], JNum ''1'', JStr ''c'']) @ []) stop_list_clear)) = [''ab'', ''c'']"
proof -
  have "json_fits (JArr [JStr ''ab'', JStr [], JNum ''1'', JStr ''c''])" "json_follow []"
    by (simp_all add: json_fits_def JSON_MAX_NESTING_def json_follow_def c_isdigit_def)
  from parse_stop_refines [OF this, of stop_list_clear] show ?thesis
    by (simp add: stop_strings_def is_string_def string_value_def c_str_def)
qed

end
