(* ===== verification/JsonArgs.thy ===== *)
theory JsonArgs
  imports ToolSchema ChatSpec
begin

text \<open>
  The arguments of a tool call as a list of key and value (\<open>json_args\<close> in \<open>ds4_server.c\<close>), how they
  are written back, and the rewriting of a tool schema for the prompt.
\<close>

subsection \<open>Reading and writing\<close>

record json_arg =
  ja_key :: string
  ja_value :: string
  ja_is_string :: bool
  ja_used :: bool

definition json_arg_member :: "string \<Rightarrow> json_arg list reader" where
  "json_arg_member key s args =
     (let s = json_ws s in
      if quoted s then
        read_into json_cstring
          (\<lambda>v args. args @ [\<lparr>ja_key = key, ja_value = v, ja_is_string = True, ja_used = False\<rparr>]) s args
      else
        read_into json_raw_value
          (\<lambda>raw args. args @ [\<lparr>ja_key = key, ja_value = json_minify_raw_value raw, ja_is_string = False, ja_used = False\<rparr>])
          s args)"

definition json_args_parse :: "string \<Rightarrow> json_arg list option" where
  "json_args_parse json =
     (let s = json_ws json in
      if \<not> starts_with s ''{'' then None
      else case json_members_loop json_arg_member (json_ws (tl s)) [] of
        (_, None) \<Rightarrow> None
      | (args, Some r) \<Rightarrow> if starts_with r ''}'' then Some args else None)"

fun json_args_find_unused :: "json_arg list \<Rightarrow> string \<Rightarrow> nat option" where
  "json_args_find_unused [] key = None"
| "json_args_find_unused (a # args) key =
     (if \<not> ja_used a \<and> ja_key a = key then Some 0 else map_option Suc (json_args_find_unused args key))"

definition append_json_arg_pair :: "json_arg \<Rightarrow> string" where
  "append_json_arg_pair a =
     json_escape (ja_key a) @ '':'' @ (if ja_is_string a then json_escape (ja_value a) else ja_value a)"

fun json_arg_pairs :: "bool \<Rightarrow> json_arg list \<Rightarrow> string" where
  "json_arg_pairs wrote [] = []"
| "json_arg_pairs wrote (a # args) = (if wrote then '','' else []) @ append_json_arg_pair a @ json_arg_pairs True args"

definition append_json_object_or_empty :: "string \<Rightarrow> string" where
  "append_json_object_or_empty json =
     (case json_args_parse json of
        None \<Rightarrow> ''{}'' | Some args \<Rightarrow> ''{'' @ json_arg_pairs False args @ ''}'')"

text \<open>A tool schema in the prompt: not when its loading is deferred, and without \<open>strict\<close>.\<close>

definition schema_arg_kept :: "json_arg \<Rightarrow> bool" where
  "schema_arg_kept a \<longleftrightarrow> ja_key a \<noteq> ''defer_loading'' \<and> ja_key a \<noteq> ''strict''"

fun schema_arg_pairs :: "bool \<Rightarrow> json_arg list \<Rightarrow> string" where
  "schema_arg_pairs wrote [] = []"
| "schema_arg_pairs wrote (a # args) =
     (if schema_arg_kept a then
        (if wrote then '', '' else []) @ json_escape (ja_key a) @ '': ''
        @ (if ja_is_string a then json_escape (ja_value a) else ja_value a) @ schema_arg_pairs True args
      else schema_arg_pairs wrote args)"

definition append_glm_tool_schema_json :: "string \<Rightarrow> (string \<times> bool) option" where
  "append_glm_tool_schema_json json =
     (case json_args_parse json of
        None \<Rightarrow> None
      | Some args \<Rightarrow>
          if list_ex (\<lambda>a. ja_key a = ''defer_loading'' \<and> \<not> ja_is_string a \<and> ja_value a = ''true'') args
          then Some ([], False)
          else Some (''{'' @ schema_arg_pairs False args @ ''}'', True))"

interpretation json_arg_fields: json_field json_arg_member
  by unfold_locales
    (auto simp: json_arg_member_def Let_def split: if_splits dest!: reader_suffix proper_suffix_ws dest: proper_suffix_suffix)

subsection \<open>Minified text stays\<close>

lemma minify_plain: "\<not> c_isspace c \<Longrightarrow> c \<noteq> CHR 0x22 \<Longrightarrow> json_minify_loop False False (c # s) = c # json_minify_loop False False s"
  by simp

lemma hex_lower_plain: "n < 16 \<Longrightarrow> hex_lower n \<noteq> CHR 0x22 \<and> hex_lower n \<noteq> CHR 0x5C"
proof -
  assume "n < 16"
  then have "(of_char (hex_lower n) :: nat) = (if n < 10 then 48 + n else 87 + n)"
    by (simp add: hex_lower_def of_char_of)
  then have "(of_char (hex_lower n) :: nat) \<noteq> 34" "n < 10 \<or> (of_char (hex_lower n) :: nat) \<noteq> 92" "n < 10 \<Longrightarrow> (of_char (hex_lower n) :: nat) < 58"
    using \<open>n < 16\<close> by auto
  then show ?thesis by auto
qed

lemma minify_escape_byte:
  "json_minify_loop True False (json_escape_byte c @ s) = json_escape_byte c @ json_minify_loop True False s"
proof -
  have "of_char c div 16 < (16::nat)" "of_char c mod 16 < (16::nat)"
    using nat_of_char_less_256 [of c] by (simp_all add: less_mult_imp_div_less)
  then show ?thesis
    using hex_lower_plain [of "of_char c div 16"] hex_lower_plain [of "of_char c mod 16"]
    by (auto simp: json_escape_byte_def)
qed

lemma minify_escape: "json_minify_loop False False (json_escape t @ s) = json_escape t @ json_minify_loop False False s"
proof -
  have "json_minify_loop True False (concat (map json_escape_byte t) @ CHR 0x22 # s) =
      concat (map json_escape_byte t) @ CHR 0x22 # json_minify_loop False False s"
    by (induction t) (simp_all add: minify_escape_byte)
  then show ?thesis by (simp add: json_escape_def)
qed

lemma minify_digits: "list_all c_isdigit ds \<Longrightarrow> json_minify_loop False False (ds @ s) = ds @ json_minify_loop False False s"
proof (induction ds)
  case (Cons d ds)
  then have "\<not> c_isspace d" "d \<noteq> CHR 0x22" using c_isdigit_not_space by (auto simp: c_isdigit_def)
  with Cons show ?case by simp
qed simp

lemma minify_join:
  assumes "\<And>x s. x \<in> set xs \<Longrightarrow> json_minify_loop False False (x @ s) = x @ json_minify_loop False False s"
  shows "json_minify_loop False False (join_comma xs @ s) = join_comma xs @ json_minify_loop False False s"
  using assms by (induction xs rule: join_comma.induct) (simp_all add: c_isspace_def)

lemma minify_text: "json_ok v \<Longrightarrow> json_minify_loop False False (json_text v @ s) = json_text v @ json_minify_loop False False s"
proof (induction v arbitrary: s)
  case (JArr vs)
  then have "json_minify_loop False False (join_comma (map json_text vs) @ s) = join_comma (map json_text vs) @ json_minify_loop False False s" for s
    by (intro minify_join) (auto simp: list_all_iff)
  from this [of "CHR '']'' # s"] show ?case by (simp add: c_isspace_def)
next
  case (JObj kvs)
  have "json_minify_loop False False (members_text kvs @ s) = members_text kvs @ json_minify_loop False False s" for s
  proof (intro minify_join)
    fix x s assume "x \<in> set (map (\<lambda>(k, v). json_escape k @ '':'' @ json_text v) kvs)"
    then obtain k w where kw: "(k, w) \<in> set kvs" "x = json_escape k @ '':'' @ json_text w" by auto
    with JObj.prems have "json_ok w" by (auto simp: list_all_iff)
    with JObj.IH [OF kw(1), of w] show "json_minify_loop False False (x @ s) = x @ json_minify_loop False False s"
      by (simp add: kw(2) minify_escape c_isspace_def)
  qed
  from this [of "CHR ''}'' # s"] show ?case by (simp add: c_isspace_def)
qed (simp_all add: minify_escape minify_digits c_isspace_def)

lemma minify_raw_text: "json_fits v \<Longrightarrow> json_minify_raw_value (json_text v) = json_text v"
  using json_skip_text [of v 0 "[]"] minify_text [of v "[]"] json_ws_text [of v "[]"]
  by (simp add: json_minify_raw_value_def json_fits_def json_skip_value_def json_follow_def)

subsection \<open>The arguments of an object\<close>

definition arg_of :: "string \<Rightarrow> json \<Rightarrow> json_arg" where
  "arg_of k v = \<lparr>ja_key = k, ja_value = (if is_string v then string_value v else json_text v),
     ja_is_string = is_string v, ja_used = False\<rparr>"

interpretation json_arg_meaning: json_field_meaning json_arg_member
  "\<lambda>k v args. args @ [arg_of (c_str k) v]" "\<lambda>k v. json_fits v"
  by unfold_locales
    (auto simp: json_arg_member_def arg_of_def json_ws_text text_kind json_fits_ok string_text raw_text minify_raw_text)

lemma json_args_text:
  assumes "json_fits (JObj kvs)"
  shows "json_args_parse (json_text (JObj kvs)) = Some (map (\<lambda>(k, v). arg_of (c_str k) v) kvs)"
proof -
  have f: "fold (\<lambda>(k, v) args. args @ [arg_of (c_str k) v]) kvs args = args @ map (\<lambda>(k, v). arg_of (c_str k) v) kvs" for args
    by (induction kvs arbitrary: args) auto
  have "json_object json_arg_member (json_text (JObj kvs) @ []) [] = (map (\<lambda>(k, v). arg_of (c_str k) v) kvs, Some [])"
    using json_arg_meaning.object_text [of kvs "[]" "[]"] assms fits_member [of "JObj kvs"] f [of "[]"]
    by (simp add: members_def)
  then show ?thesis
    by (auto simp: json_args_parse_def json_object_def json_members_def json_close_def Let_def
        split: prod.splits option.splits if_splits)
qed

lemma json_arg_pairs_join: "json_arg_pairs False args = join_comma (map append_json_arg_pair args)"
proof -
  have "json_arg_pairs True args = concat (map (\<lambda>a. '','' @ append_json_arg_pair a) args)" for args
    by (induction args) simp_all
  moreover have "join_comma (x # xs) = x @ concat (map (\<lambda>a. '','' @ a) xs)" for x :: string and xs
    by (induction xs arbitrary: x) simp_all
  ultimately show ?thesis by (cases args) (simp_all add: comp_def)
qed

definition no_nul :: "string \<Rightarrow> bool" where
  "no_nul t \<longleftrightarrow> CHR 0x00 \<notin> set t"

lemma c_str_no_nul: "no_nul t \<Longrightarrow> c_str t = t"
  by (auto simp: no_nul_def c_str_def takeWhile_eq_all_conv)

definition arg_plain :: "string \<times> json \<Rightarrow> bool" where
  "arg_plain kv \<longleftrightarrow> no_nul (fst kv) \<and> (case snd kv of JStr t \<Rightarrow> no_nul t | _ \<Rightarrow> True)"

lemma arg_pair_text: "arg_plain (k, v) \<Longrightarrow> append_json_arg_pair (arg_of (c_str k) v) = json_escape k @ '':'' @ json_text v"
  by (auto simp: arg_plain_def append_json_arg_pair_def arg_of_def c_str_no_nul is_string_def string_value_def split: json.splits)

text \<open>
  The arguments read from the text of a JSON object are its members in order, strings decoded and
  every other value as its text; writing them back gives the same text again, so re-encoding a tool
  call's arguments for a client or for the prompt does not alter them. Text that is not an object
  reads as no arguments and is written as the empty object.
\<close>

theorem json_args_roundtrip:
  assumes "json_fits (JObj kvs)" "list_all arg_plain kvs"
  shows "json_args_parse (json_text (JObj kvs)) = Some (map (\<lambda>(k, v). arg_of k v) kvs)
       \<and> append_json_object_or_empty (json_text (JObj kvs)) = json_text (JObj kvs)
       \<and> (\<not> starts_with (json_ws s) ''{'' \<longrightarrow> append_json_object_or_empty s = ''{}'')"
proof -
  define args where "args = map (\<lambda>(k, v). arg_of (c_str k) v) kvs"
  have args: "args = map (\<lambda>(k, v). arg_of k v) kvs"
    using assms(2) by (auto simp: args_def list_all_iff arg_plain_def c_str_no_nul)
  have "map append_json_arg_pair args = map (\<lambda>(k, v). json_escape k @ '':'' @ json_text v) kvs"
    unfolding args_def using assms(2) by (auto simp: list_all_iff arg_pair_text)
  moreover have "json_args_parse (json_text (JObj kvs)) = Some args"
    unfolding args_def by (rule json_args_text [OF assms(1)])
  moreover have "\<not> starts_with (json_ws s) ''{'' \<Longrightarrow> json_args_parse s = None"
    by (simp add: json_args_parse_def Let_def)
  ultimately show ?thesis
    by (auto simp del: json_text.simps simp add: append_json_object_or_empty_def json_arg_pairs_join args [symmetric] json_text.simps(6))
qed

lemma json_args_roundtrip_witness:
  "append_json_object_or_empty (json_text (JObj [(''path'', JStr ''a/b''), (''n'', JNum ''3'')])) =
     json_text (JObj [(''path'', JStr ''a/b''), (''n'', JNum ''3'')])"
  using json_args_roundtrip [of "[(''path'', JStr ''a/b''), (''n'', JNum ''3'')]" "[]"]
  by (simp add: json_fits_def JSON_MAX_NESTING_def c_isdigit_def arg_plain_def no_nul_def)

end
