(* ===== verification/QwenRender.thy ===== *)
theory QwenRender
  imports JsonArgs
begin

text \<open>
  The Qwen prompt (\<open>ds4_server.c\<close>): how a conversation, its tools and its tool calls are rendered as
  the text the model continues.
\<close>

definition newline :: string where
  "newline = [CHR 0x0A]"

definition opt_text :: "string option \<Rightarrow> string" where
  "opt_text x = (case x of None \<Rightarrow> [] | Some t \<Rightarrow> t)"

subsection \<open>Trimming\<close>

definition rtrim :: "string \<Rightarrow> string" where
  "rtrim s = rev (dropWhile c_isspace (rev s))"

text \<open>The trimmed text, and the white space the loop from the end passes over.\<close>

definition append_trimmed_text :: "string \<Rightarrow> string" where
  "append_trimmed_text t = rtrim (dropWhile c_isspace t)"

definition trailing_space :: "string \<Rightarrow> string" where
  "trailing_space t = rev (takeWhile c_isspace (rev t))"

definition text_starts_with_think_tag :: "string \<Rightarrow> bool" where
  "text_starts_with_think_tag s \<longleftrightarrow> starts_with s ''<think>'' \<or> starts_with s ''</think>''"

subsection \<open>Tool calls\<close>

definition qwen_arg_text :: "json_arg \<Rightarrow> string" where
  "qwen_arg_text a =
     ''<parameter='' @ append_glm_tag_body_text (ja_key a) ''>'' @ ''>'' @ newline
     @ (if ja_is_string a then append_glm_tag_body_text (ja_value a) ''</parameter>''
        else let m = json_minify_raw_value (ja_value a)
             in append_glm_tag_body_text (if m = [] then ''null'' else m) ''</parameter>'')
     @ newline @ ''</parameter>'' @ newline"

text \<open>
  The first pass writes the arguments the tool's schema names, in its order; the second the others, in
  the order of the call. Both mark what they write.
\<close>

fun schema_pass :: "string list \<Rightarrow> json_arg list \<Rightarrow> string \<times> json_arg list" where
  "schema_pass [] args = ([], args)"
| "schema_pass (p # ps) args =
     (case json_args_find_unused args p of
        None \<Rightarrow> schema_pass ps args
      | Some i \<Rightarrow>
          (case schema_pass ps (args[i := (args ! i)\<lparr>ja_used := True\<rparr>]) of
             (t, args') \<Rightarrow> (qwen_arg_text (args ! i) @ t, args')))"

definition rest_pass :: "json_arg list \<Rightarrow> string" where
  "rest_pass args = concat (map qwen_arg_text (filter (\<lambda>a. \<not> ja_used a) args))"

definition qwen_args_text :: "tool_schema_order option \<Rightarrow> string option \<Rightarrow> string" where
  "qwen_args_text order arguments =
     (case json_args_parse (opt_text arguments) of
        Some args \<Rightarrow>
          (case schema_pass (case order of None \<Rightarrow> [] | Some o' \<Rightarrow> map fst (tso_props o')) args of
             (t, args') \<Rightarrow> t @ rest_pass args')
      | None \<Rightarrow>
          (if opt_text arguments = [] then []
           else ''<parameter=arguments>'' @ newline @ append_glm_tag_body_text (opt_text arguments) ''</parameter>''
                @ newline @ ''</parameter>'' @ newline))"

definition qwen_call_text :: "tool_schema_order list \<Rightarrow> tool_call \<Rightarrow> string" where
  "qwen_call_text orders tc =
     ''<tool_call>'' @ newline @ ''<function='' @ opt_text (tc_name tc) @ ''>'' @ newline
     @ qwen_args_text (tool_schema_orders_find orders (tc_name tc)) (tc_arguments tc)
     @ ''</function>'' @ newline @ ''</tool_call>''"

fun qwen_calls_text :: "bool \<Rightarrow> bool \<Rightarrow> tool_schema_order list \<Rightarrow> tool_call list \<Rightarrow> string" where
  "qwen_calls_text first has_content orders [] = []"
| "qwen_calls_text first has_content orders (tc # calls) =
     (if \<not> first then newline else if has_content then newline @ newline else [])
     @ qwen_call_text orders tc @ qwen_calls_text False has_content orders calls"

definition append_qwen_tool_calls_text ::
  "tool_call list \<Rightarrow> string option \<Rightarrow> bool \<Rightarrow> tool_schema_order list \<Rightarrow> string" where
  "append_qwen_tool_calls_text calls raw has_content orders =
     (if calls = [] then []
      else if opt_text raw \<noteq> [] then opt_text raw
      else qwen_calls_text True has_content orders calls)"

subsection \<open>Tools in the system message\<close>

definition qwen_tools_intro :: string where
  "qwen_tools_intro = ''# Tools'' @ newline @ newline @ ''You have access to the following functions:'' @ newline @ newline @ ''<tools>''"

definition qwen_tools_rules :: string where
  "qwen_tools_rules =
     newline @ ''</tools>'' @ newline @ newline
     @ ''If you choose to call a function ONLY reply in the following format with NO suffix:'' @ newline @ newline
     @ ''<tool_call>'' @ newline @ ''<function=example_function_name>'' @ newline @ ''<parameter=example_parameter_1>'' @ newline
     @ ''value_1'' @ newline @ ''</parameter>'' @ newline
     @ ''<parameter=example_parameter_2>'' @ newline @ ''This is the value for the second parameter'' @ newline @ ''that can span'' @ newline
     @ ''multiple lines'' @ newline
     @ ''</parameter>'' @ newline @ ''</function>'' @ newline @ ''</tool_call>'' @ newline @ newline @ ''<IMPORTANT>'' @ newline @ ''Reminder:'' @ newline
     @ ''- Function calls MUST follow the specified format: an inner <function=...></function> block must be nested ''
     @ ''within <tool_call></tool_call> XML tags'' @ newline
     @ ''- Required parameters MUST be specified'' @ newline
     @ ''- You may provide optional reasoning for your function call in natural language BEFORE the function call, ''
     @ ''but NOT after'' @ newline
     @ ''- If there is no function call available, answer the question like normal with your current knowledge and ''
     @ ''do not tell the user about function calls'' @ newline @ ''</IMPORTANT>''"

definition qwen_tool_line :: "string \<Rightarrow> string" where
  "qwen_tool_line raw =
     (case append_glm_tool_schema_json raw of
        Some (t, emitted) \<Rightarrow>
          (if emitted then newline @ ''{'' @ quoted_key ''type'' @ '': '' @ quoted_key ''function'' @ '', '' @ quoted_key ''function'' @ '': '' @ t @ ''}''
           else [])
      | None \<Rightarrow> newline @ ''{'' @ quoted_key ''type'' @ '': '' @ quoted_key ''function'' @ '', '' @ quoted_key ''function'' @ '': '' @ raw @ ''}'')"

function qwen_tool_lines :: "string \<Rightarrow> string" where
  "qwen_tool_lines s =
     (if s = [] then []
      else case json_raw_value s of
        None \<Rightarrow> []
      | Some (raw, r) \<Rightarrow> qwen_tool_line raw @ qwen_tool_lines (json_ws r))"
  by pat_completeness auto
termination
proof (relation "measure length", goal_cases)
  case (2 s x raw r)
  then have "proper_suffix r s" by (auto intro: json_raw_value_suffix)
  then show ?case using json_ws_le [of r] by (simp add: proper_suffix_def)
qed simp

declare qwen_tool_lines.simps [simp del]

definition append_qwen_tools_prompt_text :: "string \<Rightarrow> string" where
  "append_qwen_tools_prompt_text schemas = qwen_tools_intro @ qwen_tool_lines (json_ws schemas) @ qwen_tools_rules"

subsection \<open>Tool results\<close>

definition chat_msg_is_glm_tool_result :: "chat_msg \<Rightarrow> bool" where
  "chat_msg_is_glm_tool_result m =
     (case msg_role m of
        None \<Rightarrow> False
      | Some r \<Rightarrow> r = ''tool'' \<or> r = ''function'' \<or> (r = ''user'' \<and> msg_tool_call_ids m \<noteq> []))"

definition append_qwen_tool_response :: "string \<Rightarrow> string" where
  "append_qwen_tool_response body =
     newline @ ''<tool_response>'' @ newline @ append_glm_tag_body_text body ''</tool_response>'' @ newline @ ''</tool_response>''"

text \<open>The blocks \<open><tool_result>...</tool_result>\<close> of a text, as far as they are closed.\<close>

function tool_result_blocks :: "string \<Rightarrow> string list" where
  "tool_result_blocks s =
     (case c_strstr s ''<tool_result>'' of
        None \<Rightarrow> []
      | Some p \<Rightarrow>
          (let body = drop 13 p in
           case c_strstr body ''</tool_result>'' of
             None \<Rightarrow> []
           | Some e \<Rightarrow> take (length body - length e) body # tool_result_blocks (drop 14 e)))"
  by pat_completeness auto
termination
proof (relation "measure length", goal_cases)
  case (2 s p body e)
  from c_strstr_SomeD [OF 2(1)] obtain u where p: "s = u @ p" "starts_with p ''<tool_result>''" by auto
  from c_strstr_SomeD [OF 2(3)] obtain v where e: "body = v @ e" by auto
  have "length e \<le> length body" by (simp add: e)
  with p starts_with_length [OF p(2)] show ?case by (simp add: 2(2))
qed simp

declare tool_result_blocks.simps [simp del]

definition append_qwen_tool_result_message :: "chat_msg \<Rightarrow> string" where
  "append_qwen_tool_result_message m =
     (let content = opt_text (msg_content m);
          blocks = (if msg_role m = Some ''user'' \<and> msg_tool_call_ids m \<noteq> [] then tool_result_blocks content else [])
      in if blocks \<noteq> [] then concat (map append_qwen_tool_response blocks)
         else append_qwen_tool_response content)"

subsection \<open>The conversation\<close>

definition im_start :: "string \<Rightarrow> string" where
  "im_start role = ''<|im_start|>'' @ role"

definition im_end :: string where
  "im_end = ''<|im_end|>'' @ newline"

definition append_qwen_assistant_message :: "tool_schema_order list \<Rightarrow> chat_msg \<Rightarrow> string" where
  "append_qwen_assistant_message orders m =
     (let content = opt_text (msg_content m); reasoning = opt_text (msg_reasoning m);
          trimmed = append_trimmed_text content; has_content = (trimmed \<noteq> []);
          body = trimmed @ (if has_content \<and> msg_calls m = [] then trailing_space content else []);
          sampled_after_think = (\<not> has_content \<and> reasoning \<noteq> [] \<and> opt_text (msg_raw_tool_text m) \<noteq> [])
      in im_start ''assistant'' @ newline
         @ (if text_starts_with_think_tag content then []
            else ''<think>'' @ newline @ append_trimmed_text reasoning @ newline @ ''</think>''
                 @ (if sampled_after_think then [] else newline @ newline))
         @ body @ append_qwen_tool_calls_text (msg_calls m) (msg_raw_tool_text m) has_content orders @ im_end)"

definition append_qwen_generation_prompt :: "bool \<Rightarrow> string" where
  "append_qwen_generation_prompt think =
     im_start ''assistant'' @ newline @ ''<think>'' @ newline
     @ (if think then [] else newline @ ''</think>'' @ newline @ newline)"

definition role_is_system :: "chat_msg \<Rightarrow> bool" where
  "role_is_system m \<longleftrightarrow> msg_role m = Some ''system'' \<or> msg_role m = Some ''developer''"

fun qwen_turns :: "tool_schema_order list \<Rightarrow> bool \<Rightarrow> bool \<Rightarrow> bool \<Rightarrow> chat_msg list \<Rightarrow> string" where
  "qwen_turns orders think pending tool_open [] =
     (if tool_open then im_end else []) @ (if pending then append_qwen_generation_prompt think else [])"
| "qwen_turns orders think pending tool_open (m # msgs) =
     (if role_is_system m then qwen_turns orders think pending tool_open msgs
      else if chat_msg_is_glm_tool_result m then
        (if tool_open then [] else im_start ''user'') @ append_qwen_tool_result_message m
        @ qwen_turns orders think True True msgs
      else
        (if tool_open then im_end else [])
        @ (if msg_role m = Some ''user'' then
             im_start ''user'' @ newline @ append_trimmed_text (opt_text (msg_content m)) @ im_end
             @ qwen_turns orders think True False msgs
           else if msg_role m = Some ''assistant'' then
             append_qwen_assistant_message orders m @ qwen_turns orders think False False msgs
           else qwen_turns orders think pending False msgs))"

definition append_qwen_conversation :: "chat_msg list \<Rightarrow> nat \<Rightarrow> tool_schema_order list \<Rightarrow> bool \<Rightarrow> string" where
  "append_qwen_conversation msgs start orders think = qwen_turns orders think False False (drop start msgs)"

definition ds4_qwen4_reasoning_effort_text :: "think_mode \<Rightarrow> string option" where
  "ds4_qwen4_reasoning_effort_text mode =
     (case mode of
        DS4_THINK_HIGH \<Rightarrow> Some ''Reasoning effort is set to xhigh. Please think carefully through the task, validate key assumptions, consider plausible alternatives, and prioritize correctness, consistency, and clarity in the final answer.''
      | DS4_THINK_MAX \<Rightarrow> Some ''Reasoning effort is set to xhigh. Please think carefully through the task, validate key assumptions, consider plausible alternatives, and prioritize correctness, consistency, and clarity in the final answer.''
      | DS4_THINK_LOW \<Rightarrow> Some ''Reasoning effort is set to low. Keep your thinking brief and focused, moving directly to the conclusion without unnecessary elaboration.''
      | _ \<Rightarrow> None)"

definition qwen_system_text :: "chat_msg list \<Rightarrow> string" where
  "qwen_system_text msgs =
     fold (\<lambda>m b. (if b = [] then [] else b @ newline @ newline) @ append_trimmed_text (opt_text (msg_content m)))
       (filter role_is_system msgs) []"

definition render_qwen_chat_prompt_text ::
  "chat_msg list \<Rightarrow> string option \<Rightarrow> tool_schema_order list \<Rightarrow> think_mode \<Rightarrow> string" where
  "render_qwen_chat_prompt_text msgs schemas orders mode =
     (let think = ds4_think_mode_enabled mode;
          effort = (if think then ds4_qwen4_reasoning_effort_text mode else None);
          have_tools = (opt_text schemas \<noteq> []); system = qwen_system_text msgs;
          sep = newline @ newline
      in (if have_tools \<or> system \<noteq> [] \<or> effort \<noteq> None then
            im_start ''system'' @ newline @ opt_text effort
            @ (if have_tools then (if effort \<noteq> None then sep else []) @ append_qwen_tools_prompt_text (opt_text schemas) else [])
            @ (if system \<noteq> [] then (if effort \<noteq> None \<or> have_tools then sep else []) @ system else [])
            @ im_end
          else [])
         @ append_qwen_conversation msgs 0 orders think)"

definition chat_history_uses_tool_context :: "chat_msg list \<Rightarrow> string option \<Rightarrow> bool" where
  "chat_history_uses_tool_context msgs schemas \<longleftrightarrow>
     opt_text schemas \<noteq> [] \<or>
     list_ex (\<lambda>m. (msg_role m = Some ''assistant'' \<and> msg_calls m \<noteq> []) \<or> msg_role m = Some ''tool'' \<or> msg_role m = Some ''function'') msgs"

definition render_qwen_live_tool_tail :: "chat_msg list \<Rightarrow> nat \<Rightarrow> tool_schema_order list \<Rightarrow> think_mode \<Rightarrow> string" where
  "render_qwen_live_tool_tail msgs start orders mode =
     im_end @ append_qwen_conversation msgs start orders (ds4_think_mode_enabled mode)"

subsection \<open>The boundary at a tool call\<close>

lemma assistant_turn:
  assumes "msg_role a = Some ''assistant''"
  shows "qwen_turns orders think pending tool_open (a # msgs) =
           (if tool_open then im_end else []) @ append_qwen_assistant_message orders a @ qwen_turns orders think False False msgs"
  using assms by (simp add: role_is_system_def chat_msg_is_glm_tool_result_def)

lemma turns_after_assistant:
  assumes "msg_role a = Some ''assistant''"
  shows "qwen_turns orders think pending tool_open (pre @ a # tail) =
           qwen_turns orders think pending tool_open (pre @ [a]) @ qwen_turns orders think False False tail"
proof (induction pre arbitrary: pending tool_open)
  case Nil
  show ?case unfolding append_Nil assistant_turn [OF assms] by simp
next
  case (Cons m pre)
  then show ?case by simp
qed

lemma assistant_message_end: obtains t where "append_qwen_assistant_message orders a = t @ im_end"
proof -
  have "\<exists>t. u @ v @ w @ x @ y @ im_end = t @ im_end" for u v w x y :: string
    by (rule exI [of _ "u @ v @ w @ x @ y"]) simp
  then show ?thesis using that unfolding append_qwen_assistant_message_def Let_def by blast
qed

lemma turns_end_assistant:
  assumes "msg_role a = Some ''assistant''"
  shows "\<exists>t. qwen_turns orders think pending tool_open (pre @ [a]) = t @ im_end"
proof (induction pre arbitrary: pending tool_open)
  case Nil
  obtain t where t: "append_qwen_assistant_message orders a = t @ im_end" by (rule assistant_message_end)
  show ?case unfolding append_Nil assistant_turn [OF assms] t by simp
next
  case (Cons m pre)
  obtain t1 t2 t3 where "qwen_turns orders think pending tool_open (pre @ [a]) = t1 @ im_end"
    "qwen_turns orders think True True (pre @ [a]) = t2 @ im_end"
    "qwen_turns orders think True False (pre @ [a]) = t3 @ im_end"
    using Cons.IH by metis
  moreover obtain t4 t5 where "qwen_turns orders think False False (pre @ [a]) = t4 @ im_end"
    "qwen_turns orders think pending False (pre @ [a]) = t5 @ im_end"
    using Cons.IH by metis
  ultimately show ?case by simp
qed

lemma system_text_tail: "\<not> list_ex role_is_system tail \<Longrightarrow> qwen_system_text (msgs @ tail) = qwen_system_text msgs"
proof -
  assume "\<not> list_ex role_is_system tail"
  then have "filter role_is_system tail = []" by (auto simp: list_ex_iff filter_empty_conv)
  then show ?thesis by (simp add: qwen_system_text_def)
qed

text \<open>
  C12: The prompt of a conversation that goes on after an assistant turn is the prompt up to that turn
  followed by the live tail the server appends to the running session: the session, which has
  sampled the turn but not its end marker, and a fresh rendering of the whole history agree to the
  byte, whatever the tools, the thinking mode and the messages are, as long as no system message
  follows the turn.
\<close>

theorem live_tail_boundary:
  assumes "msg_role a = Some ''assistant''" "\<not> list_ex role_is_system tail"
  shows "\<exists>session. render_qwen_chat_prompt_text (pre @ [a]) schemas orders mode = session @ im_end \<and>
    render_qwen_chat_prompt_text (pre @ a # tail) schemas orders mode =
      session @ render_qwen_live_tool_tail (pre @ a # tail) (length pre + 1) orders mode"
proof -
  define think where "think = ds4_think_mode_enabled mode"
  obtain t where t: "qwen_turns orders think False False (pre @ [a]) = t @ im_end"
    using turns_end_assistant [OF assms(1)] by blast
  have sys: "qwen_system_text (pre @ a # tail) = qwen_system_text (pre @ [a])"
    using system_text_tail [OF assms(2), of "pre @ [a]"] by simp
  have rest: "qwen_turns orders think False False (pre @ a # tail) = t @ im_end @ qwen_turns orders think False False tail"
    by (simp add: turns_after_assistant [OF assms(1), of orders think False False pre tail] t)
  have split: "\<exists>h. \<forall>msgs. qwen_system_text msgs = qwen_system_text (pre @ [a]) \<longrightarrow>
      render_qwen_chat_prompt_text msgs schemas orders mode = h @ qwen_turns orders think False False msgs"
    by (simp add: render_qwen_chat_prompt_text_def append_qwen_conversation_def Let_def think_def)
  then obtain h where h: "\<And>msgs. qwen_system_text msgs = qwen_system_text (pre @ [a]) \<Longrightarrow>
      render_qwen_chat_prompt_text msgs schemas orders mode = h @ qwen_turns orders think False False msgs" by blast
  have "render_qwen_chat_prompt_text (pre @ [a]) schemas orders mode = (h @ t) @ im_end"
    using h [of "pre @ [a]"] t by simp
  moreover have "render_qwen_chat_prompt_text (pre @ a # tail) schemas orders mode =
      (h @ t) @ render_qwen_live_tool_tail (pre @ a # tail) (length pre + 1) orders mode"
    using h [OF sys] rest
    by (simp add: render_qwen_live_tool_tail_def append_qwen_conversation_def think_def)
  ultimately show ?thesis by blast
qed

definition example_turn :: "string \<Rightarrow> string \<Rightarrow> chat_msg" where
  "example_turn role content = no_chat_msg\<lparr>msg_role := Some role, msg_content := Some content\<rparr>"

lemma live_tail_boundary_witness:
  "\<exists>session. render_qwen_chat_prompt_text [example_turn ''user'' ''hi'', example_turn ''assistant'' ''ok''] None [] DS4_THINK_NONE
       = session @ im_end \<and>
     render_qwen_chat_prompt_text
       [example_turn ''user'' ''hi'', example_turn ''assistant'' ''ok'', example_turn ''tool'' ''x''] None [] DS4_THINK_NONE
       = session @ render_qwen_live_tool_tail
           [example_turn ''user'' ''hi'', example_turn ''assistant'' ''ok'', example_turn ''tool'' ''x''] 2 [] DS4_THINK_NONE"
  using live_tail_boundary [of "example_turn ''assistant'' ''ok''" "[example_turn ''tool'' ''x'']"
      "[example_turn ''user'' ''hi'']" None "[]" DS4_THINK_NONE]
  by (simp add: example_turn_def role_is_system_def numeral_2_eq_2)

end
