(* ===== verification/QwenParse.thy ===== *)
theory QwenParse
  imports QwenRender
begin

text \<open>
  Reading what the model generated (\<open>ds4_server.c\<close>): reasoning, answer and tool calls of the Qwen
  format. The text is the suffix at the C code's pointer; a failed parse (the function returns false)
  is None.
\<close>

subsection \<open>Searching\<close>

definition param_start :: string where
  "param_start = ''<parameter=''"

definition param_end :: string where
  "param_end = ''</parameter>''"

text \<open>The first, or the last, occurrence of a marker outside the parameters of tool calls.\<close>

function find_structural :: "string \<Rightarrow> bool \<Rightarrow> string option \<Rightarrow> string \<Rightarrow> string option" where
  "find_structural needle last_one found s =
     (case s of
        [] \<Rightarrow> found
      | _ # r \<Rightarrow>
          (let hit = starts_with s needle; found' = (if hit then Some s else found) in
           if hit \<and> \<not> last_one then found'
           else if starts_with s param_start then
             (case dropWhile (\<lambda>c. c \<noteq> CHR ''>'') s of
                [] \<Rightarrow> found'
              | _ # t \<Rightarrow>
                  (case c_strstr t param_end of
                     None \<Rightarrow> found'
                   | Some e \<Rightarrow> find_structural needle last_one found' (drop (length param_end) e)))
           else find_structural needle last_one found' r))"
  by pat_completeness auto
termination
proof (relation "measure (\<lambda>(_, _, _, s). length s)", goal_cases)
  case (2 n l f s c r hit f' d t e)
  from c_strstr_SomeD [OF 2(7)] obtain u where t: "t = u @ e" by auto
  have "length (d # t) \<le> length s" using 2(6) length_dropWhile_le by metis
  with t show ?case by simp
qed auto

declare find_structural.simps [simp del]

definition find_tool_structural_text :: "string \<Rightarrow> string \<Rightarrow> bool \<Rightarrow> string option" where
  "find_tool_structural_text s needle last_one = find_structural needle last_one None s"

subsection \<open>Reasoning and answer\<close>

text \<open>The content, and the reasoning if there was one.\<close>

definition split_reasoning_content :: "string \<Rightarrow> nat \<Rightarrow> string \<times> string option" where
  "split_reasoning_content t n =
     (let s = take n t; body = (if starts_with s ''<think>'' then drop 7 s else s) in
      case c_strstr body ''</think>'' of
        Some e \<Rightarrow> (drop 8 e, Some (take (length body - length e) body))
      | None \<Rightarrow> (s, None))"

definition ds4_local_unterminated_reasoning :: "string \<Rightarrow> string \<times> string option" where
  "ds4_local_unterminated_reasoning t = ([], Some (if starts_with t ''<think>'' then drop 7 t else t))"

definition ds4_unterminated_reasoning_before_tool :: "string \<Rightarrow> nat \<Rightarrow> string \<times> string option" where
  "ds4_unterminated_reasoning_before_tool t prefix_len =
     (let n = min prefix_len (length t) in
      ([], Some (if 7 \<le> n \<and> starts_with t ''<think>'' then take (n - 7) (drop 7 t) else take n t)))"

definition qwen_trim_split :: "string \<times> string option \<Rightarrow> string \<times> string option" where
  "qwen_trim_split cr =
     (dropWhile (\<lambda>c. c = CHR 0x0A) (fst cr),
      map_option (\<lambda>r. rev (dropWhile (\<lambda>c. c = CHR 0x0A) (rev r))) (snd cr))"

subsection \<open>Parameters\<close>

definition trim_const_span :: "string \<Rightarrow> string" where
  "trim_const_span s = rtrim (dropWhile c_isspace s)"

definition qwen_param_value_is_json :: "string \<Rightarrow> bool" where
  "qwen_param_value_is_json s =
     (let p = json_ws s in
      if p = [] \<or> quoted p then False
      else case json_raw_value p of None \<Rightarrow> False | Some (_, r) \<Rightarrow> json_ws r = [])"

definition qwen_strip_value_newlines :: "string \<Rightarrow> string" where
  "qwen_strip_value_newlines s =
     (let s = (if starts_with s newline then tl s else s) in
      if s \<noteq> [] \<and> last s = CHR 0x0A then butlast s else s)"

definition schema_type_is_string :: "string \<Rightarrow> bool" where
  "schema_type_is_string schema =
     (case json_args_parse schema of
        None \<Rightarrow> False
      | Some args \<Rightarrow> list_ex (\<lambda>a. ja_key a = ''type'' \<and> ja_is_string a \<and> ja_value a = ''string'') args)"

definition qwen_param_declared_string :: "tool_schema_order list \<Rightarrow> string \<Rightarrow> string \<Rightarrow> bool" where
  "qwen_param_declared_string orders name key =
     (case tool_schema_orders_find orders (Some name) of
        None \<Rightarrow> False
      | Some order \<Rightarrow>
          (case find (\<lambda>ps. fst ps = key) (tso_props order) of
             None \<Rightarrow> False | Some (_, schema) \<Rightarrow> schema_type_is_string schema))"

definition tool_call_json_args_add :: "string \<Rightarrow> string \<Rightarrow> string \<Rightarrow> bool \<Rightarrow> string" where
  "tool_call_json_args_add args name value str =
     args @ (if args = [] then [] else '', '') @ json_escape name @ '': ''
     @ (if str then json_escape value
        else let m = json_minify_raw_value value in if m = [] then ''null'' else m)"

text \<open>The text up to \<open><\<close> or \<open>>\<close>, and what follows when that is \<open>>\<close>: a name in a tag.\<close>

definition tag_name :: "string \<Rightarrow> (string \<times> string) option" where
  "tag_name s =
     (case dropWhile (\<lambda>c. c \<noteq> CHR ''<'' \<and> c \<noteq> CHR ''>'') s of
        [] \<Rightarrow> None
      | c # r \<Rightarrow> if c = CHR ''>'' then Some (takeWhile (\<lambda>c. c \<noteq> CHR ''<'' \<and> c \<noteq> CHR ''>'') s, r) else None)"

definition qwen_value :: "tool_schema_order list \<Rightarrow> string \<Rightarrow> string \<Rightarrow> string \<Rightarrow> string \<times> bool" where
  "qwen_value orders name key raw =
     (let value = qwen_strip_value_newlines raw;
          str = (qwen_param_declared_string orders name key \<or> \<not> qwen_param_value_is_json value)
      in (if str then tool_text_unescape value param_end else value, str))"

function qwen_params :: "tool_schema_order list \<Rightarrow> string \<Rightarrow> string \<Rightarrow> string \<Rightarrow> (string \<times> string) option" where
  "qwen_params orders name args p =
     (let q = dropWhile c_isspace p in
      if starts_with q ''</function>'' then Some (args, drop 11 q)
      else if \<not> starts_with q param_start then None
      else case tag_name (drop 11 q) of
        None \<Rightarrow> None
      | Some (key, vs) \<Rightarrow>
          (case c_strstr vs param_end of
             None \<Rightarrow> None
           | Some ve \<Rightarrow>
               (let k = trim_const_span key; (value, str) = qwen_value orders name k (take (length vs - length ve) vs)
                in qwen_params orders name (tool_call_json_args_add args k value str) (drop 12 ve))))"
  by pat_completeness auto
termination
proof (relation "measure (\<lambda>(_, _, _, p). length p)", goal_cases)
  case (2 orders name args p q kv key vs ve k vi v st)
  from c_strstr_SomeD [OF 2(6)] obtain u where vs: "vs = u @ ve" by auto
  have "length vs < length (drop 11 q)" using 2(4,5) length_dropWhile_le [of _ "drop 11 q"]
    by (auto simp: tag_name_def split: list.splits if_splits) (metis Suc_le_eq length_Cons length_dropWhile_le)
  moreover have "length q \<le> length p" using 2(1) by (simp add: length_dropWhile_le)
  ultimately show ?case using vs by simp
qed simp

declare qwen_params.simps [simp del]

lemma qwen_params_length: "qwen_params orders name args p = Some (args', r) \<Longrightarrow> length r < length p"
proof (induction orders name args p rule: qwen_params.induct)
  case (1 orders name args p)
  define q where "q = dropWhile c_isspace p"
  have q: "length q \<le> length p" by (simp add: q_def length_dropWhile_le)
  show ?case
  proof (cases "starts_with q ''</function>''")
    case True
    with "1.prems" have "r = drop 11 q" by (subst (asm) qwen_params.simps) (simp add: q_def Let_def)
    with q starts_with_length [OF True] show ?thesis by simp
  next
    case False
    with "1.prems" obtain key vs ve v str where 2: "starts_with q param_start" "tag_name (drop 11 q) = Some (key, vs)"
        "c_strstr vs param_end = Some ve" "qwen_value orders name (trim_const_span key) (take (length vs - length ve) vs) = (v, str)"
        "qwen_params orders name (tool_call_json_args_add args (trim_const_span key) v str) (drop 12 ve) = Some (args', r)"
      by (subst (asm) qwen_params.simps) (auto simp: q_def Let_def split: if_splits option.splits prod.splits)
    from "1.IH" [OF q_def False _ 2(2) refl 2(3) refl 2(4) [symmetric] refl 2(5)] 2(1) have "length r < length (drop 12 ve)" by simp
    moreover obtain u where "vs = u @ ve" using c_strstr_SomeD [OF 2(3)] by auto
    moreover have "length vs \<le> length (drop 11 q)"
      using 2(2) length_dropWhile_le [of "\<lambda>c. c \<noteq> CHR ''<'' \<and> c \<noteq> CHR ''>''" "drop 11 q"]
      by (auto simp: tag_name_def split: list.splits if_splits)
    ultimately show ?thesis using q by simp
  qed
qed

subsection \<open>Calls and messages\<close>

text \<open>One call, from behind its \<open><tool_call>\<close>: the call, and the text behind its end tag.\<close>

definition qwen_call :: "tool_schema_order list \<Rightarrow> string \<Rightarrow> (tool_call \<times> string) option" where
  "qwen_call orders p =
     (let p = dropWhile c_isspace p in
      if \<not> starts_with p ''<function='' then None
      else case tag_name (drop 10 p) of
        None \<Rightarrow> None
      | Some (tag, r) \<Rightarrow>
          (let name = trim_const_span tag in
           if name = [] then None
           else case qwen_params orders name [] r of
             None \<Rightarrow> None
           | Some (args, r) \<Rightarrow>
               (let p = dropWhile c_isspace r in
                if \<not> starts_with p ''</tool_call>'' then None
                else Some (\<lparr>tc_id = None, tc_name = Some name, tc_arguments = Some (''{'' @ args @ ''}'')\<rparr>, drop 12 p))))"

lemma qwen_call_length: "qwen_call orders p = Some (tc, r) \<Longrightarrow> length r < length p"
proof -
  assume "qwen_call orders p = Some (tc, r)"
  then obtain tag u args v where 1: "tag_name (drop 10 (dropWhile c_isspace p)) = Some (tag, u)"
    "qwen_params orders (trim_const_span tag) [] u = Some (args, v)" "r = drop 12 (dropWhile c_isspace v)"
    by (auto simp: qwen_call_def Let_def split: if_splits option.splits)
  have "length u \<le> length (drop 10 (dropWhile c_isspace p))"
    using 1(1) length_dropWhile_le [of "\<lambda>c. c \<noteq> CHR ''<'' \<and> c \<noteq> CHR ''>''" "drop 10 (dropWhile c_isspace p)"]
    by (auto simp: tag_name_def split: list.splits if_splits)
  moreover have "length (dropWhile c_isspace p) \<le> length p" "length (dropWhile c_isspace v) \<le> length v"
    by (rule length_dropWhile_le)+
  ultimately show ?thesis using qwen_params_length [OF 1(2)] 1(3) by simp
qed

function qwen_calls :: "tool_schema_order list \<Rightarrow> tool_call list \<Rightarrow> string \<Rightarrow> (tool_call list \<times> string) option" where
  "qwen_calls orders calls p =
     (let p = dropWhile c_isspace p in
      if \<not> starts_with p ''<tool_call>'' then Some (calls, p)
      else case qwen_call orders (drop 11 p) of
        None \<Rightarrow> None
      | Some (tc, r) \<Rightarrow> qwen_calls orders (calls @ [tc]) r)"
  by pat_completeness auto
termination
proof (relation "measure (\<lambda>(_, _, p). length p)", goal_cases)
  case (2 orders calls p q x tc r)
  then have "length r < length (drop 11 q)" using qwen_call_length [of orders "drop 11 q" tc r] by simp
  moreover have "length q \<le> length p" using 2(1) by (simp add: length_dropWhile_le)
  ultimately show ?case by simp
qed simp

declare qwen_calls.simps [simp del]

record parsed_message =
  pm_content :: string
  pm_reasoning :: "string option"
  pm_calls :: "tool_call list"
  pm_raw_tool_text :: "string option"

definition plain_message :: "string \<times> string option \<Rightarrow> parsed_message" where
  "plain_message cr = \<lparr>pm_content = fst cr, pm_reasoning = snd cr, pm_calls = [], pm_raw_tool_text = None\<rparr>"

text \<open>The tool block that starts at \<open>start\<close>; the blank before it belongs to the raw tool text.\<close>

definition qwen_tool_block :: "tool_schema_order list \<Rightarrow> string \<Rightarrow> bool \<Rightarrow> string \<Rightarrow> parsed_message option" where
  "qwen_tool_block orders t recovered start =
     (let before = take (length t - length start) t;
          head = rev (dropWhile (\<lambda>c. c = CHR 0x0A \<or> c = CHR '' '') (rev before));
          content_len = length (rtrim head)
      in case qwen_calls orders [] start of
        None \<Rightarrow> None
      | Some (calls, p) \<Rightarrow>
          (if calls = [] then None
           else
             let cr = qwen_trim_split
               (if recovered then ds4_unterminated_reasoning_before_tool t content_len
                else split_reasoning_content t content_len)
             in Some \<lparr>pm_content = fst cr, pm_reasoning = snd cr, pm_calls = calls,
                  pm_raw_tool_text = Some (take (length t - length head - length p) (drop (length head) t))\<rparr>))"

definition parse_qwen_generated_message_ex ::
  "tool_schema_order list \<Rightarrow> bool \<Rightarrow> string \<Rightarrow> parsed_message option" where
  "parse_qwen_generated_message_ex orders require_thinking_closed t =
     (let after = (\<lambda>search recovered.
            case c_strstr search ''<tool_call>'' of
              None \<Rightarrow> Some (plain_message (qwen_trim_split (split_reasoning_content t (length t))))
            | Some start \<Rightarrow> qwen_tool_block orders t recovered start)
      in if \<not> require_thinking_closed then after t False
         else case find_tool_structural_text t ''</think>'' True of
           Some e \<Rightarrow> after (drop 8 e) False
         | None \<Rightarrow>
             (case c_strstr t ''<tool_call>'' of
                None \<Rightarrow> Some (plain_message (ds4_local_unterminated_reasoning t))
              | Some candidate \<Rightarrow>
                  (if c_strstr candidate ''</tool_call>'' = None then Some (plain_message (ds4_local_unterminated_reasoning t))
                   else after candidate True)))"

subsection \<open>The response\<close>

definition tool_parse_failure_recovery_finish :: "string \<Rightarrow> string" where
  "tool_parse_failure_recovery_finish finish = (if finish = ''length'' then ''length'' else ''stop'')"

record response_parse =
  rp_ok :: bool
  rp_message :: parsed_message
  rp_finish :: string
  rp_recovered :: bool

definition parse_generated_message_for_response_for_syntax ::
  "tool_schema_order list \<Rightarrow> bool \<Rightarrow> bool \<Rightarrow> bool \<Rightarrow> string \<Rightarrow> string \<Rightarrow> response_parse" where
  "parse_generated_message_for_response_for_syntax orders has_tools saw_tool_start require_thinking_closed finish t =
     (case parse_qwen_generated_message_ex orders require_thinking_closed t of
        Some m \<Rightarrow> \<lparr>rp_ok = True, rp_message = m, rp_finish = finish, rp_recovered = False\<rparr>
      | None \<Rightarrow>
          (let recovered = (has_tools \<and> saw_tool_start \<and> finish \<noteq> ''error'') in
           \<lparr>rp_ok = False, rp_message = plain_message (t, None),
            rp_finish = (if recovered then tool_parse_failure_recovery_finish finish else finish),
            rp_recovered = recovered\<rparr>))"

subsection \<open>What a response contains\<close>

lemma suffix_dropWhile: "suffix (dropWhile P s) s"
  by (metis suffixI takeWhile_dropWhile_id)

lemma tag_name_suffix: "tag_name s = Some (k, r) \<Longrightarrow> suffix r s"
  using suffix_dropWhile [of "\<lambda>c. c \<noteq> CHR ''<'' \<and> c \<noteq> CHR ''>''" s]
  by (auto simp: tag_name_def split: list.splits if_splits intro: suffix_ConsD)

lemma strstr_suffix: "c_strstr s p = Some t \<Longrightarrow> suffix t s"
  by (auto simp: suffix_def dest: c_strstr_SomeD)

lemma qwen_params_suffix: "qwen_params orders name args p = Some (args', r) \<Longrightarrow> suffix r p"
proof (induction orders name args p rule: qwen_params.induct)
  case (1 orders name args p)
  define q where "q = dropWhile c_isspace p"
  have q: "suffix q p" by (simp add: q_def suffix_dropWhile)
  show ?case
  proof (cases "starts_with q ''</function>''")
    case True
    with "1.prems" have "r = drop 11 q" by (subst (asm) qwen_params.simps) (simp add: q_def Let_def)
    with q show ?thesis by (meson suffix_drop suffix_order.trans)
  next
    case False
    with "1.prems" obtain key vs ve v str where 2: "starts_with q param_start" "tag_name (drop 11 q) = Some (key, vs)"
        "c_strstr vs param_end = Some ve" "qwen_value orders name (trim_const_span key) (take (length vs - length ve) vs) = (v, str)"
        "qwen_params orders name (tool_call_json_args_add args (trim_const_span key) v str) (drop 12 ve) = Some (args', r)"
      by (subst (asm) qwen_params.simps) (auto simp: q_def Let_def split: if_splits option.splits prod.splits)
    from "1.IH" [OF q_def False _ 2(2) refl 2(3) refl 2(4) [symmetric] refl 2(5)] 2(1) have "suffix r (drop 12 ve)" by simp
    with strstr_suffix [OF 2(3)] tag_name_suffix [OF 2(2)] q show ?thesis
      by (meson suffix_drop suffix_order.trans)
  qed
qed

definition call_wellformed :: "tool_call \<Rightarrow> bool" where
  "call_wellformed tc \<longleftrightarrow> (\<exists>name args. tc_name tc = Some name \<and> name \<noteq> [] \<and> tc_arguments tc = Some (''{'' @ args @ ''}''))"

lemma qwen_call_suffix: "qwen_call orders p = Some (tc, r) \<Longrightarrow> suffix r p \<and> call_wellformed tc"
proof -
  assume "qwen_call orders p = Some (tc, r)"
  then obtain tag u args v where 1: "tag_name (drop 10 (dropWhile c_isspace p)) = Some (tag, u)"
    "qwen_params orders (trim_const_span tag) [] u = Some (args, v)" "r = drop 12 (dropWhile c_isspace v)"
    "trim_const_span tag \<noteq> []" "tc = \<lparr>tc_id = None, tc_name = Some (trim_const_span tag), tc_arguments = Some (''{'' @ args @ ''}'')\<rparr>"
    by (auto simp: qwen_call_def Let_def split: if_splits option.splits)
  have "suffix r p" using tag_name_suffix [OF 1(1)] qwen_params_suffix [OF 1(2)] 1(3)
    by (meson suffix_dropWhile suffix_drop suffix_order.trans)
  with 1(4,5) show ?thesis by (simp add: call_wellformed_def)
qed

lemma qwen_calls_suffix:
  "qwen_calls orders calls p = Some (calls', r) \<Longrightarrow> list_all call_wellformed calls \<Longrightarrow>
     suffix r p \<and> list_all call_wellformed calls'"
proof (induction orders calls p rule: qwen_calls.induct)
  case (1 orders calls p)
  define q where "q = dropWhile c_isspace p"
  have q: "suffix q p" by (simp add: q_def suffix_dropWhile)
  show ?case
  proof (cases "starts_with q ''<tool_call>''")
    case False
    with "1.prems" q show ?thesis by (subst (asm) qwen_calls.simps) (simp add: q_def Let_def)
  next
    case True
    with "1.prems"(1) obtain tc u where 2: "qwen_call orders (drop 11 q) = Some (tc, u)"
        "qwen_calls orders (calls @ [tc]) u = Some (calls', r)"
      by (subst (asm) qwen_calls.simps) (auto simp: q_def Let_def split: option.splits)
    from qwen_call_suffix [OF 2(1)] have u: "suffix u (drop 11 q)" "call_wellformed tc" by auto
    with "1.IH" [OF q_def _ 2(1) refl 2(2)] True "1.prems"(2) have "suffix r u" "list_all call_wellformed calls'" by auto
    with u(1) q show ?thesis by (meson suffix_drop suffix_order.trans)
  qed
qed

lemma tag_length: "length ''<tool_call>'' = 11"
  by simp

lemma qwen_calls_block:
  assumes "qwen_calls orders [] start = Some (calls, p)" "starts_with start ''<tool_call>''"
  shows "\<exists>blk. start = (''<tool_call>'' @ blk) @ p \<and> list_all call_wellformed calls"
proof -
  have d: "dropWhile c_isspace start = start" using assms(2) by (cases start) (auto simp: c_isspace_def)
  obtain tc u where 1: "qwen_call orders (drop 11 start) = Some (tc, u)" "qwen_calls orders [tc] u = Some (calls, p)"
    using assms by (subst (asm) qwen_calls.simps) (auto simp: Let_def d split: option.splits)
  from qwen_call_suffix [OF 1(1)] qwen_calls_suffix [OF 1(2)] have "suffix p (drop 11 start)" "list_all call_wellformed calls"
    by (auto intro: suffix_order.trans)
  then obtain blk where "drop 11 start = blk @ p" by (auto simp: suffix_def)
  moreover have "start = ''<tool_call>'' @ drop 11 start"
    using starts_with_drop [OF assms(2)] unfolding tag_length .
  ultimately show ?thesis using \<open>list_all call_wellformed calls\<close> by (metis append.assoc)
qed

definition message_sound :: "string \<Rightarrow> parsed_message \<Rightarrow> bool" where
  "message_sound t m \<longleftrightarrow>
     (case pm_raw_tool_text m of
        None \<Rightarrow> pm_calls m = []
      | Some raw \<Rightarrow> pm_calls m \<noteq> [] \<and> list_all call_wellformed (pm_calls m) \<and>
          (\<exists>a b ws blk. t = a @ raw @ b \<and> raw = ws @ ''<tool_call>'' @ blk \<and> set ws \<subseteq> {CHR 0x0A, CHR '' ''}))"

lemma slice: "take (length (a @ b @ c) - length a - length c) (drop (length a) (a @ b @ c)) = b"
  by simp

lemma tool_block_sound:
  assumes "qwen_tool_block orders t recovered start = Some m" "suffix start t" "starts_with start ''<tool_call>''"
  shows "message_sound t m"
proof -
  define P where "P = (\<lambda>c. c = CHR 0x0A \<or> c = CHR '' '')"
  obtain before where t: "t = before @ start" using assms(2) by (auto simp: suffix_def)
  define head where "head = rev (dropWhile P (rev before))"
  define ws where "ws = rev (takeWhile P (rev before))"
  have b: "before = head @ ws" unfolding head_def ws_def by (metis rev_append rev_rev_ident takeWhile_dropWhile_id)
  have ws: "set ws \<subseteq> {CHR 0x0A, CHR '' ''}" by (auto simp: ws_def P_def dest: set_takeWhileD)
  have bt: "take (length t - length start) t = before" by (simp add: t)
  obtain calls p where 1: "qwen_calls orders [] start = Some (calls, p)" "calls \<noteq> []" "pm_calls m = calls"
      "pm_raw_tool_text m = Some (take (length t - length head - length p) (drop (length head) t))"
    using assms(1) unfolding qwen_tool_block_def Let_def bt head_def P_def
    by (auto split: option.splits if_splits prod.splits)
  obtain blk where blk: "start = (''<tool_call>'' @ blk) @ p" "list_all call_wellformed calls"
    using qwen_calls_block [OF 1(1) assms(3)] by blast
  have tt: "t = head @ (ws @ ''<tool_call>'' @ blk) @ p" unfolding t b blk(1) by simp
  have "take (length t - length head - length p) (drop (length head) t) = ws @ ''<tool_call>'' @ blk"
    unfolding tt by (rule slice)
  with tt show ?thesis unfolding message_sound_def using 1(2-4) blk(2) ws by auto
qed

lemma plain_sound [simp]: "message_sound t (plain_message cr)"
  by (simp add: message_sound_def plain_message_def)

lemma find_structural_suffix:
  "find_structural n l f s = Some r \<Longrightarrow> (\<And>x. f = Some x \<Longrightarrow> suffix x t) \<Longrightarrow> suffix s t \<Longrightarrow> suffix r t"
proof (induction n l f s rule: find_structural.induct)
  case (1 n l f s)
  define f' where "f' = (if starts_with s n then Some s else f)"
  have f': "suffix x t" if "f' = Some x" for x using that "1.prems"(2,3) by (auto simp: f'_def split: if_splits)
  show ?case
  proof (cases s)
    case Nil
    with "1.prems" show ?thesis by (subst (asm) find_structural.simps) simp
  next
    case (Cons c u)
    have u: "suffix u t" using "1.prems"(3) Cons by (meson suffix_ConsD)
    consider (stop) "f' = Some r"
      | (skip) d v e where "dropWhile (\<lambda>c. c \<noteq> CHR ''>'') s = d # v" "c_strstr v param_end = Some e"
          "starts_with s param_start" "\<not> (starts_with s n \<and> \<not> l)" "find_structural n l f' (drop (length param_end) e) = Some r"
      | (step) "\<not> starts_with s param_start" "\<not> (starts_with s n \<and> \<not> l)" "find_structural n l f' u = Some r"
      using "1.prems"(1) Cons
      by (subst (asm) find_structural.simps) (auto simp: Let_def f'_def split: if_splits list.splits option.splits)
    then show ?thesis
    proof cases
      case stop
      then show ?thesis by (rule f')
    next
      case skip
      have "suffix (d # v) s" using suffix_dropWhile skip(1) by metis
      then have "suffix (drop (length param_end) e) t" using strstr_suffix [OF skip(2)] "1.prems"(3)
        by (meson suffix_ConsD suffix_drop suffix_order.trans)
      with "1.IH"(1) [OF Cons refl f'_def skip(4,3,1,2,5)] f' show ?thesis by blast
    next
      case step
      from "1.IH"(2) [OF Cons refl f'_def step(2,1,3)] u f' show ?thesis by blast
    qed
  qed
qed

lemma find_tool_structural_suffix: "find_tool_structural_text t n l = Some e \<Longrightarrow> suffix e t"
  unfolding find_tool_structural_text_def by (erule find_structural_suffix) simp_all

lemma strstr_starts: "c_strstr s p = Some t \<Longrightarrow> starts_with t p"
  by (auto dest: c_strstr_SomeD)

lemma parse_message_sound:
  assumes "parse_qwen_generated_message_ex orders closed t = Some m"
  shows "message_sound t m"
proof -
  define after where "after = (\<lambda>search recovered. case c_strstr search ''<tool_call>'' of
      None \<Rightarrow> Some (plain_message (qwen_trim_split (split_reasoning_content t (length t))))
    | Some start \<Rightarrow> qwen_tool_block orders t recovered start)"
  have a: "message_sound t m" if "after search recovered = Some m" "suffix search t" for search recovered
    using that tool_block_sound [of orders t recovered _ m]
    by (auto simp: after_def split: option.splits dest: strstr_starts strstr_suffix intro: suffix_order.trans)
  show ?thesis using assms a [OF _ suffix_order.refl]
    a [of "drop 8 _" False, OF _ suffix_order.trans [OF suffix_drop find_tool_structural_suffix]]
    a [OF _ strstr_suffix]
    unfolding parse_qwen_generated_message_ex_def Let_def after_def [symmetric]
    by (auto split: if_splits option.splits)
qed

lemma unclosed_reasoning:
  assumes "find_tool_structural_text t ''</think>'' True = None"
    "\<forall>s. c_strstr t ''<tool_call>'' = Some s \<longrightarrow> c_strstr s ''</tool_call>'' = None"
  shows "parse_qwen_generated_message_ex orders True t = Some (plain_message (ds4_local_unterminated_reasoning t))"
  using assms by (auto simp: parse_qwen_generated_message_ex_def Let_def split: option.split)



end
