(* ===== verification/QwenRoundTrip.thy ===== *)
theory QwenRoundTrip
  imports QwenParse "HOL-Library.Multiset"
begin

text \<open>
  Reading a generated message inverts rendering it: the reasoning, the answer and the tool calls that
  the prompt renderer writes for an assistant turn are the ones the response parser finds in the same
  text. The section on the order of arguments shows that the renderer's two passes write every
  argument exactly once.
\<close>

subsection \<open>Searching in rendered text\<close>

definition no_lt :: "string \<Rightarrow> bool" where
  "no_lt u \<longleftrightarrow> CHR ''<'' \<notin> set u"

lemma starts_with_cut: "starts_with (u @ c # w) p \<Longrightarrow> c \<notin> set p \<Longrightarrow> starts_with u p"
proof (induction u arbitrary: p)
  case Nil
  then show ?case by (cases p) auto
next
  case (Cons a u)
  then show ?case by (cases p) auto
qed

lemma strstr_here: "starts_with s p \<Longrightarrow> c_strstr s p = Some s"
  by (cases s) (auto dest: starts_with_length)

lemma strstr_after_newline:
  assumes "\<And>i. \<not> starts_with (drop i x) p" "CHR 0x0A \<notin> set p" "p \<noteq> []"
  shows "c_strstr (x @ newline @ p @ r) p = Some (p @ r)"
  using assms(1)
proof (induction x)
  case Nil
  have "\<not> starts_with (newline @ p @ r) p"
    using starts_with_cut [of "[]" "CHR 0x0A" "p @ r" p] assms(2,3) by (cases p) (auto simp: newline_def)
  then show ?case using strstr_here [of "p @ r" p] by (simp add: newline_def)
next
  case (Cons a x)
  have "\<not> starts_with (drop i x) p" for i using Cons.prems [of "Suc i"] by simp
  moreover have "\<not> starts_with ((a # x) @ newline @ p @ r) p"
    using starts_with_cut [of "a # x" "CHR 0x0A" "p @ r" p] Cons.prems [of 0] assms(2) by (auto simp: newline_def)
  ultimately show ?case using Cons.IH by simp
qed

lemma strstr_no_lt: "no_lt u \<Longrightarrow> starts_with s (CHR ''<'' # p) \<Longrightarrow> c_strstr (u @ s) (CHR ''<'' # p) = Some s"
  by (induction u) (auto simp: no_lt_def strstr_here)

lemma find_skip:
  "\<not> starts_with (c # s) needle \<Longrightarrow> \<not> starts_with (c # s) param_start \<Longrightarrow>
     find_structural needle l f (c # s) = find_structural needle l f s"
  by (subst find_structural.simps) (simp add: Let_def)

lemma find_no_lt: "no_lt u \<Longrightarrow> find_structural (CHR ''<'' # n) l f (u @ s) = find_structural (CHR ''<'' # n) l f s"
  by (induction u) (auto simp: no_lt_def find_skip param_start_def)

lemma find_end: "find_structural n l f [] = f"
  by (subst find_structural.simps) simp

subsection \<open>One argument\<close>

definition key_plain :: "string \<Rightarrow> bool" where
  "key_plain k \<longleftrightarrow> CHR ''<'' \<notin> set k \<and> CHR ''>'' \<notin> set k \<and> CHR ''&'' \<notin> set k \<and> trim_const_span k = k"

text \<open>
  What the parser needs to tell the kind of an argument from its text: a string that the schema does
  not declare must not look like JSON; another value must be JSON that needs no escape.
\<close>

definition arg_readable :: "tool_schema_order list \<Rightarrow> string \<Rightarrow> json_arg \<Rightarrow> bool" where
  "arg_readable orders name a \<longleftrightarrow> key_plain (ja_key a) \<and>
     (if ja_is_string a then
        qwen_param_declared_string orders name (ja_key a)
        \<or> \<not> qwen_param_value_is_json (append_glm_tag_body_text (ja_value a) param_end)
      else \<not> qwen_param_declared_string orders name (ja_key a) \<and> qwen_param_value_is_json (ja_value a)
        \<and> json_minify_raw_value (ja_value a) = ja_value a \<and> ja_value a \<noteq> []
        \<and> append_glm_tag_body_text (ja_value a) param_end = ja_value a)"

definition arg_body :: "json_arg \<Rightarrow> string" where
  "arg_body a = append_glm_tag_body_text (ja_value a) param_end"

lemma key_text: "key_plain k \<Longrightarrow> append_glm_tag_body_text k ''>'' = k"
proof -
  have "append_glm_tag_body_text k ''>'' = k" if "CHR ''>'' \<notin> set k" "CHR ''&'' \<notin> set k" for k
    using that by (induction k) (auto simp: tool_text_needs_escape_def tool_text_escaped_close_def)
  then show "key_plain k \<Longrightarrow> ?thesis" by (simp add: key_plain_def)
qed

lemma arg_text:
  "arg_readable orders name a \<Longrightarrow>
     qwen_arg_text a = param_start @ ja_key a @ ''>'' @ newline @ arg_body a @ newline @ param_end @ newline"
  by (simp add: qwen_arg_text_def arg_readable_def key_text arg_body_def param_start_def param_end_def Let_def)

lemma body_no_close: "\<not> starts_with (drop i (arg_body a)) param_end"
  unfolding arg_body_def param_end_def by (rule param_close.esc_no_close)

lemma tag_name_plain: "CHR ''<'' \<notin> set k \<Longrightarrow> CHR ''>'' \<notin> set k \<Longrightarrow> tag_name (k @ ''>'' @ r) = Some (k, r)"
  by (induction k) (auto simp: tag_name_def split: list.splits if_splits)

lemma strip_newlines: "qwen_strip_value_newlines (newline @ x @ newline) = x"
  by (simp add: qwen_strip_value_newlines_def newline_def)

lemma value_text:
  "arg_readable orders name a \<Longrightarrow>
     qwen_value orders name (ja_key a) (newline @ arg_body a @ newline) = (ja_value a, ja_is_string a)"
  using param_close.unescape_esc [of "ja_value a"]
  by (auto simp: qwen_value_def strip_newlines arg_readable_def arg_body_def param_end_def Let_def split: if_splits)

lemma body_strstr: "c_strstr (newline @ arg_body a @ newline @ param_end @ r) param_end = Some (param_end @ r)"
proof -
  have "\<not> starts_with (drop i (newline @ arg_body a)) param_end" for i
    using body_no_close [of "i - 1" a] by (cases i) (auto simp: newline_def param_end_def)
  from strstr_after_newline [of "newline @ arg_body a", OF this] show ?thesis by (simp add: param_end_def)
qed

lemma params_newline: "qwen_params orders name args (newline @ p) = qwen_params orders name args p"
  by (subst (1 2) qwen_params.simps) (simp add: newline_def c_isspace_def)

lemma params_arg:
  assumes "arg_readable orders name a"
  shows "qwen_params orders name args (qwen_arg_text a @ r) =
           qwen_params orders name (tool_call_json_args_add args (ja_key a) (ja_value a) (ja_is_string a)) r"
proof -
  define rest where "rest = newline @ arg_body a @ newline @ param_end @ newline @ r"
  have key: "CHR ''<'' \<notin> set (ja_key a)" "CHR ''>'' \<notin> set (ja_key a)" "trim_const_span (ja_key a) = ja_key a"
    using assms by (simp_all add: arg_readable_def key_plain_def)
  have t: "qwen_arg_text a @ r = param_start @ ja_key a @ ''>'' @ rest" by (simp add: arg_text [OF assms] rest_def)
  have q: "dropWhile c_isspace (param_start @ s) = param_start @ s" "\<not> starts_with (param_start @ s) ''</function>''"
    "drop 11 (param_start @ s) = s" for s
    by (simp_all add: param_start_def c_isspace_def)
  have n: "tag_name (ja_key a @ ''>'' @ rest) = Some (ja_key a, rest)" by (rule tag_name_plain [OF key(1,2)])
  have e: "c_strstr rest param_end = Some (param_end @ newline @ r)" unfolding rest_def by (rule body_strstr)
  have l: "take (length rest - length (param_end @ newline @ r)) rest = newline @ arg_body a @ newline"
    by (simp add: rest_def)
  have d: "drop 12 (param_end @ newline @ r) = newline @ r" by (simp add: param_end_def)
  show ?thesis unfolding t
    by (subst qwen_params.simps) (simp only: q n e l d key(3) value_text [OF assms] Let_def starts_with_append if_True if_False
        option.case prod.case not_True_eq_False params_newline)
qed

subsection \<open>The order of arguments\<close>

fun schema_pick :: "string list \<Rightarrow> json_arg list \<Rightarrow> json_arg list \<times> json_arg list" where
  "schema_pick [] args = ([], args)"
| "schema_pick (p # ps) args =
     (case json_args_find_unused args p of
        None \<Rightarrow> schema_pick ps args
      | Some i \<Rightarrow>
          (case schema_pick ps (args[i := (args ! i)\<lparr>ja_used := True\<rparr>]) of
             (picked, args') \<Rightarrow> (args ! i # picked, args')))"

definition schema_names :: "tool_schema_order option \<Rightarrow> string list" where
  "schema_names order = (case order of None \<Rightarrow> [] | Some o' \<Rightarrow> map fst (tso_props o'))"

definition written_args :: "string list \<Rightarrow> json_arg list \<Rightarrow> json_arg list" where
  "written_args ps args = (case schema_pick ps args of (picked, args') \<Rightarrow> picked @ filter (\<lambda>a. \<not> ja_used a) args')"

lemma schema_pass_pick:
  "schema_pass ps args = (concat (map qwen_arg_text (fst (schema_pick ps args))), snd (schema_pick ps args))"
  by (induction ps args rule: schema_pick.induct) (auto split: option.splits prod.splits)

lemma find_unused_Some:
  "json_args_find_unused args k = Some i \<Longrightarrow> i < length args \<and> \<not> ja_used (args ! i) \<and> ja_key (args ! i) = k"
  by (induction args arbitrary: i) (auto split: if_splits)

lemma mset_use:
  "i < length args \<Longrightarrow> \<not> ja_used (args ! i) \<Longrightarrow>
     mset (filter (\<lambda>a. \<not> ja_used a) args) =
       add_mset (args ! i) (mset (filter (\<lambda>a. \<not> ja_used a) (args[i := (args ! i)\<lparr>ja_used := True\<rparr>])))"
proof (induction args arbitrary: i)
  case (Cons a args)
  then show ?case by (cases i) auto
qed simp

text \<open>No argument is lost, and none is written twice.\<close>

lemma written_args_mset: "mset (written_args ps args) = mset (filter (\<lambda>a. \<not> ja_used a) args)"
proof -
  have "mset (fst (schema_pick ps args)) + mset (filter (\<lambda>a. \<not> ja_used a) (snd (schema_pick ps args))) =
      mset (filter (\<lambda>a. \<not> ja_used a) args)"
  proof (induction ps args rule: schema_pick.induct)
    case (2 p ps args)
    show ?case
    proof (cases "json_args_find_unused args p")
      case (Some i)
      obtain picked args' where p: "schema_pick ps (args[i := (args ! i)\<lparr>ja_used := True\<rparr>]) = (picked, args')"
        by (cases "schema_pick ps (args[i := (args ! i)\<lparr>ja_used := True\<rparr>])")
      from find_unused_Some [OF Some] have "i < length args" "\<not> ja_used (args ! i)" by auto
      from mset_use [OF this] "2.IH"(2) [OF Some] Some p show ?thesis by simp
    qed (use 2 in simp)
  qed simp
  then show ?thesis by (cases "schema_pick ps args") (simp add: written_args_def)
qed

definition call_args :: "tool_schema_order list \<Rightarrow> tool_call \<Rightarrow> json_arg list" where
  "call_args orders tc =
     (case json_args_parse (opt_text (tc_arguments tc)) of
        None \<Rightarrow> [] | Some args \<Rightarrow> written_args (schema_names (tool_schema_orders_find orders (tc_name tc))) args)"

lemma args_text_written:
  "json_args_parse (opt_text arguments) = Some args \<Longrightarrow>
     qwen_args_text order arguments = concat (map qwen_arg_text (written_args (schema_names order) args))"
  by (simp add: qwen_args_text_def schema_pass_pick rest_pass_def written_args_def schema_names_def split: prod.splits)

subsection \<open>Calls\<close>

definition name_plain :: "string \<Rightarrow> bool" where
  "name_plain n \<longleftrightarrow> n \<noteq> [] \<and> CHR ''<'' \<notin> set n \<and> CHR ''>'' \<notin> set n \<and> trim_const_span n = n"

definition call_readable :: "tool_schema_order list \<Rightarrow> tool_call \<Rightarrow> bool" where
  "call_readable orders tc \<longleftrightarrow> tc_name tc \<noteq> None \<and> name_plain (opt_text (tc_name tc))
     \<and> json_args_parse (opt_text (tc_arguments tc)) \<noteq> None
     \<and> list_all (arg_readable orders (opt_text (tc_name tc))) (call_args orders tc)"

definition args_json :: "json_arg list \<Rightarrow> string" where
  "args_json args = fold (\<lambda>a t. tool_call_json_args_add t (ja_key a) (ja_value a) (ja_is_string a)) args []"

definition call_read :: "tool_schema_order list \<Rightarrow> tool_call \<Rightarrow> tool_call" where
  "call_read orders tc =
     \<lparr>tc_id = None, tc_name = tc_name tc, tc_arguments = Some (''{'' @ args_json (call_args orders tc) @ ''}'')\<rparr>"

lemma params_args:
  "list_all (arg_readable orders name) as \<Longrightarrow>
     qwen_params orders name t (concat (map qwen_arg_text as) @ ''</function>'' @ r) =
       Some (fold (\<lambda>a t. tool_call_json_args_add t (ja_key a) (ja_value a) (ja_is_string a)) as t, r)"
proof (induction as arbitrary: t)
  case Nil
  show ?case by (subst qwen_params.simps) (simp add: c_isspace_def)
next
  case (Cons a as)
  then show ?case by (simp add: params_arg)
qed

lemma call_text:
  assumes "call_readable orders tc"
  shows "qwen_call_text orders tc =
     ''<tool_call>'' @ newline @ ''<function='' @ opt_text (tc_name tc) @ ''>'' @ newline
     @ concat (map qwen_arg_text (call_args orders tc)) @ ''</function>'' @ newline @ ''</tool_call>''"
  using assms by (auto simp: qwen_call_text_def call_readable_def call_args_def args_text_written)

lemma call_parsed:
  assumes "call_readable orders tc"
  shows "qwen_call orders (drop 11 (qwen_call_text orders tc @ r)) = Some (call_read orders tc, r)"
proof -
  define n where "n = opt_text (tc_name tc)"
  define q where "q = newline @ concat (map qwen_arg_text (call_args orders tc)) @ ''</function>'' @ newline @ ''</tool_call>'' @ r"
  have n: "CHR ''<'' \<notin> set n" "CHR ''>'' \<notin> set n" "trim_const_span n = n" "n \<noteq> []" "tc_name tc = Some n"
    using assms by (auto simp: call_readable_def name_plain_def n_def opt_text_def)
  have as: "list_all (arg_readable orders n) (call_args orders tc)"
    using assms by (simp add: call_readable_def n_def)
  have t: "drop 11 (qwen_call_text orders tc @ r) = newline @ ''<function='' @ n @ ''>'' @ q"
    by (simp add: call_text [OF assms] n_def q_def)
  have d: "dropWhile c_isspace (newline @ ''<function='' @ s) = ''<function='' @ s" for s
    by (simp add: newline_def c_isspace_def)
  have p: "qwen_params orders n [] q = Some (args_json (call_args orders tc), newline @ ''</tool_call>'' @ r)"
    unfolding q_def params_newline args_json_def by (rule params_args [OF as])
  have e: "dropWhile c_isspace (newline @ ''</tool_call>'' @ r) = ''</tool_call>'' @ r"
    by (simp add: newline_def c_isspace_def)
  have g: "tag_name (n @ ''>'' @ q) = Some (n, q)" by (rule tag_name_plain [OF n(1,2)])
  have f: "drop 10 (''<function='' @ s) = s" "drop 12 (''</tool_call>'' @ s) = s" for s by simp_all
  show ?thesis unfolding t qwen_call_def Let_def d
    by (simp only: f g p e n(3,4) starts_with_append option.case prod.case if_True if_False not_True_eq_False call_read_def n(5))
qed

lemma calls_parsed:
  assumes "list_all (call_readable orders) calls"
  shows "qwen_calls orders done_calls (qwen_calls_text False hc orders calls) = Some (done_calls @ map (call_read orders) calls, [])"
  using assms
proof (induction calls arbitrary: done_calls)
  case Nil
  show ?case by (subst qwen_calls.simps) simp
next
  case (Cons tc calls)
  define r where "r = qwen_calls_text False hc orders calls"
  have h: "starts_with (qwen_call_text orders tc @ r) ''<tool_call>''"
    by (simp add: qwen_call_text_def)
  have d: "dropWhile c_isspace (newline @ qwen_call_text orders tc @ r) = qwen_call_text orders tc @ r"
    by (simp add: qwen_call_text_def newline_def c_isspace_def)
  have c: "qwen_call orders (drop 11 (qwen_call_text orders tc @ r)) = Some (call_read orders tc, r)"
    using Cons.prems by (intro call_parsed) simp
  have "qwen_calls orders done_calls (newline @ qwen_call_text orders tc @ r) = qwen_calls orders (done_calls @ [call_read orders tc]) r"
    by (subst qwen_calls.simps) (simp only: d h c Let_def not_True_eq_False if_False option.case prod.case)
  with Cons show ?case by (simp add: r_def)
qed

lemma calls_parsed_first:
  assumes "list_all (call_readable orders) calls" "calls \<noteq> []"
  shows "qwen_calls orders [] (qwen_calls_text True False orders calls) = Some (map (call_read orders) calls, [])"
proof -
  have "qwen_calls orders [] (newline @ p) = qwen_calls orders [] p" for p
    by (subst (1 2) qwen_calls.simps) (simp add: newline_def c_isspace_def)
  from this [of "qwen_calls_text True False orders calls"] calls_parsed [OF assms(1), of "[]" False] assms(2)
  show ?thesis by (cases calls) simp_all
qed

subsection \<open>The whole turn\<close>

lemma find_arg:
  assumes "arg_readable orders name a"
  shows "find_structural ''</think>'' True f (qwen_arg_text a @ s) = find_structural ''</think>'' True f s"
proof -
  define rest where "rest = newline @ arg_body a @ newline @ param_end @ newline @ s"
  have key: "\<forall>c\<in>set (ja_key a). c \<noteq> CHR ''>''" using assms by (auto simp: arg_readable_def key_plain_def)
  have t: "qwen_arg_text a @ s = param_start @ ja_key a @ ''>'' @ rest" by (simp add: arg_text [OF assms] rest_def)
  have d: "dropWhile (\<lambda>c. c \<noteq> CHR ''>'') (param_start @ ja_key a @ ''>'' @ rest) = CHR ''>'' # rest"
    using key by (simp add: param_start_def)
  have e: "c_strstr rest param_end = Some (param_end @ newline @ s)" unfolding rest_def by (rule body_strstr)
  have n: "find_structural ''</think>'' True f (newline @ s) = find_structural ''</think>'' True f s"
    by (rule find_no_lt) (simp add: no_lt_def newline_def)
  obtain c u where c: "param_start @ ja_key a @ ''>'' @ rest = c # u" by (simp add: param_start_def)
  have h: "\<not> starts_with (param_start @ ja_key a @ ''>'' @ rest) ''</think>''" by (simp add: param_start_def)
  have p: "starts_with (param_start @ ja_key a @ ''>'' @ rest) param_start" by simp
  have l: "drop (length param_end) (param_end @ newline @ s) = newline @ s" by simp
  show ?thesis unfolding t c using p h d unfolding c
    by (subst find_structural.simps) (simp only: Let_def list.case option.case if_True if_False simp_thms e l n)
qed

lemma find_args:
  "list_all (arg_readable orders name) as \<Longrightarrow>
     find_structural ''</think>'' True f (concat (map qwen_arg_text as) @ s) = find_structural ''</think>'' True f s"
  by (induction as) (simp_all add: find_arg [of orders name])

lemma find_call:
  assumes "call_readable orders tc"
  shows "find_structural ''</think>'' True f (qwen_call_text orders tc @ s) = find_structural ''</think>'' True f s"
proof -
  have n: "no_lt (opt_text (tc_name tc))" using assms by (simp add: call_readable_def name_plain_def no_lt_def)
  have as: "list_all (arg_readable orders (opt_text (tc_name tc))) (call_args orders tc)"
    using assms by (simp add: call_readable_def)
  show ?thesis unfolding call_text [OF assms]
    by (simp add: find_skip param_start_def newline_def find_no_lt [OF n] find_args [OF as])
qed

lemma find_calls:
  "list_all (call_readable orders) calls \<Longrightarrow>
     find_structural ''</think>'' True f (qwen_calls_text b hc orders calls) = f"
proof (induction calls arbitrary: b hc)
  case Nil
  show ?case by (simp add: find_end)
next
  case (Cons tc calls)
  have "find_structural ''</think>'' True f (newline @ s) = find_structural ''</think>'' True f s" for s
    by (rule find_no_lt) (simp add: no_lt_def newline_def)
  with Cons show ?case by (simp add: find_call)
qed

lemma calls_start: "calls \<noteq> [] \<Longrightarrow> \<exists>u. qwen_calls_text True False orders calls = ''<tool_call>'' @ u"
  by (cases calls) (simp_all add: qwen_call_text_def)

lemma trimmed_ends:
  assumes "append_trimmed_text c = c" "c \<noteq> []"
  shows "\<not> c_isspace (hd c)" "\<not> c_isspace (last c)"
proof -
  have le: "length (rtrim s) \<le> length s" for s
    using length_dropWhile_le [of c_isspace "rev s"] by (simp add: rtrim_def)
  have "length (dropWhile c_isspace c) = length c"
    using le [of "dropWhile c_isspace c"] length_dropWhile_le [of c_isspace c] assms(1)
    by (simp add: append_trimmed_text_def)
  moreover have "length (takeWhile c_isspace c) + length (dropWhile c_isspace c) = length c"
    by (metis length_append takeWhile_dropWhile_id)
  ultimately have "takeWhile c_isspace c = []" by simp
  then have d: "dropWhile c_isspace c = c" by (metis append_Nil takeWhile_dropWhile_id)
  then show "\<not> c_isspace (hd c)" using assms(2) by (metis hd_dropWhile)
  have "rtrim c = c" using assms(1) d by (simp add: append_trimmed_text_def)
  then have "dropWhile c_isspace (rev c) = rev c" by (simp add: rtrim_def rev_swap)
  then show "\<not> c_isspace (last c)" using assms(2) by (metis hd_dropWhile hd_rev rev_is_Nil_conv)
qed

definition turn_plain :: "tool_schema_order list \<Rightarrow> chat_msg \<Rightarrow> bool" where
  "turn_plain orders m \<longleftrightarrow>
     no_lt (opt_text (msg_content m)) \<and> append_trimmed_text (opt_text (msg_content m)) = opt_text (msg_content m)
     \<and> no_lt (opt_text (msg_reasoning m)) \<and> append_trimmed_text (opt_text (msg_reasoning m)) = opt_text (msg_reasoning m)
     \<and> msg_calls m \<noteq> [] \<and> list_all (call_readable orders) (msg_calls m) \<and> opt_text (msg_raw_tool_text m) = []"

text \<open>The generated text is a head, which ends the answer, a blank line and the tool block.\<close>

definition turn_head :: "string \<Rightarrow> string \<Rightarrow> string" where
  "turn_head r c = r @ newline @ ''</think>'' @ (if c = [] then [] else newline @ newline @ c)"

definition generated_turn :: "tool_schema_order list \<Rightarrow> chat_msg \<Rightarrow> string" where
  "generated_turn orders m =
     turn_head (opt_text (msg_reasoning m)) (opt_text (msg_content m)) @ newline @ newline
     @ qwen_calls_text True False orders (msg_calls m)"

lemma no_lt_simps [simp]:
  "no_lt []" "no_lt newline" "no_lt (u @ v) \<longleftrightarrow> no_lt u \<and> no_lt v" "no_lt (c # u) \<longleftrightarrow> c \<noteq> CHR ''<'' \<and> no_lt u"
  by (auto simp: no_lt_def newline_def)

lemma no_lt_not_tag: "no_lt c \<Longrightarrow> \<not> starts_with c (CHR ''<'' # t)"
  by (cases c) auto

lemma calls_text_content:
  "calls \<noteq> [] \<Longrightarrow> qwen_calls_text True hc orders calls =
     (if hc then newline @ newline else []) @ qwen_calls_text True False orders calls"
proof -
  have "qwen_calls_text False hc orders calls = qwen_calls_text False False orders calls" for calls
    by (induction calls) simp_all
  then show "calls \<noteq> [] \<Longrightarrow> ?thesis" by (cases calls) simp_all
qed

lemma turn_rendered:
  assumes "turn_plain orders m"
  shows "append_qwen_assistant_message orders m =
           im_start ''assistant'' @ newline @ ''<think>'' @ newline @ generated_turn orders m @ im_end"
  using assms calls_text_content [of "msg_calls m" True orders]
  by (auto simp: append_qwen_assistant_message_def turn_plain_def Let_def text_starts_with_think_tag_def no_lt_not_tag
      generated_turn_def turn_head_def append_qwen_tool_calls_text_def)

lemma head_end:
  assumes "append_trimmed_text c = c"
  shows "turn_head r c \<noteq> [] \<and> \<not> c_isspace (last (turn_head r c))"
  using trimmed_ends(2) [OF assms] by (auto simp: turn_head_def c_isspace_def)

lemma strip_head:
  assumes "h \<noteq> []" "\<not> c_isspace (last h)"
  shows "rev (dropWhile (\<lambda>c. c = CHR 0x0A \<or> c = CHR '' '') (rev (h @ newline @ newline))) = h" "rtrim h = h"
proof -
  obtain x y where h: "h = x @ [y]" using assms(1) by (cases h rule: rev_cases) auto
  then have "\<not> c_isspace y" "y \<noteq> CHR 0x0A" "y \<noteq> CHR '' ''" using assms(2) by (auto simp: c_isspace_def)
  with h show "rev (dropWhile (\<lambda>c. c = CHR 0x0A \<or> c = CHR '' '') (rev (h @ newline @ newline))) = h" "rtrim h = h"
    by (simp_all add: newline_def rtrim_def)
qed

lemma find_think_end:
  assumes "no_lt r" "no_lt c" "list_all (call_readable orders) calls"
  shows "find_tool_structural_text (turn_head r c @ newline @ newline @ qwen_calls_text True False orders calls) ''</think>'' True =
    Some (''</think>'' @ (if c = [] then [] else newline @ newline @ c) @ newline @ newline @ qwen_calls_text True False orders calls)"
proof -
  define w where "w = (if c = [] then [] else newline @ newline @ c) @ newline @ newline"
  have w: "no_lt w" using assms(2) by (simp add: w_def)
  define b where "b = qwen_calls_text True False orders calls"
  have b: "find_structural ''</think>'' True f b = f" for f unfolding b_def by (rule find_calls [OF assms(3)])
  have "find_structural ''</think>'' True None ((r @ newline) @ ''</think>'' @ w @ b) =
      find_structural ''</think>'' True None (''</think>'' @ w @ b)"
    using assms(1) by (intro find_no_lt) simp
  also have "\<dots> = find_structural ''</think>'' True (Some (''</think>'' @ w @ b)) (''/think>'' @ w @ b)"
    by (subst find_structural.simps) (simp add: Let_def param_start_def)
  also have "\<dots> = find_structural ''</think>'' True (Some (''</think>'' @ w @ b)) b"
    using w find_no_lt [of "''/think>'' @ w" "''/think>''" True _ b] by simp
  finally have "find_structural ''</think>'' True None ((r @ newline) @ ''</think>'' @ w @ b) = Some (''</think>'' @ w @ b)"
    by (simp only: b)
  then show ?thesis by (simp add: find_tool_structural_text_def turn_head_def w_def b_def)
qed

lemma split_turn:
  assumes "no_lt r" "append_trimmed_text r = r" "no_lt c" "append_trimmed_text c = c"
  shows "qwen_trim_split (split_reasoning_content (turn_head r c @ s) (length (turn_head r c))) = (c, Some r)"
proof -
  have t: "\<not> starts_with (turn_head r c) ''<think>''"
    using assms(1) by (cases r) (auto simp: turn_head_def newline_def)
  define w where "w = (if c = [] then [] else newline @ newline @ c)"
  have "c_strstr ((r @ newline) @ ''</think>'' @ w) ''</think>'' = Some (''</think>'' @ w)"
    using assms(1) by (intro strstr_no_lt) simp_all
  then have e: "c_strstr (turn_head r c) ''</think>'' = Some (''</think>'' @ w)" by (simp add: turn_head_def w_def)
  have l: "take (length (turn_head r c) - length (''</think>'' @ w)) (turn_head r c) = r @ newline"
    by (simp add: turn_head_def w_def)
  have "split_reasoning_content (turn_head r c @ s) (length (turn_head r c)) = (w, Some (r @ newline))"
    using t e l by (simp add: split_reasoning_content_def Let_def)
  moreover have "dropWhile (\<lambda>c. c = CHR 0x0A) w = c"
    using trimmed_ends(1) [OF assms(4)] by (cases c) (auto simp: w_def newline_def c_isspace_def)
  moreover have "rev (dropWhile (\<lambda>c. c = CHR 0x0A) (rev (r @ newline))) = r"
    using trimmed_ends(2) [OF assms(2)] by (cases r rule: rev_cases) (auto simp: newline_def c_isspace_def)
  ultimately show ?thesis by (simp add: qwen_trim_split_def)
qed

lemma turn_parsed:
  assumes "turn_plain orders m"
  shows "parse_qwen_generated_message_ex orders True (generated_turn orders m) =
    Some \<lparr>pm_content = opt_text (msg_content m), pm_reasoning = Some (opt_text (msg_reasoning m)),
       pm_calls = map (call_read orders) (msg_calls m),
       pm_raw_tool_text = Some (newline @ newline @ qwen_calls_text True False orders (msg_calls m))\<rparr>"
proof -
  define c where "c = opt_text (msg_content m)"
  define r where "r = opt_text (msg_reasoning m)"
  define b where "b = qwen_calls_text True False orders (msg_calls m)"
  define h where "h = turn_head r c"
  have p: "no_lt c" "append_trimmed_text c = c" "no_lt r" "append_trimmed_text r = r"
    "list_all (call_readable orders) (msg_calls m)" "msg_calls m \<noteq> []"
    using assms by (simp_all add: turn_plain_def c_def r_def)
  define w where "w = (if c = [] then [] else newline @ newline @ c) @ newline @ newline"
  have f: "find_tool_structural_text (h @ newline @ newline @ b) ''</think>'' True = Some (''</think>'' @ w @ b)"
    using find_think_end [OF p(3,1,5)] by (simp add: h_def b_def w_def)
  obtain u where "b = ''<tool_call>'' @ u" using calls_start [OF p(6)] b_def by blast
  then have s: "c_strstr (drop 8 (''</think>'' @ w @ b)) ''<tool_call>'' = Some b"
    using strstr_no_lt [of w b "''tool_call>''"] p(1) by (simp add: w_def)
  have head: "rev (dropWhile (\<lambda>c. c = CHR 0x0A \<or> c = CHR '' '') (rev (h @ newline @ newline))) = h" "rtrim h = h"
    using strip_head head_end [OF p(2), of r] unfolding h_def by blast+
  have before: "take (length (h @ newline @ newline @ b) - length b) (h @ newline @ newline @ b) = h @ newline @ newline"
    by simp
  have calls: "qwen_calls orders [] b = Some (map (call_read orders) (msg_calls m), [])"
    unfolding b_def by (rule calls_parsed_first [OF p(5,6)])
  have "qwen_tool_block orders (h @ newline @ newline @ b) False b =
      Some \<lparr>pm_content = c, pm_reasoning = Some r, pm_calls = map (call_read orders) (msg_calls m),
        pm_raw_tool_text = Some (newline @ newline @ b)\<rparr>"
    using split_turn [OF p(3,4,1,2), of "newline @ newline @ b", folded h_def] calls p(6)
    unfolding qwen_tool_block_def Let_def before head by simp
  then show ?thesis using f s
    by (simp add: parse_qwen_generated_message_ex_def Let_def generated_turn_def h_def b_def c_def r_def)
qed

lemma turn_replayed:
  assumes "turn_plain orders m" "opt_text (msg_content m) \<noteq> [] \<or> opt_text (msg_reasoning m) \<noteq> []"
  shows "append_qwen_assistant_message orders'
      (m\<lparr>msg_raw_tool_text := Some (newline @ newline @ qwen_calls_text True False orders (msg_calls m))\<rparr>) =
    append_qwen_assistant_message orders m"
  unfolding turn_rendered [OF assms(1)] using assms
  by (auto simp: append_qwen_assistant_message_def turn_plain_def Let_def text_starts_with_think_tag_def no_lt_not_tag
      generated_turn_def turn_head_def append_qwen_tool_calls_text_def opt_text_def newline_def)


definition example_call_turn :: chat_msg where
  "example_call_turn = no_chat_msg\<lparr>msg_role := Some ''assistant'', msg_content := Some ''Ok.'',
     msg_reasoning := Some ''think'',
     msg_calls := [\<lparr>tc_id = None, tc_name = Some ''write'',
       tc_arguments = Some (json_text (JObj [(''path'', JStr ''a''), (''text'', JStr ''</parameter>''), (''n'', JNum ''3'')]))\<rparr>]\<rparr>"


definition one_argument_call :: "string \<Rightarrow> json \<Rightarrow> tool_call" where
  "one_argument_call k v = \<lparr>tc_id = None, tc_name = Some ''f'', tc_arguments = Some (json_text (JObj [(k, v)]))\<rparr>"

definition read_back :: "tool_call \<Rightarrow> tool_call list option" where
  "read_back tc = map_option fst (qwen_calls [] [] (append_qwen_tool_calls_text [tc] None False []))"


end
