(* ===== verification/ToolMemory.thy ===== *)
theory ToolMemory
  imports Ds4_Prelude "HOL-Library.Sublist"
begin

text \<open>
  The memory of sampled tool text (\<open>ds4_server.c\<close>, \<open>tool_memory_*\<close>): for each tool-call id the server gave
  out, the exact text of the block the model produced. Ids of one block share it (reference counted);
  the ids are kept in order of last use and the oldest are dropped when a limit on their number or
  on the bytes is exceeded. The two radix trees are maps; the doubly linked list is the list
  \<open>tm_order\<close> of ids from head to tail, and an entry refers to its block by the block's text, which is
  the block's key. Sizes are those of the 64-bit ABI.
\<close>

text \<open>Lists of tool-call ids (\<open>stop_list\<close>s in the code, whose length bound is not used for ids).\<close>

definition id_list_contains :: "string list \<Rightarrow> string \<Rightarrow> bool" where
  "id_list_contains ids i \<longleftrightarrow> i \<noteq> [] \<and> i \<in> set ids"

definition id_list_push_unique :: "string \<Rightarrow> string list \<Rightarrow> string list" where
  "id_list_push_unique i ids = (if i = [] \<or> id_list_contains ids i then ids else ids @ [i])"

subsection \<open>Data\<close>

datatype tool_memory_source = TOOL_MEMORY_RAM | TOOL_MEMORY_DISK

record tool_memory_block =
  tb_bytes :: nat
  tb_refs :: int
  tb_seen :: u64
  tb_entries :: "string list"

record tool_memory_entry =
  te_block :: string
  te_bytes :: nat
  te_stamp :: u64
  te_source :: tool_memory_source

record tool_memory =
  tm_by_id :: "string \<Rightarrow> tool_memory_entry option"
  tm_by_block :: "string \<Rightarrow> tool_memory_block option"
  tm_order :: "string list"
  tm_entries :: int
  tm_max_entries :: int
  tm_bytes :: nat
  tm_max_bytes :: nat
  tm_clock :: u64
  tm_scan_clock :: u64

definition tool_memory_empty :: "int \<Rightarrow> nat \<Rightarrow> tool_memory" where
  "tool_memory_empty max_entries max_bytes =
     \<lparr>tm_by_id = Map.empty, tm_by_block = Map.empty, tm_order = [], tm_entries = 0, tm_max_entries = max_entries,
      tm_bytes = 0, tm_max_bytes = max_bytes, tm_clock = 0, tm_scan_clock = 0\<rparr>"

definition sizeof_tool_memory_entry :: nat where
  "sizeof_tool_memory_entry = 64"

definition sizeof_tool_memory_block :: nat where
  "sizeof_tool_memory_block = 48"

definition DS4_TOOL_MEMORY_DEFAULT_MAX_IDS :: int where
  "DS4_TOOL_MEMORY_DEFAULT_MAX_IDS = 100000"

definition DS4_TOOL_MEMORY_MAX_BYTES :: nat where
  "DS4_TOOL_MEMORY_MAX_BYTES = 512 * 1024 * 1024"

definition tool_memory_max_entries :: "tool_memory \<Rightarrow> int" where
  "tool_memory_max_entries m = (if 0 < tm_max_entries m then tm_max_entries m else DS4_TOOL_MEMORY_DEFAULT_MAX_IDS)"

definition tool_memory_max_bytes :: "tool_memory \<Rightarrow> nat" where
  "tool_memory_max_bytes m = (if 0 < tm_max_bytes m then tm_max_bytes m else DS4_TOOL_MEMORY_MAX_BYTES)"

subsection \<open>Operations\<close>

definition tool_memory_link_head :: "string \<Rightarrow> tool_memory \<Rightarrow> tool_memory" where
  "tool_memory_link_head i m = m\<lparr>tm_order := i # tm_order m\<rparr>"

definition tool_memory_unlink :: "string \<Rightarrow> tool_memory \<Rightarrow> tool_memory" where
  "tool_memory_unlink i m = m\<lparr>tm_order := remove1 i (tm_order m)\<rparr>"

definition tool_memory_set_entry :: "string \<Rightarrow> tool_memory_entry \<Rightarrow> tool_memory \<Rightarrow> tool_memory" where
  "tool_memory_set_entry i e m = m\<lparr>tm_by_id := (tm_by_id m)(i \<mapsto> e)\<rparr>"

definition tool_memory_set_block :: "string \<Rightarrow> tool_memory_block \<Rightarrow> tool_memory \<Rightarrow> tool_memory" where
  "tool_memory_set_block d b m = m\<lparr>tm_by_block := (tm_by_block m)(d \<mapsto> b)\<rparr>"

definition tool_memory_touch :: "string \<Rightarrow> tool_memory_entry \<Rightarrow> tool_memory \<Rightarrow> tool_memory" where
  "tool_memory_touch i e m =
     (let m = m\<lparr>tm_clock := tm_clock m + 1\<rparr>;
          m = tool_memory_set_entry i (e\<lparr>te_stamp := tm_clock m\<rparr>) m
      in if tm_order m \<noteq> [] \<and> hd (tm_order m) = i then m
         else tool_memory_link_head i (tool_memory_unlink i m))"

definition tool_memory_find_block :: "tool_memory \<Rightarrow> string \<Rightarrow> tool_memory_block option" where
  "tool_memory_find_block m dsml = (if dsml = [] then None else tm_by_block m dsml)"

definition tool_memory_get_block :: "string \<Rightarrow> tool_memory \<Rightarrow> tool_memory \<times> tool_memory_block" where
  "tool_memory_get_block dsml m =
     (case tool_memory_find_block m dsml of
        Some b \<Rightarrow> (m, b)
      | None \<Rightarrow>
          let b = \<lparr>tb_bytes = length dsml + 1 + sizeof_tool_memory_block, tb_refs = 0, tb_seen = 0, tb_entries = []\<rparr>
          in (tool_memory_set_block dsml b (m\<lparr>tm_bytes := tm_bytes m + tb_bytes b\<rparr>), b))"

definition take_bytes :: "nat \<Rightarrow> tool_memory \<Rightarrow> tool_memory" where
  "take_bytes n m = m\<lparr>tm_bytes := (if n \<le> tm_bytes m then tm_bytes m - n else 0)\<rparr>"

definition tool_memory_release_block :: "string \<Rightarrow> tool_memory_block \<Rightarrow> tool_memory \<Rightarrow> tool_memory" where
  "tool_memory_release_block dsml b m =
     (if 0 < tb_refs b - 1 then tool_memory_set_block dsml (b\<lparr>tb_refs := tb_refs b - 1\<rparr>) m
      else take_bytes (tb_bytes b) (m\<lparr>tm_by_block := (tm_by_block m)(dsml := None)\<rparr>))"

definition tool_block_unlink_entry :: "string \<Rightarrow> tool_memory_block \<Rightarrow> tool_memory_block" where
  "tool_block_unlink_entry i b = b\<lparr>tb_entries := remove1 i (tb_entries b)\<rparr>"

definition tool_memory_remove_entry :: "string \<Rightarrow> tool_memory \<Rightarrow> tool_memory" where
  "tool_memory_remove_entry i m =
     (let old = tm_by_id m i;
          m = tool_memory_unlink i (m\<lparr>tm_by_id := (tm_by_id m)(i := None)\<rparr>)
      in case old of
           None \<Rightarrow> m
         | Some e \<Rightarrow>
             let m = take_bytes (te_bytes e) m;
                 m = (if 0 < tm_entries m then m\<lparr>tm_entries := tm_entries m - 1\<rparr> else m)
             in case tm_by_block m (te_block e) of
                  None \<Rightarrow> m
                | Some b \<Rightarrow> tool_memory_release_block (te_block e) (tool_block_unlink_entry i b) m)"

definition tool_memory_over_limit :: "tool_memory \<Rightarrow> bool" where
  "tool_memory_over_limit m \<longleftrightarrow> tool_memory_max_entries m < tm_entries m \<or> tool_memory_max_bytes m < tm_bytes m"

lemma remove_entry_order [simp]: "tm_order (tool_memory_remove_entry i m) = remove1 i (tm_order m)"
  by (simp add: tool_memory_remove_entry_def tool_memory_unlink_def tool_memory_release_block_def take_bytes_def
      tool_memory_set_block_def Let_def split: option.split)

function tool_memory_prune :: "tool_memory \<Rightarrow> tool_memory" where
  "tool_memory_prune m =
     (if tool_memory_over_limit m \<and> tm_order m \<noteq> []
      then tool_memory_prune (tool_memory_remove_entry (last (tm_order m)) m) else m)"
  by pat_completeness auto
termination
  by (relation "measure (\<lambda>m. length (tm_order m))") (auto simp: length_remove1 length_pos_if_in_set)

declare tool_memory_prune.simps [simp del]

definition tool_memory_find_entry :: "tool_memory \<Rightarrow> string \<Rightarrow> tool_memory_entry option" where
  "tool_memory_find_entry m i = (if i = [] then None else tm_by_id m i)"

text \<open>The entry for an id that has none.\<close>

definition tool_memory_add_entry :: "string \<Rightarrow> string \<Rightarrow> tool_memory_source \<Rightarrow> tool_memory \<Rightarrow> tool_memory" where
  "tool_memory_add_entry i dsml source m =
     (let (m, b) = tool_memory_get_block dsml m;
          m = m\<lparr>tm_clock := tm_clock m + 1\<rparr>;
          e = \<lparr>te_block = dsml, te_bytes = length i + 1 + sizeof_tool_memory_entry, te_stamp = tm_clock m, te_source = source\<rparr>;
          b = b\<lparr>tb_entries := i # tb_entries b, tb_refs := tb_refs b + 1\<rparr>;
          m = tool_memory_set_entry i e (tool_memory_set_block dsml b m);
          m = tool_memory_link_head i m
      in m\<lparr>tm_entries := tm_entries m + 1, tm_bytes := tm_bytes m + te_bytes e\<rparr>)"

definition tool_memory_put :: "string \<Rightarrow> string \<Rightarrow> tool_memory_source \<Rightarrow> tool_memory \<Rightarrow> tool_memory" where
  "tool_memory_put i dsml source m =
     (if i = [] \<or> dsml = [] then m
      else case tool_memory_find_entry m i of
        Some old \<Rightarrow>
          if te_block old = dsml then
            tool_memory_prune (tool_memory_touch i
              (if source = TOOL_MEMORY_RAM then old\<lparr>te_source := TOOL_MEMORY_RAM\<rparr> else old) m)
          else tool_memory_prune (tool_memory_add_entry i dsml source (tool_memory_remove_entry i m))
      | None \<Rightarrow> tool_memory_prune (tool_memory_add_entry i dsml source m))"

definition tool_memory_lookup :: "string \<Rightarrow> tool_memory \<Rightarrow> (string \<times> tool_memory_source) option \<times> tool_memory" where
  "tool_memory_lookup i m =
     (case tool_memory_find_entry m i of
        None \<Rightarrow> (None, m)
      | Some e \<Rightarrow> (Some (te_block e, te_source e), tool_memory_touch i e m))"

definition tool_memory_has_id :: "bool \<Rightarrow> tool_memory \<Rightarrow> string \<Rightarrow> bool" where
  "tool_memory_has_id disabled m i \<longleftrightarrow> \<not> disabled \<and> i \<noteq> [] \<and> tool_memory_find_entry m i \<noteq> None"

definition tool_memory_put_source :: "bool \<Rightarrow> string \<Rightarrow> string \<Rightarrow> tool_memory_source \<Rightarrow> tool_memory \<Rightarrow> tool_memory" where
  "tool_memory_put_source disabled i dsml source m =
     (if disabled \<or> i = [] \<or> dsml = [] then m else tool_memory_put i dsml source m)"

definition tool_memory_remember :: "bool \<Rightarrow> string list \<Rightarrow> string \<Rightarrow> tool_memory \<Rightarrow> tool_memory" where
  "tool_memory_remember disabled ids raw m =
     (if disabled \<or> raw = [] then m else fold (\<lambda>i. tool_memory_put i raw TOOL_MEMORY_RAM) ids m)"

subsection \<open>The invariant\<close>

text \<open>What the memory holds for an id, and what ids with their texts cost.\<close>

definition tm_text :: "tool_memory \<Rightarrow> string \<Rightarrow> string" where
  "tm_text m i = te_block (the (tm_by_id m i))"

definition tool_cost :: "(string \<Rightarrow> string) \<Rightarrow> string list \<Rightarrow> nat" where
  "tool_cost f ids = (\<Sum>i\<leftarrow>ids. length i + 65) + (\<Sum>d\<in>f ` set ids. length d + 49)"

definition block_ok :: "tool_memory \<Rightarrow> string \<Rightarrow> tool_memory_block \<Rightarrow> bool" where
  "block_ok m d b \<longleftrightarrow> tb_refs b = int (length (tb_entries b)) \<and> distinct (tb_entries b)
     \<and> set (tb_entries b) = {i\<in>set (tm_order m). tm_text m i = d} \<and> tb_bytes b = length d + 49"

definition tm_ok :: "tool_memory \<Rightarrow> bool" where
  "tm_ok m \<longleftrightarrow> distinct (tm_order m) \<and> (\<forall>i. tm_by_id m i \<noteq> None \<longleftrightarrow> i \<in> set (tm_order m))
     \<and> (\<forall>i\<in>set (tm_order m). i \<noteq> [] \<and> tm_text m i \<noteq> [] \<and> te_bytes (the (tm_by_id m i)) = length i + 65)
     \<and> (\<forall>d. tm_by_block m d \<noteq> None \<longleftrightarrow> d \<in> tm_text m ` set (tm_order m))
     \<and> (\<forall>d b. tm_by_block m d = Some b \<longrightarrow> block_ok m d b)
     \<and> tm_entries m = int (length (tm_order m)) \<and> tm_bytes m = tool_cost (tm_text m) (tm_order m)"

lemma tool_cost_cong: "(\<And>i. i \<in> set ids \<Longrightarrow> f i = g i) \<Longrightarrow> tool_cost f ids = tool_cost g ids"
  unfolding tool_cost_def by (metis (no_types, lifting) image_cong)

lemma tool_cost_perm: "distinct ids \<Longrightarrow> distinct jds \<Longrightarrow> set ids = set jds \<Longrightarrow> tool_cost f ids = tool_cost f jds"
  by (simp add: tool_cost_def sum_list_distinct_conv_sum_set)

lemma tool_cost_Cons:
  assumes "i \<notin> set ids"
  shows "tool_cost f (i # ids) = tool_cost f ids + (length i + 65) + (if f i \<in> f ` set ids then 0 else length (f i) + 49)"
  using assms by (simp add: tool_cost_def insert_absorb)

lemma tool_cost_remove:
  assumes "distinct ids" "i \<in> set ids"
  shows "tool_cost f ids = tool_cost f (remove1 i ids) + (length i + 65) + (if f i \<in> f ` (set ids - {i}) then 0 else length (f i) + 49)"
proof -
  have "tool_cost f ids = tool_cost f (i # remove1 i ids)" using assms by (intro tool_cost_perm) auto
  with assms show ?thesis by (simp add: tool_cost_Cons)
qed

lemma tool_cost_prefix: "tool_cost f (take k ids) \<le> tool_cost f (take (Suc k) ids)"
proof (cases "k < length ids")
  case True
  have "f ` set (take k ids) \<subseteq> f ` set (take (Suc k) ids)" using True by (auto simp: take_Suc_conv_app_nth)
  then have "(\<Sum>d\<in>f ` set (take k ids). length d + 49) \<le> (\<Sum>d\<in>f ` set (take (Suc k) ids). length d + 49)"
    by (intro sum_mono2) auto
  with True show ?thesis by (simp add: tool_cost_def take_Suc_conv_app_nth)
qed simp

subsection \<open>Removing an entry\<close>

lemma remove_entry_keeps [simp]:
  "tm_by_id (tool_memory_remove_entry i m) = (tm_by_id m)(i := None)"
  "tm_max_entries (tool_memory_remove_entry i m) = tm_max_entries m"
  "tm_max_bytes (tool_memory_remove_entry i m) = tm_max_bytes m"
  by (simp_all add: tool_memory_remove_entry_def tool_memory_unlink_def tool_memory_release_block_def take_bytes_def
      tool_memory_set_block_def Let_def split: option.split)

lemma only_preimage: "i \<in> A \<Longrightarrow> {j\<in>A. f j = f i} = {i} \<longleftrightarrow> f i \<notin> f ` (A - {i})"
  by (rule iffI; clarsimp simp: set_eq_iff image_iff) (metis insert_Diff insert_iff)+

lemma remove_entry_ok:
  assumes "tm_ok m" "i \<in> set (tm_order m)"
  shows "tm_ok (tool_memory_remove_entry i m)"
proof -
  let ?d = "tm_text m i" and ?m = "tool_memory_remove_entry i m"
  obtain e b where e: "tm_by_id m i = Some e" and b: "tm_by_block m ?d = Some b"
    using assms unfolding tm_ok_def by blast
  have d: "te_block e = ?d" by (simp add: tm_text_def e)
  have bok: "block_ok m ?d b" using assms(1) b by (simp add: tm_ok_def)
  have dist: "distinct (tm_order m)" and bytes: "te_bytes e = length i + 65" "tm_bytes m = tool_cost (tm_text m) (tm_order m)"
    and ents: "tm_entries m = int (length (tm_order m))"
    using assms e by (auto simp: tm_ok_def)
  have order: "set (tm_order ?m) = set (tm_order m) - {i}" using dist by simp
  have tt: "tm_text ?m j = tm_text m j" if "j \<noteq> i" for j using that by (simp add: tm_text_def)
  have i: "i \<in> set (tb_entries b)" using bok assms(2) by (simp add: block_ok_def)
  have last: "tb_refs b - 1 \<le> 0 \<longleftrightarrow> ?d \<notin> tm_text m ` (set (tm_order m) - {i})"
  proof -
    have "tb_refs b - 1 \<le> 0 \<longleftrightarrow> length (tb_entries b) \<le> 1" using bok by (auto simp: block_ok_def)
    also have "\<dots> \<longleftrightarrow> set (tb_entries b) = {i}"
    proof -
      have "distinct (tb_entries b)" using bok by (simp add: block_ok_def)
      with i show ?thesis by (cases "tb_entries b"; cases "tl (tb_entries b)") auto
    qed
    also have "\<dots> \<longleftrightarrow> ?d \<notin> tm_text m ` (set (tm_order m) - {i})"
    proof -
      have "set (tb_entries b) = {j \<in> set (tm_order m). tm_text m j = ?d}" using bok by (simp add: block_ok_def)
      then show ?thesis by (simp only: only_preimage [OF assms(2)])
    qed
    finally show ?thesis .
  qed
  have blocks: "tm_by_block ?m = (tm_by_block m)(?d := if tb_refs b - 1 \<le> 0 then None
      else Some (b\<lparr>tb_entries := remove1 i (tb_entries b), tb_refs := tb_refs b - 1\<rparr>))"
    by (simp add: tool_memory_remove_entry_def e d b tool_memory_unlink_def take_bytes_def tool_memory_release_block_def
        tool_block_unlink_entry_def tool_memory_set_block_def Let_def)
  have cost: "tool_cost (tm_text ?m) (tm_order ?m) = tool_cost (tm_text m) (remove1 i (tm_order m))"
    using tt dist by (simp, intro tool_cost_cong) auto
  have "tm_bytes ?m = tm_bytes m - (length i + 65) - (if tb_refs b - 1 \<le> 0 then length ?d + 49 else 0)"
    using bok bytes(1)
    by (auto simp: tool_memory_remove_entry_def e d b tool_memory_unlink_def take_bytes_def tool_memory_release_block_def
        tool_block_unlink_entry_def tool_memory_set_block_def Let_def block_ok_def)
  then have "tm_bytes ?m = tool_cost (tm_text ?m) (tm_order ?m)"
    unfolding cost bytes(2) last using tool_cost_remove [OF dist assms(2), of "tm_text m"] by simp
  moreover have "tm_entries ?m = int (length (tm_order ?m))"
  proof -
    have "0 < length (tm_order m)" using assms(2) by (cases "tm_order m") auto
    then show ?thesis using ents assms(2)
      by (auto simp: tool_memory_remove_entry_def e d b tool_memory_unlink_def take_bytes_def tool_memory_release_block_def
          tool_memory_set_block_def Let_def length_remove1 of_nat_diff Suc_le_eq)
  qed
  moreover have "\<forall>j. tm_by_id ?m j \<noteq> None \<longleftrightarrow> j \<in> set (tm_order ?m)" using assms(1) order by (auto simp: tm_ok_def)
  moreover have "\<forall>j\<in>set (tm_order ?m). j \<noteq> [] \<and> tm_text ?m j \<noteq> [] \<and> te_bytes (the (tm_by_id ?m j)) = length j + 65"
    using assms(1) order tt by (auto simp: tm_ok_def)
  moreover have texts: "tm_text ?m ` set (tm_order ?m) = tm_text m ` (set (tm_order m) - {i})"
    unfolding order using tt by (intro image_cong) auto
  moreover have "tm_by_block ?m c \<noteq> None \<longleftrightarrow> c \<in> tm_text m ` (set (tm_order m) - {i})" for c
  proof (cases "c = ?d")
    case False
    then have "c \<in> tm_text m ` (set (tm_order m) - {i}) \<longleftrightarrow> c \<in> tm_text m ` set (tm_order m)" by auto
    with False assms(1) show ?thesis unfolding blocks tm_ok_def by simp
  qed (use last in \<open>auto simp: blocks\<close>)
  moreover have "block_ok ?m c b'" if "tm_by_block ?m c = Some b'" for c b'
  proof (cases "c = ?d")
    case True
    with that have b': "b' = b\<lparr>tb_entries := remove1 i (tb_entries b), tb_refs := tb_refs b - 1\<rparr>"
      by (simp add: blocks split: if_splits)
    have "set (tb_entries b) - {i} = {j \<in> set (tm_order ?m). tm_text ?m j = c}"
      unfolding order using bok True tt by (auto simp: block_ok_def)
    moreover have "0 < length (tb_entries b)" using i by (cases "tb_entries b") auto
    ultimately show ?thesis using bok i True by (simp add: b' block_ok_def length_remove1 of_nat_diff Suc_le_eq)
  next
    case False
    with that have "tm_by_block m c = Some b'" by (simp add: blocks)
    with assms(1) have "block_ok m c b'" by (simp add: tm_ok_def)
    moreover have "{j \<in> set (tm_order m). tm_text m j = c} = {j \<in> set (tm_order ?m). tm_text ?m j = c}"
      unfolding order using False tt by (auto, metis)
    ultimately show ?thesis by (simp add: block_ok_def)
  qed
  moreover have "distinct (tm_order ?m)" using dist by simp
  ultimately show ?thesis unfolding tm_ok_def by auto
qed


subsection \<open>Adding, touching, pruning\<close>

lemma tm_ok_cong:
  assumes "tm_ok m" "tm_by_block m' = tm_by_block m" "distinct (tm_order m')" "set (tm_order m') = set (tm_order m)"
    "\<And>i. tm_by_id m' i \<noteq> None \<longleftrightarrow> tm_by_id m i \<noteq> None"
    "\<And>i. i \<in> set (tm_order m) \<Longrightarrow> tm_text m' i = tm_text m i \<and> te_bytes (the (tm_by_id m' i)) = te_bytes (the (tm_by_id m i))"
    "tm_entries m' = tm_entries m" "tm_bytes m' = tm_bytes m"
  shows "tm_ok m'"
proof -
  have "tool_cost (tm_text m') (tm_order m') = tool_cost (tm_text m) (tm_order m)"
    using assms by (subst tool_cost_perm [of _ "tm_order m"]) (auto simp: tm_ok_def intro: tool_cost_cong)
  moreover have "length (tm_order m') = length (tm_order m)"
    using assms by (metis distinct_card tm_ok_def)
  moreover have "block_ok m' = block_ok m" using assms by (auto simp: block_ok_def fun_eq_iff)
  moreover have "tm_text m' ` set (tm_order m) = tm_text m ` set (tm_order m)" using assms(6) by (intro image_cong) auto
  ultimately show ?thesis using assms unfolding tm_ok_def by simp
qed

lemma touch_fields:
  "tm_by_id (tool_memory_touch i e m) = (tm_by_id m)(i \<mapsto> e\<lparr>te_stamp := tm_clock m + 1\<rparr>)"
  "tm_by_block (tool_memory_touch i e m) = tm_by_block m"
  "tm_entries (tool_memory_touch i e m) = tm_entries m" "tm_bytes (tool_memory_touch i e m) = tm_bytes m"
  "tm_max_entries (tool_memory_touch i e m) = tm_max_entries m" "tm_max_bytes (tool_memory_touch i e m) = tm_max_bytes m"
  "i \<in> set (tm_order m) \<Longrightarrow> tm_order (tool_memory_touch i e m) = i # remove1 i (tm_order m)"
  by (cases "tm_order m"; auto simp: tool_memory_touch_def Let_def tool_memory_set_entry_def tool_memory_link_head_def
      tool_memory_unlink_def)+

lemma touch_ok:
  assumes "tm_ok m" "tm_by_id m i = Some old" "te_block e = te_block old" "te_bytes e = te_bytes old"
  shows "tm_ok (tool_memory_touch i e m)"
proof -
  have i: "i \<in> set (tm_order m)" and d: "distinct (tm_order m)" using assms by (auto simp: tm_ok_def)
  show ?thesis
    by (rule tm_ok_cong [OF assms(1)]) (use assms i d in \<open>auto simp: touch_fields tm_text_def\<close>)
qed

lemma add_entry_fields:
  "tm_by_id (tool_memory_add_entry i d src m) = (tm_by_id m)(i \<mapsto> \<lparr>te_block = d, te_bytes = length i + 65,
     te_stamp = tm_clock m + 1, te_source = src\<rparr>)"
  "tm_order (tool_memory_add_entry i d src m) = i # tm_order m"
  "tm_max_entries (tool_memory_add_entry i d src m) = tm_max_entries m"
  "tm_max_bytes (tool_memory_add_entry i d src m) = tm_max_bytes m"
  by (simp_all add: tool_memory_add_entry_def tool_memory_get_block_def tool_memory_set_entry_def tool_memory_set_block_def
      tool_memory_link_head_def sizeof_tool_memory_entry_def Let_def add.commute split: option.split)

lemma add_entry_ok:
  assumes "tm_ok m" "i \<notin> set (tm_order m)" "i \<noteq> []" "d \<noteq> []"
  shows "tm_ok (tool_memory_add_entry i d src m)"
proof -
  let ?m = "tool_memory_add_entry i d src m"
  define b where "b = (case tm_by_block m d of Some b \<Rightarrow> b
    | None \<Rightarrow> \<lparr>tb_bytes = length d + 49, tb_refs = 0, tb_seen = 0, tb_entries = []\<rparr>)"
  have blocks: "tm_by_block ?m = (tm_by_block m)(d \<mapsto> b\<lparr>tb_entries := i # tb_entries b, tb_refs := tb_refs b + 1\<rparr>)"
    and bytes: "tm_bytes ?m = tm_bytes m + (length i + 65) + (if tm_by_block m d = None then length d + 49 else 0)"
    and ents: "tm_entries ?m = tm_entries m + 1"
    using assms(4)
    by (auto simp: b_def tool_memory_add_entry_def tool_memory_get_block_def tool_memory_find_block_def tool_memory_set_entry_def
        tool_memory_set_block_def tool_memory_link_head_def sizeof_tool_memory_block_def sizeof_tool_memory_entry_def
        Let_def split: option.split)
  have tt: "tm_text ?m j = (if j = i then d else tm_text m j)" for j by (simp add: tm_text_def add_entry_fields)
  have known: "tm_by_block m d = None \<longleftrightarrow> d \<notin> tm_text m ` set (tm_order m)"
    using assms(1) unfolding tm_ok_def by blast
  have old: "tm_text ?m ` set (tm_order m) = tm_text m ` set (tm_order m)"
    using assms(2) by (intro image_cong) (auto simp: tt)
  have bok: "tb_refs b = int (length (tb_entries b)) \<and> distinct (tb_entries b)
      \<and> set (tb_entries b) = {j \<in> set (tm_order m). tm_text m j = d} \<and> tb_bytes b = length d + 49"
  proof (cases "tm_by_block m d")
    case None
    with known show ?thesis by (auto simp: b_def)
  next
    case (Some b')
    with assms(1) show ?thesis by (simp add: b_def tm_ok_def block_ok_def)
  qed
  have sub: "{j \<in> set (tm_order ?m). tm_text ?m j = c} =
      (if c = d then insert i {j \<in> set (tm_order m). tm_text m j = d} else {j \<in> set (tm_order m). tm_text m j = c})" for c
    using assms(2) by (auto simp: add_entry_fields tt)
  have "tm_bytes ?m = tool_cost (tm_text ?m) (tm_order ?m)"
  proof -
    have "tool_cost (tm_text ?m) (tm_order m) = tool_cost (tm_text m) (tm_order m)"
      using assms(2) by (intro tool_cost_cong) (auto simp: tt)
    moreover have "tm_text ?m i = d" by (simp add: tt)
    ultimately have "tool_cost (tm_text ?m) (tm_order ?m) =
        tool_cost (tm_text m) (tm_order m) + (length i + 65) + (if d \<in> tm_text m ` set (tm_order m) then 0 else length d + 49)"
      using tool_cost_Cons [OF assms(2), of "tm_text ?m"] unfolding add_entry_fields(2) old by simp
    moreover have "tm_bytes m = tool_cost (tm_text m) (tm_order m)" using assms(1) by (simp add: tm_ok_def)
    ultimately show ?thesis by (simp add: bytes known)
  qed
  moreover have "tm_entries ?m = int (length (tm_order ?m))" using assms(1) by (simp add: ents add_entry_fields tm_ok_def)
  moreover have "\<forall>j. tm_by_id ?m j \<noteq> None \<longleftrightarrow> j \<in> set (tm_order ?m)" using assms(1) by (auto simp: add_entry_fields tm_ok_def)
  moreover have "\<forall>j\<in>set (tm_order ?m). j \<noteq> [] \<and> tm_text ?m j \<noteq> [] \<and> te_bytes (the (tm_by_id ?m j)) = length j + 65"
    using assms by (auto simp: add_entry_fields tt tm_ok_def)
  moreover have "\<forall>c. tm_by_block ?m c \<noteq> None \<longleftrightarrow> c \<in> tm_text ?m ` set (tm_order ?m)"
    using assms(1) old by (auto simp: blocks add_entry_fields tt tm_ok_def)
  moreover have "block_ok ?m c b'" if "tm_by_block ?m c = Some b'" for c b'
  proof (cases "c = d")
    case True
    with that have "b' = b\<lparr>tb_entries := i # tb_entries b, tb_refs := tb_refs b + 1\<rparr>" by (simp add: blocks)
    with bok assms(2) True show ?thesis unfolding block_ok_def sub by simp
  next
    case False
    with that have "tm_by_block m c = Some b'" by (simp add: blocks)
    with assms(1) have "block_ok m c b'" by (simp add: tm_ok_def)
    with False show ?thesis unfolding block_ok_def sub by simp
  qed
  moreover have "distinct (tm_order ?m)" using assms(1,2) by (simp add: add_entry_fields tm_ok_def)
  ultimately show ?thesis unfolding tm_ok_def by auto
qed

text \<open>Pruning keeps the longest prefix of the order of use that is within the limits.\<close>

definition tm_fits :: "tool_memory \<Rightarrow> string list \<Rightarrow> bool" where
  "tm_fits m ids \<longleftrightarrow> int (length ids) \<le> tool_memory_max_entries m \<and> tool_cost (tm_text m) ids \<le> tool_memory_max_bytes m"

lemma fits_over_limit: "tm_ok m \<Longrightarrow> tool_memory_over_limit m \<longleftrightarrow> \<not> tm_fits m (tm_order m)"
  by (auto simp: tm_ok_def tm_fits_def tool_memory_over_limit_def)

lemma fits_Nil [simp]: "tm_fits m []"
  by (simp add: tm_fits_def tool_cost_def tool_memory_max_entries_def DS4_TOOL_MEMORY_DEFAULT_MAX_IDS_def)

lemma prune_spec:
  assumes "tm_ok m"
  shows "tm_ok (tool_memory_prune m) \<and> tm_fits m (tm_order (tool_memory_prune m))
    \<and> tm_by_id (tool_memory_prune m) = tm_by_id m |` set (tm_order (tool_memory_prune m))
    \<and> tm_max_entries (tool_memory_prune m) = tm_max_entries m \<and> tm_max_bytes (tool_memory_prune m) = tm_max_bytes m
    \<and> (\<exists>k \<le> length (tm_order m). tm_order (tool_memory_prune m) = take k (tm_order m)
         \<and> (k < length (tm_order m) \<longrightarrow> \<not> tm_fits m (take (Suc k) (tm_order m))))"
  using assms
proof (induction m rule: tool_memory_prune.induct)
  case (1 m)
  show ?case
  proof (cases "tool_memory_over_limit m \<and> tm_order m \<noteq> []")
    case False
    then have p: "tool_memory_prune m = m" by (subst tool_memory_prune.simps) (simp only: if_False)
    have "tm_by_id m = tm_by_id m |` set (tm_order m)"
      using "1.prems" by (auto simp: tm_ok_def restrict_map_def fun_eq_iff)
    moreover have "tm_fits m (tm_order m)" using False fits_over_limit [OF "1.prems"] by (cases "tm_order m") auto
    ultimately show ?thesis unfolding p using "1.prems" by auto
  next
    case True
    let ?i = "last (tm_order m)"
    let ?m = "tool_memory_remove_entry ?i m"
    have i: "?i \<in> set (tm_order m)" and d: "distinct (tm_order m)" using True "1.prems" by (auto simp: tm_ok_def)
    have p: "tool_memory_prune m = tool_memory_prune ?m" by (subst tool_memory_prune.simps) (simp only: True if_True simp_thms)
    have o: "tm_order ?m = butlast (tm_order m)"
      using d True by (metis remove_entry_order append_butlast_last_id remove1_append distinct_append
          remove1.simps(2) append_Nil2 remove1.simps(1) disjoint_insert(1) inf_commute list.simps(15))
    have same: "tm_fits ?m ids \<longleftrightarrow> tm_fits m ids" if "?i \<notin> set ids" for ids
    proof -
      have "tool_cost (tm_text ?m) ids = tool_cost (tm_text m) ids"
        using that by (intro tool_cost_cong) (auto simp: tm_text_def)
      then show ?thesis by (simp add: tm_fits_def tool_memory_max_entries_def tool_memory_max_bytes_def)
    qed
    have nb: "?i \<notin> set (butlast (tm_order m))" using d True by (metis distinct_butlast not_distinct_conv_prefix append_butlast_last_id)
    note ih = "1.IH" [OF True remove_entry_ok [OF "1.prems" i], folded p]
    obtain k where k: "k \<le> length (tm_order ?m)" "tm_order (tool_memory_prune m) = take k (tm_order ?m)"
      "k < length (tm_order ?m) \<longrightarrow> \<not> tm_fits ?m (take (Suc k) (tm_order ?m))" using ih by blast
    have sub: "set (take n (tm_order ?m)) \<subseteq> set (butlast (tm_order m))" for n unfolding o by (rule set_take_subset)
    have tk: "take n (tm_order ?m) = take n (tm_order m)" if "n < length (tm_order m)" for n
      using that unfolding o by (simp add: take_butlast)
    have kl: "k < length (tm_order m)" using k(1) True unfolding o by (cases "tm_order m") (auto split: if_splits)
    have "\<not> tm_fits m (take (Suc k) (tm_order m))"
    proof (cases "k < length (tm_order ?m)")
      case True
      then have "Suc k < length (tm_order m)" unfolding o by simp
      with k(3) True tk [of "Suc k"] same [of "take (Suc k) (tm_order ?m)"] sub [of "Suc k"] nb show ?thesis by auto
    next
      case False
      with kl o have "Suc k = length (tm_order m)" by simp
      then show ?thesis using True fits_over_limit [OF "1.prems"] by simp
    qed
    moreover have "tm_fits m (tm_order (tool_memory_prune m))"
      using ih same [of "tm_order (tool_memory_prune m)"] sub [of k] nb k(2) by auto
    moreover have "tm_by_id (tool_memory_prune m) = tm_by_id m |` set (tm_order (tool_memory_prune m))"
      using ih sub [of k] nb k(2) by (auto simp: restrict_map_def fun_eq_iff)
    moreover have "tm_order (tool_memory_prune m) = take k (tm_order m)" using k(2) tk [OF kl] by simp
    ultimately show ?thesis using ih kl by (auto intro!: exI [of _ k])
  qed
qed


text \<open>The memory just before the pruning of a \<open>put\<close>.\<close>

definition put_entry :: "string \<Rightarrow> string \<Rightarrow> tool_memory_source \<Rightarrow> tool_memory \<Rightarrow> tool_memory" where
  "put_entry i dsml source m =
     (case tm_by_id m i of
        Some old \<Rightarrow>
          if te_block old = dsml then
            tool_memory_touch i (if source = TOOL_MEMORY_RAM then old\<lparr>te_source := TOOL_MEMORY_RAM\<rparr> else old) m
          else tool_memory_add_entry i dsml source (tool_memory_remove_entry i m)
      | None \<Rightarrow> tool_memory_add_entry i dsml source m)"

lemma put_prune: "i \<noteq> [] \<Longrightarrow> d \<noteq> [] \<Longrightarrow> tool_memory_put i d source m = tool_memory_prune (put_entry i d source m)"
  by (simp add: tool_memory_put_def put_entry_def tool_memory_find_entry_def split: option.split)

lemma by_id_None: "tm_ok m \<Longrightarrow> tm_by_id m i = None \<longleftrightarrow> i \<notin> set (tm_order m)"
  unfolding tm_ok_def by blast

lemma ids_nonempty: "tm_ok m \<Longrightarrow> [] \<notin> set (tm_order m)"
  unfolding tm_ok_def by blast

lemma put_entry_spec:
  assumes "tm_ok m" "i \<noteq> []" "d \<noteq> []"
  shows "tm_ok (put_entry i d source m) \<and> tm_order (put_entry i d source m) = i # remove1 i (tm_order m)
    \<and> tm_text (put_entry i d source m) = (tm_text m)(i := d)
    \<and> tm_max_entries (put_entry i d source m) = tm_max_entries m \<and> tm_max_bytes (put_entry i d source m) = tm_max_bytes m"
proof (cases "tm_by_id m i")
  case None
  then have i: "i \<notin> set (tm_order m)" using assms(1) by (simp add: by_id_None)
  with assms add_entry_ok [of m i d source] None show ?thesis
    by (auto simp: put_entry_def add_entry_fields remove1_idem tm_text_def)
next
  case (Some old)
  then have i: "i \<in> set (tm_order m)" and d: "distinct (tm_order m)" using assms(1) by (auto simp: tm_ok_def)
  show ?thesis
  proof (cases "te_block old = d")
    case True
    have "tm_ok (put_entry i d source m)" using touch_ok [OF assms(1) Some] by (simp add: put_entry_def Some True)
    with i True Some show ?thesis by (auto simp: put_entry_def touch_fields tm_text_def)
  next
    case False
    have "i \<notin> set (tm_order (tool_memory_remove_entry i m))" using d by simp
    with add_entry_ok [OF remove_entry_ok [OF assms(1) i] this assms(2,3)] Some False show ?thesis
      by (auto simp: put_entry_def add_entry_fields tm_text_def)
  qed
qed

lemma find_entry_ok:
  assumes "tm_ok m"
  shows "map_option te_block (tool_memory_find_entry m i) = (if i \<in> set (tm_order m) then Some (tm_text m i) else None)"
  using by_id_None [OF assms, of i] ids_nonempty [OF assms]
  by (cases "tm_by_id m i") (auto simp: tool_memory_find_entry_def tm_text_def)

lemma lookup_ok:
  "tm_ok m \<Longrightarrow> map_option fst (fst (tool_memory_lookup i m)) = (if i \<in> set (tm_order m) then Some (tm_text m i) else None)"
  unfolding find_entry_ok [symmetric] by (simp add: tool_memory_lookup_def split: option.split)

lemma lookup_keeps_ok: "tm_ok m \<Longrightarrow> tm_ok (snd (tool_memory_lookup i m))"
  by (auto simp: tool_memory_lookup_def tool_memory_find_entry_def split: option.split if_splits intro: touch_ok)

definition within_limits :: "tool_memory \<Rightarrow> (string \<Rightarrow> string) \<Rightarrow> string list \<Rightarrow> bool" where
  "within_limits m f ids \<longleftrightarrow> int (length ids) \<le> tool_memory_max_entries m \<and> tool_cost f ids \<le> tool_memory_max_bytes m"

lemma put_spec:
  fixes m :: tool_memory and i d :: string and source :: tool_memory_source
  assumes "tm_ok m" "i \<noteq> []" "d \<noteq> []"
  defines "m' \<equiv> tool_memory_put i d source m" and "recent \<equiv> i # remove1 i (tm_order m)" and "f \<equiv> (tm_text m)(i := d)"
  shows "tm_ok m' \<and> within_limits m f (tm_order m')
    \<and> (\<exists>k\<le>length recent. tm_order m' = take k recent \<and> (k < length recent \<longrightarrow> \<not> within_limits m f (take (Suc k) recent)))
    \<and> (\<forall>j. map_option fst (fst (tool_memory_lookup j m')) = (if j \<in> set (tm_order m') then Some (f j) else None))"
proof -
  let ?m = "put_entry i d source m"
  note e = put_entry_spec [OF assms(1-3), of source]
  have m': "m' = tool_memory_prune ?m" by (simp add: m'_def put_prune assms)
  have fits: "tm_fits ?m ids \<longleftrightarrow> within_limits m f ids" for ids
    using e by (simp add: tm_fits_def within_limits_def f_def tool_memory_max_entries_def tool_memory_max_bytes_def)
  have o: "tm_order ?m = recent" using e by (simp add: recent_def)
  note p = prune_spec [of ?m, folded m', unfolded fits o]
  have ok: "tm_ok m'" using p e by blast
  have tt: "tm_text m' j = f j" if "j \<in> set (tm_order m')" for j
  proof -
    have "tm_by_id m' = tm_by_id ?m |` set (tm_order m')" using p e by blast
    then have "tm_text m' j = tm_text ?m j" using that by (simp add: tm_text_def)
    then show ?thesis using e by (simp add: f_def)
  qed
  have "tm_fits ?m (tm_order m') \<longleftrightarrow> within_limits m f (tm_order m')" by (rule fits)
  with p e have "within_limits m f (tm_order m')
      \<and> (\<exists>k\<le>length recent. tm_order m' = take k recent \<and> (k < length recent \<longrightarrow> \<not> within_limits m f (take (Suc k) recent)))" by blast
  moreover have "\<forall>j. map_option fst (fst (tool_memory_lookup j m')) = (if j \<in> set (tm_order m') then Some (f j) else None)"
    using lookup_ok [OF ok] tt by simp
  ultimately show ?thesis using ok by blast
qed


text \<open>When everything fits nothing is dropped.\<close>

lemma tool_cost_mono:
  assumes "distinct ids" "distinct jds" "set ids \<subseteq> set jds"
  shows "tool_cost f ids \<le> tool_cost f jds"
proof -
  have "(\<Sum>i\<in>set ids. length i + 65) \<le> (\<Sum>i\<in>set jds. length i + 65)" using assms(3) by (intro sum_mono2) auto
  moreover have "(\<Sum>d\<in>f ` set ids. length d + 49) \<le> (\<Sum>d\<in>f ` set jds. length d + 49)" using assms(3) by (intro sum_mono2) auto
  ultimately show ?thesis using assms(1,2) by (simp add: tool_cost_def sum_list_distinct_conv_sum_set)
qed

lemma put_keeps_all:
  fixes source :: tool_memory_source
  assumes "tm_ok m" "i \<noteq> []" "f i \<noteq> []" "within_limits m f ids" "distinct ids" "insert i (set (tm_order m)) \<subseteq> set ids"
    "\<forall>j\<in>set (tm_order m). tm_text m j = f j"
  defines "m' \<equiv> tool_memory_put i (f i) source m"
  shows "tm_ok m' \<and> set (tm_order m') = insert i (set (tm_order m)) \<and> (\<forall>j\<in>set (tm_order m'). tm_text m' j = f j)
    \<and> tm_max_entries m' = tm_max_entries m \<and> tm_max_bytes m' = tm_max_bytes m"
proof -
  let ?r = "i # remove1 i (tm_order m)" and ?g = "(tm_text m)(i := f i)"
  note p = put_spec [OF assms(1-3), of source, folded m'_def]
  have d: "distinct (tm_order m)" using assms(1) by (simp add: tm_ok_def)
  have "within_limits m ?g (take n ?r)" for n
  proof -
    have t: "distinct (take n ?r)" "set (take n ?r) \<subseteq> set ids"
      using d assms(6) set_take_subset [of n ?r] by (auto intro!: distinct_take)
    have "tool_cost ?g (take n ?r) = tool_cost f (take n ?r)"
      using assms(7) d set_take_subset [of n ?r] by (intro tool_cost_cong) auto
    moreover have "length (take n ?r) \<le> length ids"
      using t assms(5) by (metis card_mono distinct_card finite_set)
    ultimately show ?thesis using tool_cost_mono [OF t(1) assms(5) t(2), of f] assms(4) by (simp add: within_limits_def)
  qed
  with p have o: "tm_order m' = ?r" by (metis le_antisym not_less take_all order_refl le_neq_implies_less)
  then have s: "set (tm_order m') = insert i (set (tm_order m))" using d by auto
  have "tm_text m' j = f j" if "j \<in> set (tm_order m')" for j
  proof -
    have "\<forall>j. map_option fst (fst (tool_memory_lookup j m')) = (if j \<in> set (tm_order m') then Some (?g j) else None)" and ok: "tm_ok m'"
      using p by blast+
    then have "map_option fst (fst (tool_memory_lookup j m')) = Some (?g j)" using that by simp
    then have "tm_text m' j = ?g j" unfolding lookup_ok [OF ok] using that by simp
    with that s assms(7) show ?thesis by auto
  qed
  moreover have "tm_max_entries m' = tm_max_entries m \<and> tm_max_bytes m' = tm_max_bytes m"
    using prune_spec [of "put_entry i (f i) source m"] put_entry_spec [OF assms(1-3), of source]
    by (simp add: m'_def put_prune assms)
  ultimately show ?thesis using p s by blast
qed

text \<open>
  C18: Remembering a block for an id keeps the memory consistent (each id once in the order of use, each
  block present exactly while an id refers to it, with its exact reference count, the byte and entry
  counters exact) and keeps the longest prefix of the order of use, the new id first, that is
  within the limits on ids and bytes; every id that is kept gives its text, the others give nothing.
\<close>

theorem tool_memory_put_correct:
  fixes m :: tool_memory and i d :: string and source :: tool_memory_source
  assumes "tm_ok m" "i \<noteq> []" "d \<noteq> []"
  defines "m' \<equiv> tool_memory_put i d source m" and "recent \<equiv> i # remove1 i (tm_order m)" and "f \<equiv> (tm_text m)(i := d)"
  shows "tm_ok m' \<and> within_limits m f (tm_order m')
    \<and> (\<exists>k\<le>length recent. tm_order m' = take k recent \<and> (k < length recent \<longrightarrow> \<not> within_limits m f (take (Suc k) recent)))
    \<and> (\<forall>j. map_option fst (fst (tool_memory_lookup j m')) = (if j \<in> set (tm_order m') then Some (f j) else None))"
  unfolding m'_def recent_def f_def by (rule put_spec [OF assms(1-3)])

lemma tm_ok_empty: "tm_ok (tool_memory_empty n b)"
  by (simp add: tm_ok_def tool_memory_empty_def tool_cost_def)

text \<open>A memory of at most one id: the second id replaces the first.\<close>

theorem tool_memory_put_correct_witness:
  "tm_order (tool_memory_put ''b'' ''y'' TOOL_MEMORY_RAM (tool_memory_put ''a'' ''x'' TOOL_MEMORY_RAM (tool_memory_empty 1 0))) = [''b'']"
proof -
  have lim: "within_limits m f [[c]] \<and> \<not> within_limits m f [[c], [c']]"
    if "tm_max_entries m = 1" "tm_max_bytes m = 0" "f [c] = [z]" for m f c c' z
    using that by (simp add: within_limits_def tool_memory_max_entries_def tool_memory_max_bytes_def tool_cost_def
        DS4_TOOL_MEMORY_MAX_BYTES_def)
  let ?m = "tool_memory_put ''a'' ''x'' TOOL_MEMORY_RAM (tool_memory_empty 1 0)"
  note one = tool_memory_put_correct [OF tm_ok_empty [of 1 0], of "''a''" "''x''" TOOL_MEMORY_RAM]
  obtain k where k: "k \<le> 1" "tm_order ?m = take k [''a'']"
    "k < 1 \<longrightarrow> \<not> within_limits (tool_memory_empty 1 0) ((tm_text (tool_memory_empty 1 0))(''a'' := ''x'')) (take (Suc k) [''a''])"
    using one by (auto simp: tool_memory_empty_def)
  have "k = 1" using k(1,3) lim [of "tool_memory_empty 1 0"] by (cases k) (auto simp: tool_memory_empty_def)
  then have o: "tm_order ?m = [''a'']" using k(2) by simp
  have l: "tm_max_entries ?m = 1" "tm_max_bytes ?m = 0"
    using prune_spec [of "put_entry ''a'' ''x'' TOOL_MEMORY_RAM (tool_memory_empty 1 0)"] put_entry_spec [OF tm_ok_empty]
    by (simp_all add: put_prune tool_memory_empty_def)
  let ?f = "(tm_text ?m)(''b'' := ''y'')"
  have "\<exists>k\<le>2. tm_order (tool_memory_put ''b'' ''y'' TOOL_MEMORY_RAM ?m) = take k [''b'', ''a''] \<and>
      (k < 2 \<longrightarrow> \<not> within_limits ?m ?f (take (Suc k) [''b'', ''a''])) \<and> within_limits ?m ?f (take k [''b'', ''a''])"
    using tool_memory_put_correct [of ?m "''b''" "''y''" TOOL_MEMORY_RAM] one o by (auto simp: numeral_2_eq_2)
  then obtain k where k: "k \<le> 2" "tm_order (tool_memory_put ''b'' ''y'' TOOL_MEMORY_RAM ?m) = take k [''b'', ''a'']"
    "k < 2 \<longrightarrow> \<not> within_limits ?m ?f (take (Suc k) [''b'', ''a''])" "within_limits ?m ?f (take k [''b'', ''a''])" by blast
  have "k = 1"
  proof -
    consider "k = 0" | "k = 1" | "k = 2" using k(1) by linarith
    then show ?thesis using k(3,4) lim [OF l, of ?f] by cases (auto simp: numeral_2_eq_2)
  qed
  then show ?thesis using k(2) by simp
qed

end
