(* ===== verification/Scheduler.thy ===== *)
theory Scheduler
  imports ToolMemory "HOL-Library.Multiset"
begin

text \<open>
  The job scheduler of the batched server (\<open>ds4_server.c\<close>): a FIFO of jobs and a set of resident
  slots. Client threads enqueue and cancel jobs, one worker per slot takes the job assigned to it,
  runs it and releases the slot; every change that may free work calls \<open>dispatch_jobs_locked\<close>. The
  functions are modelled as they are; the threads are the step relation \<open>sched_step\<close>, one rule per
  critical section. What a slot can reuse of its session for a job (\<open>slot_probe_reuse_locked\<close>) is
  an argument.
\<close>

subsection \<open>Jobs, slots and their score\<close>

record live_tool_state =
  lt_valid :: bool
  lt_call_ids :: "string list"

record job =
  jb_id :: nat
  jb_responses_requires_live :: bool
  jb_responses_call_ids :: "string list"
  jb_anthropic_requires_live :: bool
  jb_anthropic_call_ids :: "string list"

record slot =
  sl_responses_live :: live_tool_state
  sl_anthropic_live :: live_tool_state
  sl_live :: int
  sl_last_used :: int
  sl_assigned :: "job option"
  sl_running :: "job option"
  sl_busy :: bool

definition live_state_contains_all :: "live_tool_state \<Rightarrow> string list \<Rightarrow> bool" where
  "live_state_contains_all st ids \<longleftrightarrow> lt_valid st \<and> ids \<noteq> [] \<and> list_all (id_list_contains (lt_call_ids st)) ids"

definition slot_binds :: "slot \<Rightarrow> job \<Rightarrow> bool" where
  "slot_binds sl j \<longleftrightarrow>
     jb_responses_requires_live j \<and> live_state_contains_all (sl_responses_live sl) (jb_responses_call_ids j)
     \<or> jb_anthropic_requires_live j \<and> live_state_contains_all (sl_anthropic_live sl) (jb_anthropic_call_ids j)"

fun job_required_slot :: "slot list \<Rightarrow> job \<Rightarrow> nat option" where
  "job_required_slot [] j = None"
| "job_required_slot (sl # slots) j =
     (if slot_binds sl j then Some 0 else map_option Suc (job_required_slot slots j))"

definition C_INT_MIN :: int where
  "C_INT_MIN = - 2147483648"

definition C_INT_MAX :: int where
  "C_INT_MAX = 2147483647"

definition SLOT_STALE_AFTER_SEC :: int where
  "SLOT_STALE_AFTER_SEC = 60 * 60"

definition SLOT_IDLE_SCORE_CAP :: int where
  "SLOT_IDLE_SCORE_CAP = 1048576"

definition SLOT_PROTECTED_SCORE_BASE :: int where
  "SLOT_PROTECTED_SCORE_BASE = - 2 - SLOT_IDLE_SCORE_CAP"

definition idle_time :: "int \<Rightarrow> slot \<Rightarrow> int" where
  "idle_time now sl = (if sl_last_used sl < now then now - sl_last_used sl else 0)"

definition job_slot_score :: "(slot \<Rightarrow> job \<Rightarrow> int) \<Rightarrow> int \<Rightarrow> slot \<Rightarrow> nat \<Rightarrow> job \<Rightarrow> nat option \<Rightarrow> int" where
  "job_slot_score reuse now sl i j required =
     (if sl_busy sl \<or> sl_assigned sl \<noteq> None then C_INT_MIN
      else if required \<noteq> None \<and> required \<noteq> Some i then C_INT_MIN
      else if required = Some i then C_INT_MAX
      else if 0 < reuse sl j then reuse sl j
      else if sl_live sl = 0 then 0
      else if SLOT_STALE_AFTER_SEC \<le> idle_time now sl then
        - 1 - SLOT_IDLE_SCORE_CAP + min (idle_time now sl) SLOT_IDLE_SCORE_CAP
      else SLOT_PROTECTED_SCORE_BASE - sl_live sl)"

subsection \<open>Dispatch\<close>

text \<open>The loop over the slots: the first slot with the highest score above \<open>INT_MIN\<close>.\<close>

definition best_slot :: "(slot \<Rightarrow> job \<Rightarrow> int) \<Rightarrow> int \<Rightarrow> slot list \<Rightarrow> job \<Rightarrow> nat option \<times> int" where
  "best_slot reuse now slots j =
     fold (\<lambda>i (best, best_score).
         let score = job_slot_score reuse now (slots ! i) i j (job_required_slot slots j)
         in if best_score < score then (Some i, score) else (best, best_score))
       [0..<length slots] (None, C_INT_MIN)"

text \<open>The first job of the queue that can run now: the jobs before it, it, its slot, the jobs behind it.\<close>

fun choose_job :: "(slot \<Rightarrow> job \<Rightarrow> int) \<Rightarrow> int \<Rightarrow> slot list \<Rightarrow> job list \<Rightarrow> (job list \<times> job \<times> nat \<times> job list) option" where
  "choose_job reuse now slots [] = None"
| "choose_job reuse now slots (j # q) =
     (case fst (best_slot reuse now slots j) of
        Some i \<Rightarrow> Some ([], j, i, q)
      | None \<Rightarrow> map_option (\<lambda>(pre, c, i, post). (j # pre, c, i, post)) (choose_job reuse now slots q))"

definition assign_job :: "slot list \<Rightarrow> nat \<Rightarrow> job \<Rightarrow> slot list" where
  "assign_job slots i j = slots[i := (slots ! i)\<lparr>sl_assigned := Some j, sl_busy := True\<rparr>]"

lemma choose_job_queue: "choose_job reuse now slots q = Some (pre, j, i, post) \<Longrightarrow> q = pre @ j # post"
  by (induction q arbitrary: pre) (auto split: option.splits)

function dispatch_jobs :: "(slot \<Rightarrow> job \<Rightarrow> int) \<Rightarrow> int \<Rightarrow> slot list \<Rightarrow> job list \<Rightarrow> slot list \<times> job list" where
  "dispatch_jobs reuse now slots q =
     (case choose_job reuse now slots q of
        None \<Rightarrow> (slots, q)
      | Some (pre, j, i, post) \<Rightarrow> dispatch_jobs reuse now (assign_job slots i j) (pre @ post))"
  by pat_completeness auto
termination
  by (relation "measure (\<lambda>(_, _, _, q). length q)") (auto dest: choose_job_queue)

declare dispatch_jobs.simps [simp del]

subsection \<open>What dispatch guarantees\<close>

definition slot_free :: "slot \<Rightarrow> bool" where
  "slot_free sl \<longleftrightarrow> \<not> sl_busy sl \<and> sl_assigned sl = None"

definition eligible :: "slot list \<Rightarrow> job \<Rightarrow> nat \<Rightarrow> bool" where
  "eligible slots j i \<longleftrightarrow> i < length slots \<and> slot_free (slots ! i)
     \<and> (job_required_slot slots j = None \<or> job_required_slot slots j = Some i)"

text \<open>A session holds at most 2^30 tokens, so the scores stay inside an \<open>int\<close>.\<close>

definition slot_bounded :: "slot \<Rightarrow> bool" where
  "slot_bounded sl \<longleftrightarrow> 0 \<le> sl_live sl \<and> sl_live sl \<le> 1073741824"

lemma score_eligible:
  assumes "slot_bounded (slots ! i)" "i < length slots"
  shows "C_INT_MIN < job_slot_score reuse now (slots ! i) i j (job_required_slot slots j) \<longleftrightarrow> eligible slots j i"
  using assms
  by (auto simp: job_slot_score_def eligible_def slot_free_def slot_bounded_def C_INT_MIN_def C_INT_MAX_def
      SLOT_IDLE_SCORE_CAP_def SLOT_PROTECTED_SCORE_BASE_def SLOT_STALE_AFTER_SEC_def min_def idle_time_def)

lemma fold_max:
  fixes f :: "nat \<Rightarrow> int"
  defines "g \<equiv> \<lambda>i (best, b). if b < f i then (Some i, f i) else (best, b)"
  shows "(case fold g [0..<n] (None, m) of
     (None, b) \<Rightarrow> b = m \<and> (\<forall>i<n. f i \<le> m)
   | (Some k, b) \<Rightarrow> b = f k \<and> k < n \<and> m < f k \<and> (\<forall>i<n. f i \<le> f k) \<and> (\<forall>i<k. f i < f k))"
proof (induction n)
  case 0
  show ?case by simp
next
  case (Suc n)
  show ?case
  proof (cases "fold g [0..<n] (None, m)")
    case (Pair best b)
    with Suc show ?thesis
      by (cases best) (auto simp: g_def less_Suc_eq intro: order.trans less_imp_le)
  qed
qed

lemma best_slot_spec:
  "(case best_slot reuse now slots j of
      (None, b) \<Rightarrow> (\<forall>i<length slots. job_slot_score reuse now (slots ! i) i j (job_required_slot slots j) \<le> C_INT_MIN)
    | (Some k, b) \<Rightarrow> b = job_slot_score reuse now (slots ! k) k j (job_required_slot slots j) \<and> k < length slots \<and> C_INT_MIN < b \<and>
        (\<forall>i<length slots. job_slot_score reuse now (slots ! i) i j (job_required_slot slots j) \<le> b) \<and>
        (\<forall>i<k. job_slot_score reuse now (slots ! i) i j (job_required_slot slots j) < b))"
  using fold_max [where f = "\<lambda>i. job_slot_score reuse now (slots ! i) i j (job_required_slot slots j)"
      and n = "length slots" and m = C_INT_MIN]
  by (auto simp: best_slot_def Let_def split: option.splits prod.splits)

lemma best_slot_eligible:
  assumes "list_all slot_bounded slots"
  shows "case fst (best_slot reuse now slots j) of
      None \<Rightarrow> \<forall>i. \<not> eligible slots j i | Some k \<Rightarrow> eligible slots j k"
proof -
  have s: "C_INT_MIN < job_slot_score reuse now (slots ! i) i j (job_required_slot slots j) \<longleftrightarrow> eligible slots j i"
    if "i < length slots" for i
    using that assms by (intro score_eligible) (auto simp: list_all_length)
  have e: "eligible slots j i \<Longrightarrow> i < length slots" for i by (simp add: eligible_def)
  show ?thesis
  proof (cases "best_slot reuse now slots j")
    case (Pair best b)
    show ?thesis
    proof (cases best)
      case None
      with Pair best_slot_spec [where reuse = reuse and now = now and slots = slots and j = j] s e show ?thesis by (fastforce simp: not_less [symmetric])
    next
      case (Some k)
      with Pair best_slot_spec [where reuse = reuse and now = now and slots = slots and j = j] s [of k] show ?thesis by auto
    qed
  qed
qed

lemma choose_job_None:
  assumes "list_all slot_bounded slots" "choose_job reuse now slots q = None"
  shows "\<forall>j\<in>set q. \<forall>i. \<not> eligible slots j i"
  using assms(2)
proof (induction q)
  case (Cons j q)
  from Cons.prems have "fst (best_slot reuse now slots j) = None" "choose_job reuse now slots q = None"
    by (auto split: option.splits)
  with best_slot_eligible [OF assms(1), where reuse = reuse and now = now and j = j] Cons.IH show ?case by simp
qed simp

lemma choose_job_Some:
  assumes "list_all slot_bounded slots" "choose_job reuse now slots q = Some (pre, j, i, post)"
  shows "eligible slots j i \<and> (\<forall>c\<in>set pre. \<forall>k. \<not> eligible slots c k)"
  using assms(2)
proof (induction q arbitrary: pre)
  case (Cons c q)
  show ?case
  proof (cases "fst (best_slot reuse now slots c)")
    case None
    with Cons.prems obtain pre' where "choose_job reuse now slots q = Some (pre', j, i, post)" "pre = c # pre'"
      by (auto split: option.splits)
    with Cons.IH [OF this(1)] best_slot_eligible [OF assms(1), where reuse = reuse and now = now and j = c] None show ?thesis by simp
  next
    case (Some k)
    with Cons.prems best_slot_eligible [OF assms(1), where reuse = reuse and now = now and j = c] show ?thesis by simp
  qed
qed simp

definition held :: "(slot \<Rightarrow> job option) \<Rightarrow> slot list \<Rightarrow> job multiset" where
  "held f slots = mset (List.map_filter f slots)"

lemma held_update:
  "i < length slots \<Longrightarrow> f (slots ! i) = None \<Longrightarrow>
     held f (slots[i := sl]) = held f slots + (case f sl of None \<Rightarrow> {#} | Some j \<Rightarrow> {#j#})"
proof (induction slots arbitrary: i)
  case (Cons a slots)
  then show ?case by (cases i) (auto simp: held_def map_filter_simps split: option.split)
qed simp

lemma held_remove:
  "i < length slots \<Longrightarrow> f (slots ! i) = Some j \<Longrightarrow> f sl = None \<Longrightarrow>
     held f slots = held f (slots[i := sl]) + {#j#}"
proof (induction slots arbitrary: i)
  case (Cons a slots)
  then show ?case by (cases i) (auto simp: held_def map_filter_simps split: option.split)
qed simp

lemma held_same: "i < length slots \<Longrightarrow> f sl = f (slots ! i) \<Longrightarrow> held f (slots[i := sl]) = held f slots"
proof (induction slots arbitrary: i)
  case (Cons a slots)
  then show ?case by (cases i) (auto simp: held_def map_filter_simps split: option.split)
qed simp

lemma required_assign: "job_required_slot (assign_job slots i j) c = job_required_slot slots c"
proof -
  have "job_required_slot (slots[i := sl]) c = job_required_slot slots c"
    if "i < length slots" "slot_binds sl c = slot_binds (slots ! i) c" for sl
    using that
  proof (induction slots arbitrary: i)
    case (Cons a slots)
    then show ?case by (cases i) auto
  qed simp
  then show ?thesis by (cases "i < length slots") (auto simp: assign_job_def slot_binds_def list_update_beyond)
qed

text \<open>The weight of the work a slot still has to do: to be taken, run, and released.\<close>

definition slot_work :: "slot \<Rightarrow> nat" where
  "slot_work sl = (if sl_assigned sl \<noteq> None then 3 else if sl_running sl \<noteq> None then 2 else if sl_busy sl then 1 else 0)"

definition slots_work :: "slot list \<Rightarrow> nat" where
  "slots_work slots = sum_list (map slot_work slots)"

lemma slots_work_update: "i < length slots \<Longrightarrow> slots_work (slots[i := sl]) + slot_work (slots ! i) = slots_work slots + slot_work sl"
proof (induction slots arbitrary: i)
  case (Cons a slots)
  then show ?case by (cases i) (auto simp: slots_work_def)
qed simp

definition slot_ok :: "slot \<Rightarrow> bool" where
  "slot_ok sl \<longleftrightarrow> (sl_assigned sl \<noteq> None \<or> sl_running sl \<noteq> None \<longrightarrow> sl_busy sl)
     \<and> (sl_assigned sl = None \<or> sl_running sl = None) \<and> slot_bounded sl"

lemma slots_ok_bounded: "list_all slot_ok slots \<Longrightarrow> list_all slot_bounded slots"
  by (auto simp: list_all_iff slot_ok_def)

lemma list_all_update: "list_all P xs \<Longrightarrow> P x \<Longrightarrow> list_all P (xs[i := x])"
  by (auto simp: list_all_iff dest!: set_update_subset_insert [THEN subsetD])

lemma assign_ok:
  assumes "list_all slot_ok slots" "eligible slots j i"
  shows "list_all slot_ok (assign_job slots i j)"
  using assms unfolding assign_job_def
  by (intro list_all_update) (auto simp: list_all_length eligible_def slot_free_def slot_ok_def slot_bounded_def)

text \<open>Everything the proofs need of a dispatch, in one induction.\<close>

lemma dispatch_facts:
  assumes "dispatch_jobs reuse now slots q = (slots', q')" "list_all slot_ok slots"
  shows "list_all slot_ok slots' \<and> length slots' = length slots
    \<and> mset q' + held sl_assigned slots' = mset q + held sl_assigned slots
    \<and> held sl_running slots' = held sl_running slots
    \<and> (\<forall>j\<in>set q'. \<forall>i. \<not> eligible slots' j i)
    \<and> 4 * length q' + slots_work slots' \<le> 4 * length q + slots_work slots
    \<and> (\<forall>j. job_required_slot slots' j = job_required_slot slots j)
    \<and> (\<forall>i<length slots. slots' ! i = slots ! i \<or>
         (\<exists>j\<in>set q. slot_free (slots ! i) \<and> slots' ! i = (slots ! i)\<lparr>sl_assigned := Some j, sl_busy := True\<rparr>
            \<and> (job_required_slot slots j = None \<or> job_required_slot slots j = Some i)))"
  using assms
proof (induction reuse now slots q rule: dispatch_jobs.induct)
  case (1 reuse now slots q)
  note ok = "1.prems"(2)
  show ?case
  proof (cases "choose_job reuse now slots q")
    case None
    with "1.prems"(1) have "slots' = slots" "q' = q" by (auto simp: dispatch_jobs.simps [of reuse now slots q])
    with choose_job_None [OF slots_ok_bounded [OF ok] None] ok show ?thesis by simp
  next
    case (Some c)
    obtain pre j i post where c: "c = (pre, j, i, post)" by (cases c)
    note Some = Some [unfolded c]
    have e: "eligible slots j i" using choose_job_Some [OF slots_ok_bounded [OF ok] Some] by simp
    then have i: "i < length slots" "sl_assigned (slots ! i) = None" "slot_free (slots ! i)" "sl_running (slots ! i) = None"
      using ok by (auto simp: eligible_def slot_free_def list_all_length slot_ok_def)
    have q: "q = pre @ j # post" by (rule choose_job_queue [OF Some])
    have d: "dispatch_jobs reuse now (assign_job slots i j) (pre @ post) = (slots', q')"
      using "1.prems"(1) Some by (simp add: dispatch_jobs.simps [of reuse now slots q])
    note ih = "1.IH" [OF Some refl refl refl d assign_ok [OF ok e]]
    have h: "held sl_assigned (assign_job slots i j) = held sl_assigned slots + {#j#}"
      "held sl_running (assign_job slots i j) = held sl_running slots"
      using i by (simp_all add: assign_job_def held_update held_same)
    have w: "slots_work (assign_job slots i j) = slots_work slots + 3"
      using slots_work_update [of i slots "(slots ! i)\<lparr>sl_assigned := Some j, sl_busy := True\<rparr>"] i
      by (simp add: assign_job_def slot_work_def slot_free_def)
    have n: "assign_job slots i j ! k = (if k = i then (slots ! i)\<lparr>sl_assigned := Some j, sl_busy := True\<rparr> else slots ! k)"
      if "k < length slots" for k using that by (simp add: assign_job_def)
    have la: "length (assign_job slots i j) = length slots" by (simp add: assign_job_def)
    have old: "slots' ! k = slots ! k \<or> (\<exists>c\<in>set q. slot_free (slots ! k) \<and> slots' ! k = (slots ! k)\<lparr>sl_assigned := Some c, sl_busy := True\<rparr>
            \<and> (job_required_slot slots c = None \<or> job_required_slot slots c = Some k))" if k: "k < length slots" for k
    proof (cases "k = i")
      case True
      have "\<not> slot_free (assign_job slots i j ! k)" using n [OF k] True by (simp add: slot_free_def)
      with ih k la have "slots' ! k = assign_job slots i j ! k" by auto
      then show ?thesis using n [OF k] True q i(3) e by (auto simp: eligible_def)
    next
      case False
      have "assign_job slots i j ! k = slots ! k" using n [OF k] False by simp
      moreover have "slots' ! k = assign_job slots i j ! k \<or> (\<exists>c\<in>set (pre @ post). slot_free (assign_job slots i j ! k)
          \<and> slots' ! k = (assign_job slots i j ! k)\<lparr>sl_assigned := Some c, sl_busy := True\<rparr>
          \<and> (job_required_slot slots c = None \<or> job_required_slot slots c = Some k))"
        using ih k unfolding la required_assign by blast
      ultimately show ?thesis unfolding q by auto
    qed
    have m: "mset q = mset (pre @ post) + {#j#}" by (simp add: q)
    have lq: "length q = Suc (length (pre @ post))" by (simp add: q)
    note ih1 = ih [THEN conjunct1] and ihr = ih [THEN conjunct2]
    show ?thesis
    proof (intro conjI)
      show "list_all slot_ok slots'" by (rule ih1)
      show "length slots' = length slots" using ihr la by simp
      show "mset q' + held sl_assigned slots' = mset q + held sl_assigned slots" using ihr h(1) m by simp
      show "held sl_running slots' = held sl_running slots" using ihr h(2) by simp
      show "\<forall>j\<in>set q'. \<forall>i. \<not> eligible slots' j i" using ihr by blast
      show "4 * length q' + slots_work slots' \<le> 4 * length q + slots_work slots" using ihr w lq by linarith
      show "\<forall>j. job_required_slot slots' j = job_required_slot slots j" using ihr by (simp add: required_assign)
      show "\<forall>i<length slots. slots' ! i = slots ! i \<or>
         (\<exists>j\<in>set q. slot_free (slots ! i) \<and> slots' ! i = (slots ! i)\<lparr>sl_assigned := Some j, sl_busy := True\<rparr>
            \<and> (job_required_slot slots j = None \<or> job_required_slot slots j = Some i))" using old by blast
    qed
  qed
qed


subsection \<open>The server's critical sections\<close>

text \<open>
  \<open>sc_submitted\<close> and \<open>sc_done\<close> record the jobs accepted by \<open>enqueue\<close> and those \<open>job_complete\<close> was
  called for; \<open>sc_exited\<close> the slots whose worker has left its loop. A job stands for its pointer.
\<close>

record sched =
  sc_queue :: "job list"
  sc_slots :: "slot list"
  sc_stopping :: bool
  sc_exited :: "nat set"
  sc_submitted :: "job multiset"
  sc_done :: "job multiset"

definition dispatch_jobs_locked :: "(slot \<Rightarrow> job \<Rightarrow> int) \<Rightarrow> int \<Rightarrow> sched \<Rightarrow> sched" where
  "dispatch_jobs_locked reuse now s =
     (let (slots, q) = dispatch_jobs reuse now (sc_slots s) (sc_queue s) in s\<lparr>sc_slots := slots, sc_queue := q\<rparr>)"

definition enqueue :: "(slot \<Rightarrow> job \<Rightarrow> int) \<Rightarrow> int \<Rightarrow> sched \<Rightarrow> job \<Rightarrow> sched option" where
  "enqueue reuse now s j =
     (if sc_stopping s then None
      else Some (dispatch_jobs_locked reuse now
        (s\<lparr>sc_queue := sc_queue s @ [j], sc_submitted := add_mset j (sc_submitted s)\<rparr>)))"

definition job_complete :: "sched \<Rightarrow> job \<Rightarrow> sched" where
  "job_complete s j = s\<lparr>sc_done := add_mset j (sc_done s)\<rparr>"

definition set_slot :: "sched \<Rightarrow> nat \<Rightarrow> slot \<Rightarrow> sched" where
  "set_slot s i sl = s\<lparr>sc_slots := (sc_slots s)[i := sl]\<rparr>"

text \<open>The worker's loop: take the assigned job, complete it, release the slot.\<close>

definition worker_take :: "sched \<Rightarrow> nat \<Rightarrow> sched" where
  "worker_take s i =
     set_slot s i ((sc_slots s ! i)\<lparr>sl_running := sl_assigned (sc_slots s ! i), sl_assigned := None\<rparr>)"

definition worker_complete :: "sched \<Rightarrow> nat \<Rightarrow> job \<Rightarrow> sched" where
  "worker_complete s i j = job_complete (set_slot s i ((sc_slots s ! i)\<lparr>sl_running := None\<rparr>)) j"

definition worker_release :: "(slot \<Rightarrow> job \<Rightarrow> int) \<Rightarrow> int \<Rightarrow> sched \<Rightarrow> nat \<Rightarrow> sched" where
  "worker_release reuse now s i =
     dispatch_jobs_locked reuse now (set_slot s i ((sc_slots s ! i)\<lparr>sl_last_used := now, sl_busy := False\<rparr>))"

fun find_assigned :: "slot list \<Rightarrow> job \<Rightarrow> nat option" where
  "find_assigned [] j = None"
| "find_assigned (sl # slots) j = (if sl_assigned sl = Some j then Some 0 else map_option Suc (find_assigned slots j))"

definition server_cancel_job :: "(slot \<Rightarrow> job \<Rightarrow> int) \<Rightarrow> int \<Rightarrow> sched \<Rightarrow> job \<Rightarrow> sched" where
  "server_cancel_job reuse now s j =
     (if j \<in> set (sc_queue s) then job_complete (s\<lparr>sc_queue := remove1 j (sc_queue s)\<rparr>) j
      else case find_assigned (sc_slots s) j of
        None \<Rightarrow> s
      | Some i \<Rightarrow> job_complete (dispatch_jobs_locked reuse now
          (set_slot s i ((sc_slots s ! i)\<lparr>sl_assigned := None, sl_busy := False\<rparr>))) j)"

inductive worker_step :: "sched \<Rightarrow> sched \<Rightarrow> bool" where
  take: "i < length (sc_slots s) \<Longrightarrow> sl_assigned (sc_slots s ! i) \<noteq> None \<Longrightarrow> worker_step s (worker_take s i)"
| complete: "i < length (sc_slots s) \<Longrightarrow> sl_running (sc_slots s ! i) = Some j \<Longrightarrow> worker_step s (worker_complete s i j)"
| release: "i < length (sc_slots s) \<Longrightarrow> sl_busy (sc_slots s ! i) \<Longrightarrow> sl_assigned (sc_slots s ! i) = None \<Longrightarrow>
    sl_running (sc_slots s ! i) = None \<Longrightarrow> worker_step s (worker_release reuse now s i)"
| leave: "i < length (sc_slots s) \<Longrightarrow> \<not> sl_busy (sc_slots s ! i) \<Longrightarrow> sl_assigned (sc_slots s ! i) = None \<Longrightarrow>
    sc_stopping s \<Longrightarrow> sc_queue s = [] \<Longrightarrow> i \<notin> sc_exited s \<Longrightarrow> worker_step s (s\<lparr>sc_exited := insert i (sc_exited s)\<rparr>)"

text \<open>While a job runs, the slot's session and its live tool states change in any way.\<close>

inductive sched_step :: "sched \<Rightarrow> sched \<Rightarrow> bool" where
  submit: "enqueue reuse now s j = Some s' \<Longrightarrow> sched_step s s'"
| cancel: "sched_step s (server_cancel_job reuse now s j)"
| generate: "i < length (sc_slots s) \<Longrightarrow> sl_running (sc_slots s ! i) \<noteq> None \<Longrightarrow> slot_bounded sl \<Longrightarrow>
    sl_assigned sl = sl_assigned (sc_slots s ! i) \<Longrightarrow> sl_running sl = sl_running (sc_slots s ! i) \<Longrightarrow>
    sl_busy sl = sl_busy (sc_slots s ! i) \<Longrightarrow> sched_step s (set_slot s i sl)"
| worker: "worker_step s s' \<Longrightarrow> sched_step s s'"
| stop: "sched_step s (s\<lparr>sc_stopping := True\<rparr>)"

definition sched_init :: "slot list \<Rightarrow> sched" where
  "sched_init slots = \<lparr>sc_queue = [], sc_slots = slots, sc_stopping = False, sc_exited = {}, sc_submitted = {#}, sc_done = {#}\<rparr>"

definition slot_fresh :: "slot \<Rightarrow> bool" where
  "slot_fresh sl \<longleftrightarrow> slot_bounded sl \<and> \<not> sl_busy sl \<and> sl_assigned sl = None \<and> sl_running sl = None"

inductive sched_reachable :: "sched \<Rightarrow> bool" where
  init: "slots \<noteq> [] \<Longrightarrow> list_all slot_fresh slots \<Longrightarrow> sched_reachable (sched_init slots)"
| step: "sched_reachable s \<Longrightarrow> sched_step s s' \<Longrightarrow> sched_reachable s'"

subsection \<open>The invariant\<close>

definition sched_jobs :: "sched \<Rightarrow> job multiset" where
  "sched_jobs s = mset (sc_queue s) + held sl_assigned (sc_slots s) + held sl_running (sc_slots s) + sc_done s"

definition some_busy :: "sched \<Rightarrow> bool" where
  "some_busy s \<longleftrightarrow> list_ex sl_busy (sc_slots s)"

definition exited_ok :: "sched \<Rightarrow> bool" where
  "exited_ok s \<longleftrightarrow> (\<forall>i\<in>sc_exited s. i < length (sc_slots s) \<and> slot_free (sc_slots s ! i) \<and> sl_running (sc_slots s ! i) = None
     \<and> sc_stopping s \<and> sc_queue s = [])"

text \<open>What holds when a dispatch starts, and what holds at rest.\<close>

definition sched_pre :: "sched \<Rightarrow> bool" where
  "sched_pre s \<longleftrightarrow> sc_slots s \<noteq> [] \<and> list_all slot_ok (sc_slots s) \<and> exited_ok s"

definition sched_ok :: "sched \<Rightarrow> bool" where
  "sched_ok s \<longleftrightarrow> sched_pre s \<and> sched_jobs s = sc_submitted s \<and> (sc_queue s \<noteq> [] \<longrightarrow> some_busy s)"

definition sched_work :: "sched \<Rightarrow> nat" where
  "sched_work s = 4 * length (sc_queue s) + slots_work (sc_slots s)"

lemmas sched_defs = sched_pre_def sched_jobs_def exited_ok_def some_busy_def sched_work_def set_slot_def job_complete_def

lemma required_length: "job_required_slot slots j = Some i \<Longrightarrow> i < length slots"
  by (induction slots arbitrary: i) (auto split: if_splits)

lemma waiting_busy:
  assumes "list_all slot_ok slots" "slots \<noteq> []" "\<forall>i. \<not> eligible slots j i"
  shows "list_ex sl_busy slots"
proof -
  obtain i where i: "i < length slots" "job_required_slot slots j = None \<or> job_required_slot slots j = Some i"
    using assms(2) required_length [of slots j] by (cases "job_required_slot slots j") auto
  with assms(3) have "\<not> slot_free (slots ! i)" by (auto simp: eligible_def)
  with assms(1) i(1) have "sl_busy (slots ! i)" by (auto simp: list_all_length slot_ok_def slot_free_def)
  with i(1) show ?thesis by (auto simp: list_ex_length)
qed

lemma dispatch_queue_nil [simp]: "dispatch_jobs reuse now slots [] = (slots, [])"
  by (simp add: dispatch_jobs.simps)

lemma dispatch_locked_unchanged [simp]:
  "sc_done (dispatch_jobs_locked reuse now s) = sc_done s"
  "sc_submitted (dispatch_jobs_locked reuse now s) = sc_submitted s"
  "sc_stopping (dispatch_jobs_locked reuse now s) = sc_stopping s"
  "sc_exited (dispatch_jobs_locked reuse now s) = sc_exited s"
  by (simp_all add: dispatch_jobs_locked_def split: prod.split)

lemma dispatch_locked:
  assumes "sched_pre s"
  shows "sched_pre (dispatch_jobs_locked reuse now s)"
    and "sched_jobs (dispatch_jobs_locked reuse now s) = sched_jobs s"
    and "sc_queue (dispatch_jobs_locked reuse now s) \<noteq> [] \<longrightarrow> some_busy (dispatch_jobs_locked reuse now s)"
    and "sched_work (dispatch_jobs_locked reuse now s) \<le> sched_work s"
    and "length (sc_slots (dispatch_jobs_locked reuse now s)) = length (sc_slots s)"
proof -
  obtain slots q where d: "dispatch_jobs reuse now (sc_slots s) (sc_queue s) = (slots, q)" by fastforce
  have ok: "list_all slot_ok (sc_slots s)" "sc_slots s \<noteq> []" and ex: "exited_ok s" using assms by (simp_all add: sched_pre_def)
  note f = dispatch_facts [OF d ok(1)]
  have l: "length slots = length (sc_slots s)" using f by simp
  with ok(2) have ne: "slots \<noteq> []" by auto
  have "slots = sc_slots s \<and> q = []" if "sc_exited s \<noteq> {}"
    using that ex d by (auto simp: exited_ok_def)
  with ex have "exited_ok (s\<lparr>sc_slots := slots, sc_queue := q\<rparr>)" by (cases "sc_exited s = {}") (auto simp: exited_ok_def)
  with f ne show "sched_pre (dispatch_jobs_locked reuse now s)" by (simp add: dispatch_jobs_locked_def d sched_pre_def)
  have "mset q + held sl_assigned slots = mset (sc_queue s) + held sl_assigned (sc_slots s)"
    and "held sl_running slots = held sl_running (sc_slots s)" using f by simp_all
  then show "sched_jobs (dispatch_jobs_locked reuse now s) = sched_jobs s" by (simp add: dispatch_jobs_locked_def d sched_jobs_def)
  show "sc_queue (dispatch_jobs_locked reuse now s) \<noteq> [] \<longrightarrow> some_busy (dispatch_jobs_locked reuse now s)"
  proof
    assume "sc_queue (dispatch_jobs_locked reuse now s) \<noteq> []"
    then obtain j where "j \<in> set q" by (cases q) (auto simp: dispatch_jobs_locked_def d)
    with f waiting_busy [of slots j] ne show "some_busy (dispatch_jobs_locked reuse now s)"
      by (auto simp: dispatch_jobs_locked_def d some_busy_def)
  qed
  show "sched_work (dispatch_jobs_locked reuse now s) \<le> sched_work s" using f by (simp add: dispatch_jobs_locked_def d sched_work_def)
  show "length (sc_slots (dispatch_jobs_locked reuse now s)) = length (sc_slots s)" using l by (simp add: dispatch_jobs_locked_def d)
qed

text \<open>A dispatch from a prepared state in which the jobs balance is at rest.\<close>

lemma dispatch_at_rest:
  "sched_pre s \<Longrightarrow> sched_jobs s = sc_submitted s \<Longrightarrow> sched_ok (dispatch_jobs_locked reuse now s)"
  by (simp add: sched_ok_def dispatch_locked)

lemma set_slot_pre:
  assumes "sched_pre s" "i < length (sc_slots s)" "slot_ok sl" "i \<notin> sc_exited s"
  shows "sched_pre (set_slot s i sl)"
proof -
  from assms have "list_all slot_ok ((sc_slots s)[i := sl])" by (auto simp: sched_pre_def intro: list_all_update)
  with assms show ?thesis by (auto simp: sched_defs nth_list_update)
qed

lemma not_exited: "sched_pre s \<Longrightarrow> sl_busy (sc_slots s ! i) \<Longrightarrow> i \<notin> sc_exited s"
  by (auto simp: sched_pre_def exited_ok_def slot_free_def)

lemma pre_slot: "sched_pre s \<Longrightarrow> i < length (sc_slots s) \<Longrightarrow> slot_ok (sc_slots s ! i)"
  by (simp add: sched_pre_def list_all_length)

lemma some_busy_set: "i < length (sc_slots s) \<Longrightarrow> sl_busy sl \<Longrightarrow> some_busy (set_slot s i sl)"
  by (auto simp: some_busy_def set_slot_def list_ex_length intro!: exI [of _ i])

lemma set_slot_simps [simp]:
  "sc_queue (set_slot s i sl) = sc_queue s" "sc_submitted (set_slot s i sl) = sc_submitted s"
  "sc_done (set_slot s i sl) = sc_done s" "sc_stopping (set_slot s i sl) = sc_stopping s"
  "sc_exited (set_slot s i sl) = sc_exited s" "sc_slots (set_slot s i sl) = (sc_slots s)[i := sl]"
  by (simp_all add: set_slot_def)

lemma enqueue_ok:
  assumes "sched_ok s" "enqueue reuse now s j = Some s'"
  shows "sched_ok s'"
proof -
  let ?s = "s\<lparr>sc_queue := sc_queue s @ [j], sc_submitted := add_mset j (sc_submitted s)\<rparr>"
  from assms have "\<not> sc_stopping s" and s': "s' = dispatch_jobs_locked reuse now ?s" by (auto simp: enqueue_def split: if_splits)
  with assms(1) have "sched_pre ?s" "sched_jobs ?s = sc_submitted ?s" by (auto simp: sched_ok_def sched_defs)
  then show ?thesis unfolding s' by (rule dispatch_at_rest)
qed

lemma complete_ok:
  assumes "sched_pre s" "sc_queue s \<noteq> [] \<longrightarrow> some_busy s" "add_mset j (sched_jobs s) = sc_submitted s"
  shows "sched_ok (job_complete s j)"
  using assms by (auto simp: sched_ok_def sched_defs)


lemma take_ok:
  assumes "sched_ok s" "i < length (sc_slots s)" "sl_assigned (sc_slots s ! i) \<noteq> None"
  shows "sched_ok (worker_take s i) \<and> sched_work (worker_take s i) < sched_work s"
proof -
  let ?sl = "(sc_slots s ! i)\<lparr>sl_running := sl_assigned (sc_slots s ! i), sl_assigned := None\<rparr>"
  obtain j where j: "sl_assigned (sc_slots s ! i) = Some j" using assms(3) by auto
  have pre: "sched_pre s" and jobs: "sched_jobs s = sc_submitted s" using assms(1) by (simp_all add: sched_ok_def)
  have ok: "slot_ok (sc_slots s ! i)" using pre_slot [OF pre assms(2)] .
  then have b: "sl_busy (sc_slots s ! i)" "sl_running (sc_slots s ! i) = None" "slot_ok ?sl"
    using j by (auto simp: slot_ok_def slot_bounded_def)
  have "held sl_assigned (sc_slots s) = held sl_assigned ((sc_slots s)[i := ?sl]) + {#j#}"
    using assms(2) j by (intro held_remove) simp_all
  moreover have "held sl_running ((sc_slots s)[i := ?sl]) = held sl_running (sc_slots s) + {#j#}"
    using assms(2) j b(2) by (simp add: held_update)
  ultimately have "sched_jobs (worker_take s i) = sc_submitted (worker_take s i)"
    using jobs by (simp add: sched_jobs_def worker_take_def)
  moreover have "sched_pre (worker_take s i)" unfolding worker_take_def
    using pre assms(2) b(3) not_exited [OF pre b(1)] by (rule set_slot_pre)
  moreover have "some_busy (worker_take s i)" unfolding worker_take_def using assms(2) b(1) by (intro some_busy_set) simp_all
  moreover have "sched_work (worker_take s i) < sched_work s"
    using slots_work_update [OF assms(2), of ?sl] j b by (simp add: sched_work_def worker_take_def slot_work_def)
  ultimately show ?thesis by (simp add: sched_ok_def)
qed

lemma worker_complete_ok:
  assumes "sched_ok s" "i < length (sc_slots s)" "sl_running (sc_slots s ! i) = Some j"
  shows "sched_ok (worker_complete s i j) \<and> sched_work (worker_complete s i j) < sched_work s"
proof -
  let ?sl = "(sc_slots s ! i)\<lparr>sl_running := None\<rparr>"
  have pre: "sched_pre s" and jobs: "sched_jobs s = sc_submitted s" using assms(1) by (simp_all add: sched_ok_def)
  have ok: "slot_ok (sc_slots s ! i)" using pre_slot [OF pre assms(2)] .
  then have b: "sl_busy (sc_slots s ! i)" "sl_assigned (sc_slots s ! i) = None" "slot_ok ?sl"
    using assms(3) by (auto simp: slot_ok_def slot_bounded_def)
  have "held sl_running (sc_slots s) = held sl_running ((sc_slots s)[i := ?sl]) + {#j#}"
    using assms(2,3) by (intro held_remove) simp_all
  moreover have "held sl_assigned ((sc_slots s)[i := ?sl]) = held sl_assigned (sc_slots s)"
    using assms(2) by (intro held_same) simp_all
  ultimately have "add_mset j (sched_jobs (set_slot s i ?sl)) = sc_submitted (set_slot s i ?sl)"
    using jobs by (simp add: sched_jobs_def)
  moreover have "sched_pre (set_slot s i ?sl)"
    using pre assms(2) b(3) not_exited [OF pre b(1)] by (rule set_slot_pre)
  moreover have "some_busy (set_slot s i ?sl)" using assms(2) b(1) by (intro some_busy_set) simp_all
  ultimately have "sched_ok (worker_complete s i j)" unfolding worker_complete_def by (intro complete_ok) simp_all
  moreover have "sched_work (worker_complete s i j) < sched_work s"
    using slots_work_update [OF assms(2), of ?sl] assms(3) b
    by (simp add: sched_work_def worker_complete_def job_complete_def slot_work_def)
  ultimately show ?thesis by simp
qed

lemma release_ok:
  assumes "sched_ok s" "i < length (sc_slots s)" "sl_busy (sc_slots s ! i)"
    "sl_assigned (sc_slots s ! i) = None" "sl_running (sc_slots s ! i) = None"
  shows "sched_ok (worker_release reuse now s i) \<and> sched_work (worker_release reuse now s i) < sched_work s"
proof -
  let ?sl = "(sc_slots s ! i)\<lparr>sl_last_used := now, sl_busy := False\<rparr>"
  have pre: "sched_pre s" and jobs: "sched_jobs s = sc_submitted s" using assms(1) by (simp_all add: sched_ok_def)
  have "slot_ok ?sl" using pre_slot [OF pre assms(2)] assms(4,5) by (auto simp: slot_ok_def slot_bounded_def)
  then have pre': "sched_pre (set_slot s i ?sl)"
    using pre assms(2) not_exited [OF pre assms(3)] by (intro set_slot_pre)
  have "held sl_assigned ((sc_slots s)[i := ?sl]) = held sl_assigned (sc_slots s)"
    "held sl_running ((sc_slots s)[i := ?sl]) = held sl_running (sc_slots s)"
    using assms(2) by (simp_all add: held_same)
  then have "sched_jobs (set_slot s i ?sl) = sc_submitted (set_slot s i ?sl)" using jobs by (simp add: sched_jobs_def)
  with pre' have "sched_ok (worker_release reuse now s i)" unfolding worker_release_def by (rule dispatch_at_rest)
  moreover have "sched_work (set_slot s i ?sl) < sched_work s"
    using slots_work_update [OF assms(2), of ?sl] assms(3-5) by (simp add: sched_work_def slot_work_def)
  ultimately show ?thesis using dispatch_locked(4) [OF pre', of reuse now] by (simp add: worker_release_def)
qed

lemma find_assigned_Some: "find_assigned slots j = Some i \<Longrightarrow> i < length slots \<and> sl_assigned (slots ! i) = Some j"
  by (induction slots arbitrary: i) (auto split: if_splits)

lemma cancel_ok:
  assumes "sched_ok s"
  shows "sched_ok (server_cancel_job reuse now s j)"
proof -
  have pre: "sched_pre s" and jobs: "sched_jobs s = sc_submitted s" and q: "sc_queue s \<noteq> [] \<longrightarrow> some_busy s"
    using assms by (simp_all add: sched_ok_def)
  show ?thesis
  proof (cases "j \<in> set (sc_queue s)")
    case True
    with pre q have "sched_pre (s\<lparr>sc_queue := remove1 j (sc_queue s)\<rparr>)" "some_busy (s\<lparr>sc_queue := remove1 j (sc_queue s)\<rparr>)"
      by (auto simp: sched_pre_def exited_ok_def some_busy_def)
    moreover have "add_mset j (sched_jobs (s\<lparr>sc_queue := remove1 j (sc_queue s)\<rparr>)) = sc_submitted s"
    proof -
      have "j \<in># sc_submitted s" unfolding jobs [symmetric] sched_jobs_def using True by simp
      then show ?thesis using jobs True by (simp add: sched_jobs_def)
    qed
    ultimately show ?thesis using True by (simp add: server_cancel_job_def complete_ok)
  next
    case queued: False
    show ?thesis
    proof (cases "find_assigned (sc_slots s) j")
      case None
      with queued assms show ?thesis by (simp add: server_cancel_job_def)
    next
      case (Some i)
      let ?sl = "(sc_slots s ! i)\<lparr>sl_assigned := None, sl_busy := False\<rparr>"
      have i: "i < length (sc_slots s)" "sl_assigned (sc_slots s ! i) = Some j" using find_assigned_Some [OF Some] by auto
      have b: "sl_busy (sc_slots s ! i)" "sl_running (sc_slots s ! i) = None" "slot_ok ?sl"
        using pre_slot [OF pre i(1)] i(2) by (auto simp: slot_ok_def slot_bounded_def)
      have pre': "sched_pre (set_slot s i ?sl)"
        using pre i(1) b(3) not_exited [OF pre b(1)] by (rule set_slot_pre)
      have "held sl_assigned (sc_slots s) = held sl_assigned ((sc_slots s)[i := ?sl]) + {#j#}"
        using i by (intro held_remove) simp_all
      moreover have "held sl_running ((sc_slots s)[i := ?sl]) = held sl_running (sc_slots s)"
        using i(1) by (intro held_same) simp_all
      ultimately have "add_mset j (sched_jobs (set_slot s i ?sl)) = sc_submitted s" using jobs by (simp add: sched_jobs_def)
      with pre' have "sched_ok (job_complete (dispatch_jobs_locked reuse now (set_slot s i ?sl)) j)"
        by (intro complete_ok) (simp_all add: dispatch_locked)
      with queued Some show ?thesis by (simp add: server_cancel_job_def)
    qed
  qed
qed

lemma worker_step_ok:
  "worker_step s s' \<Longrightarrow> sched_ok s \<Longrightarrow> sched_ok s'"
proof (induction rule: worker_step.induct)
  case (leave i s)
  then show ?case by (auto simp: sched_ok_def sched_defs slot_free_def list_all_length slot_ok_def)
qed (simp_all add: take_ok worker_complete_ok release_ok)

lemma sched_step_ok: "sched_step s s' \<Longrightarrow> sched_ok s \<Longrightarrow> sched_ok s'"
proof (induction rule: sched_step.induct)
  case (generate i s sl)
  then have pre: "sched_pre s" by (simp add: sched_ok_def)
  have "slot_ok (sc_slots s ! i)" "slot_ok sl" using pre_slot [OF pre generate(1)] generate by (auto simp: slot_ok_def)
  with generate have b: "sl_busy (sc_slots s ! i)" "sl_busy sl" by (auto simp: slot_ok_def)
  from set_slot_pre [OF pre generate(1) \<open>slot_ok sl\<close> not_exited [OF pre b(1)]]
    some_busy_set [OF generate(1) b(2)] generate show ?case
    by (simp add: sched_ok_def sched_jobs_def held_same)
next
  case (stop s)
  then show ?case by (auto simp: sched_ok_def sched_defs)
qed (auto intro: enqueue_ok cancel_ok worker_step_ok)

lemma reachable_ok: "sched_reachable s \<Longrightarrow> sched_ok s"
proof (induction rule: sched_reachable.induct)
  case (init slots)
  then have "held f slots = {#}" if "\<forall>sl\<in>set slots. f sl = None" for f
    using that by (auto simp: held_def map_filter_def filter_empty_conv)
  with init show ?case
    by (auto simp: sched_ok_def sched_defs sched_init_def slot_fresh_def slot_ok_def list_all_iff)
qed (rule sched_step_ok)


lemma stuck_idle:
  assumes "sched_ok s" "\<nexists>s'. worker_step s s'"
  shows "sc_queue s = [] \<and> sc_done s = sc_submitted s \<and> (sc_stopping s \<longrightarrow> {..<length (sc_slots s)} \<subseteq> sc_exited s)"
proof -
  have idle: "sl_assigned (sc_slots s ! i) = None \<and> sl_running (sc_slots s ! i) = None \<and> \<not> sl_busy (sc_slots s ! i)"
    if "i < length (sc_slots s)" for i
    using assms(2) that by (metis not_None_eq take complete release)
  then have "held sl_assigned (sc_slots s) = {#}" "held sl_running (sc_slots s) = {#}"
    by (auto simp: held_def map_filter_def filter_empty_conv in_set_conv_nth)
  moreover have q: "sc_queue s = []" using assms(1) idle by (auto simp: sched_ok_def some_busy_def list_ex_length)
  moreover have "i \<in> sc_exited s" if "sc_stopping s" "i < length (sc_slots s)" for i
    using assms(2) idle that q by (metis leave)
  ultimately show ?thesis using assms(1) by (auto simp: sched_ok_def sched_jobs_def)
qed

subsection \<open>Properties\<close>

text \<open>
  C15: At every moment of every run (any interleaving of submissions, cancellations, generations,
  workers and the stop request) each accepted job is in exactly one place: waiting in the queue,
  assigned to a slot, running on a slot, or completed, and counted once; a slot never has an assigned
  and a running job at once and is busy while it has either; a worker that left its loop never
  gets a job; and when a job waits some slot is busy, so a release will dispatch again.
\<close>

theorem scheduler_exactly_once:
  assumes "sched_reachable s"
  shows "mset (sc_queue s) + held sl_assigned (sc_slots s) + held sl_running (sc_slots s) + sc_done s = sc_submitted s
    \<and> (\<forall>sl\<in>set (sc_slots s). (sl_assigned sl = None \<or> sl_running sl = None)
         \<and> (sl_assigned sl \<noteq> None \<or> sl_running sl \<noteq> None \<longrightarrow> sl_busy sl))
    \<and> (\<forall>i\<in>sc_exited s. sl_assigned (sc_slots s ! i) = None \<and> sl_running (sc_slots s ! i) = None \<and> sc_queue s = [])
    \<and> (sc_queue s \<noteq> [] \<longrightarrow> (\<exists>sl\<in>set (sc_slots s). sl_busy sl))"
  using reachable_ok [OF assms]
  by (auto simp: sched_ok_def sched_defs list_all_iff list_ex_iff slot_ok_def slot_free_def)

text \<open>
  C16: Dispatch is complete and respects live continuations: after it no waiting job could start on a free
  slot, every slot it changed was free and got a job of the queue whose required slot, if it has
  one, is that slot, the jobs are the same ones, and no slot loses a job it runs.
\<close>

theorem dispatch_complete:
  assumes "dispatch_jobs reuse now slots q = (slots', q')" "list_all slot_ok slots"
  shows "(\<forall>j\<in>set q'. \<forall>i<length slots'. \<not> sl_busy (slots' ! i) \<and> sl_assigned (slots' ! i) = None \<longrightarrow>
            job_required_slot slots' j \<noteq> None \<and> job_required_slot slots' j \<noteq> Some i)
    \<and> (\<forall>i<length slots. slots' ! i \<noteq> slots ! i \<longrightarrow>
         (\<exists>j\<in>set q. \<not> sl_busy (slots ! i) \<and> sl_assigned (slots' ! i) = Some j
            \<and> (job_required_slot slots j = None \<or> job_required_slot slots j = Some i)))
    \<and> mset q' + held sl_assigned slots' = mset q + held sl_assigned slots
    \<and> held sl_running slots' = held sl_running slots"
proof (intro conjI)
  note f = dispatch_facts [OF assms]
  show "\<forall>j\<in>set q'. \<forall>i<length slots'. \<not> sl_busy (slots' ! i) \<and> sl_assigned (slots' ! i) = None \<longrightarrow>
      job_required_slot slots' j \<noteq> None \<and> job_required_slot slots' j \<noteq> Some i"
  proof -
    have "\<forall>j\<in>set q'. \<forall>i. \<not> eligible slots' j i" using f by blast
    then show ?thesis unfolding eligible_def slot_free_def by meson
  qed
  show "\<forall>i<length slots. slots' ! i \<noteq> slots ! i \<longrightarrow> (\<exists>j\<in>set q. \<not> sl_busy (slots ! i) \<and> sl_assigned (slots' ! i) = Some j
      \<and> (job_required_slot slots j = None \<or> job_required_slot slots j = Some i))"
  proof -
    have "\<forall>i<length slots. slots' ! i = slots ! i \<or> (\<exists>j\<in>set q. slot_free (slots ! i)
        \<and> slots' ! i = (slots ! i)\<lparr>sl_assigned := Some j, sl_busy := True\<rparr>
        \<and> (job_required_slot slots j = None \<or> job_required_slot slots j = Some i))" using f by blast
    then show ?thesis by (fastforce simp: slot_free_def)
  qed
  show "mset q' + held sl_assigned slots' = mset q + held sl_assigned slots" using f by simp
  show "held sl_running slots' = held sl_running slots" using f by simp
qed

text \<open>
  C17: The scheduler drains: from any reachable state, each step of a worker that handles a job makes
  the remaining work smaller, the other worker step only retires a worker, and when no worker can
  move every accepted job is completed; if the server is stopping all workers have then exited.
\<close>

theorem scheduler_drains:
  assumes "sched_reachable s"
  shows "(\<forall>s'. worker_step s s' \<longrightarrow> sched_work s' < sched_work s
           \<or> sched_work s' = sched_work s \<and> card ({..<length (sc_slots s)} - sc_exited s') < card ({..<length (sc_slots s)} - sc_exited s))
    \<and> ((\<nexists>s'. worker_step s s') \<longrightarrow> sc_queue s = [] \<and> sc_done s = sc_submitted s
         \<and> (sc_stopping s \<longrightarrow> {..<length (sc_slots s)} \<subseteq> sc_exited s))"
proof (intro conjI impI allI)
  note ok = reachable_ok [OF assms]
  fix s' assume "worker_step s s'"
  then show "sched_work s' < sched_work s
      \<or> sched_work s' = sched_work s \<and> card ({..<length (sc_slots s)} - sc_exited s') < card ({..<length (sc_slots s)} - sc_exited s)"
    using ok
  proof (induction rule: worker_step.induct)
    case (leave i s)
    then have "{..<length (sc_slots s)} - insert i (sc_exited s) \<subset> {..<length (sc_slots s)} - sc_exited s" by auto
    then show ?case by (simp add: sched_work_def psubset_card_mono)
  qed (simp_all add: take_ok worker_complete_ok release_ok)
next
  assume stuck: "\<nexists>s'. worker_step s s'"
  note ok = reachable_ok [OF assms]
  note idle = stuck_idle [OF ok stuck]
  then show "sc_queue s = []" "sc_done s = sc_submitted s" "sc_stopping s \<Longrightarrow> {..<length (sc_slots s)} \<subseteq> sc_exited s"
    by simp_all
qed


subsection \<open>Witnesses\<close>

text \<open>One slot and two jobs: the first is assigned, the second waits.\<close>

definition demo_job :: "nat \<Rightarrow> job" where
  "demo_job n = \<lparr>jb_id = n, jb_responses_requires_live = False, jb_responses_call_ids = [],
     jb_anthropic_requires_live = False, jb_anthropic_call_ids = []\<rparr>"

definition demo_slot :: slot where
  "demo_slot = \<lparr>sl_responses_live = \<lparr>lt_valid = False, lt_call_ids = []\<rparr>,
     sl_anthropic_live = \<lparr>lt_valid = False, lt_call_ids = []\<rparr>, sl_live = 0, sl_last_used = 0,
     sl_assigned = None, sl_running = None, sl_busy = False\<rparr>"

definition demo_assigned :: slot where
  "demo_assigned = demo_slot\<lparr>sl_assigned := Some (demo_job 2), sl_busy := True\<rparr>"

definition demo_sched :: sched where
  "demo_sched = \<lparr>sc_queue = [demo_job 3], sc_slots = [demo_assigned], sc_stopping = False, sc_exited = {},
     sc_submitted = {#demo_job 2, demo_job 3#}, sc_done = {#}\<rparr>"

lemma demo_dispatch:
  "dispatch_jobs (\<lambda>_ _. 0) 0 [demo_slot] [demo_job 2] = ([demo_assigned], [])"
  "dispatch_jobs (\<lambda>_ _. 0) 0 [demo_assigned] [demo_job 3] = ([demo_assigned], [demo_job 3])"
  "dispatch_jobs (\<lambda>_ _. 0) 0 [demo_slot] [demo_job 2, demo_job 3] = ([demo_assigned], [demo_job 3])"
  by code_simp+

lemma demo_reachable: "sched_reachable demo_sched"
proof -
  let ?s1 = "\<lparr>sc_queue = [], sc_slots = [demo_assigned], sc_stopping = False, sc_exited = {}, sc_submitted = {#demo_job 2#}, sc_done = {#}\<rparr>"
  have "slot_fresh demo_slot" by code_simp
  then have "sched_reachable (sched_init [demo_slot])" by (intro init) simp_all
  moreover have "enqueue (\<lambda>_ _. 0) 0 (sched_init [demo_slot]) (demo_job 2) = Some ?s1"
    by (simp add: enqueue_def dispatch_jobs_locked_def sched_init_def demo_dispatch)
  ultimately have "sched_reachable ?s1" by (blast intro: step submit)
  moreover have "enqueue (\<lambda>_ _. 0) 0 ?s1 (demo_job 3) = Some demo_sched"
    by (simp add: enqueue_def dispatch_jobs_locked_def demo_dispatch demo_sched_def add_mset_commute)
  ultimately show ?thesis by (blast intro: step submit)
qed

theorem scheduler_exactly_once_witness:
  "mset [demo_job 3] + held sl_assigned (sc_slots demo_sched) + held sl_running (sc_slots demo_sched) + sc_done demo_sched
     = {#demo_job 2, demo_job 3#} \<and> list_ex sl_busy (sc_slots demo_sched)"
  using scheduler_exactly_once [OF demo_reachable] by (simp add: demo_sched_def demo_assigned_def)

theorem dispatch_complete_witness:
  "mset [demo_job 3] + held sl_assigned [demo_assigned] = mset [demo_job 2, demo_job 3] + held sl_assigned [demo_slot]"
proof -
  have "list_all slot_ok [demo_slot]" by code_simp
  from dispatch_complete [OF demo_dispatch(3) this] show ?thesis by blast
qed

theorem scheduler_drains_witness:
  "sched_work (worker_take demo_sched 0) < sched_work demo_sched \<and> (\<exists>s'. worker_step demo_sched s')"
proof -
  have t: "worker_step demo_sched (worker_take demo_sched 0)"
    by (rule take) (simp_all add: demo_sched_def demo_assigned_def)
  moreover have "sc_exited (worker_take demo_sched 0) = sc_exited demo_sched" by (simp add: worker_take_def)
  ultimately show ?thesis using scheduler_drains [OF demo_reachable] by auto
qed

end
