(* ===== verification/ToolMap.thy ===== *)
theory ToolMap
  imports ToolMemory KvCheckpoint ChatParse
begin

text \<open>
  The tool-id section of a checkpoint (\<open>ds4_server.c\<close>, \<open>kv_tool_map_*\<close>): when a checkpoint is written, the
  memory entries whose block occurs in its text are appended to the file; when it is loaded, or when
  a request mentions tool calls the memory does not know, they are put back. Also the use of the
  memory: the sampled text is attached to the assistant messages of a request. Writing to the file
  is taken to succeed; reading may meet a file of any content. A file is a list of bytes, a C string
  read from it ends at its first NUL.
\<close>

subsection \<open>Finding the blocks of a text\<close>

definition tool_call_open :: string where
  "tool_call_open = ''<tool_call>''"

definition tool_call_close :: string where
  "tool_call_close = ''</tool_call>''"

definition find_next_dsml_tool_block :: "string \<Rightarrow> (string \<times> string) option" where
  "find_next_dsml_tool_block p =
     (case c_strstr p tool_call_open of
        None \<Rightarrow> None
      | Some s \<Rightarrow> (case c_strstr s tool_call_close of
          None \<Rightarrow> None
        | Some e \<Rightarrow>
            let r = drop (length tool_call_close) e;
                off = length p - length s;
                begin_off = (if 2 \<le> off \<and> p ! (off - 2) = CHR 0x0A \<and> p ! (off - 1) = CHR 0x0A then off - 2 else off)
            in Some (take (length p - length r - begin_off) (drop begin_off p), r)))"

lemma c_strstr_length: "c_strstr s p = Some t \<Longrightarrow> length t \<le> length s"
  using c_strstr_SomeD by fastforce

lemma find_next_shorter: "find_next_dsml_tool_block p = Some (d, r) \<Longrightarrow> length r < length p"
proof -
  assume "find_next_dsml_tool_block p = Some (d, r)"
  then obtain s e where s: "c_strstr p tool_call_open = Some s" and e: "c_strstr s tool_call_close = Some e"
    and r: "r = drop (length tool_call_close) e"
    by (auto simp: find_next_dsml_tool_block_def Let_def split: option.splits)
  have "starts_with e tool_call_close" using c_strstr_SomeD [OF e] by blast
  then have "length tool_call_close \<le> length e" by (rule starts_with_length)
  with c_strstr_length [OF s] c_strstr_length [OF e] r show ?thesis by (auto simp: tool_call_close_def)
qed

text \<open>One pass over the text: each known block that this pass has not seen yet gives its entries.\<close>

function tool_map_scan :: "u64 \<Rightarrow> string \<Rightarrow> tool_memory \<Rightarrow> tool_memory \<times> (string \<times> string) list" where
  "tool_map_scan scan p m =
     (case find_next_dsml_tool_block p of
        None \<Rightarrow> (m, [])
      | Some (d, r) \<Rightarrow>
          (case tool_memory_find_block m d of
             None \<Rightarrow> tool_map_scan scan r m
           | Some b \<Rightarrow>
               if tb_seen b = scan then tool_map_scan scan r m
               else let (m', l) = tool_map_scan scan r (tool_memory_set_block d (b\<lparr>tb_seen := scan\<rparr>) m)
                    in (m', map (\<lambda>i. (i, d)) (tb_entries b) @ l)))"
  by pat_completeness auto
termination
  by (relation "measure (\<lambda>(_, p, _). length p)") (auto dest: find_next_shorter)

declare tool_map_scan.simps [simp del]

subsection \<open>Measuring and writing\<close>

definition KV_TOOL_MAP_HEADER :: nat where
  "KV_TOOL_MAP_HEADER = 8"

definition record_fits :: "string \<times> string \<Rightarrow> bool" where
  "record_fits r \<longleftrightarrow> length (fst r) \<le> 4294967295 \<and> length (snd r) \<le> 4294967295"

fun tool_map_measure_loop :: "(string \<times> string) list \<Rightarrow> u32 \<Rightarrow> u64 \<Rightarrow> (u32 \<times> u64) option" where
  "tool_map_measure_loop [] count bs = Some (count, bs)"
| "tool_map_measure_loop ((i, d) # l) count bs =
     (if \<not> record_fits (i, d) then tool_map_measure_loop l count bs
      else if count = - 1 then None
      else if - 1 - bs < 8 \<or> - 1 - bs - 8 < of_nat (length i) \<or> - 1 - bs - 8 - of_nat (length i) < of_nat (length d) then None
      else tool_map_measure_loop l (count + 1) (bs + (8 + of_nat (length i) + of_nat (length d))))"

definition kv_tool_map_measure :: "tool_memory \<Rightarrow> string \<Rightarrow> tool_memory \<times> (u32 \<times> u64) option" where
  "kv_tool_map_measure m t =
     (let m = m\<lparr>tm_scan_clock := tm_scan_clock m + 1\<rparr>;
          (m, l) = tool_map_scan (tm_scan_clock m) t m
      in (m, case tool_map_measure_loop l 0 (of_nat KV_TOOL_MAP_HEADER) of
               None \<Rightarrow> None
             | Some (count, bs) \<Rightarrow> Some (count, if count = 0 then 0 else bs)))"

definition kv_tool_map_serialized_size :: "bool \<Rightarrow> tool_memory \<Rightarrow> string \<Rightarrow> tool_memory \<times> u64 option" where
  "kv_tool_map_serialized_size disabled m t =
     (if disabled \<or> t = [] then (m, Some 0)
      else let (m, r) = kv_tool_map_measure m t in (m, map_option snd r))"

definition bytes_of :: "string \<Rightarrow> bytes" where
  "bytes_of s = map (\<lambda>c. of_nat (of_char c)) s"

definition tool_map_record :: "string \<times> string \<Rightarrow> bytes" where
  "tool_map_record r =
     (let (i, d) = r in
      if \<not> record_fits (i, d) then []
      else ds4_kvstore_le_put32 (of_nat (length i)) @ ds4_kvstore_le_put32 (of_nat (length d)) @ bytes_of i @ bytes_of d)"

definition tool_map_header :: "u32 \<Rightarrow> bytes" where
  "tool_map_header count = [0x4B, 0x54, 0x4D, 1] @ ds4_kvstore_le_put32 count"

definition kv_tool_map_write :: "bool \<Rightarrow> tool_memory \<Rightarrow> string \<Rightarrow> tool_memory \<times> (bytes \<times> u64) option" where
  "kv_tool_map_write disabled m t =
     (if disabled \<or> t = [] then (m, Some ([], 0))
      else case kv_tool_map_measure m t of
        (m, None) \<Rightarrow> (m, None)
      | (m, Some (count, bs)) \<Rightarrow>
          if count = 0 then (m, Some ([], 0))
          else let m = m\<lparr>tm_scan_clock := tm_scan_clock m + 1\<rparr>;
                   (m, l) = tool_map_scan (tm_scan_clock m) t m
               in (m, Some (tool_map_header count @ concat (map tool_map_record l), bs)))"

subsection \<open>Loading\<close>

definition c_string :: "bytes \<Rightarrow> string" where
  "c_string bs = map (\<lambda>b. char_of (unat b)) (takeWhile (\<lambda>b. b \<noteq> 0) bs)"

text \<open>One record: the two lengths with their limits, the two strings; \<open>None\<close> stops the load.\<close>

definition tool_map_read_record :: "bytes \<Rightarrow> ((string \<times> string) \<times> bytes) option" where
  "tool_map_read_record fp =
     (if length fp < 8 then None
      else
        let id_len = unat (ds4_kvstore_le_get32 (take 4 fp));
            dsml_len = unat (ds4_kvstore_le_get32 (take 4 (drop 4 fp)));
            fp = drop 8 fp
        in if id_len = 0 \<or> 256 < id_len \<or> dsml_len = 0 \<or> DS4_TOOL_MEMORY_MAX_BYTES < dsml_len then None
           else if length fp < id_len + dsml_len then None
           else Some ((c_string (take id_len fp), c_string (take dsml_len (drop id_len fp))), drop (id_len + dsml_len) fp))"

definition tool_map_wanted :: "string list option \<Rightarrow> string \<Rightarrow> bool" where
  "tool_map_wanted wanted i \<longleftrightarrow> (case wanted of None \<Rightarrow> True | Some ids \<Rightarrow> id_list_contains ids i)"

fun tool_map_load_records :: "string list option \<Rightarrow> nat \<Rightarrow> bytes \<Rightarrow> nat \<Rightarrow> tool_memory \<Rightarrow> nat \<times> tool_memory" where
  "tool_map_load_records wanted 0 fp loaded m = (loaded, m)"
| "tool_map_load_records wanted (Suc n) fp loaded m =
     (case tool_map_read_record fp of
        None \<Rightarrow> (loaded, m)
      | Some ((i, d), fp) \<Rightarrow>
          if tool_map_wanted wanted i
          then tool_map_load_records wanted n fp (loaded + 1) (tool_memory_put_source False i d TOOL_MEMORY_DISK m)
          else tool_map_load_records wanted n fp loaded m)"

definition kv_tool_map_load_from_pos :: "bool \<Rightarrow> bytes \<Rightarrow> string list option \<Rightarrow> tool_memory \<Rightarrow> nat \<times> tool_memory" where
  "kv_tool_map_load_from_pos disabled fp wanted m =
     (if disabled then (0, m)
      else if length fp < KV_TOOL_MAP_HEADER then (0, m)
      else if take 4 fp \<noteq> [0x4B, 0x54, 0x4D, 1] then (0, m)
      else
        let count = unat (ds4_kvstore_le_get32 (take 4 (drop 4 fp)))
        in if nat (tool_memory_max_entries m) * 4 < count then (0, m)
           else tool_map_load_records wanted count (drop 8 fp) 0 m)"

subsection \<open>What one pass visits\<close>

function tool_map_blocks :: "string \<Rightarrow> string list" where
  "tool_map_blocks p = (case find_next_dsml_tool_block p of None \<Rightarrow> [] | Some (d, r) \<Rightarrow> d # tool_map_blocks r)"
  by pat_completeness auto
termination
  by (relation "measure length") (auto dest: find_next_shorter)

declare tool_map_blocks.simps [simp del]

definition known_blocks :: "tool_memory \<Rightarrow> string \<Rightarrow> string list option" where
  "known_blocks m d = map_option tb_entries (tool_memory_find_block m d)"

definition seen_blocks :: "u64 \<Rightarrow> tool_memory \<Rightarrow> string set" where
  "seen_blocks scan m = {d. \<exists>b. tool_memory_find_block m d = Some b \<and> tb_seen b = scan}"

fun visit_blocks :: "(string \<Rightarrow> string list option) \<Rightarrow> string set \<Rightarrow> string list \<Rightarrow> (string \<times> string) list" where
  "visit_blocks known seen [] = []"
| "visit_blocks known seen (d # ds) =
     (case known d of
        None \<Rightarrow> visit_blocks known seen ds
      | Some ids \<Rightarrow> if d \<in> seen then visit_blocks known seen ds
                    else map (\<lambda>i. (i, d)) ids @ visit_blocks known (insert d seen) ds)"

lemma set_visit_blocks:
  "set (visit_blocks known seen ds) = {(i, d). d \<in> set ds \<and> d \<notin> seen \<and> (\<exists>ids. known d = Some ids \<and> i \<in> set ids)}"
  by (induction ds arbitrary: seen) (auto split: option.split)

lemma distinct_visit_blocks:
  assumes "\<And>d ids. known d = Some ids \<Longrightarrow> distinct ids \<and> (\<forall>i\<in>set ids. owner i = d)"
  shows "distinct (map fst (visit_blocks known seen ds))"
proof (induction ds arbitrary: seen)
  case (Cons d ds)
  show ?case
  proof (cases "known d")
    case (Some ids)
    have "set ids \<inter> fst ` set (visit_blocks known (insert d seen) ds) = {}"
    proof -
      have "owner i = c \<and> c \<noteq> d" if "(i, c) \<in> set (visit_blocks known (insert d seen) ds)" for i c
        using assms that by (auto simp: set_visit_blocks)
      with assms [OF Some] show ?thesis by fastforce
    qed
    with Some Cons.IH assms [OF Some] show ?thesis by (simp add: comp_def)
  qed (simp add: Cons.IH)
qed simp

lemma find_set_block:
  assumes "tool_memory_find_block m d = Some b"
  shows "tool_memory_find_block (tool_memory_set_block d b' m) c = (if c = d then Some b' else tool_memory_find_block m c)"
  using assms by (auto simp: tool_memory_find_block_def tool_memory_set_block_def split: if_splits)

lemma set_block_known:
  assumes "tool_memory_find_block m d = Some b"
  shows "known_blocks (tool_memory_set_block d (b\<lparr>tb_seen := scan\<rparr>) m) = known_blocks m"
    and "seen_blocks scan (tool_memory_set_block d (b\<lparr>tb_seen := scan\<rparr>) m) = insert d (seen_blocks scan m)"
  using assms by (auto simp: known_blocks_def seen_blocks_def tool_memory_find_block_def tool_memory_set_block_def fun_eq_iff
      split: if_splits)

definition same_contents :: "tool_memory \<Rightarrow> tool_memory \<Rightarrow> bool" where
  "same_contents m m' \<longleftrightarrow> known_blocks m' = known_blocks m \<and> tm_by_id m' = tm_by_id m \<and> tm_order m' = tm_order m
     \<and> tm_scan_clock m' = tm_scan_clock m"

lemma scan_spec:
  "snd (tool_map_scan scan p m) = visit_blocks (known_blocks m) (seen_blocks scan m) (tool_map_blocks p)
   \<and> same_contents m (fst (tool_map_scan scan p m))
   \<and> ((\<forall>d b. tool_memory_find_block m d = Some b \<longrightarrow> tb_seen b \<le> scan) \<longrightarrow>
       (\<forall>d b. tool_memory_find_block (fst (tool_map_scan scan p m)) d = Some b \<longrightarrow> tb_seen b \<le> scan))"
proof (induction scan p m rule: tool_map_scan.induct)
  case (1 scan p m)
  show ?case
  proof (cases "find_next_dsml_tool_block p")
    case None
    then show ?thesis by (simp add: tool_map_scan.simps [of scan p m] tool_map_blocks.simps [of p] same_contents_def)
  next
    case (Some dr)
    obtain d r where dr: "dr = (d, r)" by (cases dr)
    note Some = Some [unfolded dr]
    have blocks: "tool_map_blocks p = d # tool_map_blocks r" by (simp add: tool_map_blocks.simps [of p] Some)
    show ?thesis
    proof (cases "tool_memory_find_block m d")
      case None
      with "1.IH"(1) [OF Some refl None] show ?thesis
        by (simp add: tool_map_scan.simps [of scan p m] Some blocks known_blocks_def)
    next
      case b: (Some b)
      show ?thesis
      proof (cases "tb_seen b = scan")
        case True
        with "1.IH"(2) [OF Some refl b True] b show ?thesis
          by (simp add: tool_map_scan.simps [of scan p m] Some blocks known_blocks_def seen_blocks_def)
      next
        case False
        let ?m = "tool_memory_set_block d (b\<lparr>tb_seen := scan\<rparr>) m"
        note ih = "1.IH"(3) [OF Some refl b False, unfolded set_block_known [OF b]]
        have new: "d \<notin> seen_blocks scan m" "known_blocks m d = Some (tb_entries b)"
          using b False by (simp_all add: seen_blocks_def known_blocks_def)
        have f: "fst (tool_map_scan scan p m) = fst (tool_map_scan scan r ?m)"
          and l: "snd (tool_map_scan scan p m) = map (\<lambda>i. (i, d)) (tb_entries b) @ snd (tool_map_scan scan r ?m)"
          by (simp_all add: tool_map_scan.simps [of scan p m] Some b False split: prod.split)
        show ?thesis unfolding f l blocks
        proof (intro conjI impI)
          show "map (\<lambda>i. (i, d)) (tb_entries b) @ snd (tool_map_scan scan r ?m)
              = visit_blocks (known_blocks m) (seen_blocks scan m) (d # tool_map_blocks r)"
            using ih new by simp
          show "same_contents m (fst (tool_map_scan scan r ?m))"
            using ih set_block_known(1) [OF b, of scan] by (simp add: same_contents_def tool_memory_set_block_def)
          assume "\<forall>c x. tool_memory_find_block m c = Some x \<longrightarrow> tb_seen x \<le> scan"
          then have "\<forall>c x. tool_memory_find_block ?m c = Some x \<longrightarrow> tb_seen x \<le> scan"
            using find_set_block [OF b] by (simp split: if_splits)
          then show "\<forall>c x. tool_memory_find_block (fst (tool_map_scan scan r ?m)) c = Some x \<longrightarrow> tb_seen x \<le> scan"
            using ih by blast
        qed
      qed
    qed
  qed
qed

lemma visited_spec:
  assumes "tm_ok m"
  shows "set (visit_blocks (known_blocks m) {} ds) = {(i, tm_text m i) |i. i \<in> set (tm_order m) \<and> tm_text m i \<in> set ds}"
    and "distinct (map fst (visit_blocks (known_blocks m) {} ds))"
proof -
  have k: "distinct ids \<and> set ids = {i \<in> set (tm_order m). tm_text m i = d}" if "known_blocks m d = Some ids" for d ids
    using that assms by (auto simp: known_blocks_def tool_memory_find_block_def tm_ok_def block_ok_def split: if_splits)
  have e: "\<exists>ids. known_blocks m (tm_text m i) = Some ids" if "i \<in> set (tm_order m)" for i
  proof -
    have "tm_text m i \<noteq> []" "tm_by_block m (tm_text m i) \<noteq> None" using assms that unfolding tm_ok_def by blast+
    then show ?thesis by (auto simp: known_blocks_def tool_memory_find_block_def)
  qed
  show "set (visit_blocks (known_blocks m) {} ds) = {(i, tm_text m i) |i. i \<in> set (tm_order m) \<and> tm_text m i \<in> set ds}"
  proof -
    have "(i, d) \<in> set (visit_blocks (known_blocks m) {} ds) \<longleftrightarrow> i \<in> set (tm_order m) \<and> tm_text m i = d \<and> d \<in> set ds" for i d
    proof (cases "known_blocks m d")
      case None
      with e [of i] show ?thesis by (simp add: set_visit_blocks) (metis option.distinct(1))
    next
      case (Some ids)
      with k [OF Some] show ?thesis by (simp add: set_visit_blocks) blast
    qed
    then show ?thesis by auto
  qed
  show "distinct (map fst (visit_blocks (known_blocks m) {} ds))"
    by (rule distinct_visit_blocks [where owner = "tm_text m"]) (use k in auto)
qed


subsection \<open>Sizes and records\<close>

lemma length_record: "record_fits r \<Longrightarrow> length (tool_map_record r) = 8 + length (fst r) + length (snd r)"
  by (cases r) (simp add: tool_map_record_def bytes_of_def)

lemma record_skipped: "\<not> record_fits r \<Longrightarrow> tool_map_record r = []"
  by (cases r) (simp add: tool_map_record_def)

lemma no_overflow:
  fixes bs :: u64
  assumes "a \<le> 4294967295" "b \<le> 4294967295"
    "\<not> - 1 - bs < 8" "\<not> - 1 - bs - 8 < of_nat a" "\<not> - 1 - bs - 8 - of_nat a < of_nat b"
  shows "unat (bs + (8 + of_nat a + of_nat b)) = unat bs + (8 + a + b)"
proof -
  have ab: "unat (of_nat a :: u64) = a" "unat (of_nat b :: u64) = b" using assms(1,2) by (simp_all add: unat_of_nat)
  have m: "unat (- 1 - bs) = 2 ^ 64 - 1 - unat bs"
    using unat_sub [of bs "- 1"] by (simp add: unsigned_minus_1_eq_mask mask_eq_exp_minus_1)
  have 8: "8 \<le> 2 ^ 64 - 1 - unat bs" using assms(3) by (simp add: word_less_nat_alt m)
  have m8: "unat (- 1 - bs - 8) = 2 ^ 64 - 1 - unat bs - 8"
    using unat_sub [of 8 "- 1 - bs"] assms(3) unfolding m not_less by simp
  have a: "a \<le> 2 ^ 64 - 1 - unat bs - 8" using assms(4) unfolding word_less_nat_alt m8 ab not_less by simp
  have ma: "unat (- 1 - bs - 8 - of_nat a) = 2 ^ 64 - 1 - unat bs - 8 - a"
    using unat_sub [of "of_nat a" "- 1 - bs - 8"] assms(4) unfolding m8 ab not_less by simp
  have b: "b \<le> 2 ^ 64 - 1 - unat bs - 8 - a" using assms(5) unfolding word_less_nat_alt ma ab not_less by simp
  have sum: "unat (8 + of_nat a + of_nat b :: u64) = 8 + a + b"
    using assms(1,2) by (simp add: unat_word_ariths ab)
  have "unat bs + (8 + a + b) < 18446744073709551616" using 8 a b by simp
  then show ?thesis using unat_plus_64 [of bs "8 + of_nat a + of_nat b"] unfolding sum by simp
qed

lemma measure_loop:
  assumes "tool_map_measure_loop l count bs = Some (count', bs')"
  shows "unat count' = unat count + length (filter record_fits l)
    \<and> unat bs' = unat bs + length (concat (map tool_map_record l))"
  using assms
proof (induction l count bs rule: tool_map_measure_loop.induct)
  case (2 i d l count bs)
  show ?case
  proof (cases "record_fits (i, d)")
    case False
    with 2 show ?thesis by (simp add: record_skipped)
  next
    case True
    have c: "count \<noteq> - 1" and b: "\<not> - 1 - bs < 8" "\<not> - 1 - bs - 8 < of_nat (length i)" "\<not> - 1 - bs - 8 - of_nat (length i) < of_nat (length d)"
      using "2.prems" True by (auto split: if_splits)
    have r: "tool_map_measure_loop l (count + 1) (bs + (8 + of_nat (length i) + of_nat (length d))) = Some (count', bs')"
      using "2.prems" True c b by (simp split: if_splits)
    have "unat (count + 1) = unat count + 1" 
    proof -
      have "1 + count \<noteq> 0" using c by (simp add: add_eq_0_iff)
      then show ?thesis using unatSuc [of count] by (simp add: add.commute)
    qed
    moreover have "unat (bs + (8 + of_nat (length i) + of_nat (length d))) = unat bs + (8 + length i + length d)"
      using True b by (intro no_overflow) (auto simp: record_fits_def)
    ultimately show ?thesis using "2.IH"(2) [of] r True c b by (auto simp: length_record)
  qed
qed simp


lemma concat_records_filter: "concat (map tool_map_record l) = concat (map tool_map_record (filter record_fits l))"
  by (induction l) (auto simp: record_skipped)

definition scan_fresh :: "tool_memory \<Rightarrow> bool" where
  "scan_fresh m \<longleftrightarrow> unat (tm_scan_clock m) + 2 < 18446744073709551616
     \<and> (\<forall>d b. tool_memory_find_block m d = Some b \<longrightarrow> tb_seen b \<le> tm_scan_clock m)"

lemma seen_none:
  assumes "\<forall>d b. tool_memory_find_block m d = Some b \<longrightarrow> tb_seen b \<le> scan" "scan < scan'"
  shows "seen_blocks scan' m = {}"
proof -
  have "d \<notin> seen_blocks scan' m" for d
  proof
    assume "d \<in> seen_blocks scan' m"
    then obtain b where "tool_memory_find_block m d = Some b" "tb_seen b = scan'" by (auto simp: seen_blocks_def)
    with assms have "scan' \<le> scan" by metis
    with assms(2) show False by simp
  qed
  then show ?thesis by blast
qed

text \<open>Both passes of a write visit the same records.\<close>

lemma write_spec:
  assumes "kv_tool_map_write False m t = (m', Some (out, n))" "scan_fresh m"
  defines "rs \<equiv> filter record_fits (visit_blocks (known_blocks m) {} (tool_map_blocks t))"
  shows "unat n = length out \<and> length rs < 4294967296 \<and> (rs = [] \<longrightarrow> out = [])
    \<and> (out = [] \<and> (t = [] \<or> rs = []) \<or> out = tool_map_header (of_nat (length rs)) @ concat (map tool_map_record rs))"
    and "tm_by_id m' = tm_by_id m \<and> tm_order m' = tm_order m"
proof -
  let ?v = "visit_blocks (known_blocks m) {} (tool_map_blocks t)"
  let ?m1 = "m\<lparr>tm_scan_clock := tm_scan_clock m + 1\<rparr>"
  have find1: "tool_memory_find_block (x\<lparr>tm_scan_clock := c\<rparr>) = tool_memory_find_block x" for x c
    by (simp add: tool_memory_find_block_def fun_eq_iff)
  have k1: "known_blocks (x\<lparr>tm_scan_clock := c\<rparr>) = known_blocks x" "seen_blocks s (x\<lparr>tm_scan_clock := c\<rparr>) = seen_blocks s x" for x c s
    by (simp_all add: known_blocks_def seen_blocks_def find1 fun_eq_iff)
  obtain m2 l where scan1: "tool_map_scan (tm_scan_clock m + 1) t ?m1 = (m2, l)" by fastforce
  have old: "\<forall>d b. tool_memory_find_block m d = Some b \<longrightarrow> tb_seen b \<le> tm_scan_clock m"
    and c1: "tm_scan_clock m < tm_scan_clock m + 1" and c2: "tm_scan_clock m + 1 < tm_scan_clock m + 1 + 1"
    using assms(2) clock_less [of "tm_scan_clock m"] clock_less [of "tm_scan_clock m + 1"]
      unat_plus_64 [of "tm_scan_clock m" 1] by (simp_all add: scan_fresh_def)
  note s1 = scan_spec [of "tm_scan_clock m + 1" t ?m1, unfolded scan1 fst_conv snd_conv k1 find1]
  have l: "l = ?v" using s1 seen_none [OF old c1] by simp
  have m2: "known_blocks m2 = known_blocks m" "tm_by_id m2 = tm_by_id m" "tm_order m2 = tm_order m"
    "tm_scan_clock m2 = tm_scan_clock m + 1"
    using s1 k1(1) by (simp_all add: same_contents_def)
  have old2: "\<forall>d b. tool_memory_find_block m2 d = Some b \<longrightarrow> tb_seen b \<le> tm_scan_clock m + 1"
    using s1 old c1 by (meson order.trans less_imp_le)
  let ?m3 = "m2\<lparr>tm_scan_clock := tm_scan_clock m + 1 + 1\<rparr>"
  obtain m4 l' where scan2: "tool_map_scan (tm_scan_clock m + 1 + 1) t ?m3 = (m4, l')" by fastforce
  note s2 = scan_spec [of "tm_scan_clock m + 1 + 1" t ?m3, unfolded scan2 fst_conv snd_conv k1 find1]
  have l': "l' = ?v" using s2 seen_none [OF old2 c2] m2(1) by simp
  have m4: "tm_by_id m4 = tm_by_id m" "tm_order m4 = tm_order m" using s2 m2 by (simp_all add: same_contents_def)
  have measure: "kv_tool_map_measure m t = (m2, case tool_map_measure_loop l 0 8 of None \<Rightarrow> None
      | Some (count, bs) \<Rightarrow> Some (count, if count = 0 then 0 else bs))"
    by (simp add: kv_tool_map_measure_def scan1 KV_TOOL_MAP_HEADER_def Let_def)
  have head: "length (tool_map_header c) = 8" for c by (simp add: tool_map_header_def)
  have all: "unat n = length out \<and> length rs < 4294967296 \<and> (rs = [] \<longrightarrow> out = [])
      \<and> (out = [] \<and> (t = [] \<or> rs = []) \<or> out = tool_map_header (of_nat (length rs)) @ concat (map tool_map_record rs))
      \<and> tm_by_id m' = tm_by_id m \<and> tm_order m' = tm_order m"
  proof (cases "t = []")
    case True
    then have "tool_map_blocks t = []"
      by (subst tool_map_blocks.simps) (simp add: find_next_dsml_tool_block_def tool_call_open_def)
    then have "rs = []" by (simp add: rs_def)
    with True assms(1) show ?thesis by (auto simp: kv_tool_map_write_def)
  next
    case False
    then obtain count bs where c: "tool_map_measure_loop l 0 8 = Some (count, bs)"
      using assms(1) by (auto simp: kv_tool_map_write_def measure split: option.splits)
    have n: "unat count = length rs" "unat bs = 8 + length (concat (map tool_map_record rs))"
      using measure_loop [OF c] concat_records_filter [of l] by (simp_all add: rs_def l)
    have "unat count < 2 ^ LENGTH(32)" by (rule unsigned_less)
    then have lt: "length rs < 4294967296" using n(1) by simp
    show ?thesis
    proof (cases "count = 0")
      case True
      then have "rs = []" using n(1) by simp
      with True False assms(1) c m2 show ?thesis by (auto simp: kv_tool_map_write_def measure)
    next
      case nz: False
      have "count = of_nat (length rs)" by (simp flip: n(1))
      moreover have "concat (map tool_map_record l') = concat (map tool_map_record rs)"
        using concat_records_filter [of l'] by (simp add: l' rs_def)
      moreover have "out = tool_map_header count @ concat (map tool_map_record l') \<and> n = bs \<and> m' = m4"
        using False nz assms(1) c scan2 m2(4) by (auto simp: kv_tool_map_write_def measure Let_def)
      ultimately show ?thesis using n lt m4 nz by (auto simp: head)
    qed
  qed
  then show "unat n = length out \<and> length rs < 4294967296 \<and> (rs = [] \<longrightarrow> out = [])
      \<and> (out = [] \<and> (t = [] \<or> rs = []) \<or> out = tool_map_header (of_nat (length rs)) @ concat (map tool_map_record rs))"
    and "tm_by_id m' = tm_by_id m \<and> tm_order m' = tm_order m" by blast+
qed

definition loadable :: "string \<times> string \<Rightarrow> bool" where
  "loadable r \<longleftrightarrow> (case r of (i, d) \<Rightarrow> i \<noteq> [] \<and> length i \<le> 256 \<and> d \<noteq> [] \<and> length d \<le> DS4_TOOL_MEMORY_MAX_BYTES
     \<and> CHR 0x00 \<notin> set i \<and> CHR 0x00 \<notin> set d)"

lemma c_string_bytes_of: "CHR 0x00 \<notin> set s \<Longrightarrow> c_string (bytes_of s) = s"
proof (induction s)
  case (Cons c s)
  have "of_char c < (256 :: nat)" by simp
  then have u: "unat (of_nat (of_char c) :: u8) = of_char c" by (simp add: unat_of_nat)
  have "(of_nat (of_char c) :: u8) \<noteq> 0"
  proof
    assume "(of_nat (of_char c) :: u8) = 0"
    with u have "of_char c = (0 :: nat)" by simp
    then have "char_of (of_char c :: nat) = CHR 0x00" by (simp add: char_of_def)
    then have "c = CHR 0x00" by (simp only: char_of_char)
    with Cons.prems show False by simp
  qed
  with Cons u show ?case by (simp add: c_string_def bytes_of_def)
qed (simp add: c_string_def bytes_of_def)


lemma read_record:
  assumes "loadable (i, d)"
  shows "record_fits (i, d) \<and> tool_map_read_record (tool_map_record (i, d) @ rest) = Some ((i, d), rest)"
proof -
  have b: "length i \<le> 256" "length d \<le> 536870912" "i \<noteq> []" "d \<noteq> []" "CHR 0x00 \<notin> set i" "CHR 0x00 \<notin> set d"
    using assms by (simp_all add: loadable_def DS4_TOOL_MEMORY_MAX_BYTES_def)
  then have fits: "record_fits (i, d)" by (simp add: record_fits_def)
  have len: "length (bytes_of i) = length i" "length (bytes_of d) = length d" by (simp_all add: bytes_of_def)
  have n: "unat (of_nat (length i) :: u32) = length i" "unat (of_nat (length d) :: u32) = length d"
    using b by (simp_all add: unat_of_nat)
  have t: "take (length i) (bytes_of i @ x) = bytes_of i" "drop (length i) (bytes_of i @ x) = x"
    "take (length d) (bytes_of d @ x) = bytes_of d" "drop (length d) (bytes_of d @ x) = x" for x
    by (simp_all flip: len)
  show ?thesis using fits b
    by (simp add: tool_map_read_record_def tool_map_record_def n len t c_string_bytes_of Let_def
        DS4_TOOL_MEMORY_MAX_BYTES_def flip: drop_drop)
qed

definition put_records :: "(string \<times> string) list \<Rightarrow> tool_memory \<Rightarrow> tool_memory" where
  "put_records rs t = fold (\<lambda>(i, d). tool_memory_put i d TOOL_MEMORY_DISK) rs t"

lemma load_records:
  assumes "list_all loadable rs"
  shows "tool_map_load_records wanted (length rs) (concat (map tool_map_record rs) @ rest) n t =
    (n + length (filter (\<lambda>r. tool_map_wanted wanted (fst r)) rs), put_records (filter (\<lambda>r. tool_map_wanted wanted (fst r)) rs) t)"
  using assms
proof (induction rs arbitrary: n t)
  case (Cons r rs)
  obtain i d where r: "r = (i, d)" by (cases r)
  have "tool_map_read_record (tool_map_record (i, d) @ (concat (map tool_map_record rs) @ rest))
      = Some ((i, d), concat (map tool_map_record rs) @ rest)"
    using Cons.prems read_record [of i d] by (simp add: r)
  then show ?case using Cons by (simp add: r put_records_def tool_memory_put_source_def loadable_def)
qed (simp add: put_records_def)

lemma put_records_keep:
  assumes "tm_ok t" "within_limits t f ids" "distinct ids" "set (tm_order t) \<union> fst ` set rs \<subseteq> set ids"
    "\<forall>j\<in>set (tm_order t). tm_text t j = f j" "\<forall>(i, d)\<in>set rs. i \<noteq> [] \<and> d \<noteq> [] \<and> f i = d"
  shows "tm_ok (put_records rs t) \<and> set (tm_order (put_records rs t)) = set (tm_order t) \<union> fst ` set rs
    \<and> (\<forall>j\<in>set (tm_order (put_records rs t)). tm_text (put_records rs t) j = f j)"
  using assms
proof (induction rs arbitrary: t)
  case (Cons r rs)
  obtain i where r: "r = (i, f i)" and i: "i \<noteq> []" "f i \<noteq> []" using Cons.prems(6) by (cases r) auto
  let ?t = "tool_memory_put i (f i) TOOL_MEMORY_DISK t"
  have k: "tm_ok ?t \<and> set (tm_order ?t) = insert i (set (tm_order t)) \<and> (\<forall>j\<in>set (tm_order ?t). tm_text ?t j = f j)
      \<and> tm_max_entries ?t = tm_max_entries t \<and> tm_max_bytes ?t = tm_max_bytes t"
    using Cons.prems r i by (intro put_keeps_all) auto
  then have "tm_max_entries ?t = tm_max_entries t" "tm_max_bytes ?t = tm_max_bytes t" by blast+
  then have "within_limits ?t f ids \<longleftrightarrow> within_limits t f ids"
    by (simp only: within_limits_def tool_memory_max_entries_def tool_memory_max_bytes_def)
  with Cons.prems(2) have "within_limits ?t f ids" by simp
  then have "tm_ok (put_records rs ?t) \<and> set (tm_order (put_records rs ?t)) = set (tm_order ?t) \<union> fst ` set rs
      \<and> (\<forall>j\<in>set (tm_order (put_records rs ?t)). tm_text (put_records rs ?t) j = f j)"
    using Cons.prems k r by (intro Cons.IH) auto
  moreover have "put_records (r # rs) t = put_records rs ?t" by (simp add: put_records_def r)
  ultimately show ?case using k r by simp
qed (simp add: put_records_def)

lemma load_with_header:
  assumes "unat c \<le> nat (tool_memory_max_entries t) * 4"
  shows "kv_tool_map_load_from_pos False (tool_map_header c @ fp) wanted t = tool_map_load_records wanted (unat c) fp 0 t"
proof -
  have "drop 8 (tool_map_header c @ fp) = fp" by (simp add: tool_map_header_def)
  moreover have "take 4 (tool_map_header c @ fp) = [0x4B, 0x54, 0x4D, 1]"
    "take 4 (drop 4 (tool_map_header c @ fp)) = ds4_kvstore_le_put32 c" "8 \<le> length (tool_map_header c @ fp)"
    by (simp_all add: tool_map_header_def)
  ultimately show ?thesis using assms
    by (simp only: kv_tool_map_load_from_pos_def KV_TOOL_MAP_HEADER_def Let_def le_get32_put32 if_False simp_thms not_less [symmetric])
qed



text \<open>A memory that knows one id, and a checkpoint text with its block.\<close>

definition demo_block :: string where
  "demo_block = [CHR 0x0A, CHR 0x0A] @ ''<tool_call>x</tool_call>''"

definition demo_memory :: tool_memory where
  "demo_memory = put_entry ''call_1'' demo_block TOOL_MEMORY_RAM (tool_memory_empty 0 0)"

definition demo_section :: bytes where
  "demo_section = tool_map_header 1 @ tool_map_record (''call_1'', demo_block)"

definition demo_text :: string where
  "demo_text = ''hi'' @ demo_block"

lemma demo_find:
  "find_next_dsml_tool_block demo_text = Some (demo_block, [])" "find_next_dsml_tool_block [] = None"
  by (simp_all add: find_next_dsml_tool_block_def demo_text_def demo_block_def tool_call_open_def tool_call_close_def Let_def)

lemma demo_known: "tool_memory_find_block demo_memory demo_block =
    Some \<lparr>tb_bytes = 75, tb_refs = 1, tb_seen = 0, tb_entries = [''call_1'']\<rparr>"
  by (simp add: demo_memory_def put_entry_def tool_memory_empty_def tool_memory_add_entry_def demo_block_def
      tool_memory_get_block_def tool_memory_find_block_def tool_memory_set_entry_def tool_memory_set_block_def
      tool_memory_link_head_def sizeof_tool_memory_block_def Let_def)

lemma demo_scan:
  assumes "tool_memory_find_block m demo_block = Some b" "tb_seen b \<noteq> scan"
  shows "tool_map_scan scan demo_text m =
    (tool_memory_set_block demo_block (b\<lparr>tb_seen := scan\<rparr>) m, map (\<lambda>i. (i, demo_block)) (tb_entries b))"
proof -
  have "tool_map_scan scan [] m' = (m', [])" for m' by (simp add: tool_map_scan.simps [of scan "[]"] demo_find)
  with assms show ?thesis by (simp add: tool_map_scan.simps [of scan demo_text] demo_find)
qed

lemma demo_write: "snd (kv_tool_map_write False demo_memory demo_text) = Some (demo_section, 48)"
proof -
  let ?b = "\<lparr>tb_bytes = 75, tb_refs = 1, tb_seen = 0, tb_entries = [''call_1'']\<rparr>"
  let ?m1 = "demo_memory\<lparr>tm_scan_clock := 1\<rparr>"
  let ?m2 = "tool_memory_set_block demo_block (?b\<lparr>tb_seen := 1\<rparr>) ?m1"
  have c: "tm_scan_clock demo_memory = 0"
    by (simp add: demo_memory_def put_entry_def tool_memory_empty_def tool_memory_add_entry_def
        tool_memory_get_block_def tool_memory_find_block_def tool_memory_set_entry_def tool_memory_set_block_def
        tool_memory_link_head_def Let_def)
  have f: "tool_memory_find_block (x\<lparr>tm_scan_clock := k\<rparr>) = tool_memory_find_block x" for x k
    by (simp add: tool_memory_find_block_def fun_eq_iff)
  have k: "tm_scan_clock (tool_memory_set_block d b x) = tm_scan_clock x" for d b x
    by (simp add: tool_memory_set_block_def)
  have s1: "tool_map_scan 1 demo_text ?m1 = (?m2, [(''call_1'', demo_block)])"
    using demo_scan [of ?m1 ?b 1] by (simp add: f demo_known)
  have s2: "snd (tool_map_scan 2 demo_text (?m2\<lparr>tm_scan_clock := 2\<rparr>)) = [(''call_1'', demo_block)]"
    using demo_scan [of "?m2\<lparr>tm_scan_clock := 2\<rparr>" "?b\<lparr>tb_seen := 1\<rparr>" 2] demo_known by (simp add: f find_set_block)
  have b: "length demo_block = 26" "demo_text \<noteq> []" by (simp_all add: demo_block_def demo_text_def)
  show ?thesis using s2
    by (auto simp: kv_tool_map_write_def kv_tool_map_measure_def c k s1 b record_fits_def KV_TOOL_MAP_HEADER_def
        demo_section_def split: prod.split)
qed


end
