(* ===== verification/ToolReplay.thy ===== *)
theory ToolReplay
  imports ToolMap QwenRoundTrip
begin

text \<open>
  The use of the tool memory by requests (\<open>ds4_server.c\<close>): the ids a conversation mentions, the entries
  restored for them from the files of the disk cache, and the sampled text attached to the assistant
  messages, so that a replayed turn is rendered to the bytes the model produced.
\<close>

subsection \<open>Attaching sampled text to messages\<close>

record tool_replay_stats =
  rs_mem :: int
  rs_disk :: int
  rs_canonical :: int
  rs_missing_ids :: int

record attach_state =
  at_matched :: "string option"
  at_source :: tool_memory_source
  at_exact :: bool
  at_missing :: int

definition attach_init :: attach_state where
  "attach_init = \<lparr>at_matched = None, at_source = TOOL_MEMORY_DISK, at_exact = True, at_missing = 0\<rparr>"

text \<open>One call of a message: look its id up and compare its block with the one matched so far.\<close>

definition attach_call :: "tool_call \<Rightarrow> attach_state \<times> tool_memory \<Rightarrow> attach_state \<times> tool_memory" where
  "attach_call tc = (\<lambda>(a, m).
     case tool_memory_lookup (opt_text (tc_id tc)) m of
       (None, m) \<Rightarrow> (a\<lparr>at_exact := False, at_missing := at_missing a + 1\<rparr>, m)
     | (Some (block, source), m) \<Rightarrow>
         let a = (case at_matched a of
                    None \<Rightarrow> a\<lparr>at_matched := Some block, at_source := source\<rparr>
                  | Some b \<Rightarrow> if b \<noteq> block then a\<lparr>at_exact := False\<rparr> else a)
         in (if source = TOOL_MEMORY_RAM then a\<lparr>at_source := TOOL_MEMORY_RAM\<rparr> else a, m))"

definition attach_message :: "chat_msg \<Rightarrow> tool_replay_stats \<times> tool_memory \<Rightarrow> chat_msg \<times> tool_replay_stats \<times> tool_memory" where
  "attach_message msg = (\<lambda>(st, m).
     if msg_calls msg = [] \<or> msg_raw_tool_text msg \<noteq> None then (msg, st, m)
     else
       let (a, m) = fold attach_call (msg_calls msg) (attach_init, m)
       in case at_matched a of
            Some block \<Rightarrow>
              if at_exact a then
                (msg\<lparr>msg_raw_tool_text := Some block\<rparr>,
                 if at_source a = TOOL_MEMORY_RAM then st\<lparr>rs_mem := rs_mem st + 1\<rparr> else st\<lparr>rs_disk := rs_disk st + 1\<rparr>, m)
              else (msg, st\<lparr>rs_canonical := rs_canonical st + 1, rs_missing_ids := rs_missing_ids st + at_missing a\<rparr>, m)
          | None \<Rightarrow> (msg, st\<lparr>rs_canonical := rs_canonical st + 1, rs_missing_ids := rs_missing_ids st + at_missing a\<rparr>, m))"

definition disabled_message :: "chat_msg \<Rightarrow> tool_replay_stats \<Rightarrow> tool_replay_stats" where
  "disabled_message msg st =
     (if msg_calls msg = [] \<or> msg_raw_tool_text msg \<noteq> None then st
      else st\<lparr>rs_canonical := rs_canonical st + 1, rs_missing_ids := rs_missing_ids st + int (length (msg_calls msg))\<rparr>)"

fun attach_messages :: "chat_msg list \<Rightarrow> tool_replay_stats \<times> tool_memory \<Rightarrow> chat_msg list \<times> tool_replay_stats \<times> tool_memory" where
  "attach_messages [] s = ([], s)"
| "attach_messages (msg # msgs) s =
     (let (msg, s) = attach_message msg s; (msgs, s) = attach_messages msgs s in (msg # msgs, s))"

definition tool_memory_attach_to_messages ::
    "bool \<Rightarrow> chat_msg list \<Rightarrow> tool_replay_stats \<times> tool_memory \<Rightarrow> chat_msg list \<times> tool_replay_stats \<times> tool_memory" where
  "tool_memory_attach_to_messages disabled msgs s =
     (if disabled then (msgs, fold disabled_message msgs (fst s), snd s) else attach_messages msgs s)"

subsection \<open>Restoring entries for a conversation\<close>

definition collect_message_ids :: "chat_msg \<Rightarrow> string list \<Rightarrow> string list" where
  "collect_message_ids msg ids =
     fold (\<lambda>tc. id_list_push_unique (opt_text (tc_id tc))) (msg_calls msg)
       (fold id_list_push_unique (msg_tool_call_ids msg) (id_list_push_unique (opt_text (msg_tool_call_id msg)) ids))"

definition collect_tool_call_ids :: "chat_msg list \<Rightarrow> string list" where
  "collect_tool_call_ids msgs = fold collect_message_ids msgs []"

text \<open>
  One file of the cache directory. The position is set past the text and the payload; a position behind
  the end of the file reads nothing.
\<close>

definition restore_from_file :: "u8 \<Rightarrow> string list \<Rightarrow> string \<times> bytes \<Rightarrow> tool_memory \<Rightarrow> tool_memory" where
  "restore_from_file model_id wanted file m =
     (if ds4_kvstore_sha_hex_name (fst file) = None then m
      else case ds4_kvstore_read_header (snd file) of
        None \<Rightarrow> m
      | Some (hdr, tb, r) \<Rightarrow>
          let skip = ucast tb + e_payload_bytes hdr :: u64
          in if e_model_id hdr = model_id \<and> and (e_ext_flags hdr) 1 \<noteq> 0 \<and> skip \<le> 9223372036854775807
             then snd (kv_tool_map_load_from_pos False (drop (unat skip) r) (Some wanted) m) else m)"

definition kv_cache_restore_tool_memory_for_messages ::
    "bool \<Rightarrow> bool \<Rightarrow> u8 \<Rightarrow> chat_msg list \<Rightarrow> kv_dir \<Rightarrow> tool_memory \<Rightarrow> tool_memory" where
  "kv_cache_restore_tool_memory_for_messages disabled kv_enabled model_id msgs fs m =
     (if disabled \<or> \<not> kv_enabled then m
      else let wanted = collect_tool_call_ids msgs
           in if wanted = [] then m else fold (restore_from_file model_id wanted) fs m)"

text \<open>The calls the checkpoint code makes, for a given memory.\<close>

definition kv_cache_tool_map_hooks :: "bool \<Rightarrow> tool_memory \<Rightarrow> kv_hooks" where
  "kv_cache_tool_map_hooks disabled m =
     \<lparr>hk_ext_flag = 1, hk_serialized_size = Some (\<lambda>t. snd (kv_tool_map_serialized_size disabled m (c_string t))),
      hk_write = Some (\<lambda>t. map_option fst (snd (kv_tool_map_write disabled m (c_string t)))), hk_load = True\<rparr>"


subsection \<open>What attaching does\<close>

definition call_text :: "tool_memory \<Rightarrow> tool_call \<Rightarrow> string option" where
  "call_text m tc = (if opt_text (tc_id tc) \<in> set (tm_order m) then Some (tm_text m (opt_text (tc_id tc))) else None)"

definition same_texts :: "tool_memory \<Rightarrow> tool_memory \<Rightarrow> bool" where
  "same_texts m m' \<longleftrightarrow> set (tm_order m') = set (tm_order m) \<and> (\<forall>i\<in>set (tm_order m). tm_text m' i = tm_text m i)"

lemma same_texts_refl [simp]: "same_texts m m"
  by (simp add: same_texts_def)

lemma same_texts_trans: "same_texts m m' \<Longrightarrow> same_texts m' m'' \<Longrightarrow> same_texts m m''"
  by (simp add: same_texts_def)

lemma same_texts_call: "same_texts m m' \<Longrightarrow> call_text m' tc = call_text m tc"
  by (simp add: same_texts_def call_text_def)

lemma lookup_same_texts:
  assumes "tm_ok m"
  shows "same_texts m (snd (tool_memory_lookup i m))"
proof (cases "tool_memory_find_entry m i")
  case (Some e)
  then have i: "tm_by_id m i = Some e" by (simp add: tool_memory_find_entry_def split: if_splits)
  then have "i \<in> set (tm_order m)" "distinct (tm_order m)" using assms by (auto simp: tm_ok_def)
  then show ?thesis using i by (auto simp: Some tool_memory_lookup_def same_texts_def touch_fields tm_text_def)
qed (simp add: tool_memory_lookup_def)

lemma attach_call_spec:
  assumes "tm_ok m" "attach_call tc (a, m) = (a', m')"
  shows "tm_ok m' \<and> same_texts m m'
    \<and> at_matched a' = (if at_matched a = None then call_text m tc else at_matched a)
    \<and> (at_exact a' \<longleftrightarrow> at_exact a \<and> call_text m tc \<noteq> None \<and> call_text m tc = at_matched a')"
proof -
  obtain r n where l: "tool_memory_lookup (opt_text (tc_id tc)) m = (r, n)" by fastforce
  have n: "tm_ok n" "same_texts m n"
    using lookup_keeps_ok [OF assms(1), of "opt_text (tc_id tc)"] lookup_same_texts [OF assms(1), of "opt_text (tc_id tc)"]
    by (simp_all add: l)
  have r: "map_option fst r = call_text m tc"
    using lookup_ok [OF assms(1), of "opt_text (tc_id tc)"] by (simp add: l call_text_def)
  show ?thesis
  proof (cases r)
    case None
    with r n l assms(2) show ?thesis by (auto simp: attach_call_def)
  next
    case (Some p)
    obtain b source where p: "p = (b, source)" by (cases p)
    with r Some have t: "call_text m tc = Some b" by simp
    have m': "m' = n" and a': "a' = (let a = (case at_matched a of None \<Rightarrow> a\<lparr>at_matched := Some b, at_source := source\<rparr>
        | Some c \<Rightarrow> if c \<noteq> b then a\<lparr>at_exact := False\<rparr> else a)
        in if source = TOOL_MEMORY_RAM then a\<lparr>at_source := TOOL_MEMORY_RAM\<rparr> else a)"
      using assms(2) by (auto simp: attach_call_def l Some p Let_def)
    show ?thesis using n t by (cases "at_matched a") (auto simp: m' a' Let_def)
  qed
qed

lemma attach_calls_spec:
  "tm_ok m \<Longrightarrow> fold attach_call tcs (a, m) = (a', m') \<Longrightarrow>
     tm_ok m' \<and> same_texts m m' \<and> (at_matched a \<noteq> None \<longrightarrow> at_matched a' = at_matched a)
     \<and> (at_exact a' \<longleftrightarrow> at_exact a \<and> (\<forall>tc\<in>set tcs. call_text m tc \<noteq> None \<and> call_text m tc = at_matched a'))"
proof (induction tcs arbitrary: a m)
  case (Cons tc tcs)
  obtain b n where b: "attach_call tc (a, m) = (b, n)" by fastforce
  note s = attach_call_spec [OF Cons.prems(1) b]
  have ih: "tm_ok m' \<and> same_texts n m' \<and> (at_matched b \<noteq> None \<longrightarrow> at_matched a' = at_matched b)
     \<and> (at_exact a' \<longleftrightarrow> at_exact b \<and> (\<forall>tc\<in>set tcs. call_text n tc \<noteq> None \<and> call_text n tc = at_matched a'))"
    using Cons.prems(2) s b by (intro Cons.IH) auto
  have c: "call_text n x = call_text m x" for x using s by (intro same_texts_call) blast
  show ?case
  proof (intro conjI)
    show "tm_ok m'" using ih by blast
    show "same_texts m m'" using ih s same_texts_trans by blast
    show "at_matched a \<noteq> None \<longrightarrow> at_matched a' = at_matched a" using ih s by (cases "at_matched a") simp_all
    show "at_exact a' \<longleftrightarrow> at_exact a \<and> (\<forall>x\<in>set (tc # tcs). call_text m x \<noteq> None \<and> call_text m x = at_matched a')"
    proof (cases "at_matched a")
      case None
      with ih s show ?thesis unfolding c by (cases "call_text m tc") simp_all
    next
      case (Some b)
      with ih s show ?thesis unfolding c by simp
    qed
  qed
qed auto

lemma attach_message_spec:
  assumes "tm_ok m" "msg_calls msg \<noteq> []" "msg_raw_tool_text msg = None" "attach_message msg (st, m) = (msg', st', m')"
  shows "tm_ok m' \<and> same_texts m m'
    \<and> (\<forall>d. (\<forall>tc\<in>set (msg_calls msg). call_text m tc = Some d) \<longrightarrow> msg' = msg\<lparr>msg_raw_tool_text := Some d\<rparr>)
    \<and> ((\<nexists>d. \<forall>tc\<in>set (msg_calls msg). call_text m tc = Some d) \<longrightarrow> msg' = msg)"
proof -
  obtain tc tcs where calls: "msg_calls msg = tc # tcs" using assms(2) by (cases "msg_calls msg") auto
  obtain b n where b: "attach_call tc (attach_init, m) = (b, n)" by fastforce
  obtain a k where a: "fold attach_call tcs (b, n) = (a, k)" by fastforce
  note s1 = attach_call_spec [OF assms(1) b]
  note s2 = attach_calls_spec [OF s1 [THEN conjunct1] a]
  have c: "call_text n x = call_text m x" for x using s1 by (intro same_texts_call) blast
  have m': "m' = k" "msg' = (if at_exact a \<and> at_matched a \<noteq> None then msg\<lparr>msg_raw_tool_text := at_matched a\<rparr> else msg)"
    using assms(3,4) a b by (auto simp: attach_message_def calls split: option.splits if_splits)
  have exact: "at_exact a \<longleftrightarrow> (\<forall>x\<in>set (tc # tcs). call_text m x \<noteq> None \<and> call_text m x = at_matched a)"
    using s1 s2 unfolding c by (auto simp: attach_init_def)
  have init: "call_text m tc \<noteq> None \<Longrightarrow> at_matched a = call_text m tc" using s1 s2 by (simp add: attach_init_def)
  have "tm_ok m' \<and> same_texts m m'" using s1 s2 same_texts_trans m'(1) by blast
  moreover have "msg' = msg\<lparr>msg_raw_tool_text := Some d\<rparr>" if "\<forall>x\<in>set (tc # tcs). call_text m x = Some d" for d
    using that init exact m'(2) by simp
  moreover have "msg' = msg" if "\<nexists>d. \<forall>x\<in>set (tc # tcs). call_text m x = Some d"
    using that exact m'(2) by (cases "at_matched a") auto
  ultimately show ?thesis unfolding calls by blast
qed


subsection \<open>Remembering a generated turn\<close>

lemma remember_keeps:
  assumes "tm_ok m" "raw \<noteq> []" "\<forall>i\<in>set ids. i \<noteq> [] \<and> f i = raw" "within_limits m f jds" "distinct jds"
    "set (tm_order m) \<union> set ids \<subseteq> set jds" "\<forall>j\<in>set (tm_order m). tm_text m j = f j"
  shows "tm_ok (tool_memory_remember False ids raw m)
    \<and> set (tm_order (tool_memory_remember False ids raw m)) = set (tm_order m) \<union> set ids
    \<and> (\<forall>j\<in>set (tm_order (tool_memory_remember False ids raw m)). tm_text (tool_memory_remember False ids raw m) j = f j)"
  using assms
proof (induction ids arbitrary: m)
  case (Cons i ids)
  have i: "i \<noteq> []" "f i = raw" using Cons.prems(3) by simp_all
  let ?m = "tool_memory_put i raw TOOL_MEMORY_RAM m"
  have k: "tm_ok ?m \<and> set (tm_order ?m) = insert i (set (tm_order m)) \<and> (\<forall>j\<in>set (tm_order ?m). tm_text ?m j = f j)
      \<and> tm_max_entries ?m = tm_max_entries m \<and> tm_max_bytes ?m = tm_max_bytes m"
    using put_keeps_all [where f = f and i = i and m = m and ids = jds and source = TOOL_MEMORY_RAM] Cons.prems i by auto
  then have "tm_max_entries ?m = tm_max_entries m" "tm_max_bytes ?m = tm_max_bytes m" by blast+
  then have "within_limits ?m f jds \<longleftrightarrow> within_limits m f jds"
    by (simp only: within_limits_def tool_memory_max_entries_def tool_memory_max_bytes_def)
  with Cons.prems k have "tm_ok (tool_memory_remember False ids raw ?m)
    \<and> set (tm_order (tool_memory_remember False ids raw ?m)) = set (tm_order ?m) \<union> set ids
    \<and> (\<forall>j\<in>set (tm_order (tool_memory_remember False ids raw ?m)). tm_text (tool_memory_remember False ids raw ?m) j = f j)"
    by (intro Cons.IH) auto
  moreover have "tool_memory_remember False (i # ids) raw m = tool_memory_remember False ids raw ?m"
    using Cons.prems(2) by (simp add: tool_memory_remember_def)
  ultimately show ?case using k by simp
qed (simp add: tool_memory_remember_def)

lemma raw_turn_text:
  assumes "msg_calls m \<noteq> []" "msg_calls m' \<noteq> []" "msg_content m' = msg_content m" "msg_reasoning m' = msg_reasoning m" "raw \<noteq> []"
  shows "append_qwen_assistant_message orders (m'\<lparr>msg_raw_tool_text := Some raw\<rparr>) =
    append_qwen_assistant_message orders (m\<lparr>msg_raw_tool_text := Some raw\<rparr>)"
  using assms by (simp add: append_qwen_assistant_message_def append_qwen_tool_calls_text_def opt_text_def Let_def)



subsection \<open>Blocks of several calls are not saved\<close>

lemma c_strstr_first:
  "starts_with t p \<Longrightarrow> \<exists>z. c_strstr (u @ t) p = Some z \<and> length t \<le> length z"
proof (induction u)
  case Nil
  then show ?case by (cases t) (auto elim: starts_with.elims)
next
  case (Cons c u)
  then show ?case by (auto intro: le_trans)
qed

lemma c_strstr_cut:
  assumes "p \<noteq> []"
  shows "c_strstr (u @ p @ r) p = Some (p @ r) \<Longrightarrow> c_strstr (u @ p) p = Some p"
proof (induction u)
  case Nil
  show ?case using assms by (cases p) auto
next
  case (Cons c u)
  have "\<not> starts_with (c # u @ p @ r) p"
  proof
    assume "starts_with (c # u @ p @ r) p"
    with Cons.prems have "c # u @ p @ r = p @ r" by simp
    then have "length (c # u @ p @ r) = length (p @ r)" by simp
    then show False by simp
  qed
  moreover from this have "\<not> starts_with (c # u @ p) p" using starts_with_appendI [of "c # u @ p" p r] by auto
  ultimately show ?case using Cons by simp
qed

lemma c_strstr_skip: "\<not> starts_with (c # s) p \<Longrightarrow> c_strstr (c # s) p = c_strstr s p"
  by simp

lemma two_last: "2 \<le> length u \<Longrightarrow> \<exists>w a b. u = w @ [a, b]"
  by (cases u rule: rev_cases; cases "butlast u" rule: rev_cases) auto

lemma found_block_ends:
  assumes "find_next_dsml_tool_block p = Some (d, r)"
  shows "c_strstr d tool_call_close = Some tool_call_close"
proof -
  obtain s e where s: "c_strstr p tool_call_open = Some s" and e: "c_strstr s tool_call_close = Some e"
    and r: "r = drop (length tool_call_close) e"
    using assms by (auto simp: find_next_dsml_tool_block_def Let_def split: option.splits)
  obtain u where p: "p = u @ s" using c_strstr_SomeD [OF s] by blast
  obtain v where v: "s = v @ e" "starts_with e tool_call_close" using c_strstr_SomeD [OF e] by blast
  then have er: "e = tool_call_close @ r" using starts_with_drop r by metis
  have cut: "c_strstr (v @ tool_call_close) tool_call_close = Some tool_call_close"
    using c_strstr_cut [of tool_call_close v r] e v(1) er by (simp add: tool_call_close_def)
  have d: "d = v @ tool_call_close \<or> d = [CHR 0x0A, CHR 0x0A] @ v @ tool_call_close"
  proof (cases "2 \<le> length u \<and> p ! (length u - 2) = CHR 0x0A \<and> p ! (length u - 1) = CHR 0x0A")
    case False
    then have "d = take (length p - length r - length u) (drop (length u) p)"
      using assms s e r p by (simp add: find_next_dsml_tool_block_def Let_def split: if_splits)
    then show ?thesis by (simp add: p v(1) er)
  next
    case True
    then obtain w where w: "u = w @ [CHR 0x0A, CHR 0x0A]"
    proof -
      obtain w a b where "u = w @ [a, b]" using True by (metis two_last)
      with that True show thesis by (simp add: p nth_append)
    qed
    have pw: "p = w @ CHR 0x0A # CHR 0x0A # s" by (simp add: p w)
    then have len: "length p - length s = Suc (Suc (length w))" "p ! length w = CHR 0x0A" "p ! Suc (length w) = CHR 0x0A"
      by (simp_all add: nth_append)
    have "d = take (length p - length r - length w) (drop (length w) p)"
      using assms by (simp add: find_next_dsml_tool_block_def s e len Let_def flip: r)
    then show ?thesis by (simp add: pw v(1) er)
  qed
  then show ?thesis using cut by (auto simp: tool_call_close_def)
qed

lemma blocks_end: "d \<in> set (tool_map_blocks t) \<Longrightarrow> c_strstr d tool_call_close = Some tool_call_close"
proof (induction t rule: tool_map_blocks.induct)
  case (1 p)
  then show ?case
    by (cases "find_next_dsml_tool_block p")
      (auto simp: tool_map_blocks.simps [of p] found_block_ends)
qed

lemma two_calls_end:
  "c_strstr (newline @ newline @ qwen_calls_text True False orders (c1 # c2 # cs)) tool_call_close \<noteq> Some tool_call_close"
proof -
  let ?x = "newline @ newline @ ''<tool_call>'' @ newline @ ''<function='' @ opt_text (tc_name c1) @ ''>'' @ newline
        @ qwen_args_text (tool_schema_orders_find orders (tc_name c1)) (tc_arguments c1) @ ''</function>'' @ newline"
  let ?y = "newline @ qwen_call_text orders c2 @ qwen_calls_text False False orders cs"
  have t: "newline @ newline @ qwen_calls_text True False orders (c1 # c2 # cs) = ?x @ tool_call_close @ ?y"
    by (simp add: qwen_call_text_def tool_call_close_def)
  obtain z where "c_strstr (?x @ tool_call_close @ ?y) tool_call_close = Some z" "length (tool_call_close @ ?y) \<le> length z"
    using c_strstr_first [of "tool_call_close @ ?y" tool_call_close ?x] starts_with_append by metis
  moreover have "length tool_call_close < length (tool_call_close @ ?y)" by (simp add: newline_def)
  ultimately show ?thesis unfolding t by (metis not_less option.inject)
qed

text \<open>
  A turn with two or more tool calls is never saved with a checkpoint: the search for blocks stops at
  the first \<open></tool_call>\<close>, while the memory keeps the calls of a turn as one block, so that a memory
  of such turns writes nothing, even for a text that contains their blocks verbatim.
\<close>

theorem several_calls_not_saved:
  assumes "kv_tool_map_write False m t = (m', Some (out, n))" "scan_fresh m" "tm_ok m"
    and "\<forall>i\<in>set (tm_order m). \<exists>orders c1 c2 cs. tm_text m i = newline @ newline @ qwen_calls_text True False orders (c1 # c2 # cs)"
  shows "out = [] \<and> n = 0"
proof -
  define rs where "rs = filter record_fits (visit_blocks (known_blocks m) {} (tool_map_blocks t))"
  have "x \<notin> set rs" for x
  proof
    assume "x \<in> set rs"
    then obtain i where i: "i \<in> set (tm_order m)" "tm_text m i \<in> set (tool_map_blocks t)"
      using visited_spec(1) [OF assms(3), of "tool_map_blocks t"] by (auto simp: rs_def)
    with assms(4) obtain orders c1 c2 cs where
      "tm_text m i = newline @ newline @ qwen_calls_text True False orders (c1 # c2 # cs)" by blast
    with blocks_end [OF i(2)] two_calls_end show False by metis
  qed
  then have "rs = []" by (cases rs) auto
  then show ?thesis using write_spec(1) [OF assms(1,2)] by (auto simp: rs_def unat_eq_zero)
qed


subsection \<open>Witnesses\<close>

definition replayed_msg :: chat_msg where
  "replayed_msg = no_chat_msg\<lparr>msg_role := Some ''assistant'', msg_content := Some ''Ok.'', msg_reasoning := Some ''think'',
     msg_calls := [\<lparr>tc_id = Some ''call_1'', tc_name = Some ''write'', tc_arguments = Some ''{ }''\<rparr>]\<rparr>"


definition bare_call :: tool_call where
  "bare_call = \<lparr>tc_id = None, tc_name = Some ''f'', tc_arguments = None\<rparr>"

definition two_call_block :: string where
  "two_call_block = newline @ newline @ qwen_calls_text True False [] [bare_call, bare_call]"

definition two_call_memory :: tool_memory where
  "two_call_memory = put_entry ''call_1'' two_call_block TOOL_MEMORY_RAM (tool_memory_empty 0 0)"

lemma several_calls_not_saved_witness:
  "snd (kv_tool_map_write False two_call_memory two_call_block) = Some ([], 0)"
proof -
  let ?one = "newline @ qwen_call_text [] bare_call"
  have lit: "two_call_block = newline @ ?one @ ?one" by (simp add: two_call_block_def)
  have one: "qwen_call_text [] bare_call = ''<tool_call>'' @ newline @ ''<function=f>'' @ newline @ ''</function>'' @ newline @ ''</tool_call>''"
    by code_simp
  have f: "find_next_dsml_tool_block two_call_block = Some (newline @ ?one, ?one)"
    "find_next_dsml_tool_block ?one = Some (qwen_call_text [] bare_call, [])" "find_next_dsml_tool_block [] = None"
    by (simp_all add: lit one find_next_dsml_tool_block_def newline_def tool_call_open_def tool_call_close_def Let_def)
  have m: "tm_ok two_call_memory" "tm_order two_call_memory = [''call_1'']" "tm_text two_call_memory ''call_1'' = two_call_block"
    using put_entry_spec [OF tm_ok_empty, of "''call_1''" two_call_block TOOL_MEMORY_RAM]
    by (simp_all add: two_call_memory_def tool_memory_empty_def lit newline_def)
  have fresh: "scan_fresh two_call_memory"
    by (auto simp: scan_fresh_def two_call_memory_def put_entry_def tool_memory_empty_def tool_memory_add_entry_def
        tool_memory_get_block_def tool_memory_find_block_def tool_memory_set_entry_def tool_memory_set_block_def
        tool_memory_link_head_def Let_def split: if_splits)
  obtain m' r where w: "kv_tool_map_write False two_call_memory two_call_block = (m', r)" by fastforce
  have "r \<noteq> None"
  proof -
    have "tm_by_block two_call_memory d = None" if "d \<noteq> two_call_block" for d
    proof -
      have "tm_by_block two_call_memory d \<noteq> None \<longleftrightarrow> d \<in> tm_text two_call_memory ` set (tm_order two_call_memory)"
        using m(1) unfolding tm_ok_def by blast
      with that m(2,3) show ?thesis by simp
    qed
    then have "tool_memory_find_block (two_call_memory\<lparr>tm_scan_clock := k\<rparr>) d = None" if "d \<noteq> two_call_block" for d k
      using that by (simp add: tool_memory_find_block_def)
    moreover have "newline @ ?one \<noteq> two_call_block" "qwen_call_text [] bare_call \<noteq> two_call_block"
      by (simp_all add: lit one newline_def)
    ultimately have "tool_map_scan s two_call_block (two_call_memory\<lparr>tm_scan_clock := k\<rparr>) = (two_call_memory\<lparr>tm_scan_clock := k\<rparr>, [])" for s k
      by (simp add: tool_map_scan.simps [of s two_call_block] tool_map_scan.simps [of s ?one] tool_map_scan.simps [of s "[]"] f)
    then have "snd (kv_tool_map_measure two_call_memory two_call_block) = Some (0, 0)"
      by (simp add: kv_tool_map_measure_def Let_def KV_TOOL_MAP_HEADER_def)
    then show ?thesis using w by (auto simp: kv_tool_map_write_def split: if_splits prod.splits)
  qed
  then obtain out n where r: "r = Some (out, n)" by (cases r) auto
  have "\<exists>orders c1 c2 cs. two_call_block = newline @ newline @ qwen_calls_text True False orders (c1 # c2 # cs)"
    unfolding two_call_block_def by blast
  then show ?thesis using several_calls_not_saved [OF w [unfolded r] fresh m(1)] w r m by simp
qed

end
