(* ===== verification/ImageCache.thy ===== *)
theory ImageCache
  imports ImageInput
begin

text \<open>
  The cache of encoded images (\<open>ds4_server.c\<close>, \<open>server_image_cache_*\<close>): 32 entries keyed by the exact
  bytes of the image, with a budget on the bytes held and eviction of the least recently used entry.
  The loop of \<open>put\<close> that makes room has no bound in the code: it is a \<open>partial_function\<close>, whose value
  \<open>None\<close> would be a loop that never ends. Sizes are 64-bit words; the floats of an embedding are
  their bit patterns; whether \<open>malloc\<close> succeeds is an argument.
\<close>

subsection \<open>Data\<close>

record vision_embedding =
  ve_data :: "u32 list option"
  ve_token_count :: u32
  ve_layout :: u32
  ve_grid_width :: u32
  ve_grid_height :: u32
  ve_width :: u32
  ve_height :: u32
  ve_content_width :: u32
  ve_content_height :: u32
  ve_fingerprint :: "u8 list"

record image_cache_entry =
  ic_encoded :: "u8 list option"
  ic_encoded_len :: u64
  ic_embedding :: vision_embedding
  ic_data_bytes :: u64
  ic_used :: u64

record image_cache =
  ic_entries :: "image_cache_entry list"
  ic_bytes :: u64
  ic_clock :: u64

definition SERVER_IMAGE_CACHE_ENTRIES :: nat where
  "SERVER_IMAGE_CACHE_ENTRIES = 32"

definition zero_embedding :: vision_embedding where
  "zero_embedding = \<lparr>ve_data = None, ve_token_count = 0, ve_layout = 0, ve_grid_width = 0, ve_grid_height = 0,
     ve_width = 0, ve_height = 0, ve_content_width = 0, ve_content_height = 0, ve_fingerprint = replicate 32 0\<rparr>"

definition zero_entry :: image_cache_entry where
  "zero_entry = \<lparr>ic_encoded = None, ic_encoded_len = 0, ic_embedding = zero_embedding, ic_data_bytes = 0, ic_used = 0\<rparr>"

definition empty_image_cache :: image_cache where
  "empty_image_cache = \<lparr>ic_entries = replicate SERVER_IMAGE_CACHE_ENTRIES zero_entry, ic_bytes = 0, ic_clock = 0\<rparr>"

subsection \<open>Operations\<close>

definition server_image_cache_remove :: "nat \<Rightarrow> image_cache \<Rightarrow> image_cache" where
  "server_image_cache_remove i c =
     (let e = ic_entries c ! i
      in c\<lparr>ic_bytes := ic_bytes c - (ic_encoded_len e + ic_data_bytes e), ic_entries := (ic_entries c)[i := zero_entry]\<rparr>)"

definition server_image_cache_clear :: "image_cache \<Rightarrow> image_cache" where
  "server_image_cache_clear c =
     (fold server_image_cache_remove [0..<SERVER_IMAGE_CACHE_ENTRIES] c)\<lparr>ic_clock := 0\<rparr>"

definition image_entry_matches :: "u8 list \<Rightarrow> image_cache_entry \<Rightarrow> bool" where
  "image_entry_matches encoded e \<longleftrightarrow> ic_encoded e = Some encoded \<and> ic_encoded_len e = of_nat (length encoded)"

text \<open>The embedding found, copied, and the cache with the entry marked as used.\<close>

definition server_image_cache_get :: "bool \<Rightarrow> u8 list \<Rightarrow> image_cache \<Rightarrow> vision_embedding option \<times> image_cache" where
  "server_image_cache_get alloc_ok encoded c =
     (case find (\<lambda>i. image_entry_matches encoded (ic_entries c ! i)) [0..<SERVER_IMAGE_CACHE_ENTRIES] of
        None \<Rightarrow> (None, c)
      | Some i \<Rightarrow>
          if \<not> alloc_ok then (None, c)
          else
            let e = ic_entries c ! i; clock = ic_clock c + 1;
                data = map_option (take (unat (ic_data_bytes e div 4))) (ve_data (ic_embedding e))
            in (Some ((ic_embedding e)\<lparr>ve_data := data\<rparr>),
                c\<lparr>ic_clock := clock, ic_entries := (ic_entries c)[i := e\<lparr>ic_used := clock\<rparr>]\<rparr>))"

text \<open>The entry with the smallest stamp, and the occupied entry with the smallest stamp.\<close>

definition least_used :: "image_cache_entry list \<Rightarrow> nat" where
  "least_used es = fold (\<lambda>i d. if ic_used (es ! i) < ic_used (es ! d) then i else d) [1..<SERVER_IMAGE_CACHE_ENTRIES] 0"

definition least_used_occupied :: "image_cache_entry list \<Rightarrow> nat \<Rightarrow> nat" where
  "least_used_occupied es d =
     fold (\<lambda>i d. if ic_encoded (es ! i) \<noteq> None \<and> (ic_encoded (es ! d) = None \<or> ic_used (es ! i) < ic_used (es ! d)) then i else d)
       [0..<SERVER_IMAGE_CACHE_ENTRIES] d"

partial_function (option) image_cache_make_room :: "u64 \<Rightarrow> u64 \<Rightarrow> image_cache \<Rightarrow> (nat \<times> image_cache) option" where
  "image_cache_make_room budget need c =
     (let d = least_used (ic_entries c)
      in if ic_encoded (ic_entries c ! d) = None \<and> ic_bytes c \<le> budget - need then Some (d, c)
         else
           let d = (if ic_encoded (ic_entries c ! d) = None then least_used_occupied (ic_entries c) d else d)
           in image_cache_make_room budget need (server_image_cache_remove d c))"

definition server_image_cache_put ::
    "bool \<Rightarrow> u8 list \<Rightarrow> vision_embedding \<Rightarrow> u32 \<Rightarrow> u64 \<Rightarrow> image_cache \<Rightarrow> image_cache option" where
  "server_image_cache_put alloc_ok encoded embedding dim budget c =
     (case ve_data embedding of
        None \<Rightarrow> Some c
      | Some data \<Rightarrow>
          let len = of_nat (length encoded); count = ucast (ve_token_count embedding)
          in if dim = 0 \<or> count = 0 \<or> len = 0 \<or> budget div 4 div ucast dim < count then Some c
             else
               let n = count * ucast dim * 4
               in if budget - n < len then Some c
                  else
                    let need = len + n
                    in case image_cache_make_room budget need c of
                         None \<Rightarrow> None
                       | Some (d, c) \<Rightarrow>
                           if \<not> alloc_ok then Some c
                           else Some (c\<lparr>ic_clock := ic_clock c + 1,
                             ic_entries := (ic_entries c)[d :=
                               \<lparr>ic_encoded = Some encoded, ic_encoded_len = len,
                                ic_embedding = embedding\<lparr>ve_data := Some (take (unat (n div 4)) data)\<rparr>,
                                ic_data_bytes = n, ic_used = ic_clock c + 1\<rparr>],
                             ic_bytes := ic_bytes c + need\<rparr>))"


definition SERVER_IMAGE_CACHE_BYTES :: u64 where
  "SERVER_IMAGE_CACHE_BYTES = 128 * 1024 * 1024"

text \<open>The encoder and the width of its rows belong to the engine.\<close>

definition server_encode_image ::
    "(u8 list \<Rightarrow> vision_embedding option) \<Rightarrow> u32 \<Rightarrow> bool \<Rightarrow> u8 list \<Rightarrow> image_cache \<Rightarrow> (vision_embedding option \<times> image_cache) option" where
  "server_encode_image encode dim alloc_ok encoded c =
     (case server_image_cache_get alloc_ok encoded c of
        (Some out, c) \<Rightarrow> Some (Some out, c)
      | (None, c) \<Rightarrow>
          (case encode encoded of
             None \<Rightarrow> Some (None, c)
           | Some out \<Rightarrow> map_option (\<lambda>c. (Some out, c))
               (server_image_cache_put alloc_ok encoded out dim SERVER_IMAGE_CACHE_BYTES c)))"

subsection \<open>The invariant\<close>

definition entry_size :: "image_cache_entry \<Rightarrow> nat" where
  "entry_size e = unat (ic_encoded_len e) + unat (ic_data_bytes e)"

definition occupied :: "image_cache_entry \<Rightarrow> bool" where
  "occupied e \<longleftrightarrow> ic_encoded e \<noteq> None"

definition entry_ok :: "u64 \<Rightarrow> image_cache_entry \<Rightarrow> bool" where
  "entry_ok clock e \<longleftrightarrow> (if occupied e then 0 < ic_used e \<and> ic_used e \<le> clock else e = zero_entry)"

definition cache_ok :: "image_cache \<Rightarrow> bool" where
  "cache_ok c \<longleftrightarrow> length (ic_entries c) = SERVER_IMAGE_CACHE_ENTRIES \<and> list_all (entry_ok (ic_clock c)) (ic_entries c)
     \<and> unat (ic_bytes c) = sum_list (map entry_size (ic_entries c))"

definition occupied_count :: "image_cache \<Rightarrow> nat" where
  "occupied_count c = length (filter occupied (ic_entries c))"

lemma zero_entry_simps [simp]: "\<not> occupied zero_entry" "entry_size zero_entry = 0" "ic_used zero_entry = 0"
  "entry_ok k zero_entry"
  by (simp_all add: occupied_def zero_entry_def entry_size_def entry_ok_def)

lemma fold_min:
  fixes u :: "nat \<Rightarrow> 'a :: linorder"
  defines "g \<equiv> \<lambda>i d. if u i < u d then i else d"
  shows "fold g [1..<Suc n] 0 \<le> n \<and> (\<forall>i\<le>n. u (fold g [1..<Suc n] 0) \<le> u i)"
proof (induction n)
  case (Suc n)
  define d where "d = fold g [1..<Suc n] 0"
  have "fold g [1..<Suc (Suc n)] 0 = g (Suc n) d" by (simp add: d_def)
  then have "fold g [1..<Suc (Suc n)] 0 = (if u (Suc n) < u d then Suc n else d)" by (simp only: g_def)
  with Suc show ?case unfolding d_def [symmetric] by (auto simp: le_Suc_eq intro: order.trans less_imp_le)
qed simp

lemma least_used_spec:
  "least_used es < SERVER_IMAGE_CACHE_ENTRIES" "i < SERVER_IMAGE_CACHE_ENTRIES \<Longrightarrow> ic_used (es ! least_used es) \<le> ic_used (es ! i)"
  using fold_min [of "\<lambda>i. ic_used (es ! i)" 31] by (auto simp: least_used_def SERVER_IMAGE_CACHE_ENTRIES_def)

lemma fold_min_where:
  fixes u :: "nat \<Rightarrow> 'a :: linorder" and P :: "nat \<Rightarrow> bool"
  defines "g \<equiv> \<lambda>i d. if P i \<and> (\<not> P d \<or> u i < u d) then i else d"
  shows "(fold g [0..<n] d0 = d0 \<or> fold g [0..<n] d0 < n) \<and> ((\<exists>i<n. P i) \<longrightarrow> P (fold g [0..<n] d0))
    \<and> (\<forall>i<n. P i \<longrightarrow> u (fold g [0..<n] d0) \<le> u i)"
proof (induction n)
  case (Suc n)
  define d where "d = fold g [0..<n] d0"
  have "fold g [0..<Suc n] d0 = g n d" by (simp add: d_def)
  then have f: "fold g [0..<Suc n] d0 = (if P n \<and> (\<not> P d \<or> u n < u d) then n else d)" by (simp only: g_def)
  show ?case
  proof (cases "P n \<and> (\<not> P d \<or> u n < u d)")
    case True
    then have "u n \<le> u i" if "i < n" "P i" for i
      using Suc that unfolding d_def [symmetric] by (auto intro: order.trans less_imp_le)
    with True show ?thesis unfolding f by (auto simp: less_Suc_eq)
  next
    case False
    with Suc show ?thesis unfolding f d_def [symmetric] by (auto simp: less_Suc_eq not_less)
  qed
qed simp

lemma least_used_occupied_spec:
  assumes "d0 < SERVER_IMAGE_CACHE_ENTRIES" "i < SERVER_IMAGE_CACHE_ENTRIES" "occupied (es ! i)"
  shows "least_used_occupied es d0 < SERVER_IMAGE_CACHE_ENTRIES" "occupied (es ! least_used_occupied es d0)"
    "ic_used (es ! least_used_occupied es d0) \<le> ic_used (es ! i)"
proof -
  note f = fold_min_where [of "\<lambda>i. ic_encoded (es ! i) \<noteq> None" "\<lambda>i. ic_used (es ! i)" SERVER_IMAGE_CACHE_ENTRIES d0,
      unfolded not_not, folded least_used_occupied_def occupied_def]
  show "least_used_occupied es d0 < SERVER_IMAGE_CACHE_ENTRIES" "occupied (es ! least_used_occupied es d0)"
    "ic_used (es ! least_used_occupied es d0) \<le> ic_used (es ! i)" using f assms by auto
qed


lemma sum_list_update:
  "i < length xs \<Longrightarrow> sum_list (map f (xs[i := y])) + f (xs ! i) = sum_list (map f xs) + (f y :: nat)"
proof (induction xs arbitrary: i)
  case (Cons x xs)
  then show ?case by (cases i) auto
qed simp

lemma count_update:
  "i < length xs \<Longrightarrow> P (xs ! i) \<Longrightarrow> \<not> P y \<Longrightarrow> length (filter P (xs[i := y])) < length (filter P xs)"
proof (induction xs arbitrary: i)
  case (Cons x xs)
  then show ?case by (cases i) auto
qed simp

lemma cache_entry: "cache_ok c \<Longrightarrow> i < SERVER_IMAGE_CACHE_ENTRIES \<Longrightarrow> entry_ok (ic_clock c) (ic_entries c ! i)"
  by (simp add: cache_ok_def list_all_length)

lemma remove_ok:
  assumes "cache_ok c" "i < SERVER_IMAGE_CACHE_ENTRIES"
  shows "cache_ok (server_image_cache_remove i c)" "ic_clock (server_image_cache_remove i c) = ic_clock c"
    "ic_entries (server_image_cache_remove i c) = (ic_entries c)[i := zero_entry]"
proof -
  let ?e = "ic_entries c ! i"
  have len: "i < length (ic_entries c)" using assms by (simp add: cache_ok_def)
  have s: "sum_list (map entry_size ((ic_entries c)[i := zero_entry])) + entry_size ?e = unat (ic_bytes c)"
    using sum_list_update [OF len, of entry_size zero_entry] assms(1) by (simp add: cache_ok_def)
  have "unat (ic_encoded_len ?e) + unat (ic_data_bytes ?e) \<le> unat (ic_bytes c)" using s by (simp add: entry_size_def)
  moreover from this have u: "unat (ic_encoded_len ?e + ic_data_bytes ?e) = entry_size ?e"
    using unat_u64_bound [of "ic_bytes c"] by (simp add: unat_plus_64 entry_size_def)
  ultimately have "ic_encoded_len ?e + ic_data_bytes ?e \<le> ic_bytes c" by (simp add: word_le_nat_alt entry_size_def)
  then have "unat (ic_bytes c - (ic_encoded_len ?e + ic_data_bytes ?e)) = unat (ic_bytes c) - entry_size ?e"
    by (simp add: unat_sub u)
  moreover have "list_all (entry_ok (ic_clock c)) ((ic_entries c)[i := zero_entry])"
    using assms(1) set_update_subset_insert [of "ic_entries c" i zero_entry] by (auto simp: cache_ok_def list_all_iff)
  ultimately show "cache_ok (server_image_cache_remove i c)"
    using assms(1) s by (simp add: cache_ok_def server_image_cache_remove_def Let_def)
qed (simp_all add: server_image_cache_remove_def Let_def)

definition lru_evicted :: "image_cache \<Rightarrow> image_cache \<Rightarrow> bool" where
  "lru_evicted c c' \<longleftrightarrow> (\<forall>i<SERVER_IMAGE_CACHE_ENTRIES. ic_entries c' ! i = ic_entries c ! i
     \<or> ic_entries c' ! i = zero_entry \<and> (\<forall>j<SERVER_IMAGE_CACHE_ENTRIES. occupied (ic_entries c' ! j) \<longrightarrow>
          ic_used (ic_entries c ! i) \<le> ic_used (ic_entries c ! j)))"

lemma make_room_step:
  assumes "cache_ok c" "need \<le> budget"
    "\<not> (ic_encoded (ic_entries c ! least_used (ic_entries c)) = None \<and> ic_bytes c \<le> budget - need)"
  defines "d \<equiv> least_used (ic_entries c)"
  defines "v \<equiv> if ic_encoded (ic_entries c ! d) = None then least_used_occupied (ic_entries c) d else d"
  shows "v < SERVER_IMAGE_CACHE_ENTRIES \<and> occupied (ic_entries c ! v)
    \<and> (\<forall>i<SERVER_IMAGE_CACHE_ENTRIES. occupied (ic_entries c ! i) \<longrightarrow> ic_used (ic_entries c ! v) \<le> ic_used (ic_entries c ! i))"
proof (cases "ic_encoded (ic_entries c ! d) = None")
  case False
  then have "v = d" unfolding v_def by (rule if_not_P)
  moreover have "occupied (ic_entries c ! d)" using False by (simp add: occupied_def)
  ultimately show ?thesis using least_used_spec [where es = "ic_entries c"] by (simp add: d_def)
next
  case True
  have "\<exists>i<SERVER_IMAGE_CACHE_ENTRIES. occupied (ic_entries c ! i)"
  proof (rule ccontr)
    assume "\<not> ?thesis"
    then have "\<forall>e\<in>set (ic_entries c). e = zero_entry"
      using assms(1) by (auto simp: cache_ok_def list_all_length entry_ok_def in_set_conv_nth)
    then have "sum_list (map entry_size (ic_entries c)) = 0" by (auto simp: sum_list_eq_0_iff)
    then have "unat (ic_bytes c) = 0" using assms(1) unfolding cache_ok_def by (metis (no_types))
    then have "ic_bytes c = 0" by (simp only: unat_eq_zero)
    with assms(3) True show False by (simp add: d_def)
  qed
  then obtain i where i: "i < SERVER_IMAGE_CACHE_ENTRIES" "occupied (ic_entries c ! i)" by blast
  have "d < SERVER_IMAGE_CACHE_ENTRIES" unfolding d_def by (rule least_used_spec)
  from least_used_occupied_spec [OF this] i show ?thesis by (auto simp: v_def True)
qed

lemma make_room_spec:
  assumes "cache_ok c" "need \<le> budget"
  shows "\<exists>d c'. image_cache_make_room budget need c = Some (d, c') \<and> d < SERVER_IMAGE_CACHE_ENTRIES
    \<and> \<not> occupied (ic_entries c' ! d) \<and> cache_ok c' \<and> ic_clock c' = ic_clock c \<and> ic_bytes c' \<le> budget - need \<and> lru_evicted c c'
    \<and> ((\<exists>i<SERVER_IMAGE_CACHE_ENTRIES. \<not> occupied (ic_entries c ! i)) \<and> ic_bytes c \<le> budget - need \<longrightarrow> c' = c)"
  using assms
proof (induction "occupied_count c" arbitrary: c rule: less_induct)
  case less
  let ?d = "least_used (ic_entries c)"
  have d: "?d < SERVER_IMAGE_CACHE_ENTRIES" by (rule least_used_spec)
  show ?case
  proof (cases "ic_encoded (ic_entries c ! ?d) = None \<and> ic_bytes c \<le> budget - need")
    case True
    then have "image_cache_make_room budget need c = Some (?d, c)"
      by (subst image_cache_make_room.simps) (simp add: Let_def)
    with True d less.prems show ?thesis by (auto simp: occupied_def lru_evicted_def)
  next
    case False
    define v where "v = (if ic_encoded (ic_entries c ! ?d) = None then least_used_occupied (ic_entries c) ?d else ?d)"
    note v = make_room_step [OF less.prems False, folded v_def]
    let ?c = "server_image_cache_remove v c"
    have r: "image_cache_make_room budget need c = image_cache_make_room budget need ?c"
      using False unfolding v_def by (subst image_cache_make_room.simps) (simp only: Let_def if_False)
    note ok = remove_ok [OF less.prems(1), of v]
    have len: "v < length (ic_entries c)" using v less.prems(1) by (simp add: cache_ok_def)
    have "occupied_count ?c < occupied_count c"
      using v len ok by (simp add: occupied_count_def count_update)
    then obtain e c' where e: "image_cache_make_room budget need ?c = Some (e, c')" "e < SERVER_IMAGE_CACHE_ENTRIES"
      "\<not> occupied (ic_entries c' ! e)" "cache_ok c'" "ic_clock c' = ic_clock ?c" "ic_bytes c' \<le> budget - need" "lru_evicted ?c c'"
      using less.hyps [of ?c] ok v less.prems(2) by blast
    have "lru_evicted c c'" unfolding lru_evicted_def
    proof (intro allI impI)
      fix i assume i: "i < SERVER_IMAGE_CACHE_ENTRIES"
      have same: "occupied (ic_entries c ! j) \<and> ic_entries ?c ! j = ic_entries c ! j"
        if "j < SERVER_IMAGE_CACHE_ENTRIES" "occupied (ic_entries c' ! j)" for j
        using e(7) that ok v by (cases "j = v") (auto simp: lru_evicted_def cache_ok_def)
      show "ic_entries c' ! i = ic_entries c ! i \<or> ic_entries c' ! i = zero_entry \<and>
          (\<forall>j<SERVER_IMAGE_CACHE_ENTRIES. occupied (ic_entries c' ! j) \<longrightarrow> ic_used (ic_entries c ! i) \<le> ic_used (ic_entries c ! j))"
      proof (cases "i = v")
        case True
        have "ic_entries c' ! v = zero_entry" using e(7) ok v less.prems(1) by (auto simp: lru_evicted_def cache_ok_def)
        then show ?thesis using True v same by blast
      next
        case False
        then have "ic_entries ?c ! i = ic_entries c ! i" using ok v by simp
        then show ?thesis using e(7) i same unfolding lru_evicted_def by metis
      qed
    qed
    moreover have "c' = c" if h: "\<exists>i<SERVER_IMAGE_CACHE_ENTRIES. \<not> occupied (ic_entries c ! i)" "ic_bytes c \<le> budget - need"
    proof -
      obtain i where i: "i < SERVER_IMAGE_CACHE_ENTRIES" "\<not> occupied (ic_entries c ! i)" using h(1) by blast
      then have "ic_used (ic_entries c ! i) = 0" using cache_entry [OF less.prems(1) i(1)] by (auto simp: entry_ok_def)
      then have "ic_used (ic_entries c ! ?d) = 0" using least_used_spec(2) [OF i(1), of "ic_entries c"] by simp
      then have "\<not> occupied (ic_entries c ! ?d)" using cache_entry [OF less.prems(1) d] by (auto simp: entry_ok_def)
      with False h(2) show ?thesis by (simp add: occupied_def)
    qed
    ultimately show ?thesis using r e ok v by auto
  qed
qed


text \<open>What fits the budget at all, as numbers, is what the code's checks on 64-bit words accept.\<close>

definition image_fits :: "u8 list \<Rightarrow> vision_embedding \<Rightarrow> u32 \<Rightarrow> u64 \<Rightarrow> bool" where
  "image_fits encoded emb dim budget \<longleftrightarrow> ve_data emb \<noteq> None \<and> dim \<noteq> 0 \<and> ve_token_count emb \<noteq> 0 \<and> encoded \<noteq> []
     \<and> length encoded + unat (ve_token_count emb) * unat dim * 4 \<le> unat budget"

lemma image_check:
  fixes budget :: u64 and len :: nat and k dim :: u32
  assumes "len < 18446744073709551616" "dim \<noteq> 0"
  defines "n \<equiv> ucast k * ucast dim * (4 :: u64)"
  shows "\<not> budget div 4 div ucast dim < ucast k \<and> \<not> budget - n < of_nat len \<longleftrightarrow> len + unat k * unat dim * 4 \<le> unat budget"
    and "\<not> budget div 4 div ucast dim < ucast k \<Longrightarrow> unat n = unat k * unat dim * 4 \<and> unat n \<le> unat budget"
proof -
  have d: "0 < unat dim" using assms(2) by (simp add: unat_gt_0)
  have q: "\<not> budget div 4 div ucast dim < ucast k \<longleftrightarrow> unat k * unat dim * 4 \<le> unat budget"
    using d by (simp add: word_less_nat_alt unat_div_word unat_ucast_32_64 not_less less_eq_div_iff_mult_less_eq mult.commute mult.left_commute)
  have n: "unat n = unat k * unat dim * 4" if "unat k * unat dim * 4 \<le> unat budget"
  proof -
    have b: "unat k * unat dim * 4 < 18446744073709551616" using that unat_u64_bound [of budget] by (rule le_less_trans)
    have m: "unat (ucast k * ucast dim :: u64) = unat k * unat dim"
      using unat_mult_64 [of "ucast k" "ucast dim"] b by (simp add: mult.commute)
    have "unat (ucast k * ucast dim * 4 :: u64) = unat (ucast k * ucast dim :: u64) * unat (4 :: u64)"
    proof (rule unat_mult_64)
      show "unat (ucast k * ucast dim :: u64) * unat (4 :: u64) < 18446744073709551616" unfolding m using b by simp
    qed
    then show ?thesis unfolding n_def m by simp
  qed
  have l: "unat (of_nat len :: u64) = len" using assms(1) by (simp add: unat_of_nat)
  show "\<not> budget div 4 div ucast dim < ucast k \<Longrightarrow> unat n = unat k * unat dim * 4 \<and> unat n \<le> unat budget"
    unfolding q using n by simp
  show "\<not> budget div 4 div ucast dim < ucast k \<and> \<not> budget - n < of_nat len \<longleftrightarrow> len + unat k * unat dim * 4 \<le> unat budget"
  proof (cases "unat k * unat dim * 4 \<le> unat budget")
    case True
    then have "n \<le> budget" using n by (simp add: word_le_nat_alt)
    then have "unat (budget - n) = unat budget - unat n" by (simp add: unat_sub)
    then show ?thesis using True n [OF True] unfolding q by (simp add: word_less_nat_alt l) linarith
  qed (simp add: q)
qed


text \<open>\<open>put\<close> by cases: nothing is stored, or room is made and the image goes to a free entry.\<close>

lemma put_unfold:
  assumes "length encoded < 18446744073709551616"
  shows "server_image_cache_put alloc_ok encoded emb dim budget c =
    (if \<not> image_fits encoded emb dim budget then Some c
     else let n = ucast (ve_token_count emb) * ucast dim * 4; need = of_nat (length encoded) + n
       in case image_cache_make_room budget need c of
            None \<Rightarrow> None
          | Some (d, c) \<Rightarrow>
              if \<not> alloc_ok then Some c
              else Some (c\<lparr>ic_clock := ic_clock c + 1,
                ic_entries := (ic_entries c)[d :=
                  \<lparr>ic_encoded = Some encoded, ic_encoded_len = of_nat (length encoded),
                   ic_embedding = emb\<lparr>ve_data := Some (take (unat (n div 4)) (the (ve_data emb)))\<rparr>,
                   ic_data_bytes = n, ic_used = ic_clock c + 1\<rparr>],
                ic_bytes := ic_bytes c + need\<rparr>))"
proof (cases "ve_data emb")
  case None
  then show ?thesis by (simp add: server_image_cache_put_def image_fits_def)
next
  case (Some data)
  have l: "(of_nat (length encoded) :: u64) = 0 \<longleftrightarrow> encoded = []"
    using assms by (simp add: unat_eq_zero [symmetric] unat_of_nat)
  have k: "(ucast (ve_token_count emb) :: u64) = 0 \<longleftrightarrow> ve_token_count emb = 0"
    by (metis unat_ucast_32_64 unat_eq_zero)
  show ?thesis
  proof (cases "dim = 0")
    case True
    then show ?thesis using Some by (simp add: server_image_cache_put_def image_fits_def)
  next
    case False
    note c = image_check(1) [OF assms False, of budget "ve_token_count emb"]
    show ?thesis
      unfolding server_image_cache_put_def Some option.case Let_def image_fits_def l k c [symmetric] option.sel
      by (cases "encoded = []"; cases "ve_token_count emb = 0";
          cases "budget div 4 div ucast dim < (ucast (ve_token_count emb) :: u64)"; simp add: False Some)
  qed
qed


lemma find_only: "x \<in> set xs \<Longrightarrow> P x \<Longrightarrow> \<forall>y\<in>set xs. P y \<longrightarrow> y = x \<Longrightarrow> find P xs = Some x"
proof (induction xs)
  case (Cons y xs)
  show ?case
  proof (cases "P y")
    case True
    then have "y = x" using Cons.prems(3) by (meson list.set_intros(1))
    with True show ?thesis by simp
  next
    case False
    then have "x \<in> set xs" using Cons.prems(1,2) by auto
    moreover have "\<forall>y\<in>set xs. P y \<longrightarrow> y = x" using Cons.prems(3) by (meson list.set_intros(2))
    ultimately have "find P xs = Some x" using Cons.IH Cons.prems(2) by blast
    with False show ?thesis by simp
  qed
qed simp

definition image_missing :: "u8 list \<Rightarrow> image_cache \<Rightarrow> bool" where
  "image_missing encoded c \<longleftrightarrow> list_all (\<lambda>e. \<not> image_entry_matches encoded e) (ic_entries c)"

text \<open>The state after a successful insertion into a free entry.\<close>

lemma insert_ok:
  assumes "cache_ok c" "d < SERVER_IMAGE_CACHE_ENTRIES" "\<not> occupied (ic_entries c ! d)" "unat (ic_clock c) + 1 < 18446744073709551616"
    and "ic_bytes c \<le> budget - need" "need \<le> budget" "unat need = unat (ic_encoded_len e) + unat (ic_data_bytes e)"
    and "occupied e" "ic_used e = ic_clock c + 1"
  defines "c' \<equiv> c\<lparr>ic_clock := ic_clock c + 1, ic_entries := (ic_entries c)[d := e], ic_bytes := ic_bytes c + need\<rparr>"
  shows "cache_ok c' \<and> ic_bytes c' \<le> budget"
proof -
  have clock: "ic_clock c < ic_clock c + 1"
    using assms(4) by (rule clock_less)
  then have pos: "0 < ic_clock c + 1" by (metis le_less_trans word_zero_le)
  have len: "d < length (ic_entries c)" using assms(1,2) by (simp add: cache_ok_def)
  have e: "ic_entries c ! d = zero_entry" using cache_entry [OF assms(1,2)] assms(3) by (simp add: entry_ok_def)
  have le: "unat (ic_bytes c) + unat need \<le> unat budget"
    using assms(5,6) by (simp add: word_le_nat_alt unat_sub)
  then have sum: "unat (ic_bytes c + need) = unat (ic_bytes c) + unat need"
    using unat_u64_bound [of budget] by (intro unat_plus_64) simp
  have "sum_list (map entry_size ((ic_entries c)[d := e])) = unat (ic_bytes c) + unat need"
    using sum_list_update [OF len, of entry_size e] e assms(1,7) by (simp add: cache_ok_def entry_size_def [of e])
  moreover have "list_all (entry_ok (ic_clock c + 1)) ((ic_entries c)[d := e])"
  proof -
    have "entry_ok (ic_clock c + 1) x" if "x \<in> set (ic_entries c)" for x
    proof -
      have "entry_ok (ic_clock c) x" using that assms(1) by (simp add: cache_ok_def list_all_iff)
      then show ?thesis using less_imp_le [OF clock] by (auto simp: entry_ok_def split: if_splits intro: order.trans)
    qed
    moreover have "entry_ok (ic_clock c + 1) e" using assms(8,9) pos by (auto simp: entry_ok_def)
    ultimately show ?thesis using set_update_subset_insert [of "ic_entries c" d e] by (auto simp: list_all_iff)
  qed
  ultimately show ?thesis using assms(1) sum le by (simp add: c'_def cache_ok_def word_le_nat_alt)
qed


text \<open>
  C21: Storing an image always ends, although its loop has no bound of its own: whatever the arguments, \<open>put\<close>
  returns a well-formed cache within the budget, in which every entry was there before or is the
  new one, and the entries given up were the least recently used; and an image that fits the budget
  and was not in the cache is afterwards found, with exactly its embedding.
\<close>

theorem image_cache_put_returns:
  assumes "cache_ok c" "ic_bytes c \<le> budget" "unat (ic_clock c) + 1 < 18446744073709551616"
    and "length encoded < 18446744073709551616"
  shows "\<exists>c'. server_image_cache_put alloc_ok encoded emb dim budget c = Some c' \<and> cache_ok c' \<and> ic_bytes c' \<le> budget
    \<and> (\<forall>i<SERVER_IMAGE_CACHE_ENTRIES. ic_entries c' ! i = ic_entries c ! i \<or> ic_entries c' ! i = zero_entry
          \<or> ic_encoded (ic_entries c' ! i) = Some encoded)
    \<and> (\<forall>i<SERVER_IMAGE_CACHE_ENTRIES. \<forall>j<SERVER_IMAGE_CACHE_ENTRIES.
          occupied (ic_entries c ! i) \<and> ic_entries c' ! i \<noteq> ic_entries c ! i \<and> occupied (ic_entries c' ! j)
            \<and> ic_entries c' ! j = ic_entries c ! j \<longrightarrow> ic_used (ic_entries c ! i) \<le> ic_used (ic_entries c ! j))
    \<and> (alloc_ok \<and> image_fits encoded emb dim budget \<and> image_missing encoded c
          \<and> length (the (ve_data emb)) = unat (ve_token_count emb) * unat dim \<longrightarrow>
        fst (server_image_cache_get True encoded c') = Some emb)"
proof (cases "image_fits encoded emb dim budget")
  case False
  then show ?thesis using assms by (simp add: put_unfold)
next
  case True
  let ?k = "ve_token_count emb"
  define n where "n = (ucast ?k * ucast dim * 4 :: u64)"
  define need where "need = of_nat (length encoded) + n"
  have dim: "dim \<noteq> 0" and sz: "length encoded + unat ?k * unat dim * 4 \<le> unat budget" and ne: "encoded \<noteq> []"
    and dat: "ve_data emb \<noteq> None"
    using True by (simp_all add: image_fits_def)
  have l: "unat (of_nat (length encoded) :: u64) = length encoded" using assms(4) by (simp add: unat_of_nat)
  have n: "unat n = unat ?k * unat dim * 4"
    using image_check [OF assms(4) dim, of budget ?k] sz by (simp add: n_def)
  have need: "unat need = length encoded + unat n" "need \<le> budget"
  proof -
    show "unat need = length encoded + unat n"
      unfolding need_def using unat_plus_64 [of "of_nat (length encoded)" n] sz l n unat_u64_bound [of budget] by simp
    then show "need \<le> budget" using sz n by (simp add: word_le_nat_alt)
  qed
  obtain d r where r: "image_cache_make_room budget need c = Some (d, r)" "d < SERVER_IMAGE_CACHE_ENTRIES"
    "\<not> occupied (ic_entries r ! d)" "cache_ok r" "ic_clock r = ic_clock c" "ic_bytes r \<le> budget - need" "lru_evicted c r"
    using make_room_spec [OF assms(1) need(2)] by blast
  show ?thesis
  proof (cases alloc_ok)
    case False
    have "budget - need \<le> budget" using need(2) by (simp add: word_sub_le)
    with r(6) have "ic_bytes r \<le> budget" by (rule order.trans)
    with False True r assms(4) show ?thesis
      by (simp add: put_unfold n_def [symmetric] need_def [symmetric] Let_def) (auto simp: lru_evicted_def)
  next
    case alloc: True
    define e where "e = \<lparr>ic_encoded = Some encoded, ic_encoded_len = of_nat (length encoded),
       ic_embedding = emb\<lparr>ve_data := Some (take (unat (n div 4)) (the (ve_data emb)))\<rparr>,
       ic_data_bytes = n, ic_used = ic_clock c + 1\<rparr>"
    define c' where "c' = r\<lparr>ic_clock := ic_clock r + 1, ic_entries := (ic_entries r)[d := e], ic_bytes := ic_bytes r + need\<rparr>"
    have put: "server_image_cache_put alloc_ok encoded emb dim budget c = Some c'"
      using True alloc r assms(4) by (simp add: put_unfold n_def [symmetric] need_def [symmetric] Let_def c'_def e_def)
    have e: "occupied e" "ic_used e = ic_clock r + 1" "unat need = unat (ic_encoded_len e) + unat (ic_data_bytes e)"
      using need l r(5) by (simp_all add: e_def occupied_def)
    have clock: "unat (ic_clock r) + 1 < 18446744073709551616" using assms(3) r(5) by simp
    have ok: "cache_ok c' \<and> ic_bytes c' \<le> budget"
      unfolding c'_def using insert_ok [OF r(4,2,3) clock r(6) need(2) e(3,1,2)] .
    have len: "length (ic_entries r) = SERVER_IMAGE_CACHE_ENTRIES" using r(4) by (simp add: cache_ok_def)
    have at: "ic_entries c' ! i = (if i = d then e else ic_entries r ! i)" if "i < SERVER_IMAGE_CACHE_ENTRIES" for i
      using that len by (simp add: c'_def)
    have old: "ic_entries r ! i = ic_entries c ! i \<or> ic_entries r ! i = zero_entry" if "i < SERVER_IMAGE_CACHE_ENTRIES" for i
      using r(7) that by (auto simp: lru_evicted_def)
    have new: "e \<noteq> ic_entries c ! j" if "j < SERVER_IMAGE_CACHE_ENTRIES" for j
    proof
      assume "e = ic_entries c ! j"
      then have "ic_clock c + 1 \<le> ic_clock c" using cache_entry [OF assms(1) that] e r(5) by (auto simp: entry_ok_def)
      with clock_less [OF assms(3)] show False by simp
    qed
    have found: "fst (server_image_cache_get True encoded c') = Some emb"
      if miss: "image_missing encoded c" and data: "length (the (ve_data emb)) = unat ?k * unat dim"
    proof -
      have "\<not> image_entry_matches encoded (ic_entries c ! i)" if "i < SERVER_IMAGE_CACHE_ENTRIES" for i
        using miss that assms(1) by (auto simp: image_missing_def list_all_length cache_ok_def)
      then have "image_entry_matches encoded (ic_entries c' ! i) \<longleftrightarrow> i = d" if "i < SERVER_IMAGE_CACHE_ENTRIES" for i
        using that old [OF that] at [OF that] by (auto simp: image_entry_matches_def e_def zero_entry_def)
      then have "find (\<lambda>i. image_entry_matches encoded (ic_entries c' ! i)) [0..<SERVER_IMAGE_CACHE_ENTRIES] = Some d"
        using r(2) by (intro find_only) auto
      moreover have "unat (n div 4) = unat ?k * unat dim" using n by (simp add: unat_div_word)
      moreover have "emb\<lparr>ve_data := map_option (take (unat ?k * unat dim)) (ve_data emb)\<rparr> = emb"
        using data dat by (cases emb) auto
      ultimately show ?thesis using at [OF r(2)] data dat by (simp add: server_image_cache_get_def e_def Let_def)
    qed
    have lru: "ic_used (ic_entries c ! i) \<le> ic_used (ic_entries c ! j)"
      if h: "i < SERVER_IMAGE_CACHE_ENTRIES" "j < SERVER_IMAGE_CACHE_ENTRIES" "occupied (ic_entries c ! i)"
        "ic_entries c' ! i \<noteq> ic_entries c ! i" "occupied (ic_entries c' ! j)" "ic_entries c' ! j = ic_entries c ! j" for i j
    proof -
      have j: "ic_entries r ! j = ic_entries c ! j" "occupied (ic_entries r ! j)"
        using h(2,5,6) at [OF h(2)] new [OF h(2)] by (auto split: if_splits)
      have "ic_entries r ! i \<noteq> ic_entries c ! i"
        using h(1,3,4) at [OF h(1)] r(3) by (auto split: if_splits)
      then have "\<forall>j<SERVER_IMAGE_CACHE_ENTRIES. occupied (ic_entries r ! j) \<longrightarrow> ic_used (ic_entries c ! i) \<le> ic_used (ic_entries c ! j)"
        using r(7) h(1) unfolding lru_evicted_def by blast
      with h(2) j show ?thesis by blast
    qed
    have kept: "ic_entries c' ! i = ic_entries c ! i \<or> ic_entries c' ! i = zero_entry \<or> ic_encoded (ic_entries c' ! i) = Some encoded"
      if "i < SERVER_IMAGE_CACHE_ENTRIES" for i
      using at [OF that] old [OF that] by (auto simp: e_def)
    show ?thesis using put ok kept lru found by blast
  qed
qed


subsection \<open>Witness\<close>

definition demo_embedding :: vision_embedding where
  "demo_embedding = zero_embedding\<lparr>ve_data := Some [1, 2], ve_token_count := 1\<rparr>"

lemma empty_cache_ok: "cache_ok empty_image_cache"
  by (simp add: cache_ok_def empty_image_cache_def list_all_iff sum_list_eq_0_iff)

lemma image_cache_put_returns_witness:
  "\<exists>c'. server_image_cache_put True [9] demo_embedding 2 100 empty_image_cache = Some c' \<and>
     fst (server_image_cache_get True [9] c') = Some demo_embedding"
proof -
  have "image_fits [9] demo_embedding 2 100" "image_missing [9] empty_image_cache"
    "length (the (ve_data demo_embedding)) = unat (ve_token_count demo_embedding) * unat (2 :: u32)"
    by (simp_all add: image_fits_def demo_embedding_def image_missing_def empty_image_cache_def list_all_iff
        image_entry_matches_def zero_entry_def)
  then show ?thesis
    using image_cache_put_returns [OF empty_cache_ok, of 100 "[9]" True demo_embedding 2]
    by (auto simp: empty_image_cache_def)
qed

end
