(* ===== verification/VisibleKey.thy ===== *)
theory VisibleKey
  imports CString
begin

text \<open>
  The comparison of visible transcripts (\<open>ds4_server.c\<close>, \<open>visible_prompt_key\<close> and
  \<open>visible_image_prefix_matches\<close>): image markers carry nonces that differ from request to request, so
  they are masked in place, and the offsets where they stood are kept beside the masked text.
\<close>

subsection \<open>The key of a transcript\<close>

definition mask :: "string \<Rightarrow> string" where
  "mask m = replicate (length m) (CHR 0x1E)"

text \<open>The loop over the markers; \<open>pos\<close> is the offset of the cursor, the result the masked rest and the offsets.\<close>

fun mask_markers :: "string list \<Rightarrow> nat \<Rightarrow> string \<Rightarrow> (string \<times> nat list) option" where
  "mask_markers [] pos t = Some (t, [])"
| "mask_markers (m # ms) pos t =
     (case c_strstr t m of
        None \<Rightarrow> None
      | Some r \<Rightarrow>
          if m = [] then None
          else let before = take (length t - length r) t; off = pos + length before in
            case mask_markers ms (off + length m) (drop (length m) r) of
              None \<Rightarrow> None
            | Some (k, offs) \<Rightarrow> Some (before @ mask m @ k, off # offs))"

text \<open>\<open>markers\<close> is \<open>None\<close> when the request has no array of markers.\<close>

definition visible_prompt_key :: "nat \<Rightarrow> string list option \<Rightarrow> string option \<Rightarrow> (string \<times> nat list) option" where
  "visible_prompt_key image_count markers t =
     (case t of
        None \<Rightarrow> None
      | Some t \<Rightarrow>
          if 16 < image_count \<or> (image_count \<noteq> 0 \<and> markers = None) then None
          else mask_markers (case markers of None \<Rightarrow> [] | Some ms \<Rightarrow> take image_count ms) 0 t)"

definition visible_image_prefix_matches :: "nat list \<Rightarrow> nat list \<Rightarrow> nat \<Rightarrow> bool" where
  "visible_image_prefix_matches incoming old boundary \<longleftrightarrow>
     \<not> length incoming < length old \<and> (\<forall>i<length old. incoming ! i = old ! i)
     \<and> (length incoming = length old \<or> boundary \<le> incoming ! length old)"

subsection \<open>Transcripts with the markers taken out\<close>

fun weave :: "string list \<Rightarrow> string list \<Rightarrow> string" where
  "weave [] ms = []"
| "weave (s # segs) [] = s @ weave segs []"
| "weave (s # segs) (m # ms) = s @ m @ weave segs ms"

lemma c_strstr_split: "c_strstr t m = Some r \<Longrightarrow> t = take (length t - length r) t @ m @ drop (length m) r"
proof -
  assume "c_strstr t m = Some r"
  then obtain u where u: "t = u @ r" "starts_with r m" using c_strstr_SomeD by blast
  then have "r = m @ drop (length m) r" by (metis starts_with_drop)
  with u(1) show ?thesis by (metis append_eq_conv_conj append_take_drop_id diff_add_inverse2 length_append)
qed

lemma mask_markers_Cons:
  assumes "mask_markers (m # ms) pos t = Some (k, offs)"
  obtains b r k1 offs1 where "c_strstr t m = Some r" "m \<noteq> []" "t = b @ m @ drop (length m) r" "length b = length t - length r"
    "mask_markers ms (pos + length b + length m) (drop (length m) r) = Some (k1, offs1)"
    "k = b @ mask m @ k1" "offs = (pos + length b) # offs1"
proof -
  obtain r where r: "c_strstr t m = Some r" using assms by (auto split: option.splits)
  define b where "b = take (length t - length r) t"
  have t: "t = b @ m @ drop (length m) r" unfolding b_def by (rule c_strstr_split [OF r])
  have ne: "m \<noteq> []" using assms r by (auto split: if_splits)
  obtain k1 offs1 where "mask_markers ms (pos + length b + length m) (drop (length m) r) = Some (k1, offs1)"
      "k = b @ mask m @ k1" "offs = (pos + length b) # offs1"
    using assms r ne by (auto simp: Let_def b_def split: option.splits)
  moreover have "length b = length t - length r" using c_strstr_SomeD [OF r] by (auto simp: b_def)
  ultimately show thesis using that r ne t by blast
qed

lemma length_mask_markers: "mask_markers ms pos t = Some (k, offs) \<Longrightarrow> length k = length t \<and> length offs = length ms"
proof (induction ms arbitrary: pos t k offs)
  case (Cons m ms)
  from Cons.prems show ?case
  proof (rule mask_markers_Cons)
    fix b r k1 offs1
    assume a: "t = b @ m @ drop (length m) r" "mask_markers ms (pos + length b + length m) (drop (length m) r) = Some (k1, offs1)"
      "k = b @ mask m @ k1" "offs = (pos + length b) # offs1"
    then have "length k1 = length (drop (length m) r) \<and> length offs1 = length ms" using Cons.IH by blast
    moreover have "length t = length b + length m + length (drop (length m) r)" by (subst a(1)) simp
    ultimately show ?thesis using a(3,4) by (simp add: mask_def)
  qed
qed simp

text \<open>Cutting off a part that ends before the first marker keeps the markers.\<close>

lemma c_strstr_append: "c_strstr (u @ t) m = Some r \<Longrightarrow> length r \<le> length t \<Longrightarrow> c_strstr t m = Some r"
  by (induction u) (auto split: if_splits)

lemma mask_markers_later:
  assumes "mask_markers ms pos (u @ t) = Some (k, offs)" "ms = [] \<or> pos + length u \<le> hd offs"
  shows "mask_markers ms (pos + length u) t \<noteq> None \<and> starts_with k u"
proof (cases ms)
  case Nil
  then show ?thesis using assms(1) by auto
next
  case (Cons m ms1)
  from assms(1) [unfolded Cons] show ?thesis
  proof (rule mask_markers_Cons)
    fix b r k1 offs1
    assume a: "c_strstr (u @ t) m = Some r" "m \<noteq> []" "u @ t = b @ m @ drop (length m) r" "length b = length (u @ t) - length r"
      "mask_markers ms1 (pos + length b + length m) (drop (length m) r) = Some (k1, offs1)"
      "k = b @ mask m @ k1" "offs = (pos + length b) # offs1"
    then have ub: "length u \<le> length b" using assms(2) Cons by simp
    then obtain c where c: "b = u @ c" "t = c @ m @ drop (length m) r"
      using a(3) by (metis append_eq_append_conv_if append_eq_conv_conj append_take_drop_id le_antisym nat_le_linear)
    have "length r \<le> length (u @ t)" using c_strstr_SomeD [OF a(1)] by (metis le_add2 length_append)
    then have "length r \<le> length t" using ub a(4) by simp
    then have "c_strstr t m = Some r" using a(1) c_strstr_append by blast
    moreover have "length t - length r = length c" using a(4) c(1) by simp
    ultimately have "mask_markers (m # ms1) (pos + length u) t \<noteq> None"
      using a(2,5) c by (simp add: Let_def add.assoc)
    then show ?thesis using Cons a(6) c(1) by simp
  qed
qed


lemma mask_markers_prefix:
  assumes "mask_markers ms pos t = Some (k, offs)" "mask_markers ms' pos t' = Some (k', offs')" "starts_with k' k"
    "length offs \<le> length offs'" "\<forall>i<length offs. offs' ! i = offs ! i"
    "length offs' = length offs \<or> pos + length t \<le> offs' ! length offs" "\<forall>m \<in> set ms \<union> set ms'. length m = l"
  shows "\<exists>segs rest. length segs = Suc (length ms) \<and> t = weave segs ms \<and> t' = weave segs (take (length ms) ms') @ rest
    \<and> mask_markers (drop (length ms) ms') (pos + length t) rest \<noteq> None"
  using assms
proof (induction ms arbitrary: pos t k offs t' ms' k' offs')
  case Nil
  then have k: "k = t" "offs = []" by simp_all
  note len = length_mask_markers [OF Nil.prems(2)]
  obtain rest where t': "t' = t @ rest"
  proof -
    have "starts_with t' t"
    proof (cases ms')
      case Nil
      then show ?thesis using Nil.prems k by simp
    next
      case (Cons m' ms1)
      from Nil.prems(2) [unfolded Cons] show ?thesis
      proof (rule mask_markers_Cons)
        fix b r k1 offs1
        assume a: "t' = b @ m' @ drop (length m') r" "k' = b @ mask m' @ k1" "offs' = (pos + length b) # offs1"
        then have "length t \<le> length b" using Nil.prems(6) k by simp
        moreover have "starts_with (b @ mask m' @ k1) t" using Nil.prems(3) a(2) k by simp
        ultimately have "starts_with b t" by (simp add: starts_with_append_short)
        then show ?thesis using a(1) by (simp add: starts_with_appendI)
      qed
    qed
    then show thesis using that by (auto simp: starts_with_iff)
  qed
  have "ms' = [] \<or> pos + length t \<le> hd offs'" using Nil.prems(6) k len by (cases offs') auto
  then have "mask_markers ms' (pos + length t) rest \<noteq> None" using mask_markers_later Nil.prems(2) t' by blast
  then show ?case using t' by (intro exI [of _ "[t]"] exI [of _ rest]) simp
next
  case (Cons m ms)
  obtain b r k1 offs1 where a: "m \<noteq> []" "t = b @ m @ drop (length m) r"
      "mask_markers ms (pos + length b + length m) (drop (length m) r) = Some (k1, offs1)"
      "k = b @ mask m @ k1" "offs = (pos + length b) # offs1"
    using Cons.prems(1) by (rule mask_markers_Cons)
  obtain m' ms1 where ms': "ms' = m' # ms1"
    using Cons.prems(4) length_mask_markers [OF Cons.prems(1)] length_mask_markers [OF Cons.prems(2)] by (cases ms') auto
  obtain b' r' k1' offs1' where a': "t' = b' @ m' @ drop (length m') r'"
      "mask_markers ms1 (pos + length b' + length m') (drop (length m') r') = Some (k1', offs1')"
      "k' = b' @ mask m' @ k1'" "offs' = (pos + length b') # offs1'"
    using Cons.prems(2) [unfolded ms'] by (rule mask_markers_Cons)
  have l: "length m = l" "length m' = l" "\<forall>m \<in> set ms \<union> set ms1. length m = l" using Cons.prems(7) ms' by auto
  have "offs' ! 0 = offs ! 0" using Cons.prems(5) a(5) by auto
  then have bl: "length b' = length b" using a(5) a'(4) by simp
  have "starts_with (b' @ mask m' @ k1') (b @ mask m @ k1)" using Cons.prems(3) a(4) a'(3) by simp
  then obtain x where "b' @ mask m' @ k1' = b @ mask m @ k1 @ x" by (auto simp: starts_with_iff)
  then have bb: "b' = b" and sx: "starts_with k1' k1" using bl l by (auto simp: mask_def starts_with_iff)
  have len: "length t = length b + length m + length (drop (length m) r)" by (subst a(2)) simp
  have "\<forall>i<length offs1. offs1' ! i = offs1 ! i" using Cons.prems(5) a(5) a'(4) by auto
  moreover have "length offs1' = length offs1 \<or> pos + length b + length m + length (drop (length m) r) \<le> offs1' ! length offs1"
    using Cons.prems(6) a(5) a'(4) len by auto
  moreover have "length offs1 \<le> length offs1'" using Cons.prems(4) a(5) a'(4) by simp
  moreover have "mask_markers ms1 (pos + length b + length m) (drop (length m') r') = Some (k1', offs1')"
    using a'(2) bl l by simp
  ultimately obtain segs rest where ih: "length segs = Suc (length ms)" "drop (length m) r = weave segs ms"
      "drop (length m') r' = weave segs (take (length ms) ms1) @ rest"
      "mask_markers (drop (length ms) ms1) (pos + length b + length m + length (drop (length m) r)) rest \<noteq> None"
    using Cons.IH [OF a(3) _ sx _ _ _ l(3)] by blast
  have "t = weave (b # segs) (m # ms)" using a(2) ih(2) by simp
  moreover have "t' = weave (b # segs) (take (length (m # ms)) ms') @ rest" using a'(1) ih(3) bb ms' by simp
  moreover have "mask_markers (drop (length (m # ms)) ms') (pos + length t) rest \<noteq> None" using ih(4) ms' len by (simp add: add.assoc)
  moreover have "length (b # segs) = Suc (length (m # ms))" using ih(1) by simp
  ultimately show ?case by blast
qed

lemma visible_prompt_keyD:
  "visible_prompt_key n (Some ms) (Some t) = Some (k, offs) \<Longrightarrow> mask_markers (take n ms) 0 t = Some (k, offs) \<and> n \<le> 16"
  by (auto simp: visible_prompt_key_def split: if_splits)

text \<open>
  C29: when the key of a new transcript begins with the key of a remembered one and the offsets of their
  images agree up to there, the new transcript repeats the remembered one byte for byte, except that
  each image marker stands in the place of the marker it replaces; the images beyond are new text. So no
  literal text can pass for an image, nor the other way round.
\<close>

theorem visible_prefix_sound:
  assumes "visible_prompt_key n (Some ms) (Some t) = Some (k, offs)"
    and "visible_prompt_key n' (Some ms') (Some t') = Some (k', offs')"
    and "starts_with k' k" "visible_image_prefix_matches offs' offs (length k)"
    and "length ms = n" "length ms' = n'" "\<forall>m \<in> set ms \<union> set ms'. length m = l"
  shows "\<exists>segs rest. length segs = Suc n \<and> t = weave segs ms \<and> t' = weave segs (take n ms') @ rest
    \<and> mask_markers (drop n ms') (length t) rest \<noteq> None"
proof -
  have m: "mask_markers ms 0 t = Some (k, offs)" "mask_markers ms' 0 t' = Some (k', offs')"
    using visible_prompt_keyD [OF assms(1)] visible_prompt_keyD [OF assms(2)] assms(5,6) by auto
  have "length k = length t" using length_mask_markers [OF m(1)] by blast
  then show ?thesis
    using mask_markers_prefix [OF m assms(3) _ _ _ assms(7)] assms(4,5)
    by (simp add: visible_image_prefix_matches_def not_less)
qed

theorem visible_prefix_sound_witness:
  "\<exists>segs rest. length segs = Suc 1 \<and> ''see #a# ok'' = weave segs [''#a#''] \<and> ''see #b# ok, and #c#'' = weave segs (take 1 [''#b#'', ''#c#'']) @ rest
     \<and> mask_markers (drop 1 [''#b#'', ''#c#'']) (length ''see #a# ok'') rest \<noteq> None"
proof -
  let ?k = "''see '' @ mask ''#a#'' @ '' ok''"
  have 1: "visible_prompt_key 1 (Some [''#a#'']) (Some ''see #a# ok'') = Some (?k, [4])"
    by (simp add: visible_prompt_key_def mask_def)
  have 2: "visible_prompt_key 2 (Some [''#b#'', ''#c#'']) (Some ''see #b# ok, and #c#'')
      = Some (?k @ '', and '' @ mask ''#c#'', [4, 16])"
    by (simp add: visible_prompt_key_def mask_def)
  show ?thesis by (rule visible_prefix_sound [OF 1 2]) (auto simp: visible_image_prefix_matches_def mask_def)
qed

end
