(* ===== verification/VocabTable.thy ===== *)
theory VocabTable
  imports CString
begin

text \<open>
  The string tables of the tokenizer (\<open>ds4.c\<close>, \<open>str_i32_table\<close>): open addressing with linear probing over
  a power of two of slots, hashed by FNV-1a, never resized. The probing loops end only because the
  tables are created with more slots than keys; they are modelled as a \<open>partial_function\<close>, so that a
  loop that never ends is \<open>None\<close>.
\<close>

unbundle bit_operations_syntax

subsection \<open>Hashing and sizes\<close>

definition hash_bytes :: "string \<Rightarrow> u64" where
  "hash_bytes bs = fold (\<lambda>b h. (h XOR of_char b) * 1099511628211) bs 1469598103934665603"

partial_function (option) next_pow2_from :: "u64 \<Rightarrow> u64 \<Rightarrow> u64 option" where
  "next_pow2_from p n = (if p < n then next_pow2_from (push_bit 1 p) n else Some p)"

definition next_pow2 :: "u64 \<Rightarrow> u64 option" where
  "next_pow2 n = next_pow2_from 1 n"

subsection \<open>The table\<close>

record str_i32_entry =
  se_key :: "string"
  se_value :: int
  se_used :: bool

type_synonym str_i32_table = "str_i32_entry list"

definition zero_slot :: str_i32_entry where
  "zero_slot = \<lparr>se_key = [], se_value = 0, se_used = False\<rparr>"

definition table_init :: "u64 \<Rightarrow> str_i32_table option" where
  "table_init expected = map_option (\<lambda>cap. replicate (unat cap) zero_slot) (next_pow2 (expected * 2 + 16))"

text \<open>The loop of \<open>table_put\<close> and \<open>table_get\<close>: the first slot from \<open>i\<close> on that is free or holds the key.\<close>

partial_function (option) table_probe :: "str_i32_table \<Rightarrow> string \<Rightarrow> nat \<Rightarrow> nat option" where
  "table_probe t key i =
     (if \<not> se_used (t ! i) then Some i
      else if se_key (t ! i) = key then Some i
      else table_probe t key (unat ((of_nat i + 1) AND (of_nat (length t) - 1 :: u64))))"

definition table_home :: "str_i32_table \<Rightarrow> string \<Rightarrow> nat" where
  "table_home t key = unat (hash_bytes key AND (of_nat (length t) - 1))"

definition table_put :: "string \<Rightarrow> int \<Rightarrow> str_i32_table \<Rightarrow> str_i32_table option" where
  "table_put key v t =
     (case table_probe t key (table_home t key) of
        None \<Rightarrow> None
      | Some i \<Rightarrow>
          if se_used (t ! i) then Some (t[i := (t ! i)\<lparr>se_value := v\<rparr>])
          else Some (t[i := \<lparr>se_key = key, se_value = v, se_used = True\<rparr>]))"

definition table_get :: "str_i32_table \<Rightarrow> string \<Rightarrow> int option" where
  "table_get t key =
     (if length t = 0 then None
      else case table_probe t key (table_home t key) of
        None \<Rightarrow> None
      | Some i \<Rightarrow> if se_used (t ! i) then Some (se_value (t ! i)) else None)"

subsection \<open>The sizes are powers of two\<close>

lemma unat_pow2_64: "k < 64 \<Longrightarrow> unat (2 ^ k :: u64) = 2 ^ k"
proof -
  assume k: "k < 64"
  then have "(2 :: nat) ^ k < 2 ^ 64" by (intro power_strict_increasing) auto
  moreover have "(2 :: u64) ^ k = of_nat (2 ^ k)" by simp
  ultimately show ?thesis using unat_of_nat [of "2 ^ k", where ?'a = 64] by simp
qed

lemma next_pow2_from_spec:
  "p = 2 ^ k \<Longrightarrow> k < 64 \<Longrightarrow> unat n \<le> 2 ^ 63 \<Longrightarrow>
     \<exists>m<64. next_pow2_from p n = Some (2 ^ m) \<and> unat n \<le> 2 ^ m"
proof (induction "63 - k" arbitrary: p k)
  case 0
  then have k: "k = 63" by simp
  have "unat (2 ^ 63 :: u64) = 2 ^ 63" by (simp add: unat_pow2_64)
  with 0 k have "\<not> p < n" by (simp add: word_less_nat_alt)
  then show ?case using 0 k by (subst next_pow2_from.simps) (auto intro!: exI [of _ 63])
next
  case (Suc d)
  have u: "unat p = 2 ^ k" using Suc.prems by (simp add: unat_pow2_64)
  show ?case
  proof (cases "p < n")
    case True
    have "push_bit 1 p = 2 ^ Suc k" using Suc.prems(1) by (simp add: push_bit_eq_mult)
    then have "\<exists>m<64. next_pow2_from (push_bit 1 p) n = Some (2 ^ m) \<and> unat n \<le> 2 ^ m"
      using Suc by (intro Suc.hyps(1) [of "Suc k"]) auto
    then show ?thesis using True by (subst next_pow2_from.simps) simp
  next
    case False
    then have "unat n \<le> 2 ^ k" using u by (simp add: word_less_nat_alt)
    then show ?thesis using False Suc.prems by (subst next_pow2_from.simps) auto
  qed
qed


lemma next_pow2_spec:
  assumes "unat n \<le> 2 ^ 63"
  shows "\<exists>m<64. next_pow2 n = Some (2 ^ m) \<and> unat n \<le> 2 ^ m"
  using next_pow2_from_spec [of 1 0 n] assms by (simp add: next_pow2_def)

lemma mask_mod: "m < 64 \<Longrightarrow> unat (w AND (of_nat (2 ^ m) - 1) :: u64) = unat w mod 2 ^ m"
proof -
  assume "m < 64"
  have "w AND (of_nat (2 ^ m) - 1) = take_bit m w" by (simp add: take_bit_eq_mask mask_eq_exp_minus_1)
  then show ?thesis by (simp only: unsigned_take_bit_eq) (simp add: take_bit_eq_mod)
qed

subsection \<open>Probing\<close>

definition table_used :: "str_i32_table \<Rightarrow> nat" where
  "table_used t = length (filter se_used t)"

definition probe_stop :: "str_i32_table \<Rightarrow> string \<Rightarrow> nat \<Rightarrow> bool" where
  "probe_stop t key i \<longleftrightarrow> \<not> se_used (t ! i) \<or> se_key (t ! i) = key"

lemma probe_step: "m < 64 \<Longrightarrow> length t = 2 ^ m \<Longrightarrow> i < length t \<Longrightarrow> \<not> probe_stop t key i \<Longrightarrow>
    table_probe t key i = table_probe t key ((i + 1) mod length t)"
proof -
  assume m: "m < 64" "length t = 2 ^ m" and i: "i < length t" and s: "\<not> probe_stop t key i"
  have "(2 :: nat) ^ m \<le> 2 ^ 63" using m(1) by (intro power_increasing) auto
  then have "Suc i < 2 ^ 64" using i m(2) by simp
  then have "unat (of_nat (Suc i) :: u64) = Suc i" using unat_of_nat [of "Suc i", where ?'a = 64] by (simp del: of_nat_Suc)
  then have u: "unat (of_nat i + 1 :: u64) = i + 1" by (simp add: add.commute)
  have "unat ((of_nat i + 1) AND (of_nat (length t) - 1 :: u64)) = (i + 1) mod length t"
    unfolding m(2) mask_mod [OF m(1)] u ..
  with s show ?thesis by (subst table_probe.simps) (simp add: probe_stop_def)
qed

lemma probe_finds:
  assumes "m < 64" "length t = 2 ^ m" "probe_stop t key ((h + d) mod length t)"
    "\<forall>e<d. \<not> probe_stop t key ((h + e) mod length t)"
  shows "table_probe t key (h mod length t) = Some ((h + d) mod length t)"
  using assms(3,4)
proof (induction d arbitrary: h)
  case 0
  then show ?case by (subst table_probe.simps) (auto simp: probe_stop_def)
next
  case (Suc d)
  have l: "0 < length t" using assms(2) by simp
  have "table_probe t key (h mod length t) = table_probe t key ((h mod length t + 1) mod length t)"
    using Suc.prems(2) l by (intro probe_step [OF assms(1,2)]) (auto dest: spec [of _ 0])
  also have "(h mod length t + 1) mod length t = Suc h mod length t" by (simp add: mod_Suc_eq)
  also have "table_probe t key (Suc h mod length t) = Some ((Suc h + d) mod length t)"
  proof (rule Suc.IH)
    show "probe_stop t key ((Suc h + d) mod length t)" using Suc.prems(1) by simp
    show "\<forall>e<d. \<not> probe_stop t key ((Suc h + e) mod length t)"
    proof (intro allI impI)
      fix e assume "e < d"
      with Suc.prems(2) have "\<not> probe_stop t key ((h + Suc e) mod length t)" by blast
      then show "\<not> probe_stop t key ((Suc h + e) mod length t)" by simp
    qed
  qed
  finally show ?case by simp
qed

text \<open>The invariant: a free slot, each key once, and no free slot between a key's home and its slot.\<close>

definition slot_reached :: "str_i32_table \<Rightarrow> nat \<Rightarrow> bool" where
  "slot_reached t i \<longleftrightarrow> (\<exists>d. i = (table_home t (se_key (t ! i)) + d) mod length t
     \<and> (\<forall>e<d. se_used (t ! ((table_home t (se_key (t ! i)) + e) mod length t))))"

definition keys_once :: "str_i32_table \<Rightarrow> bool" where
  "keys_once t \<longleftrightarrow> (\<forall>i<length t. \<forall>j<length t.
     se_used (t ! i) \<longrightarrow> se_used (t ! j) \<longrightarrow> se_key (t ! i) = se_key (t ! j) \<longrightarrow> i = j)"

definition table_ok :: "str_i32_table \<Rightarrow> bool" where
  "table_ok t \<longleftrightarrow> (\<exists>m<64. length t = 2 ^ m) \<and> table_used t < length t
     \<and> keys_once t \<and> (\<forall>i<length t. se_used (t ! i) \<longrightarrow> slot_reached t i)"

definition table_map :: "str_i32_table \<Rightarrow> string \<Rightarrow> int option" where
  "table_map t = map_of (map (\<lambda>e. (se_key e, se_value e)) (filter se_used t))"

lemma table_home_less: "length t = 2 ^ m \<Longrightarrow> m < 64 \<Longrightarrow> table_home t key < length t"
  unfolding table_home_def by (simp only: mask_mod) simp

lemma table_map_SomeD:
  "table_map t k = Some v \<Longrightarrow> \<exists>i<length t. se_used (t ! i) \<and> se_key (t ! i) = k \<and> se_value (t ! i) = v"
  unfolding table_map_def by (drule map_of_SomeD) (auto simp: in_set_conv_nth)

lemma table_map_None: "table_map t k = None \<longleftrightarrow> (\<forall>i<length t. se_used (t ! i) \<longrightarrow> se_key (t ! i) \<noteq> k)"
proof -
  have "table_map t k = None \<longleftrightarrow> (\<forall>x\<in>set t. se_used x \<longrightarrow> se_key x \<noteq> k)"
    unfolding table_map_def map_of_eq_None_iff by (simp add: image_image image_iff) blast
  then show ?thesis by (simp only: all_set_conv_all_nth)
qed

lemma table_map_iff:
  assumes "keys_once t"
  shows "table_map t k = Some v \<longleftrightarrow> (\<exists>i<length t. se_used (t ! i) \<and> se_key (t ! i) = k \<and> se_value (t ! i) = v)"
    (is "?l \<longleftrightarrow> ?r")
proof
  assume ?r
  then obtain i where i: "i < length t" "se_used (t ! i)" "se_key (t ! i) = k" "se_value (t ! i) = v" by blast
  then have "table_map t k \<noteq> None" unfolding table_map_None by blast
  then obtain w where w: "table_map t k = Some w" by blast
  then obtain j where "j < length t" "se_used (t ! j)" "se_key (t ! j) = k" "se_value (t ! j) = w"
    using table_map_SomeD by blast
  moreover from this i have "i = j" using assms unfolding keys_once_def by blast
  ultimately show ?l using w i(4) by simp
qed (rule table_map_SomeD)

text \<open>The probe ends; where it ends the key is, if the table has it, and otherwise the slot is free.\<close>

lemma probe_spec:
  assumes "table_ok t"
  shows "\<exists>d. table_probe t k (table_home t k) = Some ((table_home t k + d) mod length t)
    \<and> (\<forall>e<d. se_used (t ! ((table_home t k + e) mod length t)))
    \<and> (case table_map t k of
         None \<Rightarrow> \<not> se_used (t ! ((table_home t k + d) mod length t))
       | Some v \<Rightarrow> se_used (t ! ((table_home t k + d) mod length t)) \<and> se_key (t ! ((table_home t k + d) mod length t)) = k
            \<and> se_value (t ! ((table_home t k + d) mod length t)) = v)"
proof -
  let ?h = "table_home t k" and ?n = "length t"
  obtain m where m: "m < 64" "?n = 2 ^ m" using assms by (auto simp: table_ok_def)
  have n: "0 < ?n" using m by simp
  have h: "?h < ?n" by (rule table_home_less [OF m(2,1)])
  have dist: "keys_once t" using assms by (simp add: table_ok_def)
  obtain i where i: "i < ?n" "\<not> se_used (t ! i)"
  proof -
    have "\<exists>x\<in>set t. \<not> se_used x"
    proof (rule ccontr)
      assume "\<not> ?thesis"
      then have "filter se_used t = t" by (simp add: filter_id_conv)
      then show False using assms by (simp add: table_ok_def table_used_def)
    qed
    with that show thesis by (metis in_set_conv_nth)
  qed
  have "(?h + (?n - ?h + i)) mod ?n = i" using h i(1) by simp
  then have ex: "\<exists>d. probe_stop t k ((?h + d) mod ?n)" using i(2) by (metis probe_stop_def)
  define d where "d = (LEAST d. probe_stop t k ((?h + d) mod ?n))"
  have stop: "probe_stop t k ((?h + d) mod ?n)" unfolding d_def using ex by (rule LeastI_ex)
  have before: "\<forall>e<d. \<not> probe_stop t k ((?h + e) mod ?n)" unfolding d_def using not_less_Least by blast
  have "table_probe t k (?h mod ?n) = Some ((?h + d) mod ?n)" by (rule probe_finds [OF m stop before])
  then have p: "table_probe t k ?h = Some ((?h + d) mod ?n)" using h by simp
  have used: "\<forall>e<d. se_used (t ! ((?h + e) mod ?n))" using before by (auto simp: probe_stop_def)
  have dn: "(?h + d) mod ?n < ?n" using n by simp
  show ?thesis
  proof (cases "table_map t k")
    case None
    then have "\<not> se_used (t ! ((?h + d) mod ?n))" using stop dn by (auto simp: table_map_None probe_stop_def)
    with None p used show ?thesis by auto
  next
    case (Some v)
    then obtain j where j: "j < ?n" "se_used (t ! j)" "se_key (t ! j) = k" using table_map_iff [OF dist] by blast
    then have "slot_reached t j" using assms by (simp add: table_ok_def)
    then obtain c where c: "j = (?h + c) mod ?n" "\<forall>e<c. se_used (t ! ((?h + e) mod ?n))"
      using j(3) by (auto simp: slot_reached_def)
    have "d \<le> c" unfolding d_def using j c(1) by (intro Least_le) (simp add: probe_stop_def)
    then have u: "se_used (t ! ((?h + d) mod ?n))" using c j(2) by (cases "d = c") auto
    then have "se_key (t ! ((?h + d) mod ?n)) = k" using stop by (simp add: probe_stop_def)
    moreover from this have "table_map t k = Some (se_value (t ! ((?h + d) mod ?n)))"
      using table_map_iff [OF dist] u dn by blast
    ultimately show ?thesis using Some p used u by auto
  qed
qed

lemma table_get_map: "table_ok t \<Longrightarrow> table_get t k = table_map t k"
  using probe_spec [of t k] by (auto simp: table_get_def table_ok_def split: option.splits)


subsection \<open>Inserting\<close>

lemma table_used_card: "table_used t = card {i. i < length t \<and> se_used (t ! i)}"
  by (simp add: table_used_def length_filter_conv_card)

text \<open>Changing one slot to one of the same key keeps the others reached.\<close>

lemma slot_reached_update:
  assumes "slot_reached t j" "se_used (t ! j)" "se_used e" "i < length t" "se_used (t ! i) \<Longrightarrow> se_key e = se_key (t ! i)" "j < length t"
  shows "slot_reached (t[i := e]) j"
proof -
  have h: "table_home (t[i := e]) k = table_home t k" for k by (simp add: table_home_def)
  have key: "se_key (t[i := e] ! j) = se_key (t ! j)" using assms by (cases "i = j") auto
  have used: "se_used (t[i := e] ! n)" if "se_used (t ! n)" for n using assms that by (cases "i = n") auto
  show ?thesis using assms(1) unfolding slot_reached_def h key length_list_update using used by blast
qed

lemma table_map_update:
  assumes k: "keys_once t" and i: "i < length t" and e: "se_used e" "se_key e = key"
    and s: "if se_used (t ! i) then se_key (t ! i) = key else table_map t key = None"
  shows "keys_once (t[i := e])" "table_map (t[i := e]) = (table_map t)(key \<mapsto> se_value e)"
proof -
  have other: "se_key (t ! j) \<noteq> key" if "j < length t" "se_used (t ! j)" "j \<noteq> i" for j
  proof (cases "se_used (t ! i)")
    case True
    with s that i k show ?thesis unfolding keys_once_def by (metis (full_types))
  next
    case False
    with s that show ?thesis by (simp add: table_map_None)
  qed
  show once: "keys_once (t[i := e])" unfolding keys_once_def
  proof (intro allI impI)
    fix a b
    assume ab: "a < length (t[i := e])" "b < length (t[i := e])" "se_used (t[i := e] ! a)" "se_used (t[i := e] ! b)"
      and eq: "se_key (t[i := e] ! a) = se_key (t[i := e] ! b)"
    show "a = b"
    proof (cases "a = i \<or> b = i")
      case True
      then consider "a = i" | "b = i" by blast
      then show ?thesis
      proof cases
        case 1
        show ?thesis
        proof (rule ccontr)
          assume ne: "a \<noteq> b"
          with 1 ab have "b < length t" "se_used (t ! b)" "b \<noteq> i" by auto
          then have "se_key (t ! b) \<noteq> key" by (rule other)
          with 1 eq e i ne show False by simp
        qed
      next
        case 2
        show ?thesis
        proof (rule ccontr)
          assume ne: "a \<noteq> b"
          with 2 ab have "a < length t" "se_used (t ! a)" "a \<noteq> i" by auto
          then have "se_key (t ! a) \<noteq> key" by (rule other)
          with 2 eq e i ne show False by simp
        qed
      qed
    next
      case False
      with ab eq have "a < length t" "b < length t" "se_used (t ! a)" "se_used (t ! b)" "se_key (t ! a) = se_key (t ! b)"
        by auto
      with k show ?thesis unfolding keys_once_def by blast
    qed
  qed
  show "table_map (t[i := e]) = (table_map t)(key \<mapsto> se_value e)"
  proof
    fix x
    show "table_map (t[i := e]) x = ((table_map t)(key \<mapsto> se_value e)) x"
    proof (cases "x = key")
      case True
      have "table_map (t[i := e]) key = Some (se_value e)"
        unfolding table_map_iff [OF once] using i e by (intro exI [of _ i]) simp
      with True show ?thesis by simp
    next
      case False
      have "table_map (t[i := e]) x = Some v \<longleftrightarrow> table_map t x = Some v" for v
        unfolding table_map_iff [OF once] table_map_iff [OF k]
      proof (intro iffI)
        assume "\<exists>j<length (t[i := e]). se_used (t[i := e] ! j) \<and> se_key (t[i := e] ! j) = x \<and> se_value (t[i := e] ! j) = v"
        then obtain j where j: "j < length t" "se_used (t[i := e] ! j)" "se_key (t[i := e] ! j) = x" "se_value (t[i := e] ! j) = v"
          by auto
        then have "j \<noteq> i" using e False by auto
        with j show "\<exists>j<length t. se_used (t ! j) \<and> se_key (t ! j) = x \<and> se_value (t ! j) = v" by auto
      next
        assume "\<exists>j<length t. se_used (t ! j) \<and> se_key (t ! j) = x \<and> se_value (t ! j) = v"
        then obtain j where j: "j < length t" "se_used (t ! j)" "se_key (t ! j) = x" "se_value (t ! j) = v" by blast
        have "j \<noteq> i" using j s False by (auto split: if_splits)
        with j show "\<exists>j<length (t[i := e]). se_used (t[i := e] ! j) \<and> se_key (t[i := e] ! j) = x \<and> se_value (t[i := e] ! j) = v"
          by auto
      qed
      then show ?thesis using False by (cases "table_map t x"; cases "table_map (t[i := e]) x") auto
    qed
  qed
qed

lemma table_used_update: "i < length t \<Longrightarrow> se_used e \<Longrightarrow>
    table_used (t[i := e]) = (if se_used (t ! i) then table_used t else Suc (table_used t))"
proof -
  assume i: "i < length t" "se_used e"
  have "{j. j < length (t[i := e]) \<and> se_used (t[i := e] ! j)} = insert i {j. j < length t \<and> se_used (t ! j)}"
    using i by (auto simp: nth_list_update)
  moreover have "finite {j. j < length t \<and> se_used (t ! j)}" by simp
  ultimately show ?thesis using i by (simp add: table_used_card card_insert_if)
qed

lemma table_put_spec:
  assumes ok: "table_ok t" and room: "table_map t k \<noteq> None \<or> Suc (table_used t) < length t"
  shows "\<exists>t'. table_put k v t = Some t' \<and> table_ok t' \<and> table_map t' = (table_map t)(k \<mapsto> v)
    \<and> length t' = length t \<and> table_used t' \<le> Suc (table_used t)"
proof -
  let ?n = "length t" and ?h = "table_home t k"
  obtain d where d: "table_probe t k ?h = Some ((?h + d) mod ?n)" "\<forall>e<d. se_used (t ! ((?h + e) mod ?n))"
    "case table_map t k of
         None \<Rightarrow> \<not> se_used (t ! ((?h + d) mod ?n))
       | Some v \<Rightarrow> se_used (t ! ((?h + d) mod ?n)) \<and> se_key (t ! ((?h + d) mod ?n)) = k
            \<and> se_value (t ! ((?h + d) mod ?n)) = v"
    using probe_spec [OF ok] by blast
  define i where "i = (?h + d) mod ?n"
  have i: "i < ?n" using ok by (auto simp: i_def table_ok_def)
  define e where "e = (if se_used (t ! i) then (t ! i)\<lparr>se_value := v\<rparr> else \<lparr>se_key = k, se_value = v, se_used = True\<rparr>)"
  have stop: "if se_used (t ! i) then se_key (t ! i) = k else table_map t k = None"
    using d(3) unfolding i_def [symmetric] by (cases "table_map t k") auto
  have e: "se_used e" "se_key e = k" "se_value e = v" using stop by (auto simp: e_def split: if_splits)
  have put: "table_put k v t = Some (t[i := e])" using d(1) unfolding i_def [symmetric] by (simp add: table_put_def e_def)
  have once: "keys_once t" using ok by (simp add: table_ok_def)
  note upd = table_map_update [OF once i e(1,2) stop]
  have full: "table_used (t[i := e]) < ?n"
    using room stop ok table_used_update [OF i e(1)] by (auto simp: table_ok_def split: if_splits)
  have "slot_reached (t[i := e]) j" if j: "j < ?n" "se_used (t[i := e] ! j)" for j
  proof (cases "j = i")
    case True
    have "\<forall>c<d. se_used (t[i := e] ! ((?h + c) mod ?n))" using d(2) e(1) i by (auto simp: nth_list_update)
    then show ?thesis unfolding slot_reached_def using True i e(2)
      by (intro exI [of _ d]) (simp add: table_home_def i_def)
  next
    case False
    with j have "se_used (t ! j)" by simp
    moreover from this have "slot_reached t j" using ok j by (simp add: table_ok_def)
    ultimately show ?thesis using i e stop j by (intro slot_reached_update) (auto split: if_splits)
  qed
  then have "table_ok (t[i := e])" using ok upd(1) full by (simp add: table_ok_def)
  then show ?thesis using put upd(2) table_used_update [OF i e(1)] e(3) by auto
qed


subsection \<open>Loading a list of strings\<close>

text \<open>
  The two loops of \<open>vocab_load\<close>: the table is created for the number of strings and string \<open>i\<close> is
  put with the value \<open>(int)i\<close>, a 32-bit conversion.
\<close>

definition c_int :: "nat \<Rightarrow> int" where
  "c_int i = sint (of_nat i :: 32 word)"

fun table_fill :: "(string \<times> int) list \<Rightarrow> str_i32_table \<Rightarrow> str_i32_table option" where
  "table_fill [] t = Some t"
| "table_fill ((k, v) # r) t = (case table_put k v t of None \<Rightarrow> None | Some t' \<Rightarrow> table_fill r t')"

definition numbered :: "string list \<Rightarrow> (string \<times> int) list" where
  "numbered xs = zip xs (map c_int [0..<length xs])"

definition table_load :: "string list \<Rightarrow> str_i32_table option" where
  "table_load xs =
     (case table_init (of_nat (length xs)) of None \<Rightarrow> None | Some t \<Rightarrow> table_fill (numbered xs) t)"

lemma length_numbered [simp]: "length (numbered xs) = length xs"
  by (simp add: numbered_def)

lemma table_fill_spec:
  "table_ok t \<Longrightarrow> table_used t + length ps < length t \<Longrightarrow>
     \<exists>t'. table_fill ps t = Some t' \<and> table_ok t' \<and> table_map t' = table_map t ++ map_of (rev ps)"
proof (induction ps t rule: table_fill.induct)
  case (2 k v r t)
  obtain t1 where t1: "table_put k v t = Some t1" "table_ok t1" "table_map t1 = (table_map t)(k \<mapsto> v)"
    "length t1 = length t" "table_used t1 \<le> Suc (table_used t)"
    using table_put_spec [of t k v] "2.prems" by auto
  have "table_used t1 + length r < length t1" using t1(4,5) "2.prems"(2) by simp
  then obtain t2 where "table_fill r t1 = Some t2" "table_ok t2" "table_map t2 = table_map t1 ++ map_of (rev r)"
    using "2.IH" [OF t1(1,2)] by blast
  then show ?case using t1(1,3) by (simp add: map_add_assoc)
qed simp

lemma table_init_spec:
  assumes "n \<le> 2 ^ 32"
  shows "\<exists>t. table_init (of_nat n) = Some t \<and> table_ok t \<and> table_map t = Map.empty \<and> table_used t = 0 \<and> n < length t"
proof -
  have "unat (of_nat n :: u64) = n" using assms unat_of_nat [of n, where ?'a = 64] by simp
  then have "unat (of_nat n * 2 :: u64) = n * 2" using assms by (subst unat_mult_64) simp_all
  then have u: "unat (of_nat n * 2 + 16 :: u64) = n * 2 + 16" using assms by (subst unat_plus_64) simp_all
  then have "unat (of_nat n * 2 + 16 :: u64) \<le> 2 ^ 63" using assms by simp
  then obtain m where m: "m < 64" "next_pow2 (of_nat n * 2 + 16) = Some (2 ^ m)" "n * 2 + 16 \<le> 2 ^ m"
    using next_pow2_spec u by metis
  let ?t = "replicate (2 ^ m) zero_slot"
  have free: "\<not> se_used (?t ! i)" if "i < 2 ^ m" for i using that by (simp add: zero_slot_def)
  have none: "filter se_used ?t = []" by (simp add: zero_slot_def filter_empty_conv)
  have "table_ok ?t" using m(1) free by (auto simp: table_ok_def table_used_def none keys_once_def)
  then show ?thesis using m unat_pow2_64 [OF m(1)]
    by (simp add: table_init_def table_used_def none table_map_def)
qed

lemma table_load_spec:
  assumes "length xs \<le> 2 ^ 32"
  shows "\<exists>t. table_load xs = Some t \<and> table_ok t \<and> table_map t = map_of (rev (numbered xs))"
proof -
  obtain t where t: "table_init (of_nat (length xs)) = Some t" "table_ok t" "table_map t = Map.empty"
      "table_used t = 0" "length xs < length t"
    using table_init_spec [OF assms] by blast
  then have "\<exists>t'. table_fill (numbered xs) t = Some t' \<and> table_ok t' \<and> table_map t' = table_map t ++ map_of (rev (numbered xs))"
    by (intro table_fill_spec) simp_all
  then show ?thesis using t by (auto simp: table_load_def)
qed

text \<open>
  C26: a table loaded from a list of at most \<open>2^32\<close> strings answers every lookup, and answers what the
  list says: the number of the last occurrence of the key, and nothing for a key that does not occur.
  In particular the load and every lookup end: the table always has a free slot.
\<close>

theorem table_load_refines:
  "length xs \<le> 2 ^ 32 \<Longrightarrow>
     \<exists>t. table_load xs = Some t \<and> table_used t < length t
       \<and> (\<forall>k. table_probe t k (table_home t k) \<noteq> None \<and> table_get t k = map_of (rev (numbered xs)) k)"
proof -
  assume "length xs \<le> 2 ^ 32"
  then obtain t where t: "table_load xs = Some t" "table_ok t" "table_map t = map_of (rev (numbered xs))"
    using table_load_spec by blast
  have "table_probe t k (table_home t k) \<noteq> None" for k using probe_spec [OF t(2), of k] by auto
  then show ?thesis using t table_get_map [OF t(2)] by (auto simp: table_ok_def)
qed

theorem table_load_refines_witness:
  "\<exists>t. table_load [''a'', ''b'', ''a''] = Some t \<and> table_get t ''a'' = Some 2 \<and> table_get t ''c'' = None"
  using table_load_refines [of "[''a'', ''b'', ''a'']"]
  by (auto simp: numbered_def c_int_def upt_rec)

end
