(* ===== verification/Utf8.thy ===== *)
theory Utf8
  imports CString
begin

text \<open>
  The byte-level codec of the tokenizer (\<open>ds4.c\<close>): writing and reading UTF-8 code points, and GPT-2's
  map from raw bytes to printable code points, by which every byte string becomes a UTF-8 string
  (\<open>byte_encode\<close>) and back. A code point is a 32-bit word, a \<open>char\<close> of the program a \<^typ>\<open>char\<close>; a
  position in a text is the suffix that starts there.
\<close>

unbundle bit_operations_syntax

definition u8_of :: "char \<Rightarrow> u8" where
  "u8_of c = of_char c"

text \<open>The conversion \<open>(char)w\<close> keeps the low eight bits.\<close>

definition char_of_u32 :: "u32 \<Rightarrow> char" where
  "char_of_u32 w = char_of (unat w)"

subsection \<open>Writing\<close>

definition utf8_put_cp :: "u32 \<Rightarrow> string" where
  "utf8_put_cp cp =
     (if cp \<le> 0x7f then [char_of_u32 cp]
      else if cp \<le> 0x7ff then
        [char_of_u32 (0xc0 OR drop_bit 6 cp),
         char_of_u32 (0x80 OR (cp AND 0x3f))]
      else if cp \<le> 0xffff then
        [char_of_u32 (0xe0 OR drop_bit 12 cp),
         char_of_u32 (0x80 OR (drop_bit 6 cp AND 0x3f)),
         char_of_u32 (0x80 OR (cp AND 0x3f))]
      else
        [char_of_u32 (0xf0 OR drop_bit 18 cp),
         char_of_u32 (0x80 OR (drop_bit 12 cp AND 0x3f)),
         char_of_u32 (0x80 OR (drop_bit 6 cp AND 0x3f)),
         char_of_u32 (0x80 OR (cp AND 0x3f))])"

definition gpt2_printable :: "u32 \<Rightarrow> bool" where
  "gpt2_printable b \<longleftrightarrow> 33 \<le> b \<and> b \<le> 126 \<or> 161 \<le> b \<and> b \<le> 172 \<or> 174 \<le> b"

definition all_bytes :: "u32 list" where
  "all_bytes = map of_nat [0..<256]"

fun gpt2_position :: "u32 list \<Rightarrow> u32 \<Rightarrow> u32 \<Rightarrow> u32 option" where
  "gpt2_position [] b n = None"
| "gpt2_position (x # xs) b n =
     (if gpt2_printable x then gpt2_position xs b n
      else if x = b then Some (256 + n)
      else gpt2_position xs b (n + 1))"

definition gpt2_byte_to_codepoint :: "u8 \<Rightarrow> u32" where
  "gpt2_byte_to_codepoint b =
     (if gpt2_printable (ucast b) then ucast b
      else case gpt2_position all_bytes (ucast b) 0 of Some cp \<Rightarrow> cp | None \<Rightarrow> ucast b)"

definition byte_symbol :: "char \<Rightarrow> string" where
  "byte_symbol c = utf8_put_cp (gpt2_byte_to_codepoint (u8_of c))"

definition byte_encode :: "string \<Rightarrow> string" where
  "byte_encode s = concat (map byte_symbol s)"

subsection \<open>Reading\<close>

definition utf8_len_from_first_byte :: "u8 \<Rightarrow> nat" where
  "utf8_len_from_first_byte c =
     (if c < 0x80 then 1
      else if c AND 0xe0 = 0xc0 then 2
      else if c AND 0xf0 = 0xe0 then 3
      else if c AND 0xf8 = 0xf0 then 4
      else 1)"

text \<open>The number of bytes the character at the head of a text takes: a cut-off sequence counts as one byte.\<close>

definition utf8_width :: "string \<Rightarrow> nat" where
  "utf8_width s =
     (let n = utf8_len_from_first_byte (u8_of (hd s)) in if length s < n then 1 else n)"

definition cont_bits :: "char \<Rightarrow> u32" where
  "cont_bits c = ucast (u8_of c AND 0x3f)"

definition utf8_two :: "string \<Rightarrow> u32" where
  "utf8_two s = push_bit 6 (ucast (u8_of (hd s) AND 0x1f)) OR cont_bits (s ! 1)"

definition utf8_three :: "string \<Rightarrow> u32" where
  "utf8_three s = push_bit 12 (ucast (u8_of (hd s) AND 0x0f)) OR push_bit 6 (cont_bits (s ! 1)) OR cont_bits (s ! 2)"

definition utf8_four :: "string \<Rightarrow> u32" where
  "utf8_four s = push_bit 18 (ucast (u8_of (hd s) AND 0x07)) OR push_bit 12 (cont_bits (s ! 1))
     OR push_bit 6 (cont_bits (s ! 2)) OR cont_bits (s ! 3)"

definition next_utf8_char :: "string \<Rightarrow> string" where
  "next_utf8_char s = drop (utf8_width s) s"

definition utf8_peek_one :: "string \<Rightarrow> u32 \<times> string" where
  "utf8_peek_one s =
     (let n = utf8_width s in
      (if n = 1 then ucast (u8_of (hd s))
       else if n = 2 then utf8_two s
       else if n = 3 then utf8_three s
       else utf8_four s, drop n s))"

text \<open>\<open>utf8_decode_one\<close> reads the same sequences, with its own tests of what is left of the string.\<close>

definition utf8_decode_one :: "string \<Rightarrow> u32 \<times> string" where
  "utf8_decode_one s =
     (let c = u8_of (hd s) in
      if c < 0x80 \<or> length s \<le> 1 then (ucast c, drop 1 s)
      else if c AND 0xe0 = 0xc0 \<and> 1 < length s then (utf8_two s, drop 2 s)
      else if c AND 0xf0 = 0xe0 \<and> 2 < length s then (utf8_three s, drop 3 s)
      else if c AND 0xf8 = 0xf0 \<and> 3 < length s then (utf8_four s, drop 4 s)
      else (ucast c, drop 1 s))"

fun gpt2_byte_at :: "u32 list \<Rightarrow> u32 \<Rightarrow> u32 \<Rightarrow> int" where
  "gpt2_byte_at [] cp n = -1"
| "gpt2_byte_at (b # bs) cp n =
     (if gpt2_printable b then gpt2_byte_at bs cp n
      else if cp = 256 + n then uint b
      else gpt2_byte_at bs cp (n + 1))"

definition gpt2_codepoint_to_byte :: "u32 \<Rightarrow> int" where
  "gpt2_codepoint_to_byte cp =
     (if 33 \<le> cp \<and> cp \<le> 126 \<or> 161 \<le> cp \<and> cp \<le> 172 \<or> 174 \<le> cp \<and> cp \<le> 255 then uint cp
      else gpt2_byte_at all_bytes cp 0)"

text \<open>The loop of \<open>ds4_token_text\<close> over a token that is not a literal special.\<close>

function byte_decode :: "string \<Rightarrow> string" where
  "byte_decode s =
     (if s = [] then []
      else let (cp, r) = utf8_decode_one s; b = gpt2_codepoint_to_byte cp in
        (if 0 \<le> b then [char_of (nat b)] else []) @ byte_decode r)"
  by pat_completeness auto
termination
  by (relation "measure length") (auto simp: utf8_decode_one_def Let_def split: if_splits)

declare byte_decode.simps [simp del]

subsection \<open>The two widths agree with what is written\<close>

lemma utf8_width_pos: "s \<noteq> [] \<Longrightarrow> 0 < utf8_width s \<and> utf8_width s \<le> length s"
  by (cases s) (auto simp: utf8_width_def utf8_len_from_first_byte_def Let_def)

subsection \<open>Bits\<close>

lemma u8_of_char_of_u32 [simp]: "u8_of (char_of_u32 w) = ucast w"
proof -
  have "u8_of (char_of_u32 w) = of_nat (of_char (char_of_u32 w) :: nat)" by (simp only: u8_of_def of_nat_of_char)
  also have "\<dots> = of_nat (unat w mod 256)" by (simp only: char_of_u32_def of_char_of)
  finally have "unat (u8_of (char_of_u32 w)) = unat w mod 256" by (simp add: unat_of_nat)
  moreover have "unat (ucast w :: u8) = unat w mod 256" by (simp add: unsigned_ucast_eq take_bit_eq_mod)
  ultimately show ?thesis by (simp add: word_unat_eq_iff)
qed

lemma small_bits: "unat (w :: u32) < 2 ^ n \<Longrightarrow> bit w k \<Longrightarrow> k < n"
proof -
  assume "unat w < 2 ^ n" "bit w k"
  then have "take_bit n (unat w) = unat w" by (simp add: take_bit_nat_eq_self)
  then have "take_bit n w = w" by (simp add: word_unat_eq_iff unsigned_take_bit_eq)
  with \<open>bit w k\<close> show ?thesis by (metis bit_take_bit_iff)
qed

lemma bit_u8_less: "bit (w :: u8) n \<Longrightarrow> n < 8"
  using bit_imp_le_length [of w n] by simp

lemma bit_u32_less: "bit (w :: u32) n \<Longrightarrow> n < 32"
  using bit_imp_le_length [of w n] by simp

lemma lead_bits: "bit (192 :: int) n \<longleftrightarrow> n = 6 \<or> n = 7" "bit (128 :: int) n \<longleftrightarrow> n = 7"
  "bit (31 :: int) n \<longleftrightarrow> n < 5" "bit (63 :: int) n \<longleftrightarrow> n < 6" "bit (224 :: int) n \<longleftrightarrow> 5 \<le> n \<and> n < 8"
proof -
  have m: "192 = push_bit 6 (mask 2 :: int)" "128 = push_bit 7 (mask 1 :: int)" "31 = (mask 5 :: int)"
    "63 = (mask 6 :: int)" "224 = push_bit 5 (mask 3 :: int)"
    by (simp_all add: mask_eq_exp_minus_1 push_bit_eq_mult)
  show "bit (192 :: int) n \<longleftrightarrow> n = 6 \<or> n = 7" unfolding m(1) bit_push_bit_iff bit_mask_iff by auto
  show "bit (128 :: int) n \<longleftrightarrow> n = 7" unfolding m(2) bit_push_bit_iff bit_mask_iff by auto
  show "bit (31 :: int) n \<longleftrightarrow> n < 5" unfolding m(3) bit_mask_iff by auto
  show "bit (63 :: int) n \<longleftrightarrow> n < 6" unfolding m(4) bit_mask_iff by auto
  show "bit (224 :: int) n \<longleftrightarrow> 5 \<le> n \<and> n < 8" unfolding m(5) bit_push_bit_iff bit_mask_iff by auto
qed

lemma bits_below_11: "unat (cp :: u32) < 2048 \<Longrightarrow> bit cp n \<Longrightarrow> n < 11"
  using small_bits [of cp 11 n] by simp

subsection \<open>Code points below \<open>0x800\<close>: one or two bytes\<close>

lemma two_lead: "unat (cp :: u32) < 2048 \<Longrightarrow> ucast (0xc0 OR drop_bit 6 cp) AND 0xe0 = (0xc0 :: u8)"
  by (rule bit_word_eqI) (auto simp: bit_simps lead_bits dest: bits_below_11)

lemma two_lead_ge: "\<not> ucast (0xc0 OR drop_bit 6 (cp :: u32)) < (0x80 :: u8)"
proof
  let ?w = "ucast (0xc0 OR drop_bit 6 cp) :: u8"
  assume "?w < 0x80"
  then have "unat ?w < 2 ^ 7" by (simp add: word_less_nat_alt)
  then have "take_bit 7 (unat ?w) = unat ?w" by (simp add: take_bit_nat_eq_self)
  then have "take_bit 7 ?w = ?w" by (simp add: word_unat_eq_iff unsigned_take_bit_eq)
  moreover have "bit ?w 7" by (simp add: bit_simps lead_bits)
  ultimately show False by (metis bit_take_bit_iff less_irrefl)
qed

lemma utf8_two_put:
  "unat cp < 2048 \<Longrightarrow> utf8_two (char_of_u32 (0xc0 OR drop_bit 6 cp) # char_of_u32 (0x80 OR (cp AND 0x3f)) # r) = cp"
  by (rule bit_word_eqI) (auto simp: utf8_two_def cont_bits_def bit_simps lead_bits dest: bits_below_11)

lemma utf8_put_cp_cases:
  assumes "unat cp < 2048"
  obtains (one) "unat cp < 128" "utf8_put_cp cp = [char_of_u32 cp]" "(ucast cp :: u8) < 0x80" "ucast (ucast cp :: u8) = cp"
  | (two) "unat cp < 2048" "utf8_put_cp cp = [char_of_u32 (0xc0 OR drop_bit 6 cp), char_of_u32 (0x80 OR (cp AND 0x3f))]"
proof (cases "unat cp < 128")
  case True
  then have "unat (ucast cp :: u8) = unat cp" by (simp add: unsigned_ucast_eq take_bit_nat_eq_self)
  with True show thesis
    by (intro one) (simp_all add: utf8_put_cp_def word_le_nat_alt word_less_nat_alt word_unat_eq_iff)
next
  case False
  with assms show thesis by (intro two) (simp_all add: utf8_put_cp_def word_le_nat_alt)
qed

lemma utf8_put_cp_width: "unat cp < 2048 \<Longrightarrow> utf8_width (utf8_put_cp cp @ r) = length (utf8_put_cp cp)"
  by (erule utf8_put_cp_cases)
    (simp_all add: utf8_width_def utf8_len_from_first_byte_def two_lead two_lead_ge Let_def)

lemma utf8_decode_put: "unat cp < 2048 \<Longrightarrow> utf8_decode_one (utf8_put_cp cp @ r) = (cp, r)"
  by (erule utf8_put_cp_cases)
    (simp_all add: utf8_decode_one_def two_lead two_lead_ge utf8_two_put Let_def)

subsection \<open>Bytes and their code points\<close>

lemma gpt2_position_filter:
  "gpt2_position xs b n = gpt2_position (filter (\<lambda>x. \<not> gpt2_printable x) xs) b n"
  by (induction xs b n rule: gpt2_position.induct) auto

lemma gpt2_byte_at_filter:
  "gpt2_byte_at xs cp n = gpt2_byte_at (filter (\<lambda>x. \<not> gpt2_printable x) xs) cp n"
  by (induction xs cp n rule: gpt2_byte_at.induct) auto

lemma gpt2_position_nth:
  "distinct xs \<Longrightarrow> i < length xs \<Longrightarrow> list_all (\<lambda>x. \<not> gpt2_printable x) xs \<Longrightarrow>
     gpt2_position xs (xs ! i) n = Some (256 + n + of_nat i)"
proof (induction xs arbitrary: i n)
  case (Cons x xs)
  then show ?case by (cases i) (auto simp: add.assoc)
qed simp

lemma gpt2_byte_at_nth:
  "i < length xs \<Longrightarrow> length xs \<le> 256 \<Longrightarrow> list_all (\<lambda>x. \<not> gpt2_printable x) xs \<Longrightarrow>
     gpt2_byte_at xs (256 + n + of_nat i) n = uint (xs ! i)"
proof (induction xs arbitrary: i n)
  case (Cons x xs)
  show ?case
  proof (cases i)
    case 0
    with Cons.prems show ?thesis by simp
  next
    case (Suc j)
    then have "(of_nat i :: u32) \<noteq> 0" using Cons.prems(1,2) by (simp add: word_unat_eq_iff unat_of_nat del: of_nat_Suc)
    moreover have "gpt2_byte_at xs (256 + (n + 1) + of_nat j) (n + 1) = uint (xs ! j)"
      using Suc Cons.prems by (intro Cons.IH) simp_all
    ultimately show ?thesis using Suc Cons.prems(3) by (simp add: algebra_simps)
  qed
qed simp


lemma distinct_all_bytes: "distinct all_bytes"
  by (auto simp: all_bytes_def distinct_map inj_on_def word_unat_eq_iff unat_of_nat)

lemma length_all_bytes: "length all_bytes = 256"
  by (simp add: all_bytes_def)

definition hidden_bytes :: "u32 list" where
  "hidden_bytes = filter (\<lambda>x. \<not> gpt2_printable x) all_bytes"

lemma hidden_bytes_facts:
  "distinct hidden_bytes" "length hidden_bytes \<le> 256" "list_all (\<lambda>x. \<not> gpt2_printable x) hidden_bytes"
  using distinct_all_bytes length_filter_le [of "\<lambda>x. \<not> gpt2_printable x" all_bytes]
  by (simp_all add: hidden_bytes_def list_all_iff length_all_bytes)

lemma hidden_byte:
  assumes "\<not> gpt2_printable (ucast (b :: u8))"
  obtains i where "i < length hidden_bytes" "hidden_bytes ! i = ucast b"
proof -
  have "ucast b \<in> set all_bytes" using unat_u8_bound [of b]
    by (auto simp: all_bytes_def image_iff intro!: bexI [of _ "unat b"] simp: word_unat_eq_iff unat_of_nat)
  then have "ucast b \<in> set hidden_bytes" using assms by (simp add: hidden_bytes_def)
  then show thesis using that by (auto simp: in_set_conv_nth)
qed

lemma uint_ucast_8_32: "uint (ucast (b :: u8) :: u32) = uint b"
  by (simp only: uint_nat unat_ucast_8_32)

text \<open>The code point of a byte is below \<open>0x200\<close> and gives the byte back.\<close>

lemma gpt2_roundtrip:
  "unat (gpt2_byte_to_codepoint b) < 2048 \<and> gpt2_codepoint_to_byte (gpt2_byte_to_codepoint b) = uint b"
proof (cases "gpt2_printable (ucast b)")
  case True
  have "(ucast b :: u32) \<le> 255" using unat_u8_bound [of b] by (simp add: word_le_nat_alt)
  then have "33 \<le> (ucast b :: u32) \<and> ucast b \<le> (126 :: u32) \<or> 161 \<le> (ucast b :: u32) \<and> ucast b \<le> (172 :: u32)
      \<or> 174 \<le> (ucast b :: u32) \<and> ucast b \<le> (255 :: u32)"
    using True unfolding gpt2_printable_def by blast
  then have "gpt2_codepoint_to_byte (ucast b) = uint (ucast b :: u32)"
    unfolding gpt2_codepoint_to_byte_def by (rule if_P)
  then have "gpt2_codepoint_to_byte (ucast b) = uint b" using uint_ucast_8_32 by simp
  then show ?thesis using True unat_u8_bound [of b] by (simp add: gpt2_byte_to_codepoint_def)
next
  case False
  then obtain i where i: "i < length hidden_bytes" "hidden_bytes ! i = ucast b" by (rule hidden_byte)
  then have i256: "i < 256" using hidden_bytes_facts(2) by simp
  have "gpt2_position hidden_bytes (ucast b) 0 = Some (256 + of_nat i)"
    using gpt2_position_nth [OF hidden_bytes_facts(1) i(1) hidden_bytes_facts(3), of 0] i(2) by simp
  then have cp: "gpt2_byte_to_codepoint b = 256 + of_nat i"
    using False gpt2_position_filter [of all_bytes] by (simp add: gpt2_byte_to_codepoint_def hidden_bytes_def)
  have u: "unat (256 + of_nat i :: u32) = 256 + i" using i256 by (simp add: unat_word_ariths unat_of_nat)
  then have "gpt2_codepoint_to_byte (256 + of_nat i) = gpt2_byte_at all_bytes (256 + of_nat i) 0"
    by (simp add: gpt2_codepoint_to_byte_def word_le_nat_alt)
  also have "\<dots> = uint (ucast b :: u32)"
    using gpt2_byte_at_nth [OF i(1) hidden_bytes_facts(2,3), of 0] i(2) gpt2_byte_at_filter [of all_bytes]
    by (simp add: hidden_bytes_def)
  finally show ?thesis using cp u i256 uint_ucast_8_32 by simp
qed

lemma byte_symbol_width: "utf8_width (byte_symbol c @ r) = length (byte_symbol c)"
  using gpt2_roundtrip by (simp add: byte_symbol_def utf8_put_cp_width)

lemma byte_symbol_not_Nil: "byte_symbol c \<noteq> []"
  by (simp add: byte_symbol_def utf8_put_cp_def)

lemma byte_decode_symbol: "byte_decode (byte_symbol c @ r) = c # byte_decode r"
proof -
  have "unat (u8_of c) = (of_char c :: nat)"
    using unat_of_nat [of "of_char c", where ?'a = 8] unfolding u8_of_def of_nat_of_char by simp
  then have "char_of (nat (uint (u8_of c))) = c" by simp
  then show ?thesis using gpt2_roundtrip [of "u8_of c"]
    by (subst byte_decode.simps) (simp add: byte_symbol_not_Nil, simp add: byte_symbol_def utf8_decode_put)
qed

text \<open>Byte encoding loses nothing: reading the code points of an encoded text back gives the text, whatever its bytes are.\<close>

theorem byte_encode_roundtrip: "byte_decode (byte_encode s) = s"
proof (induction s)
  case Nil
  then show ?case by (simp add: byte_encode_def byte_decode.simps)
next
  case (Cons c s)
  then show ?case by (simp add: byte_encode_def byte_decode_symbol)
qed

end
