(* ===== verification/Pretokenize.thy ===== *)
theory Pretokenize
  imports Utf8 UnicodeRanges "HOL-Library.Sublist"
begin

text \<open>
  The pre-tokenizer \<open>bpe_tokenize_text_qwen35\<close> (\<open>ds4.c\<close>): the hand-written loop that cuts a text into
  the pieces byte-pair encoding works on, and a matcher for the regular expression its comment states.
  A position is the suffix of the text that starts there; \<open>pos >= len\<close> is the empty suffix.
\<close>

subsection \<open>Characters\<close>

record qwen4_char_info =
  qc_cp :: u32
  qc_next :: string
  qc_valid :: bool
  qc_letter :: bool
  qc_mark :: bool
  qc_number :: bool
  qc_space :: bool

text \<open>At the end of the text the code returns zeroes; the position in them is not read.\<close>

definition qwen4_char_at :: "string \<Rightarrow> qwen4_char_info" where
  "qwen4_char_at s =
     (if s = [] then
        \<lparr>qc_cp = 0, qc_next = [], qc_valid = False, qc_letter = False, qc_mark = False, qc_number = False, qc_space = False\<rparr>
      else let (cp, r) = utf8_peek_one s in
        \<lparr>qc_cp = cp, qc_next = r, qc_valid = True, qc_letter = cp_letter cp, qc_mark = cp_mark cp,
         qc_number = cp_number cp, qc_space = cp_space cp\<rparr>)"

definition ascii_tolower_cp :: "u32 \<Rightarrow> u32" where
  "ascii_tolower_cp cp = (if 0x41 \<le> cp \<and> cp \<le> 0x5a then cp + 0x20 else cp)"

definition is_newline_cp :: "u32 \<Rightarrow> bool" where
  "is_newline_cp cp \<longleftrightarrow> cp = 0x0d \<or> cp = 0x0a"

lemma char_next_suffix: "s \<noteq> [] \<Longrightarrow> strict_suffix (qc_next (qwen4_char_at s)) s"
proof -
  assume s: "s \<noteq> []"
  have "qc_next (qwen4_char_at s) = drop (utf8_width s) s" using s by (simp add: qwen4_char_at_def utf8_peek_one_def Let_def)
  moreover have "0 < utf8_width s" using utf8_width_pos [OF s] by simp
  ultimately show ?thesis using s
    by (metis diff_less length_drop length_greater_0_conv order_less_irrefl strict_suffix_def suffix_drop)
qed

lemma char_next_length: "s \<noteq> [] \<Longrightarrow> length (qc_next (qwen4_char_at s)) < length s"
  using char_next_suffix suffix_length_less by blast

lemma char_valid [simp]: "qc_valid (qwen4_char_at s) \<longleftrightarrow> s \<noteq> []"
  by (simp add: qwen4_char_at_def Let_def case_prod_beta)

subsection \<open>The loop\<close>

text \<open>The scans \<open>while (pos < len) \<dots> break \<dots> pos = scan.next\<close>.\<close>

function scan_while :: "(qwen4_char_info \<Rightarrow> bool) \<Rightarrow> string \<Rightarrow> string" where
  "scan_while P s =
     (if s = [] then []
      else let c = qwen4_char_at s in if P c then scan_while P (qc_next c) else s)"
  by pat_completeness auto
termination
  by (relation "measure (length \<circ> snd)") (simp_all add: char_next_length)

declare scan_while.simps [simp del]

definition qwen35_contraction :: "qwen4_char_info \<Rightarrow> string option" where
  "qwen35_contraction cur =
     (if qc_cp cur = 0x27 \<and> qc_next cur \<noteq> [] then
        let n1 = qwen4_char_at (qc_next cur); c1 = ascii_tolower_cp (qc_cp n1) in
        if c1 = 0x73 \<or> c1 = 0x74 \<or> c1 = 0x6d \<or> c1 = 0x64 then Some (qc_next n1)
        else if qc_valid n1 \<and> qc_next n1 \<noteq> [] then
          let n2 = qwen4_char_at (qc_next n1); c2 = ascii_tolower_cp (qc_cp n2) in
          if c1 = 0x72 \<and> c2 = 0x65 \<or> c1 = 0x76 \<and> c2 = 0x65 \<or> c1 = 0x6c \<and> c2 = 0x6c then Some (qc_next n2)
          else None
        else None
      else None)"

definition qwen35_word_start :: "qwen4_char_info \<Rightarrow> string option" where
  "qwen35_word_start cur =
     (if qc_letter cur \<or> qc_mark cur then Some (qc_next cur)
      else if \<not> is_newline_cp (qc_cp cur) \<and> \<not> qc_number cur then
        let n1 = qwen4_char_at (qc_next cur) in
        if qc_valid n1 \<and> (qc_letter n1 \<or> qc_mark n1) then Some (qc_next n1) else None
      else None)"

definition is_word_char :: "qwen4_char_info \<Rightarrow> bool" where
  "is_word_char c \<longleftrightarrow> qc_letter c \<or> qc_mark c"

definition is_punct_char :: "qwen4_char_info \<Rightarrow> bool" where
  "is_punct_char c \<longleftrightarrow> \<not> qc_space c \<and> \<not> qc_letter c \<and> \<not> qc_mark c \<and> \<not> qc_number c"

definition is_newline_char :: "qwen4_char_info \<Rightarrow> bool" where
  "is_newline_char c \<longleftrightarrow> is_newline_cp (qc_cp c)"

definition qwen35_punct :: "string \<Rightarrow> qwen4_char_info \<Rightarrow> string option" where
  "qwen35_punct s cur =
     (let punct_pos = (if qc_cp cur = 0x20 then qc_next cur else s);
          punct = (if qc_cp cur = 0x20 then qwen4_char_at (qc_next cur) else cur) in
      if qc_valid punct \<and> is_punct_char punct
      then Some (scan_while is_newline_char (scan_while is_punct_char punct_pos)) else None)"

text \<open>The loop over white space: where it stops, the end of its last line break, the start of its last character, and how many there are.\<close>

function space_scan :: "string \<Rightarrow> string option \<Rightarrow> string \<Rightarrow> nat \<Rightarrow> string \<times> string option \<times> string \<times> nat" where
  "space_scan p last_newline_end last_ws_start nspace =
     (if p = [] then (p, last_newline_end, last_ws_start, nspace)
      else let c = qwen4_char_at p in
        if \<not> qc_space c then (p, last_newline_end, last_ws_start, nspace)
        else space_scan (qc_next c) (if is_newline_char c then Some (qc_next c) else last_newline_end) p (Suc nspace))"
  by pat_completeness auto
termination
  by (relation "measure (\<lambda>(p, _). length p)") (simp_all add: char_next_length)

declare space_scan.simps [simp del]

definition qwen35_space :: "string \<Rightarrow> string" where
  "qwen35_space s =
     (let (p, last_newline_end, last_ws_start, nspace) = space_scan s None s 0 in
      case last_newline_end of Some e \<Rightarrow> e
      | None \<Rightarrow> if 1 < nspace \<and> p \<noteq> [] then last_ws_start else p)"

text \<open>One round of the outer loop: where the piece that starts at \<open>s\<close> ends.\<close>

definition qwen35_piece_end :: "string \<Rightarrow> string" where
  "qwen35_piece_end s =
     (let cur = qwen4_char_at s in
      case qwen35_contraction cur of Some r \<Rightarrow> r
      | None \<Rightarrow>
      case qwen35_word_start cur of Some run \<Rightarrow> scan_while is_word_char run
      | None \<Rightarrow>
      if qc_number cur then qc_next cur
      else case qwen35_punct s cur of Some r \<Rightarrow> r
      | None \<Rightarrow>
      if qc_space cur then qwen35_space s
      else if qc_next cur = s then next_utf8_char s else qc_next cur)"

subsection \<open>The regular expression\<close>

text \<open>
  An expression maps a position to the positions where a match may end, in the order of preference of
  a backtracking matcher; the match is the first of them.
\<close>

type_synonym rx = "string \<Rightarrow> string list"

definition rx_char :: "(qwen4_char_info \<Rightarrow> bool) \<Rightarrow> rx" where
  "rx_char P s = (if s \<noteq> [] \<and> P (qwen4_char_at s) then [qc_next (qwen4_char_at s)] else [])"

definition rx_seq :: "rx \<Rightarrow> rx \<Rightarrow> rx" where
  "rx_seq f g s = concat (map g (f s))"

definition rx_alt :: "rx \<Rightarrow> rx \<Rightarrow> rx" where
  "rx_alt f g s = f s @ g s"

definition rx_opt :: "rx \<Rightarrow> rx" where
  "rx_opt f s = f s @ [s]"

function rx_many :: "(qwen4_char_info \<Rightarrow> bool) \<Rightarrow> rx" where
  "rx_many P s = (if s \<noteq> [] \<and> P (qwen4_char_at s) then rx_many P (qc_next (qwen4_char_at s)) else []) @ [s]"
  by pat_completeness auto
termination
  by (relation "measure (length \<circ> snd)") (simp_all add: char_next_length)

declare rx_many.simps [simp del]

definition rx_some :: "(qwen4_char_info \<Rightarrow> bool) \<Rightarrow> rx" where
  "rx_some P = rx_seq (rx_char P) (rx_many P)"

definition rx_not_before :: "(qwen4_char_info \<Rightarrow> bool) \<Rightarrow> rx" where
  "rx_not_before P s = (if s \<noteq> [] \<and> P (qwen4_char_at s) then [] else [s])"

definition rx_letter :: "u32 \<Rightarrow> rx" where
  "rx_letter l = rx_char (\<lambda>c. ascii_tolower_cp (qc_cp c) = l)"


definition rx_contraction :: rx where
  "rx_contraction =
     rx_seq (rx_char (\<lambda>c. qc_cp c = 0x27))
       (rx_alt (rx_letter 0x73) (rx_alt (rx_letter 0x74) (rx_alt (rx_seq (rx_letter 0x72) (rx_letter 0x65))
          (rx_alt (rx_seq (rx_letter 0x76) (rx_letter 0x65)) (rx_alt (rx_letter 0x6d)
             (rx_alt (rx_seq (rx_letter 0x6c) (rx_letter 0x6c)) (rx_letter 0x64)))))))"

definition rx_word :: rx where
  "rx_word = rx_seq (rx_opt (rx_char (\<lambda>c. \<not> is_newline_cp (qc_cp c) \<and> \<not> qc_letter c \<and> \<not> qc_number c))) (rx_some is_word_char)"

definition rx_punct :: rx where
  "rx_punct = rx_seq (rx_opt (rx_char (\<lambda>c. qc_cp c = 0x20))) (rx_seq (rx_some is_punct_char) (rx_many is_newline_char))"

definition rx_breaks :: rx where
  "rx_breaks = rx_seq (rx_many qc_space) (rx_some is_newline_char)"

definition rx_trailing :: rx where
  "rx_trailing = rx_seq (rx_some qc_space) (rx_not_before (\<lambda>c. \<not> qc_space c))"

text \<open>
  \<open>(?i:'s|'t|'re|'ve|'m|'ll|'d) | [^\r\n\p{L}\p{N}]?[\p{L}\p{M}]+ | \p{N} | ?[^\s\p{L}\p{M}\p{N}]+[\r\n]* |\<close>
  \<open>\s*[\r\n]+ | \s+(?!\S) | \s+\<close>, where case is folded for the ASCII letters.
\<close>

definition qwen35_regex :: rx where
  "qwen35_regex = rx_alt rx_contraction (rx_alt rx_word (rx_alt (rx_char qc_number) (rx_alt rx_punct
     (rx_alt rx_breaks (rx_alt rx_trailing (rx_some qc_space))))))"

definition rx_match :: "rx \<Rightarrow> string \<Rightarrow> string option" where
  "rx_match f s = (case f s of [] \<Rightarrow> None | r # _ \<Rightarrow> Some r)"

subsection \<open>First matches\<close>

definition orelse :: "'a option \<Rightarrow> 'a option \<Rightarrow> 'a option" where
  "orelse x y = (case x of Some v \<Rightarrow> Some v | None \<Rightarrow> y)"

lemma orelse_simps [simp]: "orelse (Some v) y = Some v" "orelse None y = y" "orelse x None = x"
  by (simp_all add: orelse_def split: option.splits)

definition first :: "'a list \<Rightarrow> 'a option" where
  "first xs = (case xs of [] \<Rightarrow> None | x # _ \<Rightarrow> Some x)"

lemma first_simps [simp]: "first [] = None" "first (x # xs) = Some x" "first (xs @ ys) = orelse (first xs) (first ys)"
  by (simp_all add: first_def orelse_def split: list.splits)

lemma rx_match_first: "rx_match f s = first (f s)"
  by (simp add: rx_match_def first_def)

lemma match_alt: "first (rx_alt f g s) = orelse (first (f s)) (first (g s))"
  by (simp add: rx_alt_def)

lemma match_many: "first (rx_many P s) = Some (scan_while P s)"
proof (induction P s rule: rx_many.induct)
  case (1 P s)
  then show ?case by (subst rx_many.simps, subst scan_while.simps) (simp add: Let_def)
qed

lemma match_char_seq:
  "rx_seq (rx_char P) g s = (if s \<noteq> [] \<and> P (qwen4_char_at s) then g (qc_next (qwen4_char_at s)) else [])"
  by (simp add: rx_seq_def rx_char_def)

lemma match_some:
  "first (rx_some P s) = (if s \<noteq> [] \<and> P (qwen4_char_at s) then Some (scan_while P (qc_next (qwen4_char_at s))) else None)"
  by (simp add: rx_some_def match_char_seq match_many)

lemma scan_while_step: "s \<noteq> [] \<Longrightarrow> P (qwen4_char_at s) \<Longrightarrow> scan_while P s = scan_while P (qc_next (qwen4_char_at s))"
  by (subst scan_while.simps) (simp add: Let_def)

lemma match_seq_many: "first (rx_seq f (rx_many P) s) = map_option (scan_while P) (first (f s))"
  by (cases "f s") (simp_all add: rx_seq_def match_many)

lemma match_opt_seq: "first (rx_seq (rx_opt f) g s) = orelse (first (rx_seq f g s)) (first (g s))"
  by (simp add: rx_seq_def rx_opt_def)

lemma match_contraction: "s \<noteq> [] \<Longrightarrow> first (rx_contraction s) = qwen35_contraction (qwen4_char_at s)"
  by (auto simp: rx_contraction_def match_char_seq match_alt qwen35_contraction_def Let_def rx_letter_def rx_char_def)

lemma match_word: "s \<noteq> [] \<Longrightarrow>
    first (rx_word s) = map_option (scan_while is_word_char) (qwen35_word_start (qwen4_char_at s))"
  using scan_while_step [of "qc_next (qwen4_char_at s)" is_word_char]
  by (auto simp: rx_word_def match_opt_seq match_char_seq match_some qwen35_word_start_def Let_def is_word_char_def)

lemma spaces: "cp_space 0x20" "cp_space 0x0d" "cp_space 0x0a"
  unfolding cp_space_def qwen4_urange_has_iff [OF tables_ok(4)] by (simp_all add: in_ranges_def space_ranges_def)

lemma char_space: "s \<noteq> [] \<Longrightarrow> qc_space (qwen4_char_at s) = cp_space (qc_cp (qwen4_char_at s))"
  by (simp add: qwen4_char_at_def Let_def case_prod_beta)

lemma newline_space: "s \<noteq> [] \<Longrightarrow> is_newline_char (qwen4_char_at s) \<Longrightarrow> qc_space (qwen4_char_at s)"
  using spaces by (auto simp: char_space is_newline_char_def is_newline_cp_def)

lemma match_punct:
  assumes "s \<noteq> []"
  shows "first (rx_punct s) = qwen35_punct s (qwen4_char_at s)"
proof (cases "qc_cp (qwen4_char_at s) = 0x20")
  case True
  then have "qc_space (qwen4_char_at s)" using assms spaces by (simp add: char_space)
  then have "\<not> is_punct_char (qwen4_char_at s)" by (simp add: is_punct_char_def)
  then show ?thesis using True assms scan_while_step [of "qc_next (qwen4_char_at s)" is_punct_char]
    by (auto simp: rx_punct_def match_opt_seq match_char_seq match_seq_many match_some qwen35_punct_def Let_def)
next
  case False
  then show ?thesis using assms scan_while_step [of s is_punct_char]
    by (auto simp: rx_punct_def match_opt_seq match_char_seq match_seq_many match_some qwen35_punct_def Let_def)
qed

subsection \<open>White space\<close>

lemma breaks_step: "rx_breaks s = (if s \<noteq> [] \<and> qc_space (qwen4_char_at s) then rx_breaks (qc_next (qwen4_char_at s)) else [])
    @ rx_some is_newline_char s"
  unfolding rx_breaks_def rx_seq_def by (subst rx_many.simps) simp

lemma breaks_None: "first (rx_breaks s) = None \<Longrightarrow> scan_while is_newline_char s = s"
  by (subst (asm) breaks_step, subst scan_while.simps)
    (auto simp: match_some Let_def orelse_def split: option.splits if_splits)

lemma space_scan_stop: "\<not> (p \<noteq> [] \<and> qc_space (qwen4_char_at p)) \<Longrightarrow> space_scan p e w n = (p, e, w, n)"
  by (subst space_scan.simps) (auto simp: Let_def)

lemma space_scan_step: "p \<noteq> [] \<Longrightarrow> qc_space (qwen4_char_at p) \<Longrightarrow> space_scan p e w n =
    space_scan (qc_next (qwen4_char_at p)) (if is_newline_char (qwen4_char_at p) then Some (qc_next (qwen4_char_at p)) else e) p (Suc n)"
  by (subst space_scan.simps) (simp add: Let_def)

lemma match_breaks: "fst (snd (space_scan p lne w n)) = orelse (first (rx_breaks p)) lne"
proof (induction p lne w n rule: space_scan.induct)
  case (1 p lne w n)
  let ?c = "qwen4_char_at p"
  show ?case
  proof (cases "p \<noteq> [] \<and> qc_space ?c")
    case False
    then have "first (rx_breaks p) = None" using newline_space [of p] by (subst breaks_step) (auto simp: match_some)
    with False show ?thesis by (subst space_scan.simps) (auto simp: Let_def)
  next
    case True
    then have "fst (snd (space_scan p lne w n))
        = orelse (first (rx_breaks (qc_next ?c))) (if is_newline_char ?c then Some (qc_next ?c) else lne)"
      using 1 by (subst space_scan.simps) (simp add: Let_def)
    also have "\<dots> = orelse (first (rx_breaks p)) lne"
      using True breaks_None [of "qc_next ?c"]
      by (subst (2) breaks_step) (auto simp: match_some orelse_def split: option.splits)
    finally show ?thesis .
  qed
qed

text \<open>What \<open>\s*(?!\S)\<close> matches from here, by how the scan goes.\<close>

definition rx_rest :: rx where
  "rx_rest = rx_seq (rx_many qc_space) (rx_not_before (\<lambda>c. \<not> qc_space c))"

lemma rest_step: "rx_rest s = (if s \<noteq> [] \<and> qc_space (qwen4_char_at s) then rx_rest (qc_next (qwen4_char_at s)) else [])
    @ rx_not_before (\<lambda>c. \<not> qc_space c) s"
  unfolding rx_rest_def rx_seq_def by (subst rx_many.simps) simp

lemma match_rest:
  "space_scan p lne w n = (q, e, w', m) \<Longrightarrow>
     q = scan_while qc_space p \<and> n \<le> m \<and> (m = n \<longrightarrow> w' = w)
     \<and> first (rx_rest p) = (if q = [] then Some q else if n < m then Some w' else None)"
proof (induction p lne w n arbitrary: q e w' m rule: space_scan.induct)
  case (1 p lne w n)
  let ?c = "qwen4_char_at p"
  show ?case
  proof (cases "p \<noteq> [] \<and> qc_space ?c")
    case False
    then have "q = p" "w' = w" "m = n" using "1.prems" by (simp_all add: space_scan_stop)
    moreover from False have "first (rx_rest p) = (if p = [] then Some p else None)"
      by (subst rest_step) (auto simp: rx_not_before_def)
    moreover from False have "scan_while qc_space p = p" by (subst scan_while.simps) (auto simp: Let_def)
    ultimately show ?thesis by simp
  next
    case True
    then have "space_scan (qc_next ?c) (if is_newline_char ?c then Some (qc_next ?c) else lne) p (Suc n) = (q, e, w', m)"
      using "1.prems" by (simp add: space_scan_step)
    then have ih: "q = scan_while qc_space (qc_next ?c)" "Suc n \<le> m" "m = Suc n \<longrightarrow> w' = p"
      "first (rx_rest (qc_next ?c)) = (if q = [] then Some q else if Suc n < m then Some w' else None)"
      using "1.IH" True by blast+
    have "first (rx_rest p) = orelse (first (rx_rest (qc_next ?c))) (Some p)"
      using True by (subst rest_step) (simp add: rx_not_before_def)
    then show ?thesis using ih True scan_while_step [of p qc_space] by auto
  qed
qed

lemma trailing_rest: "s \<noteq> [] \<Longrightarrow> qc_space (qwen4_char_at s) \<Longrightarrow> rx_trailing s = rx_rest (qc_next (qwen4_char_at s))"
  unfolding rx_trailing_def rx_rest_def by (simp add: rx_some_def match_char_seq rx_seq_def [of "rx_seq _ _"], simp add: rx_seq_def)

lemma match_space:
  assumes "s \<noteq> []" "qc_space (qwen4_char_at s)"
  shows "orelse (first (rx_breaks s)) (orelse (first (rx_trailing s)) (first (rx_some qc_space s))) = Some (qwen35_space s)"
proof -
  let ?c = "qwen4_char_at s"
  obtain q e w m where sc: "space_scan s None s 0 = (q, e, w, m)" by (metis prod_cases4)
  then have "space_scan (qc_next ?c) (if is_newline_char ?c then Some (qc_next ?c) else None) s 1 = (q, e, w, m)"
    using assms by (simp add: space_scan_step)
  from match_rest [OF this] have r: "q = scan_while qc_space (qc_next ?c)" "1 \<le> m"
    "first (rx_trailing s) = (if q = [] then Some q else if 1 < m then Some w else None)"
    using assms by (auto simp: trailing_rest)
  have "first (rx_breaks s) = e" using match_breaks [of s None s 0] sc by simp
  then show ?thesis using r assms sc by (auto simp: qwen35_space_def match_some orelse_def split: option.splits)
qed

lemma match_space_None:
  assumes "s \<noteq> []" "\<not> qc_space (qwen4_char_at s)"
  shows "first (rx_breaks s) = None \<and> first (rx_trailing s) = None \<and> first (rx_some qc_space s) = None"
proof -
  have "first (rx_breaks s) = None" using assms newline_space [of s] by (subst breaks_step) (auto simp: match_some)
  moreover have "first (rx_trailing s) = None" using assms by (simp add: rx_trailing_def rx_some_def match_char_seq rx_seq_def rx_char_def)
  ultimately show ?thesis using assms by (simp add: match_some)
qed

subsection \<open>The loop takes what the expression matches\<close>

lemma piece_end_matches: "s \<noteq> [] \<Longrightarrow> rx_match qwen35_regex s = Some (qwen35_piece_end s)"
proof -
  assume s: "s \<noteq> []"
  let ?c = "qwen4_char_at s"
  have punct: "qwen35_word_start ?c = None \<longrightarrow> \<not> qc_number ?c \<longrightarrow> qwen35_punct s ?c \<noteq> None" if "\<not> qc_space ?c"
  proof -
    have "qc_cp ?c \<noteq> 0x20" using that(1) s spaces by (auto simp: char_space)
    then show ?thesis using that s by (auto simp: qwen35_punct_def qwen35_word_start_def is_punct_char_def split: if_splits)
  qed
  have num: "first (rx_char qc_number s) = (if qc_number ?c then Some (qc_next ?c) else None)"
    using s by (simp add: rx_char_def)
  note m = qwen35_regex_def rx_match_first match_alt match_contraction [OF s] match_word [OF s] num match_punct [OF s]
  show ?thesis
  proof (cases "qc_space ?c")
    case True
    show ?thesis using match_space [OF s True] True
      by (auto simp: m qwen35_piece_end_def Let_def orelse_def split: option.splits)
  next
    case False
    show ?thesis using match_space_None [OF s False] punct [OF False] False
      by (auto simp: m qwen35_piece_end_def Let_def orelse_def split: option.splits)
  qed
qed


subsection \<open>The pieces\<close>

definition rx_within :: "rx \<Rightarrow> bool" where
  "rx_within f \<longleftrightarrow> (\<forall>s r. r \<in> set (f s) \<longrightarrow> suffix r s)"

definition rx_moves :: "rx \<Rightarrow> bool" where
  "rx_moves f \<longleftrightarrow> (\<forall>s r. r \<in> set (f s) \<longrightarrow> strict_suffix r s)"

lemma moves_within: "rx_moves f \<Longrightarrow> rx_within f"
  by (auto simp: rx_within_def rx_moves_def strict_suffix_def)

lemma rx_char_moves: "rx_moves (rx_char P)"
  by (auto simp: rx_moves_def rx_char_def char_next_suffix)

lemma rx_many_within: "rx_within (rx_many P)"
proof -
  have "suffix r s" if "r \<in> set (rx_many P s)" for r s
    using that
  proof (induction P s rule: rx_many.induct)
    case (1 P s)
    show ?case
    proof (cases "r = s")
      case False
      with 1 have c: "s \<noteq> []" "P (qwen4_char_at s)" "r \<in> set (rx_many P (qc_next (qwen4_char_at s)))"
        by (subst (asm) (2) rx_many.simps, auto split: if_splits)+
      then have "suffix r (qc_next (qwen4_char_at s))" using 1(1) by blast
      then show ?thesis using char_next_suffix [OF c(1)] by (meson strict_suffix_def suffix_order.order_trans)
    qed simp
  qed
  then show ?thesis by (simp add: rx_within_def)
qed

lemma rx_seq_within: "rx_within f \<Longrightarrow> rx_within g \<Longrightarrow> rx_within (rx_seq f g)"
  unfolding rx_within_def rx_seq_def by simp (meson suffix_order.order_trans)

lemma rx_seq_moves: "rx_moves f \<Longrightarrow> rx_within g \<Longrightarrow> rx_moves (rx_seq f g)"
  unfolding rx_within_def rx_moves_def rx_seq_def by simp (meson suffix_order.le_less_trans)

lemma rx_seq_moves2: "rx_within f \<Longrightarrow> rx_moves g \<Longrightarrow> rx_moves (rx_seq f g)"
  unfolding rx_within_def rx_moves_def rx_seq_def by simp (meson suffix_order.less_le_trans)

lemma rx_alt_moves: "rx_moves f \<Longrightarrow> rx_moves g \<Longrightarrow> rx_moves (rx_alt f g)"
  by (auto simp: rx_moves_def rx_alt_def)

lemma rx_alt_within: "rx_within f \<Longrightarrow> rx_within g \<Longrightarrow> rx_within (rx_alt f g)"
  by (auto simp: rx_within_def rx_alt_def)

lemma rx_opt_within: "rx_within f \<Longrightarrow> rx_within (rx_opt f)"
  by (auto simp: rx_within_def rx_opt_def)

lemma rx_not_before_within: "rx_within (rx_not_before P)"
  by (auto simp: rx_within_def rx_not_before_def)

lemma rx_some_moves: "rx_moves (rx_some P)"
  unfolding rx_some_def by (intro rx_seq_moves rx_char_moves rx_many_within)

lemma rx_parts_move: "rx_moves rx_contraction" "rx_moves rx_word" "rx_moves rx_punct" "rx_moves rx_breaks" "rx_moves rx_trailing"
proof -
  show "rx_moves rx_contraction" unfolding rx_contraction_def rx_letter_def by (intro rx_seq_moves rx_char_moves rx_alt_within moves_within)
  show "rx_moves rx_word" unfolding rx_word_def by (intro rx_seq_moves2 rx_opt_within moves_within rx_char_moves rx_some_moves)
  show "rx_moves rx_punct" unfolding rx_punct_def
    by (rule rx_seq_moves2, intro rx_opt_within moves_within rx_char_moves, intro rx_seq_moves rx_some_moves rx_many_within)
  show "rx_moves rx_breaks" unfolding rx_breaks_def by (intro rx_seq_moves2 rx_many_within rx_some_moves)
  show "rx_moves rx_trailing" unfolding rx_trailing_def by (intro rx_seq_moves rx_some_moves rx_not_before_within)
qed

lemma qwen35_regex_moves: "rx_moves qwen35_regex"
  unfolding qwen35_regex_def by (intro rx_alt_moves rx_parts_move rx_char_moves rx_some_moves)

lemma first_in_set: "first xs = Some x \<Longrightarrow> x \<in> set xs"
  by (cases xs) auto

lemma piece_end_suffix: "s \<noteq> [] \<Longrightarrow> strict_suffix (qwen35_piece_end s) s"
  using piece_end_matches [of s] qwen35_regex_moves first_in_set [of "qwen35_regex s"]
  by (auto simp: rx_match_first rx_moves_def)

lemma piece_end_length: "s \<noteq> [] \<Longrightarrow> length (qwen35_piece_end s) < length s"
  using piece_end_suffix suffix_length_less by blast

function qwen35_pieces :: "string \<Rightarrow> string list" where
  "qwen35_pieces s =
     (if s = [] then []
      else take (length s - length (qwen35_piece_end s)) s # qwen35_pieces (qwen35_piece_end s))"
  by pat_completeness auto
termination
  by (relation "measure length") (simp_all add: piece_end_length)

declare qwen35_pieces.simps [simp del]

lemma piece_split: "s \<noteq> [] \<Longrightarrow>
    take (length s - length (qwen35_piece_end s)) s @ qwen35_piece_end s = s
    \<and> take (length s - length (qwen35_piece_end s)) s \<noteq> []"
proof -
  assume "s \<noteq> []"
  then have "strict_suffix (qwen35_piece_end s) s" by (rule piece_end_suffix)
  then obtain zs where zs: "s = zs @ qwen35_piece_end s" "zs \<noteq> []"
    by (metis append_Nil strict_suffix_def suffixE)
  then have "length s - length (qwen35_piece_end s) = length zs" by (metis diff_add_inverse2 length_append)
  with zs show ?thesis by (metis append_eq_conv_conj)
qed

lemma concat_qwen35_pieces: "concat (qwen35_pieces s) = s"
proof (induction s rule: qwen35_pieces.induct)
  case (1 s)
  then show ?case using piece_split [of s] by (subst qwen35_pieces.simps) simp
qed

text \<open>Splitting a whole text by an expression: match, cut off what it matched, go on after it.\<close>

inductive split_by :: "rx \<Rightarrow> string \<Rightarrow> string list \<Rightarrow> bool" where
  split_end: "split_by f [] []"
| split_piece: "s \<noteq> [] \<Longrightarrow> rx_match f s = Some r \<Longrightarrow> s = piece @ r \<Longrightarrow> split_by f r ps \<Longrightarrow> split_by f s (piece # ps)"

inductive_cases split_by_NilE: "split_by f [] ps"
inductive_cases split_by_ConsE: "split_by f s (piece # ps)"
inductive_cases split_byE: "split_by f s ps"

lemma split_by_pieces: "split_by qwen35_regex s (qwen35_pieces s)"
proof (induction s rule: qwen35_pieces.induct)
  case (1 s)
  show ?case
  proof (cases "s = []")
    case True
    then show ?thesis by (subst qwen35_pieces.simps) (simp add: split_end)
  next
    case False
    then have "split_by qwen35_regex s
        (take (length s - length (qwen35_piece_end s)) s # qwen35_pieces (qwen35_piece_end s))"
      using 1 piece_split [of s] piece_end_matches [of s] by (intro split_piece) auto
    with False show ?thesis by (subst qwen35_pieces.simps) simp
  qed
qed

lemma split_by_unique: "split_by f s ps \<Longrightarrow> split_by f s qs \<Longrightarrow> ps = qs"
proof (induction f s ps arbitrary: qs rule: split_by.induct)
  case (split_end f)
  then show ?case by (auto elim: split_by_NilE)
next
  case (split_piece s f r piece ps)
  from split_piece.prems split_piece.hyps(1)
  obtain r' piece' ps' where q: "qs = piece' # ps'" "rx_match f s = Some r'" "s = piece' @ r'" "split_by f r' ps'"
    by (metis split_byE)
  then have "r' = r" using split_piece.hyps by simp
  then show ?case using q split_piece by auto
qed

text \<open>
  C23: the hand-written pre-tokenizer cuts every text, whatever its bytes are, exactly as the regular
  expression it is meant to mirror: a list of pieces is the split of the text by that expression if and
  only if it is what the loop produces.
\<close>

theorem pretokenizer_is_regex: "split_by qwen35_regex s ps \<longleftrightarrow> ps = qwen35_pieces s"
  using split_by_pieces split_by_unique by blast

end
