(* ===== verification/Bpe.thy ===== *)
theory Bpe
  imports VocabTable Pretokenize
begin

text \<open>
  The vocabulary of the tokenizer and byte-pair encoding (\<open>ds4.c\<close>): \<open>vocab_load\<close> over the token and
  merge strings that the GGUF metadata holds, the merge loop \<open>bpe_emit_piece\<close>, and \<open>ds4_token_text\<close>,
  which turns a token back into bytes.
\<close>

subsection \<open>The vocabulary\<close>

record ds4_vocab =
  vb_token :: "string list"
  vb_n_vocab :: int
  vb_bos :: int
  vb_eos :: int
  vb_system :: int
  vb_user :: int
  vb_assistant :: int
  vb_observation :: int
  vb_sop :: int
  vb_think_start :: int
  vb_think_end :: int
  vb_tool_call_start :: int
  vb_tool_call_end :: int
  vb_tool_response_start :: int
  vb_tool_response_end :: int
  vb_arg_key_start :: int
  vb_arg_key_end :: int
  vb_arg_value_start :: int
  vb_arg_value_end :: int
  vb_dsml :: int
  vb_im_start :: int
  vb_im_end :: int
  vb_endoftext :: int
  vb_token_to_id :: str_i32_table
  vb_merge_rank :: str_i32_table

definition vocab_lookup :: "str_i32_table \<Rightarrow> string \<Rightarrow> int option" where
  "vocab_lookup t s = table_get t s"

definition vocab_lookup_optional :: "str_i32_table \<Rightarrow> string \<Rightarrow> int" where
  "vocab_lookup_optional t s = (case table_get t s of Some i \<Rightarrow> i | None \<Rightarrow> -1)"

text \<open>\<open>None\<close> is the exit of the program: too many tokens, or a required token is missing.\<close>

definition vocab_load :: "string list \<Rightarrow> string list \<Rightarrow> ds4_vocab option" where
  "vocab_load tokens merges =
     (if 2147483647 < length tokens then None
      else case table_load tokens of None \<Rightarrow> None | Some ids \<Rightarrow>
      case table_load merges of None \<Rightarrow> None | Some ranks \<Rightarrow>
      case vocab_lookup ids ''<|im_start|>'' of None \<Rightarrow> None | Some im_s \<Rightarrow>
      case vocab_lookup ids ''<|im_end|>'' of None \<Rightarrow> None | Some im_e \<Rightarrow>
      case vocab_lookup ids ''<|endoftext|>'' of None \<Rightarrow> None | Some endoftext \<Rightarrow>
      case vocab_lookup ids ''<think>'' of None \<Rightarrow> None | Some th_s \<Rightarrow>
      case vocab_lookup ids ''</think>'' of None \<Rightarrow> None | Some th_e \<Rightarrow>
      Some \<lparr>vb_token = tokens, vb_n_vocab = c_int (length tokens),
        vb_bos = -1, vb_eos = im_e, vb_system = -1, vb_user = -1, vb_assistant = -1, vb_observation = -1, vb_sop = -1,
        vb_think_start = th_s, vb_think_end = th_e,
        vb_tool_call_start = vocab_lookup_optional ids ''<tool_call>'',
        vb_tool_call_end = vocab_lookup_optional ids ''</tool_call>'',
        vb_tool_response_start = vocab_lookup_optional ids ''<tool_response>'',
        vb_tool_response_end = vocab_lookup_optional ids ''</tool_response>'',
        vb_arg_key_start = -1, vb_arg_key_end = -1, vb_arg_value_start = -1, vb_arg_value_end = -1, vb_dsml = -1,
        vb_im_start = im_s, vb_im_end = im_e, vb_endoftext = endoftext,
        vb_token_to_id = ids, vb_merge_rank = ranks\<rparr>)"

subsection \<open>Merging\<close>

definition bpe_rank :: "ds4_vocab \<Rightarrow> string \<Rightarrow> string \<Rightarrow> int" where
  "bpe_rank v a b = (case table_get (vb_merge_rank v) (a @ '' '' @ b) of Some r \<Rightarrow> r | None \<Rightarrow> -1)"

text \<open>The symbols of an encoded piece: one per UTF-8 sequence.\<close>

function utf8_split :: "string \<Rightarrow> string list" where
  "utf8_split s = (if s = [] then [] else take (utf8_width s) s # utf8_split (drop (utf8_width s) s))"
  by pat_completeness auto
termination
  by (relation "measure length") (use utf8_width_pos in auto)

declare utf8_split.simps [simp del]

text \<open>The inner loop: the first pair of least rank, or index \<open>-1\<close>; the accumulator is \<open>(best_i, best_rank)\<close>.\<close>

fun bpe_scan :: "ds4_vocab \<Rightarrow> string list \<Rightarrow> nat \<Rightarrow> int \<times> int \<Rightarrow> int \<times> int" where
  "bpe_scan v (a # b # r) i best =
     bpe_scan v (b # r) (Suc i)
       (let rank = bpe_rank v a b in if 0 \<le> rank \<and> rank < snd best then (int i, rank) else best)"
| "bpe_scan v _ i best = best"

definition bpe_best :: "ds4_vocab \<Rightarrow> string list \<Rightarrow> int" where
  "bpe_best v syms = fst (bpe_scan v syms 0 (-1, 2147483647))"

definition merge_at :: "nat \<Rightarrow> string list \<Rightarrow> string list" where
  "merge_at i syms = take i syms @ (syms ! i @ syms ! Suc i) # drop (i + 2) syms"

lemma bpe_scan_bound:
  "fst (bpe_scan v syms i best) = fst best \<or>
     int i \<le> fst (bpe_scan v syms i best) \<and> fst (bpe_scan v syms i best) + 1 < int (i + length syms)"
proof (induction v syms i best rule: bpe_scan.induct)
  case (1 v a b r i best)
  then show ?case by (auto simp: Let_def split: if_splits)
qed auto

lemma bpe_best_bound: "0 \<le> bpe_best v syms \<Longrightarrow> Suc (nat (bpe_best v syms)) < length syms"
  using bpe_scan_bound [of v syms 0 "(-1, 2147483647)"] by (auto simp: bpe_best_def)

function bpe_merge :: "ds4_vocab \<Rightarrow> string list \<Rightarrow> string list" where
  "bpe_merge v syms = (if bpe_best v syms < 0 then syms else bpe_merge v (merge_at (nat (bpe_best v syms)) syms))"
  by pat_completeness auto
termination
proof (relation "measure (length \<circ> snd)")
  fix v syms assume "\<not> bpe_best v syms < 0"
  then show "((v, merge_at (nat (bpe_best v syms)) syms), v, syms) \<in> measure (length \<circ> snd)"
    using bpe_best_bound [of v syms] by (simp add: merge_at_def)
qed simp

declare bpe_merge.simps [simp del]

text \<open>A symbol is emitted as its token, or byte by byte; bytes without a token are dropped.\<close>

definition bpe_emit_symbol :: "ds4_vocab \<Rightarrow> string \<Rightarrow> int list" where
  "bpe_emit_symbol v symbol =
     (case table_get (vb_token_to_id v) symbol of
        Some t \<Rightarrow> [t]
      | None \<Rightarrow> List.map_filter (\<lambda>c. table_get (vb_token_to_id v) [c]) symbol)"

definition bpe_emit_piece :: "ds4_vocab \<Rightarrow> string \<Rightarrow> int list" where
  "bpe_emit_piece v raw_piece = concat (map (bpe_emit_symbol v) (bpe_merge v (utf8_split (byte_encode raw_piece))))"

definition bpe_tokenize_text :: "ds4_vocab \<Rightarrow> string \<Rightarrow> int list" where
  "bpe_tokenize_text v s = concat (map (bpe_emit_piece v) (qwen35_pieces s))"

subsection \<open>Tokens as text\<close>

definition fullwidth_bar :: string where
  "fullwidth_bar = [CHR 0xEF, CHR 0xBD, CHR 0x9C]"

fun vocab_token_is_literal_special :: "string \<Rightarrow> bool" where
  "vocab_token_is_literal_special [] = False"
| "vocab_token_is_literal_special (c # r) = (starts_with (c # r) fullwidth_bar \<or> vocab_token_is_literal_special r)"

definition ds4_token_text :: "ds4_vocab \<Rightarrow> int \<Rightarrow> string" where
  "ds4_token_text v token =
     (if token < 0 \<or> vb_n_vocab v \<le> token then []
      else let s = vb_token v ! nat token in
        if vocab_token_is_literal_special s then s else byte_decode s)"

definition tokens_text :: "ds4_vocab \<Rightarrow> int list \<Rightarrow> string" where
  "tokens_text v ts = concat (map (ds4_token_text v) ts)"


subsection \<open>What a loaded vocabulary answers\<close>

lemma c_int_small: "i < 2147483648 \<Longrightarrow> c_int i = int i"
proof -
  assume "i < 2147483648"
  then have "uint (of_nat i :: 32 word) = int i" "uint (of_nat i :: 32 word) < 2 ^ 31" by (simp_all add: unsigned_of_nat take_bit_nat_eq_self)
  then show ?thesis unfolding c_int_def by (simp add: sint_uint signed_take_bit_int_eq_self)
qed

lemma numbered_SomeD: "map_of (rev (numbered xs)) k = Some n \<Longrightarrow> \<exists>i<length xs. n = c_int i \<and> xs ! i = k"
  by (drule map_of_SomeD) (auto simp: numbered_def in_set_zip)

lemma numbered_None: "map_of (rev (numbered xs)) k = None \<longleftrightarrow> k \<notin> set xs"
proof -
  have "map fst (numbered xs) = xs" by (simp add: numbered_def)
  then have "fst ` set (numbered xs) = set xs" by (metis list.set_map)
  then show ?thesis by (simp add: map_of_eq_None_iff)
qed

definition vocab_reads :: "ds4_vocab \<Rightarrow> string list \<Rightarrow> string list \<Rightarrow> bool" where
  "vocab_reads v tokens merges \<longleftrightarrow>
     (\<forall>s. table_get (vb_token_to_id v) s = None \<longleftrightarrow> s \<notin> set tokens)
     \<and> (\<forall>s t. table_get (vb_token_to_id v) s = Some t \<longrightarrow> 0 \<le> t \<and> t < vb_n_vocab v \<and> vb_token v ! nat t = s)
     \<and> (\<forall>s. table_get (vb_merge_rank v) s \<noteq> None \<longrightarrow> s \<in> set merges)"

lemma table_load_get: "length xs \<le> 2 ^ 32 \<Longrightarrow> table_load xs = Some t \<Longrightarrow> table_get t k = map_of (rev (numbered xs)) k"
  using table_load_spec [of xs] table_get_map by auto

lemma vocab_load_parts:
  assumes "vocab_load tokens merges = Some v"
  shows "length tokens < 2147483648" "vb_token v = tokens" "vb_n_vocab v = int (length tokens)"
    "table_load tokens = Some (vb_token_to_id v)" "table_load merges = Some (vb_merge_rank v)"
  using assms by (auto simp: vocab_load_def c_int_small split: option.splits if_splits)

lemma vocab_load_reads:
  assumes load: "vocab_load tokens merges = Some v" and m: "length merges \<le> 2 ^ 32"
  shows "vocab_reads v tokens merges"
proof -
  note p = vocab_load_parts [OF load]
  have ids: "table_get (vb_token_to_id v) s = map_of (rev (numbered tokens)) s" for s
    using p(1,4) by (intro table_load_get) simp_all
  have ranks: "table_get (vb_merge_rank v) s = map_of (rev (numbered merges)) s" for s
    using m p(5) by (rule table_load_get)
  have "0 \<le> t \<and> t < vb_n_vocab v \<and> vb_token v ! nat t = s" if "table_get (vb_token_to_id v) s = Some t" for s t
    using numbered_SomeD [of tokens s t] that p(1,2,3) by (auto simp: ids c_int_small)
  then show ?thesis by (simp add: vocab_reads_def ids ranks numbered_None)
qed

text \<open>
  A vocabulary that byte-pair encoding can use: every byte has a symbol, and what a merge makes is a token.
\<close>

definition vocab_complete :: "string list \<Rightarrow> string list \<Rightarrow> bool" where
  "vocab_complete tokens merges \<longleftrightarrow>
     (\<forall>c. byte_symbol c \<in> set tokens) \<and> (\<forall>a b. a @ '' '' @ b \<in> set merges \<longrightarrow> a @ b \<in> set tokens)"

subsection \<open>The merge loop keeps the text\<close>

lemma utf8_split_encode: "utf8_split (byte_encode s) = map byte_symbol s"
proof (induction s)
  case Nil
  then show ?case by (simp add: byte_encode_def utf8_split.simps)
next
  case (Cons c s)
  have "byte_encode (c # s) = byte_symbol c @ byte_encode s" by (simp add: byte_encode_def)
  then show ?case using Cons byte_symbol_not_Nil [of c]
    by (subst utf8_split.simps) (simp add: byte_symbol_width)
qed

lemma merge_at_split: "Suc i < length syms \<Longrightarrow> syms = take i syms @ syms ! i # syms ! Suc i # drop (i + 2) syms"
  by (metis Cons_nth_drop_Suc Suc_lessD add_2_eq_Suc' append_take_drop_id)

lemma bpe_scan_rank:
  "snd (bpe_scan v syms i best) \<noteq> snd best \<or> fst (bpe_scan v syms i best) \<noteq> fst best \<Longrightarrow>
     \<exists>j. fst (bpe_scan v syms i best) = int (i + j) \<and> Suc j < length syms \<and> 0 \<le> bpe_rank v (syms ! j) (syms ! Suc j)"
proof (induction v syms i best rule: bpe_scan.induct)
  case (1 v a b r i best)
  define best' where "best' = (let rank = bpe_rank v a b in if 0 \<le> rank \<and> rank < snd best then (int i, rank) else best)"
  let ?res = "bpe_scan v (b # r) (Suc i) best'"
  have res: "bpe_scan v (a # b # r) i best = ?res" by (simp add: best'_def)
  show ?case
  proof (cases "snd ?res \<noteq> snd best' \<or> fst ?res \<noteq> fst best'")
    case True
    then obtain j where "fst ?res = int (Suc i + j)" "Suc j < length (b # r)" "0 \<le> bpe_rank v ((b # r) ! j) ((b # r) ! Suc j)"
      using "1.IH" [folded best'_def] by blast
    then show ?thesis unfolding res by (intro exI [of _ "Suc j"]) auto
  next
    case False
    then have "best' \<noteq> best" using "1.prems" unfolding res by auto
    then have "fst best' = int i" "0 \<le> bpe_rank v a b" by (auto simp: best'_def Let_def split: if_splits)
    then show ?thesis unfolding res using False by (intro exI [of _ 0]) auto
  qed
qed auto

lemma bpe_best_rank:
  assumes "0 \<le> bpe_best v syms"
  shows "Suc (nat (bpe_best v syms)) < length syms
    \<and> 0 \<le> bpe_rank v (syms ! nat (bpe_best v syms)) (syms ! Suc (nat (bpe_best v syms)))"
proof -
  have "fst (bpe_scan v syms 0 (-1, 2147483647)) \<noteq> fst (-1 :: int, 2147483647 :: int)"
    using assms by (simp add: bpe_best_def)
  then obtain j where "bpe_best v syms = int j" "Suc j < length syms" "0 \<le> bpe_rank v (syms ! j) (syms ! Suc j)"
    using bpe_scan_rank [of v syms 0 "(-1, 2147483647)"] by (auto simp: bpe_best_def)
  then show ?thesis by simp
qed

text \<open>The symbols at any time: encodings of consecutive parts of the piece, each of them a token.\<close>

definition symbols_of :: "string set \<Rightarrow> string \<Rightarrow> string list \<Rightarrow> bool" where
  "symbols_of T s syms \<longleftrightarrow> set syms \<subseteq> T \<and> (\<exists>ws. syms = map byte_encode ws \<and> concat ws = s)"

lemma byte_encode_append: "byte_encode (a @ b) = byte_encode a @ byte_encode b"
  by (simp add: byte_encode_def)

lemma symbols_of_merge:
  assumes "symbols_of T s syms" "Suc i < length syms" "syms ! i @ syms ! Suc i \<in> T"
  shows "symbols_of T s (merge_at i syms)"
proof -
  obtain ws where ws: "syms = map byte_encode ws" "concat ws = s" using assms(1) by (auto simp: symbols_of_def)
  then have len: "Suc i < length ws" using assms(2) by simp
  let ?ws = "take i ws @ (ws ! i @ ws ! Suc i) # drop (i + 2) ws"
  have "merge_at i syms = map byte_encode ?ws"
    using ws len by (simp add: merge_at_def byte_encode_append take_map drop_map)
  moreover have "concat ?ws = concat (take i ws @ ws ! i # ws ! Suc i # drop (i + 2) ws)" by simp
  then have "concat ?ws = s" using ws(2) arg_cong [OF merge_at_split [OF len], of concat] by simp
  moreover have "set (merge_at i syms) \<subseteq> T"
    using assms(1,3) by (auto simp: merge_at_def symbols_of_def dest: in_set_takeD in_set_dropD)
  ultimately show ?thesis unfolding symbols_of_def by blast
qed

lemma bpe_merge_symbols:
  "vocab_reads v tokens merges \<Longrightarrow> vocab_complete tokens merges \<Longrightarrow> symbols_of (set tokens) s syms \<Longrightarrow>
     symbols_of (set tokens) s (bpe_merge v syms)"
proof (induction v syms rule: bpe_merge.induct)
  case (1 v syms)
  show ?case
  proof (cases "bpe_best v syms < 0")
    case True
    then show ?thesis using "1.prems" by (subst bpe_merge.simps) simp
  next
    case False
    define i where "i = nat (bpe_best v syms)"
    have i: "Suc i < length syms" "0 \<le> bpe_rank v (syms ! i) (syms ! Suc i)"
      using bpe_best_rank [of v syms] False by (simp_all add: i_def)
    then have "syms ! i @ '' '' @ syms ! Suc i \<in> set merges"
      using "1.prems"(1) by (auto simp: bpe_rank_def vocab_reads_def split: option.splits)
    then have "syms ! i @ syms ! Suc i \<in> set tokens" using "1.prems"(2) by (auto simp: vocab_complete_def)
    then have "symbols_of (set tokens) s (merge_at i syms)" using "1.prems"(3) i(1) by (intro symbols_of_merge)
    then have "symbols_of (set tokens) s (bpe_merge v (merge_at i syms))"
      using "1.IH" False "1.prems" by (simp add: i_def)
    then show ?thesis using False by (subst bpe_merge.simps) (simp add: i_def)
  qed
qed

subsection \<open>Tokens of plain text give the text back\<close>

lemma byte_symbol_no_bar: "CHR 0xEF \<notin> set (byte_symbol c)"
proof
  let ?cp = "gpt2_byte_to_codepoint (u8_of c)"
  have bits: "bit (u8_of (CHR 0xEF)) 5" "bit (u8_of (CHR 0xEF)) 6" by (simp_all add: u8_of_def)
  assume "CHR 0xEF \<in> set (byte_symbol c)"
  then have mem: "CHR 0xEF \<in> set (utf8_put_cp ?cp)" by (simp add: byte_symbol_def)
  have "unat ?cp < 2048" using gpt2_roundtrip by blast
  then show False
  proof (rule utf8_put_cp_cases)
    assume "(ucast ?cp :: u8) < 0x80" "utf8_put_cp ?cp = [char_of_u32 ?cp]"
    then have "u8_of (CHR 0xEF) < 0x80" using mem by (metis empty_iff insertE list.set(1,2) u8_of_char_of_u32)
    then show False by (simp add: u8_of_def)
  next
    assume cp: "unat ?cp < 2048"
      "utf8_put_cp ?cp = [char_of_u32 (0xc0 OR drop_bit 6 ?cp), char_of_u32 (0x80 OR (?cp AND 0x3f))]"
    then consider "u8_of (CHR 0xEF) = ucast (0xc0 OR drop_bit 6 ?cp)" | "u8_of (CHR 0xEF) = ucast (0x80 OR (?cp AND 0x3f))"
      using mem by (metis empty_iff insertE list.set(1,2) u8_of_char_of_u32)
    then show False
    proof cases
      case 1
      with bits(1) have "bit (ucast (0xc0 OR drop_bit 6 ?cp) :: u8) 5" by simp
      then show False using bits_below_11 [OF cp(1)] by (auto simp: bit_simps lead_bits)
    next
      case 2
      with bits(2) have "bit (ucast (0x80 OR (?cp AND 0x3f)) :: u8) 6" by simp
      then show False by (auto simp: bit_simps lead_bits)
    qed
  qed
qed

lemma literal_special_bar: "vocab_token_is_literal_special s \<Longrightarrow> CHR 0xEF \<in> set s"
  by (induction s) (auto simp: fullwidth_bar_def)

lemma encoded_not_special: "\<not> vocab_token_is_literal_special (byte_encode s)"
  using literal_special_bar byte_symbol_no_bar by (fastforce simp: byte_encode_def)


lemma byte_decode_encode: "byte_decode (byte_encode s) = s"
  by (induction s) (simp_all add: byte_encode_def byte_decode_symbol byte_decode.simps [of "[]"])

lemma token_text_encoded:
  assumes "vocab_reads v tokens merges" "byte_encode w \<in> set tokens"
  shows "\<exists>t. bpe_emit_symbol v (byte_encode w) = [t] \<and> ds4_token_text v t = w \<and> vb_token v ! nat t = byte_encode w \<and> 0 \<le> t"
proof -
  obtain t where t: "table_get (vb_token_to_id v) (byte_encode w) = Some t"
    using assms by (auto simp: vocab_reads_def)
  then have "0 \<le> t" "t < vb_n_vocab v" "vb_token v ! nat t = byte_encode w"
    using assms(1) by (auto simp: vocab_reads_def)
  with t show ?thesis
    by (simp add: bpe_emit_symbol_def ds4_token_text_def encoded_not_special byte_decode_encode)
qed

lemma emit_symbols_text:
  "vocab_reads v tokens merges \<Longrightarrow> byte_encode ` set ws \<subseteq> set tokens \<Longrightarrow>
     tokens_text v (concat (map (bpe_emit_symbol v) (map byte_encode ws))) = concat ws"
proof (induction ws)
  case (Cons w ws)
  then have "byte_encode w \<in> set tokens" by simp
  then obtain t where "bpe_emit_symbol v (byte_encode w) = [t]" "ds4_token_text v t = w"
    using token_text_encoded [OF Cons.prems(1)] by blast
  with Cons show ?case by (simp add: tokens_text_def)
qed (simp add: tokens_text_def)

lemma initial_symbols:
  "vocab_complete tokens merges \<Longrightarrow> symbols_of (set tokens) s (utf8_split (byte_encode s))"
proof -
  assume c: "vocab_complete tokens merges"
  have e: "map byte_symbol s = map byte_encode (map (\<lambda>c. [c]) s)" by (simp add: byte_encode_def)
  have "concat (map (\<lambda>c. [c]) s) = s" by (induction s) simp_all
  moreover have "set (map byte_symbol s) \<subseteq> set tokens" using c by (auto simp: vocab_complete_def)
  ultimately show ?thesis unfolding symbols_of_def utf8_split_encode using e by blast
qed

lemma bpe_emit_piece_text:
  assumes "vocab_reads v tokens merges" "vocab_complete tokens merges"
  shows "tokens_text v (bpe_emit_piece v s) = s"
proof -
  have "symbols_of (set tokens) s (bpe_merge v (utf8_split (byte_encode s)))"
    using assms initial_symbols by (intro bpe_merge_symbols)
  then obtain ws where ws: "bpe_merge v (utf8_split (byte_encode s)) = map byte_encode ws" "concat ws = s"
      "set (map byte_encode ws) \<subseteq> set tokens"
    by (auto simp: symbols_of_def)
  then show ?thesis using emit_symbols_text [OF assms(1), of ws] by (simp add: bpe_emit_piece_def)
qed

lemma tokens_text_append [simp]: "tokens_text v (a @ b) = tokens_text v a @ tokens_text v b"
  by (simp add: tokens_text_def)

lemma tokens_text_Nil [simp]: "tokens_text v [] = []"
  by (simp add: tokens_text_def)

lemma bpe_tokenize_text_text:
  assumes "vocab_reads v tokens merges" "vocab_complete tokens merges"
  shows "tokens_text v (bpe_tokenize_text v s) = s"
proof -
  have "tokens_text v (concat (map (bpe_emit_piece v) ps)) = concat ps" for ps
    using bpe_emit_piece_text [OF assms] by (induction ps) simp_all
  then show ?thesis by (simp add: bpe_tokenize_text_def concat_qwen35_pieces)
qed

subsection \<open>Markers\<close>

text \<open>A token of printable ASCII reads as itself.\<close>

definition plain_char :: "char \<Rightarrow> bool" where
  "plain_char c \<longleftrightarrow> 33 \<le> (of_char c :: nat) \<and> (of_char c :: nat) \<le> 126"

lemma byte_symbol_plain: "plain_char c \<Longrightarrow> byte_symbol c = [c]"
proof -
  assume c: "plain_char c"
  have u: "unat (u8_of c) = (of_char c :: nat)"
    using unat_of_nat [of "of_char c", where ?'a = 8] unfolding u8_of_def of_nat_of_char by simp
  then have "gpt2_printable (ucast (u8_of c))"
    using c by (simp add: gpt2_printable_def plain_char_def word_le_nat_alt)
  then have "gpt2_byte_to_codepoint (u8_of c) = ucast (u8_of c)" by (simp add: gpt2_byte_to_codepoint_def)
  then show ?thesis using c u
    by (simp add: byte_symbol_def utf8_put_cp_def plain_char_def word_le_nat_alt char_of_u32_def)
qed

lemma byte_encode_plain: "list_all plain_char s \<Longrightarrow> byte_encode s = s"
  by (induction s) (simp_all add: byte_encode_def byte_symbol_plain)

lemma token_text_plain:
  assumes "0 \<le> t" "t < vb_n_vocab v" "list_all plain_char (vb_token v ! nat t)"
  shows "ds4_token_text v t = vb_token v ! nat t"
  using assms encoded_not_special [of "vb_token v ! nat t"] byte_decode_encode [of "vb_token v ! nat t"]
  by (simp add: ds4_token_text_def byte_encode_plain)

end
