(* ===== verification/Tokenizer.thy ===== *)
theory Tokenizer
  imports Bpe ToolText QwenRender
begin

text \<open>
  The tokenizer's chat layer (\<open>ds4.c\<close>): control markers in rendered text (\<open>special_token_at\<close>,
  \<open>tokenize_rendered_chat_vocab\<close>), the prompt encoder of the command line and the turn encoder
  (\<open>encode_chat_prompt\<close>, \<open>ds4_chat_append_message\<close>), and the tests on generated tokens.
\<close>

subsection \<open>Markers in rendered text\<close>

definition low_block :: string where
  "low_block = [CHR 0xE2, CHR 0x96, CHR 0x81]"

definition begin_of_sentence :: string where
  "begin_of_sentence = ''<'' @ fullwidth_bar @ ''begin'' @ low_block @ ''of'' @ low_block @ ''sentence'' @ fullwidth_bar @ ''>''"

definition end_of_sentence :: string where
  "end_of_sentence = ''<'' @ fullwidth_bar @ ''end'' @ low_block @ ''of'' @ low_block @ ''sentence'' @ fullwidth_bar @ ''>''"

definition specials :: "ds4_vocab \<Rightarrow> (string \<times> int) list" where
  "specials v =
     [(begin_of_sentence, vb_bos v), (end_of_sentence, vb_eos v), (''[gMASK]'', vb_bos v), (''<sop>'', vb_sop v),
      (''<|system|>'', vb_system v), (''<'' @ fullwidth_bar @ ''User'' @ fullwidth_bar @ ''>'', vb_user v),
      (''<'' @ fullwidth_bar @ ''Assistant'' @ fullwidth_bar @ ''>'', vb_assistant v),
      (''<|user|>'', vb_user v), (''<|assistant|>'', vb_assistant v), (''<|observation|>'', vb_observation v),
      (''<think>'', vb_think_start v), (''</think>'', vb_think_end v),
      (''<tool_call>'', vb_tool_call_start v), (''</tool_call>'', vb_tool_call_end v),
      (''<tool_response>'', vb_tool_response_start v), (''</tool_response>'', vb_tool_response_end v),
      (''<arg_key>'', vb_arg_key_start v), (''</arg_key>'', vb_arg_key_end v),
      (''<arg_value>'', vb_arg_value_start v), (''</arg_value>'', vb_arg_value_end v),
      (fullwidth_bar @ ''DSML'' @ fullwidth_bar, vb_dsml v),
      (''<|im_start|>'', vb_im_start v), (''<|im_end|>'', vb_im_end v), (''<|endoftext|>'', vb_endoftext v)]"

fun special_in :: "(string \<times> int) list \<Rightarrow> string \<Rightarrow> (int \<times> nat) option" where
  "special_in [] p = None"
| "special_in ((t, token) # r) p =
     (if token < 0 then special_in r p
      else if starts_with p t then Some (token, length t)
      else special_in r p)"

definition special_token_at :: "ds4_vocab \<Rightarrow> string \<Rightarrow> (int \<times> nat) option" where
  "special_token_at v p = special_in (specials v) p"

definition tokenize_span :: "ds4_vocab \<Rightarrow> string \<Rightarrow> int list" where
  "tokenize_span v s = (if s = [] then [] else bpe_tokenize_text v s)"

lemma special_in_SomeD: "special_in xs p = Some (token, n) \<Longrightarrow>
    \<exists>t. (t, token) \<in> set xs \<and> 0 \<le> token \<and> starts_with p t \<and> n = length t"
  by (induction xs p rule: special_in.induct) (auto split: if_splits)

lemma specials_nonempty: "(t, token) \<in> set (specials v) \<Longrightarrow> t \<noteq> []"
  by (auto simp: specials_def begin_of_sentence_def end_of_sentence_def fullwidth_bar_def)

lemma special_token_length: "special_token_at v p = Some (token, n) \<Longrightarrow> 0 < n \<and> n \<le> length p"
  using special_in_SomeD [of "specials v" p token n] specials_nonempty starts_with_length
  by (fastforce simp: special_token_at_def)

text \<open>The loop with the pending span, the text since the last marker.\<close>

function rendered_loop :: "ds4_vocab \<Rightarrow> string \<Rightarrow> string \<Rightarrow> int list" where
  "rendered_loop v span p =
     (if p = [] then tokenize_span v span
      else case special_token_at v p of
        Some (token, n) \<Rightarrow> tokenize_span v span @ token # rendered_loop v [] (drop n p)
      | None \<Rightarrow> rendered_loop v (span @ [hd p]) (tl p))"
  by pat_completeness auto
termination
  by (relation "measure (\<lambda>(v, span, p). length p)") (auto dest: special_token_length)

declare rendered_loop.simps [simp del]

definition tokenize_rendered_chat_vocab :: "ds4_vocab \<Rightarrow> string option \<Rightarrow> int list" where
  "tokenize_rendered_chat_vocab v t = rendered_loop v [] (opt_text t)"


subsection \<open>Encoding turns\<close>

definition chat_push_bos_sequence :: "ds4_vocab \<Rightarrow> int list" where
  "chat_push_bos_sequence v = (if vb_bos v < 0 then [] else [vb_bos v])"

definition reasoning_effort_max_prefix :: string where
  "reasoning_effort_max_prefix =
     ''Reasoning Effort: Absolute maximum with no shortcuts permitted.'' @ newline @
     ''You MUST be very thorough in your thinking and comprehensively decompose the problem to resolve the root cause, rigorously stress-testing your logic against all potential paths, edge cases, and adversarial scenarios.'' @ newline @
     ''Explicitly write out your entire deliberation process, documenting every intermediate step, considered alternative, and rejected hypothesis to ensure absolutely no assumption is left unchecked.'' @ newline @ newline"

definition chat_push_think_prefix :: "ds4_vocab \<Rightarrow> think_mode \<Rightarrow> int list" where
  "chat_push_think_prefix v mode =
     (if mode = DS4_THINK_MAX then bpe_tokenize_text v reasoning_effort_max_prefix else [])"

definition qwen4_chat_open :: "ds4_vocab \<Rightarrow> string \<Rightarrow> int list" where
  "qwen4_chat_open v role = vb_im_start v # bpe_tokenize_text v role @ bpe_tokenize_text v newline"

definition qwen4_chat_close :: "ds4_vocab \<Rightarrow> int list" where
  "qwen4_chat_close v = vb_im_end v # bpe_tokenize_text v newline"

definition qwen4_chat_assistant_prefix :: "ds4_vocab \<Rightarrow> think_mode \<Rightarrow> int list" where
  "qwen4_chat_assistant_prefix v mode =
     qwen4_chat_open v ''assistant'' @ [vb_think_start v]
     @ (if ds4_think_mode_enabled mode then bpe_tokenize_text v newline
        else bpe_tokenize_text v (newline @ newline) @ [vb_think_end v] @ bpe_tokenize_text v (newline @ newline))"

definition qwen4_chat_system :: "ds4_vocab \<Rightarrow> string option \<Rightarrow> think_mode \<Rightarrow> int list" where
  "qwen4_chat_system v system mode =
     (let instruction = ds4_qwen4_reasoning_effort_text mode; have_system = (opt_text system \<noteq> []) in
      if instruction = None \<and> \<not> have_system then []
      else qwen4_chat_open v ''system''
        @ (case instruction of None \<Rightarrow> []
           | Some t \<Rightarrow> bpe_tokenize_text v t @ (if have_system then bpe_tokenize_text v (newline @ newline) else []))
        @ (if have_system then bpe_tokenize_text v (opt_text system) else [])
        @ qwen4_chat_close v)"

definition encode_chat_prompt :: "ds4_vocab \<Rightarrow> string option \<Rightarrow> string \<Rightarrow> think_mode \<Rightarrow> int list option" where
  "encode_chat_prompt v system prompt mode =
     (if vb_im_start v < 0 \<or> vb_im_end v < 0 \<or> vb_think_start v < 0 \<or> vb_think_end v < 0 then None
      else Some (qwen4_chat_system v system mode
        @ qwen4_chat_open v ''user'' @ bpe_tokenize_text v prompt @ qwen4_chat_close v
        @ qwen4_chat_assistant_prefix v mode))"

function wrapped_loop :: "ds4_vocab \<Rightarrow> string \<Rightarrow> string \<Rightarrow> string \<Rightarrow> int list" where
  "wrapped_loop v close_tag span p =
     (if p = [] then tokenize_span v span
      else if tool_text_needs_escape p close_tag then
        tokenize_span v span @ bpe_tokenize_text v (if hd p = CHR ''<'' then ''&lt;'' else ''&amp;'')
        @ wrapped_loop v close_tag [] (tl p)
      else wrapped_loop v close_tag (span @ [hd p]) (tl p))"
  by pat_completeness auto
termination
  by (relation "measure (\<lambda>(v, e, span, p). length p)") auto

declare wrapped_loop.simps [simp del]

definition bpe_tokenize_wrapped_payload_text :: "ds4_vocab \<Rightarrow> string option \<Rightarrow> string \<Rightarrow> int list" where
  "bpe_tokenize_wrapped_payload_text v content close_tag = wrapped_loop v close_tag [] (opt_text content)"

definition bpe_tokenize_tool_response_text :: "ds4_vocab \<Rightarrow> string option \<Rightarrow> int list" where
  "bpe_tokenize_tool_response_text v content = bpe_tokenize_wrapped_payload_text v content ''</tool_response>''"

definition ds4_chat_append_message :: "ds4_vocab \<Rightarrow> string option \<Rightarrow> string option \<Rightarrow> int list" where
  "ds4_chat_append_message v role content =
     (let role = (case role of None \<Rightarrow> ''user'' | Some r \<Rightarrow> r); content = opt_text content in
      (if role = ''tool'' \<or> role = ''function'' then
         qwen4_chat_open v ''user'' @ bpe_tokenize_text v (''<tool_response>'' @ newline)
         @ bpe_tokenize_tool_response_text v (Some content) @ bpe_tokenize_text v (newline @ ''</tool_response>'')
       else
         let name = (if role = ''system'' \<or> role = ''developer'' then ''system''
                     else if role = ''assistant'' then ''assistant'' else ''user'') in
         qwen4_chat_open v name
         @ (if name = ''assistant'' then tokenize_rendered_chat_vocab v (Some content) else bpe_tokenize_text v content))
      @ qwen4_chat_close v)"

subsection \<open>Tests on generated tokens\<close>

definition vocab_token_is_generation_stop :: "ds4_vocab \<Rightarrow> int \<Rightarrow> bool" where
  "vocab_token_is_generation_stop v token \<longleftrightarrow>
     0 \<le> token \<and> (token = vb_eos v \<or> 0 \<le> vb_endoftext v \<and> token = vb_endoftext v)"

definition ds4_token_is_thinking_control :: "ds4_vocab \<Rightarrow> int \<Rightarrow> bool" where
  "ds4_token_is_thinking_control v token \<longleftrightarrow>
     0 \<le> token \<and> (0 \<le> vb_think_start v \<and> token = vb_think_start v \<or> 0 \<le> vb_think_end v \<and> token = vb_think_end v)"

definition ds4_token_is_stop_for_think_mode :: "ds4_vocab \<Rightarrow> int \<Rightarrow> think_mode \<Rightarrow> bool" where
  "ds4_token_is_stop_for_think_mode v token mode \<longleftrightarrow>
     vocab_token_is_generation_stop v token
     \<or> \<not> ds4_think_mode_enabled mode \<and> ds4_token_is_thinking_control v token"

subsection \<open>Rendered text is not lost\<close>

definition marker_reads :: "ds4_vocab \<Rightarrow> bool" where
  "marker_reads v \<longleftrightarrow> (\<forall>(t, token) \<in> set (specials v). 0 \<le> token \<longrightarrow> t = end_of_sentence \<or> ds4_token_text v token = t)"

lemma lookup_text:
  assumes "vocab_reads v tokens merges" "list_all plain_char t" "table_get (vb_token_to_id v) t = Some token"
  shows "ds4_token_text v token = t \<and> 0 \<le> token \<and> vb_token v ! nat token = t"
  using assms token_text_plain [of token v] by (auto simp: vocab_reads_def)

lemma lookup_optional_text:
  assumes "vocab_reads v tokens merges" "list_all plain_char t" "0 \<le> vocab_lookup_optional (vb_token_to_id v) t"
  shows "ds4_token_text v (vocab_lookup_optional (vb_token_to_id v) t) = t"
proof (cases "table_get (vb_token_to_id v) t")
  case (Some token)
  then show ?thesis using lookup_text [OF assms(1,2) Some] by (simp add: vocab_lookup_optional_def)
next
  case None
  then show ?thesis using assms(3) by (simp add: vocab_lookup_optional_def)
qed

lemma vocab_load_ids:
  assumes "vocab_load tokens merges = Some v"
  defines "look \<equiv> table_get (vb_token_to_id v)"
  shows "vb_bos v = -1" "vb_sop v = -1" "vb_system v = -1" "vb_user v = -1" "vb_assistant v = -1" "vb_observation v = -1"
    "vb_arg_key_start v = -1" "vb_arg_key_end v = -1" "vb_arg_value_start v = -1" "vb_arg_value_end v = -1" "vb_dsml v = -1"
    "look ''<|im_start|>'' = Some (vb_im_start v)" "look ''<|im_end|>'' = Some (vb_im_end v)"
    "look ''<|endoftext|>'' = Some (vb_endoftext v)" "look ''<think>'' = Some (vb_think_start v)"
    "look ''</think>'' = Some (vb_think_end v)" "vb_eos v = vb_im_end v"
    "vb_tool_call_start v = vocab_lookup_optional (vb_token_to_id v) ''<tool_call>''"
    "vb_tool_call_end v = vocab_lookup_optional (vb_token_to_id v) ''</tool_call>''"
    "vb_tool_response_start v = vocab_lookup_optional (vb_token_to_id v) ''<tool_response>''"
    "vb_tool_response_end v = vocab_lookup_optional (vb_token_to_id v) ''</tool_response>''"
  using assms(1) by (auto simp: vocab_load_def vocab_lookup_def look_def split: option.splits if_splits)

lemma markers_plain:
  "list_all plain_char ''<|im_start|>''" "list_all plain_char ''<|im_end|>''" "list_all plain_char ''<|endoftext|>''"
  "list_all plain_char ''<think>''" "list_all plain_char ''</think>''"
  "list_all plain_char ''<tool_call>''" "list_all plain_char ''</tool_call>''"
  "list_all plain_char ''<tool_response>''" "list_all plain_char ''</tool_response>''"
  by (simp_all add: plain_char_def)


lemma vocab_load_marker_reads:
  assumes load: "vocab_load tokens merges = Some v" and m: "length merges \<le> 2 ^ 32"
  shows "marker_reads v"
proof -
  note r = vocab_load_reads [OF load m]
  note ids = vocab_load_ids [OF load]
  note req = lookup_text [OF r] and opt = lookup_optional_text [OF r]
  show ?thesis unfolding marker_reads_def specials_def
    using req [OF markers_plain(1) ids(12)] req [OF markers_plain(2) ids(13)] req [OF markers_plain(3) ids(14)]
      req [OF markers_plain(4) ids(15)] req [OF markers_plain(5) ids(16)]
      opt [OF markers_plain(6)] opt [OF markers_plain(7)] opt [OF markers_plain(8)] opt [OF markers_plain(9)]
    by (simp only: ids list.set ball_simps prod.case) simp
qed

lemma special_token_text:
  assumes "marker_reads v" "special_token_at v p = Some (token, n)" "\<not> starts_with p end_of_sentence"
  shows "ds4_token_text v token = take n p"
proof -
  obtain t where t: "(t, token) \<in> set (specials v)" "0 \<le> token" "starts_with p t" "n = length t"
    using special_in_SomeD assms(2) unfolding special_token_at_def by blast
  then have "t = end_of_sentence \<or> ds4_token_text v token = t" using assms(1) by (auto simp: marker_reads_def)
  then show ?thesis using t assms(3) by (auto simp: starts_with_take)
qed

lemma tokenize_span_text:
  "vocab_reads v tokens merges \<Longrightarrow> vocab_complete tokens merges \<Longrightarrow> tokens_text v (tokenize_span v s) = s"
  by (simp add: tokenize_span_def bpe_tokenize_text_text)

lemma tokens_text_Cons: "tokens_text v (t # ts) = ds4_token_text v t @ tokens_text v ts"
  by (simp add: tokens_text_def)

lemma rendered_loop_text:
  "vocab_reads v tokens merges \<Longrightarrow> vocab_complete tokens merges \<Longrightarrow> marker_reads v \<Longrightarrow>
     (\<forall>i. \<not> starts_with (drop i p) end_of_sentence) \<Longrightarrow> tokens_text v (rendered_loop v span p) = span @ p"
proof (induction v span p rule: rendered_loop.induct)
  case (1 v span p)
  note span = tokenize_span_text [OF "1.prems"(1,2)]
  show ?case
  proof (cases "p = []")
    case True
    then show ?thesis by (subst rendered_loop.simps) (simp add: span)
  next
    case False
    have drop1: "drop 1 p = tl p" by (simp add: drop_Suc)
    have rest: "\<forall>i. \<not> starts_with (drop i (drop n p)) end_of_sentence" for n
      using "1.prems"(4) by (metis drop_drop)
    show ?thesis
    proof (cases "special_token_at v p")
      case None
      have "\<forall>i. \<not> starts_with (drop i (tl p)) end_of_sentence" using rest [of 1] unfolding drop1 .
      then have "tokens_text v (rendered_loop v (span @ [hd p]) (tl p)) = (span @ [hd p]) @ tl p"
        using "1.IH"(1) False None "1.prems"(1-3) by blast
      with False None show ?thesis by (subst rendered_loop.simps) simp
    next
      case (Some x)
      obtain token n where x: "special_token_at v p = Some (token, n)" using Some by (cases x) auto
      have "\<not> starts_with p end_of_sentence" using spec [OF "1.prems"(4), of 0] by simp
      then have "ds4_token_text v token = take n p" by (rule special_token_text [OF "1.prems"(3) x])
      moreover have "tokens_text v (rendered_loop v [] (drop n p)) = [] @ drop n p"
        using "1.IH"(2) [OF False x refl] "1.prems"(1-3) rest [of n] by blast
      ultimately show ?thesis using False x by (subst rendered_loop.simps) (simp add: span tokens_text_Cons)
    qed
  qed
qed

text \<open>
  C22: tokenizing rendered chat text and turning the tokens back into text gives the text, byte for
  byte, for every vocabulary with a symbol for every byte and a token for every merge, and every text
  that does not contain DeepSeek's end-of-sentence marker.
\<close>

theorem tokenize_lossless:
  assumes "vocab_load tokens merges = Some v" "vocab_complete tokens merges" "length merges \<le> 2 ^ 32"
    and "c_strstr s end_of_sentence = None"
  shows "tokens_text v (tokenize_rendered_chat_vocab v (Some s)) = s"
proof -
  have "\<forall>i. \<not> starts_with (drop i s) end_of_sentence" using c_strstr_None [OF assms(4)] by blast
  then show ?thesis
    using rendered_loop_text [OF vocab_load_reads [OF assms(1,3)] assms(2) vocab_load_marker_reads [OF assms(1,3)]]
    by (simp add: tokenize_rendered_chat_vocab_def opt_text_def)
qed

subsection \<open>A small vocabulary\<close>

definition byte_tokens :: "string list" where
  "byte_tokens = map (\<lambda>i. byte_symbol (char_of (i :: nat))) [0..<256]"

definition demo_tokens :: "string list" where
  "demo_tokens = [''<|im_start|>'', ''<|im_end|>'', ''<|endoftext|>'', ''<think>'', ''</think>'', ''hi''] @ byte_tokens"

definition demo_merges :: "string list" where
  "demo_merges = [''h i'']"

lemma byte_symbol_in_tokens: "byte_symbol c \<in> set byte_tokens"
  by (auto simp: byte_tokens_def image_iff intro!: bexI [of _ "of_char c"])

lemma demo_complete: "vocab_complete demo_tokens demo_merges"
proof -
  have "a @ b = ''hi''" if "a @ '' '' @ b = ''h i''" for a b
    using that by (auto simp: append_eq_Cons_conv)
  then show ?thesis using byte_symbol_in_tokens by (simp add: vocab_complete_def demo_tokens_def demo_merges_def)
qed

lemma required_tokens_load:
  assumes "set [''<|im_start|>'', ''<|im_end|>'', ''<|endoftext|>'', ''<think>'', ''</think>''] \<subseteq> set tokens"
    "length tokens < 2147483648" "length merges \<le> 2 ^ 32"
  shows "\<exists>v. vocab_load tokens merges = Some v"
proof -
  obtain ids where ids: "table_load tokens = Some ids" using table_load_spec [of tokens] assms(2) by auto
  obtain ranks where ranks: "table_load merges = Some ranks" using table_load_spec [of merges] assms(3) by auto
  have get: "\<exists>i. vocab_lookup ids t = Some i" if "t \<in> set tokens" for t
    using table_load_get [OF _ ids, of t] numbered_None [of tokens t] that assms(2) by (auto simp: vocab_lookup_def)
  have "\<exists>a b c d e. vocab_lookup ids ''<|im_start|>'' = Some a \<and> vocab_lookup ids ''<|im_end|>'' = Some b
      \<and> vocab_lookup ids ''<|endoftext|>'' = Some c \<and> vocab_lookup ids ''<think>'' = Some d \<and> vocab_lookup ids ''</think>'' = Some e"
    using get assms(1) by simp
  then show ?thesis using assms(2) ids ranks by (auto simp: vocab_load_def)
qed

lemma demo_load: "\<exists>v. vocab_load demo_tokens demo_merges = Some v"
  by (intro required_tokens_load) (auto simp: demo_tokens_def demo_merges_def byte_tokens_def)

theorem tokenize_lossless_witness:
  "\<exists>v. vocab_load demo_tokens demo_merges = Some v
     \<and> tokens_text v (tokenize_rendered_chat_vocab v (Some ''hi<|im_end|>'')) = ''hi<|im_end|>''"
proof -
  obtain v where v: "vocab_load demo_tokens demo_merges = Some v" using demo_load by blast
  have "c_strstr ''hi<|im_end|>'' end_of_sentence = None" by (simp add: end_of_sentence_def fullwidth_bar_def)
  then show ?thesis using tokenize_lossless [OF v demo_complete] v by (simp add: demo_merges_def)
qed


subsection \<open>Tool results: the engine escapes as the server does\<close>

lemma wrapped_loop_text:
  "vocab_reads v tokens merges \<Longrightarrow> vocab_complete tokens merges \<Longrightarrow>
     tokens_text v (wrapped_loop v close_tag span p) = span @ append_glm_tag_body_text p close_tag"
proof (induction v close_tag span p rule: wrapped_loop.induct)
  case (1 v close_tag span p)
  note plain = tokenize_span_text [OF "1.prems"] bpe_tokenize_text_text [OF "1.prems"]
  show ?case
  proof (cases p)
    case Nil
    then show ?thesis by (subst wrapped_loop.simps) (simp add: plain)
  next
    case (Cons c r)
    show ?thesis
    proof (cases "tool_text_needs_escape p close_tag")
      case True
      have "tokens_text v (wrapped_loop v close_tag [] r) = append_glm_tag_body_text r close_tag"
        using "1.IH"(1) True "1.prems" Cons by simp
      with True Cons show ?thesis by (subst wrapped_loop.simps) (simp add: plain)
    next
      case False
      have "tokens_text v (wrapped_loop v close_tag (span @ [c]) r) = (span @ [c]) @ append_glm_tag_body_text r close_tag"
        using "1.IH"(2) False "1.prems" Cons by simp
      with False Cons show ?thesis by (subst wrapped_loop.simps) simp
    qed
  qed
qed

subsection \<open>The prompt of the command line is the prompt of the server\<close>

lemma qwen4_open_text:
  assumes "vocab_reads v tokens merges" "vocab_complete tokens merges" "ds4_token_text v (vb_im_start v) = ''<|im_start|>''"
  shows "tokens_text v (qwen4_chat_open v role) = im_start role @ newline"
  using assms by (simp add: qwen4_chat_open_def tokens_text_Cons bpe_tokenize_text_text im_start_def)

lemma qwen4_close_text:
  assumes "vocab_reads v tokens merges" "vocab_complete tokens merges" "ds4_token_text v (vb_im_end v) = ''<|im_end|>''"
  shows "tokens_text v (qwen4_chat_close v) = im_end"
  using assms by (simp add: qwen4_chat_close_def tokens_text_Cons bpe_tokenize_text_text im_end_def)

lemma required_ids_text:
  assumes load: "vocab_load tokens merges = Some v" and m: "length merges \<le> 2 ^ 32"
  shows "ds4_token_text v (vb_im_start v) = ''<|im_start|>''" "ds4_token_text v (vb_im_end v) = ''<|im_end|>''"
    "ds4_token_text v (vb_think_start v) = ''<think>''" "ds4_token_text v (vb_think_end v) = ''</think>''"
    "0 \<le> vb_im_start v" "0 \<le> vb_im_end v" "0 \<le> vb_think_start v" "0 \<le> vb_think_end v"
    "vb_token v ! nat (vb_im_start v) = ''<|im_start|>''" "vb_token v ! nat (vb_im_end v) = ''<|im_end|>''"
    "vb_token v ! nat (vb_think_start v) = ''<think>''" "vb_token v ! nat (vb_think_end v) = ''</think>''"
  using lookup_text [OF vocab_load_reads [OF load m]] vocab_load_ids [OF load] markers_plain by blast+

definition prompt_turns :: "string option \<Rightarrow> string \<Rightarrow> chat_msg list" where
  "prompt_turns system prompt =
     (case system of None \<Rightarrow> [] | Some t \<Rightarrow> [example_turn ''system'' t]) @ [example_turn ''user'' prompt]"

lemma prompt_turns_system: "append_trimmed_text (opt_text system) = opt_text system \<Longrightarrow>
    qwen_system_text (prompt_turns system prompt) = opt_text system"
  by (cases system) (simp_all add: qwen_system_text_def prompt_turns_def example_turn_def role_is_system_def opt_text_def)

lemma prompt_turns_conversation: "append_qwen_conversation (prompt_turns system prompt) 0 orders think =
    im_start ''user'' @ newline @ append_trimmed_text prompt @ im_end @ append_qwen_generation_prompt think"
  by (cases system)
    (simp_all add: append_qwen_conversation_def prompt_turns_def example_turn_def role_is_system_def opt_text_def
      chat_msg_is_glm_tool_result_def no_chat_msg_def)

lemma assistant_prefix_text:
  assumes load: "vocab_load tokens merges = Some v" and c: "vocab_complete tokens merges" and m: "length merges \<le> 2 ^ 32"
  shows "tokens_text v (qwen4_chat_assistant_prefix v mode) = append_qwen_generation_prompt (ds4_think_mode_enabled mode)"
  using bpe_tokenize_text_text [OF vocab_load_reads [OF load m] c] required_ids_text [OF load m]
    qwen4_open_text [OF vocab_load_reads [OF load m] c]
  by (simp add: qwen4_chat_assistant_prefix_def append_qwen_generation_prompt_def tokens_text_Cons)

text \<open>
  C25: the prompt the engine encodes for the command line reads, as text, exactly as the prompt the
  server renders for the same system text and question, in every thinking mode, when the two texts
  have no white space at their ends (which the server trims).
\<close>

theorem encode_chat_is_rendered:
  assumes "vocab_load tokens merges = Some v" "vocab_complete tokens merges" "length merges \<le> 2 ^ 32"
    and "append_trimmed_text prompt = prompt" "append_trimmed_text (opt_text system) = opt_text system"
  shows "map_option (tokens_text v) (encode_chat_prompt v system prompt mode)
    = Some (render_qwen_chat_prompt_text (prompt_turns system prompt) None [] mode)"
proof -
  note r = vocab_load_reads [OF assms(1,3)]
  note ids = required_ids_text [OF assms(1,3)]
  note texts = bpe_tokenize_text_text [OF r assms(2)] qwen4_open_text [OF r assms(2) ids(1)] qwen4_close_text [OF r assms(2) ids(2)]
    assistant_prefix_text [OF assms(1-3)]
  have none: "ds4_qwen4_reasoning_effort_text mode = None" if "\<not> ds4_think_mode_enabled mode"
    using that by (cases mode) (simp_all add: ds4_think_mode_enabled_def ds4_qwen4_reasoning_effort_text_def)
  have "tokens_text v (qwen4_chat_system v system mode) @ im_start ''user'' @ newline @ prompt @ im_end
      @ append_qwen_generation_prompt (ds4_think_mode_enabled mode)
    = render_qwen_chat_prompt_text (prompt_turns system prompt) None [] mode"
    using none
    by (auto simp: qwen4_chat_system_def render_qwen_chat_prompt_text_def Let_def prompt_turns_system [OF assms(5)]
        prompt_turns_conversation assms(4) texts opt_text_def split: option.splits)
  then show ?thesis using ids by (simp add: encode_chat_prompt_def texts)
qed


theorem encode_chat_is_rendered_witness:
  "\<exists>v. vocab_load demo_tokens demo_merges = Some v
     \<and> map_option (tokens_text v) (encode_chat_prompt v (Some ''be brief'') ''hi'' DS4_THINK_NONE)
       = Some (render_qwen_chat_prompt_text (prompt_turns (Some ''be brief'') ''hi'') None [] DS4_THINK_NONE)"
proof -
  obtain v where v: "vocab_load demo_tokens demo_merges = Some v" using demo_load by blast
  have "append_trimmed_text ''hi'' = ''hi''" "append_trimmed_text (opt_text (Some ''be brief'')) = opt_text (Some ''be brief'')"
    by (simp_all add: append_trimmed_text_def rtrim_def c_isspace_def opt_text_def)
  then show ?thesis
    using encode_chat_is_rendered [OF v demo_complete, of "''hi''" "Some ''be brief''" DS4_THINK_NONE] v
    by (simp add: demo_merges_def)
qed

subsection \<open>Text cannot forge control tokens\<close>

definition control_markers :: "string list" where
  "control_markers = [''<|im_start|>'', ''<|im_end|>'', ''<|endoftext|>'', ''<think>'', ''</think>'',
     ''<tool_call>'', ''</tool_call>'', ''<tool_response>'', ''</tool_response>'']"

definition is_control :: "ds4_vocab \<Rightarrow> int \<Rightarrow> bool" where
  "is_control v t \<longleftrightarrow> vb_token v ! nat t \<in> set control_markers"

definition no_marker_merges :: "string list \<Rightarrow> bool" where
  "no_marker_merges merges \<longleftrightarrow> (\<forall>a b. a @ '' '' @ b \<in> set merges \<longrightarrow> a @ b \<notin> set control_markers)"

lemma control_marker_long: "m \<in> set control_markers \<Longrightarrow> 7 \<le> length m"
  by (auto simp: control_markers_def)

lemma length_byte_symbol: "length (byte_symbol c) \<le> 4"
  by (simp add: byte_symbol_def utf8_put_cp_def)

lemma bpe_merge_no_marker:
  "vocab_reads v tokens merges \<Longrightarrow> no_marker_merges merges \<Longrightarrow> set syms \<inter> set control_markers = {} \<Longrightarrow>
     set (bpe_merge v syms) \<inter> set control_markers = {}"
proof (induction v syms rule: bpe_merge.induct)
  case (1 v syms)
  show ?case
  proof (cases "bpe_best v syms < 0")
    case True
    then show ?thesis using "1.prems" by (subst bpe_merge.simps) simp
  next
    case False
    define i where "i = nat (bpe_best v syms)"
    have i: "Suc i < length syms" "0 \<le> bpe_rank v (syms ! i) (syms ! Suc i)"
      using bpe_best_rank [of v syms] False by (simp_all add: i_def)
    then have "syms ! i @ '' '' @ syms ! Suc i \<in> set merges"
      using "1.prems"(1) by (auto simp: bpe_rank_def vocab_reads_def split: option.splits)
    then have "syms ! i @ syms ! Suc i \<notin> set control_markers" using "1.prems"(2) unfolding no_marker_merges_def by blast
    then have "set (merge_at i syms) \<inter> set control_markers = {}"
      using "1.prems"(3) by (auto simp: merge_at_def dest: in_set_takeD in_set_dropD)
    then have "set (bpe_merge v (merge_at i syms)) \<inter> set control_markers = {}"
      using "1.IH" False "1.prems"(1,2) by (simp add: i_def)
    then show ?thesis using False by (subst bpe_merge.simps) (simp add: i_def)
  qed
qed

lemma emit_symbol_no_control:
  assumes "vocab_reads v tokens merges" "symbol \<notin> set control_markers" "t \<in> set (bpe_emit_symbol v symbol)"
  shows "\<not> is_control v t"
proof (cases "table_get (vb_token_to_id v) symbol")
  case (Some u)
  then show ?thesis using assms by (auto simp: bpe_emit_symbol_def is_control_def vocab_reads_def)
next
  case None
  then obtain c where "table_get (vb_token_to_id v) [c] = Some t"
    using assms(3) by (auto simp: bpe_emit_symbol_def map_filter_def)
  then have "vb_token v ! nat t = [c]" using assms(1) by (simp add: vocab_reads_def)
  then show ?thesis using control_marker_long [of "[c]"] by (auto simp: is_control_def)
qed

lemma plain_text_no_control:
  assumes "vocab_reads v tokens merges" "no_marker_merges merges"
  shows "filter (is_control v) (bpe_tokenize_text v s) = []"
proof -
  have "\<not> is_control v t" if t: "t \<in> set (bpe_emit_piece v p)" for t p
  proof -
    have "set (utf8_split (byte_encode p)) \<inter> set control_markers = {}"
    proof -
      have "byte_symbol c \<notin> set control_markers" for c
        using control_marker_long [of "byte_symbol c"] length_byte_symbol [of c] by auto
      then show ?thesis by (auto simp: utf8_split_encode)
    qed
    then have "set (bpe_merge v (utf8_split (byte_encode p))) \<inter> set control_markers = {}"
      by (rule bpe_merge_no_marker [OF assms])
    then show ?thesis using t emit_symbol_no_control [OF assms(1)] by (fastforce simp: bpe_emit_piece_def)
  qed
  then show ?thesis by (auto simp: bpe_tokenize_text_def filter_empty_conv)
qed

lemma wrapped_loop_no_control:
  assumes "vocab_reads v tokens merges" "no_marker_merges merges"
  shows "filter (is_control v) (wrapped_loop v close_tag span p) = []"
proof -
  have plain: "filter (is_control v) (bpe_tokenize_text v s) = []" for s by (rule plain_text_no_control [OF assms])
  have span: "filter (is_control v) (tokenize_span v s) = []" for s by (simp add: tokenize_span_def plain)
  show ?thesis
    using plain span
    by (induction v close_tag span p rule: wrapped_loop.induct) (subst wrapped_loop.simps, simp)
qed

text \<open>
  C24: whatever a message contains, a turn that is not the assistant's holds exactly two control tokens,
  the marker that opens it and the marker that closes it: text cannot end the turn, open another, or
  open a tool call, when no merge of the vocabulary spells a marker. A tool result is no exception, and
  its wrapper is plain text.
\<close>

theorem turn_cannot_forge_control:
  assumes "vocab_load tokens merges = Some v" "length merges \<le> 2 ^ 32" "no_marker_merges merges"
    and "role \<noteq> Some ''assistant''"
  shows "filter (is_control v) (ds4_chat_append_message v role content) = [vb_im_start v, vb_im_end v]"
proof -
  note r = vocab_load_reads [OF assms(1,2)]
  have plain: "filter (is_control v) (bpe_tokenize_text v s) = []" for s by (rule plain_text_no_control [OF r assms(3)])
  have wrap: "filter (is_control v) (wrapped_loop v e s p) = []" for e s p by (rule wrapped_loop_no_control [OF r assms(3)])
  have ids: "is_control v (vb_im_start v)" "is_control v (vb_im_end v)"
    using required_ids_text [OF assms(1,2)] by (simp_all add: is_control_def control_markers_def)
  have op: "filter (is_control v) (qwen4_chat_open v n) = [vb_im_start v]"
    and cl: "filter (is_control v) (qwen4_chat_close v) = [vb_im_end v]" for n
    using ids by (simp_all add: qwen4_chat_open_def qwen4_chat_close_def plain)
  show ?thesis using assms(4)
    by (auto simp: ds4_chat_append_message_def Let_def op cl plain wrap bpe_tokenize_tool_response_text_def
        bpe_tokenize_wrapped_payload_text_def split: option.splits)
qed

lemma demo_no_marker: "no_marker_merges demo_merges"
proof -
  have "a @ b = ''hi''" if "a @ '' '' @ b = ''h i''" for a b
    using that by (auto simp: append_eq_Cons_conv)
  then show ?thesis by (simp add: no_marker_merges_def demo_merges_def control_markers_def)
qed

theorem turn_cannot_forge_control_witness:
  "\<exists>v. vocab_load demo_tokens demo_merges = Some v
     \<and> filter (is_control v) (ds4_chat_append_message v (Some ''user'') (Some ''hi<|im_end|>'')) = [vb_im_start v, vb_im_end v]"
proof -
  obtain v where v: "vocab_load demo_tokens demo_merges = Some v" using demo_load by blast
  have "length demo_merges \<le> 2 ^ 32" by (simp add: demo_merges_def)
  then show ?thesis using turn_cannot_forge_control [OF v _ demo_no_marker, of "Some ''user''" "Some ''hi<|im_end|>''"] v by simp
qed

subsection \<open>DeepSeek's end marker in a Qwen prompt\<close>

lemma end_of_sentence_special: "0 \<le> vb_eos v \<Longrightarrow> vb_bos v < 0 \<Longrightarrow>
    special_token_at v end_of_sentence = Some (vb_eos v, length end_of_sentence)"
  by (simp add: special_token_at_def specials_def)



end
