(* ===== verification/LiveReuse.thy ===== *)
theory LiveReuse
  imports VisibleKey Tokenizer ImageCache ToolMemory
begin

text \<open>
  Reusing the live session of a slot (\<open>ds4_server.c\<close>, \<open>ds4.c\<close>): the probe that decides which tier of
  live state serves a request (\<open>slot_probe_reuse_locked\<close>), the prompt built on top of that state
  (\<open>build_live_prompt_suffix\<close>), and the part of \<open>generate_job_inner\<close> that materializes the tier or
  rejects the request. A session is seen through its checkpoint: whether it is valid, its tokens and the
  identities of its images; \<open>ds4_session_rewind\<close>, which works on GPU state, is an argument.
\<close>

subsection \<open>State\<close>

record vision_span =
  vs_token_start :: u32
  vs_embedding :: vision_embedding

record vision_identity =
  vi_token_start :: u32
  vi_token_count :: u32
  vi_fingerprint :: "u8 list"

record session =
  ss_valid :: bool
  ss_tokens :: "int list"
  ss_images :: "vision_identity list"

record live_binding =
  lb_valid :: bool
  lb_live_tokens :: int
  lb_visible_text :: "string option"
  lb_offsets :: "nat list"
  lb_call_ids :: "string list"

record visible_live_state =
  vl_valid :: bool
  vl_live_tokens :: int
  vl_visible_text :: "string option"
  vl_offsets :: "nat list"
  vl_token_text_disk_key :: bool

record live_slot =
  ls_session :: session
  ls_responses_live :: live_binding
  ls_anthropic_live :: live_binding
  ls_thinking_live :: visible_live_state
  ls_live_text :: "string option"
  ls_live_text_pos :: int

datatype req_kind = REQ_CHAT | REQ_COMPLETION

datatype api_style = API_OPENAI | API_ANTHROPIC | API_RESPONSES

record live_request =
  lr_kind :: req_kind
  lr_api :: api_style
  lr_prompt :: "int list"
  lr_images :: "vision_span list"
  lr_markers :: "string list option"
  lr_prompt_text :: "string option"
  lr_responses_requires :: bool
  lr_responses_ids :: "string list"
  lr_responses_suffix :: "string option"
  lr_anthropic_requires :: bool
  lr_anthropic_ids :: "string list"
  lr_anthropic_suffix :: "string option"

record engine =
  en_vocab :: ds4_vocab
  en_vision_ready :: bool
  en_vision_start :: int
  en_vision_image :: int
  en_vision_end :: int

subsection \<open>The session\<close>

fun common_prefix :: "int list \<Rightarrow> int list \<Rightarrow> nat" where
  "common_prefix (a # r) (b # s) = (if a = b then Suc (common_prefix r s) else 0)"
| "common_prefix _ _ = 0"

definition ds4_session_common_prefix :: "session \<Rightarrow> int list \<Rightarrow> nat" where
  "ds4_session_common_prefix s prompt = (if \<not> ss_valid s then 0 else common_prefix (ss_tokens s) prompt)"

definition same_image :: "vision_identity \<Rightarrow> vision_span \<Rightarrow> bool" where
  "same_image old current \<longleftrightarrow>
     vi_token_count old = ve_token_count (vs_embedding current) \<and> vi_fingerprint old = ve_fingerprint (vs_embedding current)"

definition ds4_session_vision_prefix_matches :: "session \<Rightarrow> vision_span list \<Rightarrow> bool" where
  "ds4_session_vision_prefix_matches s images \<longleftrightarrow>
     ss_valid s \<and> \<not> length images < length (ss_images s)
     \<and> (\<forall>i<length (ss_images s). vi_token_start (ss_images s ! i) = vs_token_start (images ! i)
          \<and> same_image (ss_images s ! i) (images ! i))
     \<and> (length (ss_images s) < length images \<longrightarrow>
          \<not> vs_token_start (images ! length (ss_images s)) < of_nat (length (ss_tokens s)))"

definition ds4_session_vision_fingerprint_prefix_matches :: "session \<Rightarrow> vision_span list \<Rightarrow> bool" where
  "ds4_session_vision_fingerprint_prefix_matches s images \<longleftrightarrow>
     ss_valid s \<and> \<not> length images < length (ss_images s)
     \<and> (\<forall>i<length (ss_images s). same_image (ss_images s ! i) (images ! i))"

definition ds4_session_vision_state_matches :: "session \<Rightarrow> vision_span list \<Rightarrow> bool" where
  "ds4_session_vision_state_matches s images \<longleftrightarrow>
     ss_valid s \<and> length (ss_images s) = length images \<and> ds4_session_vision_prefix_matches s images"

text \<open>The first \<open>n\<close> spans are moved to where the session has their images.\<close>

definition ds4_session_rebase_vision_state :: "session \<Rightarrow> vision_span list \<Rightarrow> nat \<Rightarrow> vision_span list option" where
  "ds4_session_rebase_vision_state s images n =
     (if \<not> ss_valid s \<or> n \<noteq> length (ss_images s) then None
      else if \<not> (\<forall>i<n. same_image (ss_images s ! i) (images ! i)) then None
      else Some (map (\<lambda>(sp, old). sp\<lparr>vs_token_start := vi_token_start old\<rparr>) (zip (take n images) (ss_images s)) @ drop n images))"

subsection \<open>The probe\<close>

definition live_prefix_rewind_target :: "bool \<Rightarrow> int \<Rightarrow> int \<Rightarrow> int \<Rightarrow> int" where
  "live_prefix_rewind_target backend_can_rewind old_pos prompt_len common =
     (if \<not> backend_can_rewind \<or> prompt_len \<le> 1 \<or> old_pos \<le> prompt_len then -1
      else if common \<noteq> prompt_len then -1
      else prompt_len - 1)"

datatype reuse_kind = REUSE_NONE | REUSE_RESPONSES_VISIBLE | REUSE_RESPONSES_TOOL_OUTPUT | REUSE_ANTHROPIC_TOOL_OUTPUT
  | REUSE_MEMORY_REWIND | REUSE_MEMORY_TOKEN | REUSE_THINKING_VISIBLE | REUSE_MEMORY_TEXT

record slot_reuse =
  sr_kind :: reuse_kind
  sr_reuse_tokens :: int
  sr_suffix_off :: nat
  sr_matched_ids :: nat

definition no_reuse :: slot_reuse where
  "no_reuse = \<lparr>sr_kind = REUSE_NONE, sr_reuse_tokens = 0, sr_suffix_off = 0, sr_matched_ids = 0\<rparr>"

definition live_matches_ids :: "live_binding \<Rightarrow> string list \<Rightarrow> int \<Rightarrow> bool" where
  "live_matches_ids lb ids live_tokens \<longleftrightarrow>
     lb_valid lb \<and> lb_live_tokens lb = live_tokens \<and> length (lb_call_ids lb) = length ids
     \<and> list_all (id_list_contains (lb_call_ids lb)) ids"

definition request_key :: "live_request \<Rightarrow> (string \<times> nat list) option" where
  "request_key req = visible_prompt_key (length (lr_images req)) (lr_markers req) (lr_prompt_text req)"

text \<open>The test of the two visible tiers: the remembered text at this frontier is a proper prefix of the request's.\<close>

definition visible_hit :: "live_request \<Rightarrow> bool \<Rightarrow> int \<Rightarrow> string option \<Rightarrow> nat list \<Rightarrow> int \<Rightarrow> bool" where
  "visible_hit req valid live_tokens visible_text offsets live_pos \<longleftrightarrow>
     (case request_key req of
        None \<Rightarrow> False
      | Some (key, offs) \<Rightarrow>
          (case visible_text of
             None \<Rightarrow> False
           | Some t \<Rightarrow> valid \<and> live_tokens = live_pos \<and> length t < length key
               \<and> visible_image_prefix_matches offs offsets (length t) \<and> starts_with key t))"

definition responses_visible_hit :: "live_request \<Rightarrow> live_binding \<Rightarrow> int \<Rightarrow> bool" where
  "responses_visible_hit req lb live_pos =
     visible_hit req (lb_valid lb) (lb_live_tokens lb) (lb_visible_text lb) (lb_offsets lb) live_pos"

definition thinking_visible_hit :: "live_request \<Rightarrow> visible_live_state \<Rightarrow> int \<Rightarrow> bool" where
  "thinking_visible_hit req vl live_pos =
     visible_hit req (vl_valid vl) (vl_live_tokens vl) (vl_visible_text vl) (vl_offsets vl) live_pos"

definition live_text_hit :: "live_request \<Rightarrow> live_slot \<Rightarrow> int \<Rightarrow> bool" where
  "live_text_hit req sl live_pos \<longleftrightarrow>
     (case (lr_prompt_text req, ls_live_text sl) of
        (Some pt, Some lt) \<Rightarrow> ls_live_text_pos sl = live_pos \<and> length lt \<le> length pt \<and> starts_with pt lt
      | _ \<Rightarrow> False)"

definition slot_probe_reuse :: "live_slot \<Rightarrow> live_request \<Rightarrow> slot_reuse" where
  "slot_probe_reuse sl req =
     (let s = ls_session sl; live = ss_tokens s; live_pos = int (length live) in
      if \<not> ss_valid s \<or> live = [] \<or> \<not> ds4_session_vision_fingerprint_prefix_matches s (lr_images req) then no_reuse
      else if lr_api req = API_RESPONSES \<and> responses_visible_hit req (ls_responses_live sl) live_pos then
        no_reuse\<lparr>sr_kind := REUSE_RESPONSES_VISIBLE, sr_reuse_tokens := live_pos,
          sr_suffix_off := length (opt_text (lb_visible_text (ls_responses_live sl)))\<rparr>
      else if lr_api req = API_RESPONSES \<and> lr_responses_suffix req \<noteq> None \<and> lr_responses_ids req \<noteq> []
          \<and> live_matches_ids (ls_responses_live sl) (lr_responses_ids req) live_pos then
        no_reuse\<lparr>sr_kind := REUSE_RESPONSES_TOOL_OUTPUT, sr_reuse_tokens := live_pos,
          sr_matched_ids := length (lr_responses_ids req)\<rparr>
      else if lr_api req = API_ANTHROPIC \<and> lr_anthropic_suffix req \<noteq> None \<and> lr_anthropic_ids req \<noteq> []
          \<and> live_matches_ids (ls_anthropic_live sl) (lr_anthropic_ids req) live_pos then
        no_reuse\<lparr>sr_kind := REUSE_ANTHROPIC_TOOL_OUTPUT, sr_reuse_tokens := live_pos,
          sr_matched_ids := length (lr_anthropic_ids req)\<rparr>
      else
        let common = int (ds4_session_common_prefix s (lr_prompt req));
            token_image_prefix = ds4_session_vision_prefix_matches s (lr_images req);
            rewind_to = live_prefix_rewind_target False live_pos (int (length (lr_prompt req))) common in
        if 0 \<le> rewind_to \<and> token_image_prefix then
          no_reuse\<lparr>sr_kind := REUSE_MEMORY_REWIND, sr_reuse_tokens := rewind_to\<rparr>
        else if common = live_pos \<and> live_pos \<le> int (length (lr_prompt req)) \<and> token_image_prefix then
          no_reuse\<lparr>sr_kind := REUSE_MEMORY_TOKEN, sr_reuse_tokens := common\<rparr>
        else if lr_kind req = REQ_CHAT \<and> lr_api req \<noteq> API_RESPONSES
            \<and> thinking_visible_hit req (ls_thinking_live sl) live_pos then
          no_reuse\<lparr>sr_kind := REUSE_THINKING_VISIBLE, sr_reuse_tokens := live_pos,
            sr_suffix_off := length (opt_text (vl_visible_text (ls_thinking_live sl)))\<rparr>
        else if live_text_hit req sl live_pos then
          no_reuse\<lparr>sr_kind := REUSE_MEMORY_TEXT, sr_reuse_tokens := live_pos,
            sr_suffix_off := length (opt_text (ls_live_text sl))\<rparr>
        else no_reuse)"


subsection \<open>The prompt on top of the live tokens\<close>

fun first_new_image :: "string \<Rightarrow> string list \<Rightarrow> nat" where
  "first_new_image sfx [] = 0"
| "first_new_image sfx (m # ms) = (if c_strstr sfx m \<noteq> None then 0 else Suc (first_new_image sfx ms))"

text \<open>The constant \<open>wrapper\<close> of the code: the tokens around an image that are copied with it.\<close>

definition splice_wrapper :: int where
  "splice_wrapper = 0"

text \<open>
  The loop over the new images: the text before the marker is tokenized, the tokens of the image are
  copied from the prompt of the request, and its span moves there.
\<close>

fun splice_images :: "engine \<Rightarrow> int list \<Rightarrow> (vision_span \<times> string) list \<Rightarrow> string \<Rightarrow> int list \<Rightarrow> (int list \<times> vision_span list) option" where
  "splice_images en req_prompt [] cursor prompt =
     Some (prompt @ tokenize_rendered_chat_vocab (en_vocab en) (Some cursor), [])"
| "splice_images en req_prompt ((sp, m) # r) cursor prompt =
     (let start = uint (vs_token_start sp) - splice_wrapper;
          stop = uint (vs_token_start sp) + uint (ve_token_count (vs_embedding sp)) + splice_wrapper in
      case c_strstr cursor m of
        None \<Rightarrow> None
      | Some marker \<Rightarrow>
          if start < 0 \<or> int (length req_prompt) < stop then None
          else
            let prompt = prompt @ tokenize_rendered_chat_vocab (en_vocab en) (Some (take (length cursor - length marker) cursor));
                sp' = sp\<lparr>vs_token_start := of_int (int (length prompt) + splice_wrapper)\<rparr>;
                prompt = prompt @ take (nat (stop - start)) (drop (nat start) req_prompt) in
            map_option (\<lambda>(p, spans). (p, sp' # spans))
              (splice_images en req_prompt r (drop (length m) marker) prompt))"

definition build_live_prompt_suffix :: "engine \<Rightarrow> session \<Rightarrow> live_request \<Rightarrow> string \<Rightarrow> (int list \<times> vision_span list) option" where
  "build_live_prompt_suffix en s req sfx =
     (let images = lr_images req; n = length images in
      if 16 < n \<or> (images \<noteq> [] \<and> lr_markers req = None) then None
      else
        let markers = (case lr_markers req of None \<Rightarrow> [] | Some ms \<Rightarrow> take n ms);
            old_count = first_new_image sfx markers in
        case ds4_session_rebase_vision_state s images old_count of
          None \<Rightarrow> None
        | Some spans \<Rightarrow>
            (case splice_images en (lr_prompt req) (zip (drop old_count images) (drop old_count markers)) sfx (ss_tokens s) of
               None \<Rightarrow> None
             | Some (prompt, new_spans) \<Rightarrow>
                 let spans = take old_count spans @ new_spans in
                 if ds4_session_vision_prefix_matches s spans then Some (prompt, spans) else None))"

subsection \<open>Materializing the tier\<close>

datatype cache_source = Src_none | Src_responses_visible | Src_responses_tool_output | Src_anthropic_tool_output
  | Src_memory_rewind | Src_memory_token | Src_thinking_visible | Src_memory_text

record live_plan =
  lp_cached :: int
  lp_source :: cache_source
  lp_prompt :: "int list"
  lp_images :: "vision_span list"
  lp_session :: session

definition live_continuation_unavailable :: "live_request \<Rightarrow> bool \<Rightarrow> bool" where
  "live_continuation_unavailable req materialized =
     (if materialized then False
      else case lr_api req of
        API_ANTHROPIC \<Rightarrow> lr_anthropic_requires req
      | API_RESPONSES \<Rightarrow> lr_responses_requires req
      | API_OPENAI \<Rightarrow> False)"

definition not_materialized :: "live_slot \<Rightarrow> live_request \<Rightarrow> live_plan" where
  "not_materialized sl req =
     \<lparr>lp_cached = 0, lp_source = Src_none, lp_prompt = lr_prompt req, lp_images = lr_images req, lp_session = ls_session sl\<rparr>"

text \<open>The tiers that tokenize a suffix.\<close>

definition materialize_suffix :: "engine \<Rightarrow> live_slot \<Rightarrow> live_request \<Rightarrow> int \<Rightarrow> cache_source \<Rightarrow> string \<Rightarrow> live_plan" where
  "materialize_suffix en sl req cached src sfx =
     (case build_live_prompt_suffix en (ls_session sl) req sfx of
        None \<Rightarrow> not_materialized sl req
      | Some (prompt, images) \<Rightarrow>
          \<lparr>lp_cached = cached, lp_source = src, lp_prompt = prompt, lp_images = images, lp_session = ls_session sl\<rparr>)"

definition materialize :: "engine \<Rightarrow> (session \<Rightarrow> int \<Rightarrow> session) \<Rightarrow> live_slot \<Rightarrow> live_request \<Rightarrow> slot_reuse \<Rightarrow> live_plan" where
  "materialize en rewind sl req pr =
     (let text_suffix = drop (sr_suffix_off pr) (opt_text (lr_prompt_text req)) in
      case sr_kind pr of
        REUSE_RESPONSES_VISIBLE \<Rightarrow> materialize_suffix en sl req (sr_reuse_tokens pr) Src_responses_visible text_suffix
      | REUSE_RESPONSES_TOOL_OUTPUT \<Rightarrow>
          materialize_suffix en sl req (sr_reuse_tokens pr) Src_responses_tool_output (opt_text (lr_responses_suffix req))
      | REUSE_ANTHROPIC_TOOL_OUTPUT \<Rightarrow>
          materialize_suffix en sl req (sr_reuse_tokens pr) Src_anthropic_tool_output (opt_text (lr_anthropic_suffix req))
      | REUSE_MEMORY_REWIND \<Rightarrow>
          let s = rewind (ls_session sl) (sr_reuse_tokens pr) in
          if int (ds4_session_common_prefix s (lr_prompt req)) = sr_reuse_tokens pr
             \<and> (lr_images req = [] \<or> ds4_session_vision_state_matches s (lr_images req))
          then (not_materialized sl req)\<lparr>lp_cached := sr_reuse_tokens pr, lp_source := Src_memory_rewind, lp_session := s\<rparr>
          else (not_materialized sl req)\<lparr>lp_session := s\<rparr>
      | REUSE_MEMORY_TOKEN \<Rightarrow>
          (not_materialized sl req)\<lparr>lp_cached := sr_reuse_tokens pr, lp_source := Src_memory_token\<rparr>
      | REUSE_THINKING_VISIBLE \<Rightarrow> materialize_suffix en sl req (sr_reuse_tokens pr) Src_thinking_visible text_suffix
      | REUSE_MEMORY_TEXT \<Rightarrow> materialize_suffix en sl req (sr_reuse_tokens pr) Src_memory_text text_suffix
      | REUSE_NONE \<Rightarrow> not_materialized sl req)"

text \<open>\<open>None\<close> is the 409 answer that asks for a full replay.\<close>

definition live_reuse_plan :: "engine \<Rightarrow> (session \<Rightarrow> int \<Rightarrow> session) \<Rightarrow> live_slot \<Rightarrow> live_request \<Rightarrow> live_plan option" where
  "live_reuse_plan en rewind sl req =
     (let pr = slot_probe_reuse sl req in
      if lr_api req = API_RESPONSES \<and> lr_responses_requires req
         \<and> sr_kind pr \<noteq> REUSE_RESPONSES_VISIBLE \<and> sr_kind pr \<noteq> REUSE_RESPONSES_TOOL_OUTPUT then None
      else if lr_api req = API_ANTHROPIC \<and> lr_anthropic_requires req \<and> sr_kind pr \<noteq> REUSE_ANTHROPIC_TOOL_OUTPUT then None
      else
        let plan = materialize en rewind sl req pr in
        if live_continuation_unavailable req (lp_source plan \<noteq> Src_none) then None else Some plan)"

subsection \<open>Remembering live state\<close>

definition slot_refresh_live_text :: "engine \<Rightarrow> live_slot \<Rightarrow> live_slot" where
  "slot_refresh_live_text en sl =
     (let s = ls_session sl in
      if \<not> ss_valid s \<or> ss_tokens s = [] then sl\<lparr>ls_live_text := None, ls_live_text_pos := 0\<rparr>
      else sl\<lparr>ls_live_text := Some (tokens_text (en_vocab en) (ss_tokens s)), ls_live_text_pos := int (length (ss_tokens s))\<rparr>)"

definition ds4_session_pos :: "session \<Rightarrow> int" where
  "ds4_session_pos s = int (length (ss_tokens s))"

definition no_binding :: live_binding where
  "no_binding = \<lparr>lb_valid = False, lb_live_tokens = 0, lb_visible_text = None, lb_offsets = [], lb_call_ids = []\<rparr>"

definition no_visible :: visible_live_state where
  "no_visible = \<lparr>vl_valid = False, vl_live_tokens = 0, vl_visible_text = None, vl_offsets = [], vl_token_text_disk_key = False\<rparr>"

definition visible_key_for :: "live_request \<Rightarrow> string \<Rightarrow> (string \<times> nat list) option" where
  "visible_key_for req visible_text = visible_prompt_key (length (lr_images req)) (lr_markers req) (Some visible_text)"

definition thinking_live_remember :: "string \<Rightarrow> live_request \<Rightarrow> live_slot \<Rightarrow> live_slot" where
  "thinking_live_remember visible_text req sl =
     (if visible_text = [] then sl
      else sl\<lparr>ls_thinking_live := no_visible\<lparr>
          vl_visible_text := map_option fst (visible_key_for req visible_text),
          vl_offsets := (case visible_key_for req visible_text of None \<Rightarrow> [] | Some (k, offs) \<Rightarrow> offs),
          vl_live_tokens := ds4_session_pos (ls_session sl),
          vl_valid := visible_key_for req visible_text \<noteq> None\<rparr>\<rparr>)"

definition responses_live_remember :: "string \<Rightarrow> string list \<Rightarrow> live_request \<Rightarrow> live_slot \<Rightarrow> live_slot" where
  "responses_live_remember visible_text call_ids req sl =
     (if visible_text = [] then sl
      else sl\<lparr>ls_responses_live := no_binding\<lparr>
          lb_visible_text := map_option fst (visible_key_for req visible_text),
          lb_offsets := (case visible_key_for req visible_text of None \<Rightarrow> [] | Some (k, offs) \<Rightarrow> offs),
          lb_call_ids := fold id_list_push_unique call_ids [],
          lb_live_tokens := ds4_session_pos (ls_session sl),
          lb_valid := visible_key_for req visible_text \<noteq> None\<rparr>\<rparr>)"

definition anthropic_live_remember :: "string list \<Rightarrow> live_slot \<Rightarrow> live_slot" where
  "anthropic_live_remember call_ids sl =
     (if call_ids = [] then sl
      else sl\<lparr>ls_anthropic_live := no_binding\<lparr>
          lb_call_ids := fold id_list_push_unique call_ids [],
          lb_live_tokens := ds4_session_pos (ls_session sl),
          lb_valid := fold id_list_push_unique call_ids [] \<noteq> []\<rparr>\<rparr>)"

definition request_live_state_clear :: "live_slot \<Rightarrow> live_slot" where
  "request_live_state_clear sl =
     sl\<lparr>ls_responses_live := no_binding, ls_anthropic_live := no_binding, ls_thinking_live := no_visible\<rparr>"

subsection \<open>What is reused is the session\<close>

lemma common_prefix_le: "common_prefix a b \<le> length a \<and> take (common_prefix a b) a = take (common_prefix a b) b"
  by (induction a b rule: common_prefix.induct) auto

lemma common_prefix_full: "common_prefix a b = length a \<Longrightarrow> starts_with b a"
  using common_prefix_le [of a b] by (simp add: starts_with_take)

lemma splice_extends: "splice_images en rp xs cursor prompt = Some (p, spans) \<Longrightarrow> starts_with p prompt \<and> length spans = length xs"
proof (induction xs arbitrary: cursor prompt p spans)
  case (Cons x xs)
  obtain sp m where x: "x = (sp, m)" by (cases x)
  define start stop where "start = uint (vs_token_start sp) - splice_wrapper"
    and "stop = uint (vs_token_start sp) + uint (ve_token_count (vs_embedding sp)) + splice_wrapper"
  obtain marker where mk: "c_strstr cursor m = Some marker" "\<not> (start < 0 \<or> int (length rp) < stop)"
    using Cons.prems x by (auto simp: Let_def start_def stop_def split: option.splits if_splits)
  define q where "q = prompt @ tokenize_rendered_chat_vocab (en_vocab en) (Some (take (length cursor - length marker) cursor))
     @ take (nat (stop - start)) (drop (nat start) rp)"
  obtain p' spans' where "splice_images en rp xs (drop (length m) marker) q = Some (p', spans')" "p = p'" "length spans = Suc (length spans')"
    using Cons.prems x mk by (auto simp: Let_def start_def [symmetric] stop_def [symmetric] q_def)
  then have "starts_with p q" "length spans = Suc (length xs)" using Cons.IH by auto
  moreover have "starts_with q prompt" by (simp add: q_def)
  ultimately show ?case using starts_with_trans by auto
qed auto

lemma build_suffix_sound:
  assumes "build_live_prompt_suffix en s req sfx = Some (p, spans)"
  shows "ss_valid s \<and> starts_with p (ss_tokens s) \<and> ds4_session_vision_prefix_matches s spans"
  using assms splice_extends
  by (auto simp: build_live_prompt_suffix_def ds4_session_vision_prefix_matches_def Let_def split: option.splits if_splits)

lemma no_rewind: "live_prefix_rewind_target False a b c = -1"
  by (simp add: live_prefix_rewind_target_def)

lemma probe_cases:
  assumes "sr_kind (slot_probe_reuse sl req) \<noteq> REUSE_NONE"
  shows "ss_valid (ls_session sl)" "ss_tokens (ls_session sl) \<noteq> []"
    "ds4_session_vision_fingerprint_prefix_matches (ls_session sl) (lr_images req)"
    "sr_kind (slot_probe_reuse sl req) \<noteq> REUSE_MEMORY_REWIND"
    "sr_reuse_tokens (slot_probe_reuse sl req) = int (length (ss_tokens (ls_session sl)))"
  using assms by (auto simp: slot_probe_reuse_def Let_def no_reuse_def no_rewind split: if_splits)

lemma probe_token:
  assumes "sr_kind (slot_probe_reuse sl req) = REUSE_MEMORY_TOKEN"
  shows "starts_with (lr_prompt req) (ss_tokens (ls_session sl)) \<and> ds4_session_vision_prefix_matches (ls_session sl) (lr_images req)"
proof -
  have "ds4_session_common_prefix (ls_session sl) (lr_prompt req) = length (ss_tokens (ls_session sl))"
    "ds4_session_vision_prefix_matches (ls_session sl) (lr_images req)" "ss_valid (ls_session sl)"
    using assms by (auto simp: slot_probe_reuse_def Let_def no_reuse_def no_rewind split: if_splits)
  then show ?thesis using common_prefix_full by (simp add: ds4_session_common_prefix_def)
qed

lemma materialize_suffix_cached:
  "0 < lp_cached (materialize_suffix en sl req c src sfx) \<Longrightarrow>
     ds4_session_vision_prefix_matches (ls_session sl) (lp_images (materialize_suffix en sl req c src sfx))
     \<and> starts_with (lp_prompt (materialize_suffix en sl req c src sfx)) (ss_tokens (ls_session sl))
     \<and> lp_cached (materialize_suffix en sl req c src sfx) = c \<and> lp_session (materialize_suffix en sl req c src sfx) = ls_session sl
     \<and> ss_valid (ls_session sl)"
  using build_suffix_sound
  by (auto simp: materialize_suffix_def not_materialized_def split: option.splits)

text \<open>
  C28: whenever part of a request's prompt is taken from a slot, it is the whole live session and nothing
  else: the session is valid and unchanged, the prompt that is evaluated begins with exactly its tokens,
  as many as are counted as cached, and the images of the prompt agree with those the session was
  computed from, in place, size and fingerprint.
\<close>

theorem live_reuse_sound:
  assumes "live_reuse_plan en rewind sl req = Some plan" "0 < lp_cached plan"
  shows "lp_session plan = ls_session sl \<and> ss_valid (lp_session plan)
    \<and> lp_cached plan = int (length (ss_tokens (lp_session plan))) \<and> starts_with (lp_prompt plan) (ss_tokens (lp_session plan))
    \<and> ds4_session_vision_prefix_matches (lp_session plan) (lp_images plan)"
proof -
  let ?pr = "slot_probe_reuse sl req"
  have plan: "plan = materialize en rewind sl req ?pr"
    using assms(1) by (auto simp: live_reuse_plan_def Let_def split: if_splits)
  show ?thesis
  proof (cases "sr_kind ?pr = REUSE_NONE")
    case True
    then show ?thesis using assms(2) plan by (simp add: materialize_def not_materialized_def)
  next
    case False
    note pc = probe_cases [OF False]
    show ?thesis
    proof (cases "sr_kind ?pr = REUSE_MEMORY_TOKEN")
      case True
      then show ?thesis using plan pc probe_token [OF True] by (simp add: materialize_def not_materialized_def)
    next
      case nt: False
      obtain c src sfx where m: "plan = materialize_suffix en sl req c src sfx" "c = sr_reuse_tokens ?pr"
        using plan False nt pc(4) by (cases "sr_kind ?pr") (auto simp: materialize_def)
      show ?thesis using materialize_suffix_cached [of en sl req c src sfx] assms(2) m pc(5) by simp
    qed
  qed
qed

subsection \<open>A continuation by text reads as the request\<close>

lemma build_suffix_no_images:
  "lr_images req = [] \<Longrightarrow> build_live_prompt_suffix en s req sfx = Some (p, spans) \<Longrightarrow>
     p = ss_tokens s @ tokenize_rendered_chat_vocab (en_vocab en) (Some sfx)"
  by (auto simp: build_live_prompt_suffix_def Let_def split: option.splits if_splits)

lemma probe_memory_text:
  assumes "sr_kind (slot_probe_reuse sl req) = REUSE_MEMORY_TEXT"
  shows "live_text_hit req sl (int (length (ss_tokens (ls_session sl))))
    \<and> sr_suffix_off (slot_probe_reuse sl req) = length (opt_text (ls_live_text sl))"
  using assms by (auto simp: slot_probe_reuse_def Let_def no_reuse_def split: if_splits)

lemma plan_source:
  assumes "live_reuse_plan en rewind sl req = Some plan"
  shows "plan = materialize en rewind sl req (slot_probe_reuse sl req)"
  using assms by (auto simp: live_reuse_plan_def Let_def split: if_splits)

lemma materialize_suffix_source:
  "lp_source (materialize_suffix en sl req c src sfx) \<in> {src, Src_none}"
  by (auto simp: materialize_suffix_def not_materialized_def split: option.splits)

lemma source_kind:
  assumes "plan = materialize en rewind sl req pr"
  shows "lp_source plan = Src_memory_text \<Longrightarrow> sr_kind pr = REUSE_MEMORY_TEXT"
    and "lp_source plan = Src_responses_tool_output \<Longrightarrow> sr_kind pr = REUSE_RESPONSES_TOOL_OUTPUT"
    and "lp_source plan = Src_anthropic_tool_output \<Longrightarrow> sr_kind pr = REUSE_ANTHROPIC_TOOL_OUTPUT"
    and "lp_source plan = Src_responses_visible \<Longrightarrow> sr_kind pr = REUSE_RESPONSES_VISIBLE"
  using assms by (cases "sr_kind pr"; auto simp: materialize_def materialize_suffix_def not_materialized_def Let_def split: option.splits if_splits)+

text \<open>
  C30: a text request that continues from the live text of a slot is evaluated on a prompt that reads
  exactly as the request: the cached tokens, whatever they are, and the tokens of the rest.
\<close>

theorem memory_text_exact:
  assumes "vocab_load tokens merges = Some (en_vocab en)" "vocab_complete tokens merges" "length merges \<le> 2 ^ 32"
    and "live_reuse_plan en rewind (slot_refresh_live_text en sl) req = Some plan" "lp_source plan = Src_memory_text"
    and "lr_images req = []" "lr_prompt_text req = Some pt" "c_strstr pt end_of_sentence = None"
  shows "tokens_text (en_vocab en) (lp_prompt plan) = pt"
proof -
  let ?sl = "slot_refresh_live_text en sl" and ?v = "en_vocab en"
  let ?s = "ls_session ?sl" and ?pr = "slot_probe_reuse ?sl req"
  have plan: "plan = materialize en rewind ?sl req ?pr" by (rule plan_source [OF assms(4)])
  have kind: "sr_kind ?pr = REUSE_MEMORY_TEXT" by (rule source_kind(1) [OF plan assms(5)])
  then have "sr_kind ?pr \<noteq> REUSE_NONE" by simp
  note valid = probe_cases(1,2) [OF this]
  then have lt: "ls_live_text ?sl = Some (tokens_text ?v (ss_tokens ?s))"
    by (auto simp: slot_refresh_live_text_def Let_def split: if_splits)
  define t where "t = tokens_text ?v (ss_tokens ?s)"
  have off: "sr_suffix_off ?pr = length t" and pre: "starts_with pt t"
    using probe_memory_text [OF kind] lt assms(7) by (auto simp: opt_text_def t_def live_text_hit_def)
  have m: "plan = materialize_suffix en ?sl req (sr_reuse_tokens ?pr) Src_memory_text (drop (length t) pt)"
    using plan kind off assms(7) by (simp add: materialize_def opt_text_def)
  then obtain spans where "build_live_prompt_suffix en ?s req (drop (length t) pt) = Some (lp_prompt plan, spans)"
    using assms(5) by (auto simp: materialize_suffix_def not_materialized_def split: option.splits)
  then have "lp_prompt plan = ss_tokens ?s @ tokenize_rendered_chat_vocab ?v (Some (drop (length t) pt))"
    by (rule build_suffix_no_images [OF assms(6)])
  moreover have "tokens_text ?v (tokenize_rendered_chat_vocab ?v (Some (drop (length t) pt))) = drop (length t) pt"
  proof -
    have "\<forall>i. \<not> starts_with (drop i (drop (length t) pt)) end_of_sentence"
      using c_strstr_None [OF assms(8)] by (simp add: drop_drop)
    then show ?thesis
      using rendered_loop_text [OF vocab_load_reads [OF assms(1,3)] assms(2) vocab_load_marker_reads [OF assms(1,3)]]
      by (simp add: tokenize_rendered_chat_vocab_def opt_text_def)
  qed
  ultimately show ?thesis using starts_with_drop [OF pre] by (simp add: t_def)
qed

subsection \<open>Tool outputs alone need the live state they answer\<close>

text \<open>
  C31: a request that carries only tool outputs is served from live state or not at all: if it is not
  rejected, its prompt extends the live session of the slot, and a match by call ids means that the
  request answers exactly the calls the session ended with.
\<close>

theorem tool_outputs_need_live_state:
  assumes "live_reuse_plan en rewind sl req = Some plan"
    and "lr_api req = API_RESPONSES \<and> lr_responses_requires req \<or> lr_api req = API_ANTHROPIC \<and> lr_anthropic_requires req"
    and "distinct (lr_responses_ids req)" "distinct (lr_anthropic_ids req)"
  shows "lp_cached plan = int (length (ss_tokens (ls_session sl))) \<and> starts_with (lp_prompt plan) (ss_tokens (ls_session sl))
    \<and> (lp_source plan = Src_responses_visible
       \<or> lp_source plan = Src_responses_tool_output \<and> set (lr_responses_ids req) = set (lb_call_ids (ls_responses_live sl))
       \<or> lp_source plan = Src_anthropic_tool_output \<and> set (lr_anthropic_ids req) = set (lb_call_ids (ls_anthropic_live sl)))"
proof -
  let ?pr = "slot_probe_reuse sl req"
  have same: "set ids = set (lb_call_ids lb)" if "live_matches_ids lb ids n" "distinct ids" for lb ids n
  proof -
    have sub: "set ids \<subseteq> set (lb_call_ids lb)" using that(1) by (auto simp: live_matches_ids_def id_list_contains_def list_all_iff)
    have "card (set (lb_call_ids lb)) \<le> card (set ids)"
      using that card_length [of "lb_call_ids lb"] by (simp add: live_matches_ids_def distinct_card)
    with sub show ?thesis by (simp add: card_seteq)
  qed
  have plan: "plan = materialize en rewind sl req ?pr" by (rule plan_source [OF assms(1)])
  have src: "lp_source plan \<noteq> Src_none"
    using assms(1,2) plan by (auto simp: live_reuse_plan_def live_continuation_unavailable_def Let_def split: if_splits)
  have kind: "sr_kind ?pr \<in> {REUSE_RESPONSES_VISIBLE, REUSE_RESPONSES_TOOL_OUTPUT, REUSE_ANTHROPIC_TOOL_OUTPUT}"
    using assms(1,2) by (auto simp: live_reuse_plan_def Let_def split: if_splits)
  then have ne: "sr_kind ?pr \<noteq> REUSE_NONE" by auto
  note pc = probe_cases [OF ne]
  obtain c src' sfx where m: "plan = materialize_suffix en sl req c src' sfx" "c = sr_reuse_tokens ?pr"
    using plan kind by (auto simp: materialize_def)
  have "lp_cached plan = c" using src m(1) by (auto simp: materialize_suffix_def not_materialized_def split: option.splits)
  then have pos: "0 < lp_cached plan" using m(2) pc(2,5) by simp
  have tiers: "lp_source plan = Src_responses_visible \<or> lp_source plan = Src_responses_tool_output \<and> sr_kind ?pr = REUSE_RESPONSES_TOOL_OUTPUT
      \<or> lp_source plan = Src_anthropic_tool_output \<and> sr_kind ?pr = REUSE_ANTHROPIC_TOOL_OUTPUT"
    using kind src plan materialize_suffix_source by (fastforce simp: materialize_def)
  have r: "live_matches_ids (ls_responses_live sl) (lr_responses_ids req) (int (length (ss_tokens (ls_session sl))))"
    if "sr_kind ?pr = REUSE_RESPONSES_TOOL_OUTPUT"
    using that by (auto simp: slot_probe_reuse_def Let_def no_reuse_def split: if_splits)
  have a: "live_matches_ids (ls_anthropic_live sl) (lr_anthropic_ids req) (int (length (ss_tokens (ls_session sl))))"
    if "sr_kind ?pr = REUSE_ANTHROPIC_TOOL_OUTPUT"
    using that by (auto simp: slot_probe_reuse_def Let_def no_reuse_def split: if_splits)
  have "lp_cached plan = int (length (ss_tokens (ls_session sl))) \<and> starts_with (lp_prompt plan) (ss_tokens (ls_session sl))"
    using materialize_suffix_cached [of en sl req c src' sfx] pos m pc(5) by simp
  then show ?thesis using tiers same [OF r assms(3)] same [OF a assms(4)] by blast
qed

subsection \<open>Images in a prompt\<close>

definition ds4_prompt_append_vision :: "engine \<Rightarrow> int list \<Rightarrow> vision_embedding \<Rightarrow> (int list \<times> vision_span) option" where
  "ds4_prompt_append_vision en tokens emb =
     (let n = unat (ve_token_count emb) in
      if ve_data emb = None \<or> n = 0 \<or> \<not> en_vision_ready en then None
      else if 2147483647 < length tokens + n + 2 then None
      else Some (tokens @ [en_vision_start en] @ replicate n (en_vision_image en) @ [en_vision_end en],
        \<lparr>vs_token_start = of_nat (Suc (length tokens)), vs_embedding = emb\<rparr>))"

lemma append_visionD:
  assumes "ds4_prompt_append_vision en tokens emb = Some (p, sp)"
  shows "p = tokens @ [en_vision_start en] @ replicate (unat (ve_token_count emb)) (en_vision_image en) @ [en_vision_end en]"
    "unat (vs_token_start sp) = Suc (length tokens)" "vs_embedding sp = emb"
proof -
  from assms have l: "length tokens < 2147483646"
    and sp: "sp = \<lparr>vs_token_start = of_nat (Suc (length tokens)), vs_embedding = emb\<rparr>"
    by (auto simp: ds4_prompt_append_vision_def Let_def split: if_splits)
  then show "vs_embedding sp = emb" by simp
  have "unat (of_nat (Suc (length tokens)) :: u32) = Suc (length tokens)"
    using l unat_of_nat [of "Suc (length tokens)", where ?'a = 32] by (simp del: of_nat_Suc)
  then show "unat (vs_token_start sp) = Suc (length tokens)" using sp by (simp del: of_nat_Suc)
  show "p = tokens @ [en_vision_start en] @ replicate (unat (ve_token_count emb)) (en_vision_image en) @ [en_vision_end en]"
    using assms by (auto simp: ds4_prompt_append_vision_def Let_def split: if_splits)
qed

lemma splice_step:
  assumes "unat (vs_token_start sp) + unat (ve_token_count (vs_embedding sp)) \<le> length rp" "c_strstr cursor m = Some mk"
  shows "splice_images en rp ((sp, m) # r) cursor prompt =
    (let q = prompt @ tokenize_rendered_chat_vocab (en_vocab en) (Some (take (length cursor - length mk) cursor)) in
     map_option (\<lambda>(p, spans). (p, sp\<lparr>vs_token_start := of_nat (length q)\<rparr> # spans))
       (splice_images en rp r (drop (length m) mk)
          (q @ take (unat (ve_token_count (vs_embedding sp))) (drop (unat (vs_token_start sp)) rp))))"
proof -
  have u: "uint (vs_token_start sp) = int (unat (vs_token_start sp))"
    "uint (ve_token_count (vs_embedding sp)) = int (unat (ve_token_count (vs_embedding sp)))" by simp_all
  have b: "\<not> (int (unat (vs_token_start sp)) < 0 \<or> int (length rp) < int (unat (vs_token_start sp)) + int (unat (ve_token_count (vs_embedding sp))))"
    using assms(1) by linarith
  have c: "nat (int (unat (vs_token_start sp)) + int (unat (ve_token_count (vs_embedding sp))) - int (unat (vs_token_start sp)))
     = unat (ve_token_count (vs_embedding sp))" by simp
  show ?thesis
    unfolding splice_images.simps(2) Let_def splice_wrapper_def diff_0_right add_0_right u assms(2) option.case if_not_P [OF b] c
      nat_int of_int_of_nat_eq append_assoc ..
qed

text \<open>
  C32: an image that a request adds on top of a live session is spliced in without the start and end
  tokens that the same request's own prompt has around it: only the image tokens are copied, because the
  width of the wrapper is 0 while \<open>ds4_prompt_append_vision\<close> puts one token on each side.
\<close>

theorem spliced_image_loses_wrapper:
  assumes "ds4_prompt_append_vision en pre emb = Some (p, sp)"
    and "cursor = before @ m @ after" "c_strstr cursor m = Some (m @ after)"
  shows "map_option fst (splice_images en (p @ post) [(sp, m)] cursor prompt)
      = Some (prompt @ tokenize_rendered_chat_vocab (en_vocab en) (Some before)
          @ replicate (unat (ve_token_count emb)) (en_vision_image en)
          @ tokenize_rendered_chat_vocab (en_vocab en) (Some after))
    \<and> p = pre @ [en_vision_start en] @ replicate (unat (ve_token_count emb)) (en_vision_image en) @ [en_vision_end en]"
proof -
  note a = append_visionD [OF assms(1)]
  have bound: "unat (vs_token_start sp) + unat (ve_token_count (vs_embedding sp)) \<le> length (p @ post)"
    unfolding a(2,3) by (simp add: a(1))
  have cut: "take (unat (ve_token_count (vs_embedding sp))) (drop (unat (vs_token_start sp)) (p @ post))
      = replicate (unat (ve_token_count emb)) (en_vision_image en)"
    unfolding a(2,3) by (simp add: a(1))
  have before: "take (length cursor - length (m @ after)) cursor = before" by (simp add: assms(2))
  have "splice_images en (p @ post) [(sp, m)] cursor prompt =
      Some ((prompt @ tokenize_rendered_chat_vocab (en_vocab en) (Some before)) @ replicate (unat (ve_token_count emb)) (en_vision_image en)
        @ tokenize_rendered_chat_vocab (en_vocab en) (Some after),
       [sp\<lparr>vs_token_start := of_nat (length (prompt @ tokenize_rendered_chat_vocab (en_vocab en) (Some before)))\<rparr>])"
    unfolding splice_step [OF bound assms(3)] cut before by simp
  then show ?thesis using a(1) by simp
qed

subsection \<open>A slot, a request\<close>

definition demo_engine :: "ds4_vocab \<Rightarrow> engine" where
  "demo_engine v = \<lparr>en_vocab = v, en_vision_ready = True, en_vision_start = 7, en_vision_image = 8, en_vision_end = 9\<rparr>"

definition demo_slot :: "int list \<Rightarrow> live_slot" where
  "demo_slot tokens =
     \<lparr>ls_session = \<lparr>ss_valid = True, ss_tokens = tokens, ss_images = []\<rparr>, ls_responses_live = no_binding,
      ls_anthropic_live = no_binding, ls_thinking_live = no_visible, ls_live_text = None, ls_live_text_pos = 0\<rparr>"

definition demo_request :: "int list \<Rightarrow> string \<Rightarrow> live_request" where
  "demo_request prompt t =
     \<lparr>lr_kind = REQ_COMPLETION, lr_api = API_OPENAI, lr_prompt = prompt, lr_images = [], lr_markers = None,
      lr_prompt_text = Some t, lr_responses_requires = False, lr_responses_ids = [], lr_responses_suffix = None,
      lr_anthropic_requires = False, lr_anthropic_ids = [], lr_anthropic_suffix = None\<rparr>"

lemmas demo_live = demo_engine_def demo_slot_def demo_request_def no_binding_def no_visible_def no_reuse_def

theorem live_reuse_sound_witness:
  "\<forall>v. \<exists>plan. live_reuse_plan (demo_engine v) (\<lambda>s _. s) (demo_slot [1, 2]) (demo_request [1, 2, 3] []) = Some plan
     \<and> 0 < lp_cached plan \<and> starts_with (lp_prompt plan) [1, 2]"
proof
  fix v
  let ?sl = "demo_slot [1, 2]" and ?req = "demo_request [1, 2, 3] []"
  define plan where "plan = (not_materialized ?sl ?req)\<lparr>lp_cached := 2, lp_source := Src_memory_token\<rparr>"
  have pr: "slot_probe_reuse ?sl ?req = no_reuse\<lparr>sr_kind := REUSE_MEMORY_TOKEN, sr_reuse_tokens := 2\<rparr>"
    by (simp add: slot_probe_reuse_def demo_live ds4_session_vision_fingerprint_prefix_matches_def
        ds4_session_vision_prefix_matches_def ds4_session_common_prefix_def no_rewind Let_def)
  have p: "live_reuse_plan (demo_engine v) (\<lambda>s _. s) ?sl ?req = Some plan"
    by (simp add: live_reuse_plan_def pr Let_def) (simp add: materialize_def plan_def live_continuation_unavailable_def demo_live not_materialized_def)
  moreover have "0 < lp_cached plan" by (simp add: plan_def)
  moreover from live_reuse_sound [OF p this] have "starts_with (lp_prompt plan) [1, 2]"
    by (simp add: plan_def not_materialized_def demo_slot_def)
  ultimately show "\<exists>plan. live_reuse_plan (demo_engine v) (\<lambda>s _. s) ?sl ?req = Some plan
      \<and> 0 < lp_cached plan \<and> starts_with (lp_prompt plan) [1, 2]" by blast
qed

lemma demo_text_probe:
  assumes "ts \<noteq> []" "tokens_text v ts = ''hi''" "hd ts \<noteq> -1"
  shows "slot_probe_reuse (slot_refresh_live_text (demo_engine v) (demo_slot ts)) (demo_request [-1] ''hi hi'')
    = no_reuse\<lparr>sr_kind := REUSE_MEMORY_TEXT, sr_reuse_tokens := int (length ts), sr_suffix_off := 2\<rparr>"
proof -
  have c: "common_prefix ts [-1] = 0" using assms(1,3) by (cases ts) auto
  show ?thesis using assms(1,2) c
    by (simp add: slot_probe_reuse_def slot_refresh_live_text_def demo_live ds4_session_vision_fingerprint_prefix_matches_def
        ds4_session_common_prefix_def no_rewind live_text_hit_def opt_text_def Let_def)
qed

theorem memory_text_exact_witness:
  "\<exists>v ts plan. vocab_load demo_tokens demo_merges = Some v
     \<and> live_reuse_plan (demo_engine v) (\<lambda>s _. s) (slot_refresh_live_text (demo_engine v) (demo_slot ts)) (demo_request [-1] ''hi hi'') = Some plan
     \<and> tokens_text v (lp_prompt plan) = ''hi hi''"
proof -
  obtain v where v: "vocab_load demo_tokens demo_merges = Some v" using demo_load by blast
  have m: "length demo_merges \<le> 2 ^ 32" by (simp add: demo_merges_def)
  note r = vocab_load_reads [OF v m]
  obtain t where t: "bpe_emit_symbol v (byte_encode ''hi'') = [t]" "ds4_token_text v t = ''hi''" "0 \<le> t"
  proof -
    have "byte_encode ''hi'' = ''hi''" by (rule byte_encode_plain) (simp add: plain_char_def)
    moreover have "''hi'' \<in> set demo_tokens" by (simp add: demo_tokens_def)
    ultimately show thesis using token_text_encoded [OF r, of "''hi''"] that by auto
  qed
  let ?en = "demo_engine v" and ?req = "demo_request [-1] ''hi hi''"
  let ?sl = "slot_refresh_live_text ?en (demo_slot [t])"
  have pr: "slot_probe_reuse ?sl ?req = no_reuse\<lparr>sr_kind := REUSE_MEMORY_TEXT, sr_reuse_tokens := 1, sr_suffix_off := 2\<rparr>"
    using demo_text_probe [of "[t]" v] t(2,3) by (simp add: tokens_text_def)
  define plan where "plan = materialize ?en (\<lambda>s _. s) ?sl ?req (slot_probe_reuse ?sl ?req)"
  have src: "lp_source plan = Src_memory_text"
    by (simp add: plan_def pr materialize_def materialize_suffix_def build_live_prompt_suffix_def Let_def)
      (simp add: demo_live slot_refresh_live_text_def Let_def ds4_session_rebase_vision_state_def ds4_session_vision_prefix_matches_def)
  have p: "live_reuse_plan ?en (\<lambda>s _. s) ?sl ?req = Some plan"
    using src by (simp add: live_reuse_plan_def Let_def plan_def [symmetric])
      (simp add: demo_request_def live_continuation_unavailable_def)
  have "c_strstr ''hi hi'' end_of_sentence = None" by (simp add: end_of_sentence_def fullwidth_bar_def)
  then have "tokens_text v (lp_prompt plan) = ''hi hi''"
    using memory_text_exact [of demo_tokens demo_merges ?en "\<lambda>s _. s" "demo_slot [t]" ?req plan "''hi hi''"]
      v m demo_complete p src by (simp add: demo_engine_def demo_request_def)
  with v p show ?thesis by blast
qed

theorem tool_outputs_need_live_state_witness:
  "\<forall>v. \<exists>plan. live_reuse_plan (demo_engine v) (\<lambda>s _. s)
       ((demo_slot [1, 2])\<lparr>ls_responses_live := no_binding\<lparr>lb_valid := True, lb_live_tokens := 2, lb_call_ids := [''a'']\<rparr>\<rparr>)
       ((demo_request [] [])\<lparr>lr_api := API_RESPONSES, lr_responses_requires := True, lr_responses_ids := [''a''],
          lr_responses_suffix := Some ''ok''\<rparr>) = Some plan \<and> lp_cached plan = 2"
proof
  fix v
  let ?sl = "(demo_slot [1, 2])\<lparr>ls_responses_live := no_binding\<lparr>lb_valid := True, lb_live_tokens := 2, lb_call_ids := [''a'']\<rparr>\<rparr>"
  let ?req = "(demo_request [] [])\<lparr>lr_api := API_RESPONSES, lr_responses_requires := True, lr_responses_ids := [''a''],
     lr_responses_suffix := Some ''ok''\<rparr>"
  have pr: "slot_probe_reuse ?sl ?req = no_reuse\<lparr>sr_kind := REUSE_RESPONSES_TOOL_OUTPUT, sr_reuse_tokens := 2, sr_matched_ids := 1\<rparr>"
    by (simp add: slot_probe_reuse_def demo_live ds4_session_vision_fingerprint_prefix_matches_def Let_def
        responses_visible_hit_def visible_hit_def live_matches_ids_def id_list_contains_def split: option.splits)
  define plan where "plan = materialize (demo_engine v) (\<lambda>s _. s) ?sl ?req (slot_probe_reuse ?sl ?req)"
  have src: "lp_source plan = Src_responses_tool_output"
    by (simp add: plan_def pr materialize_def materialize_suffix_def build_live_prompt_suffix_def Let_def)
      (simp add: demo_live ds4_session_rebase_vision_state_def ds4_session_vision_prefix_matches_def)
  have p: "live_reuse_plan (demo_engine v) (\<lambda>s _. s) ?sl ?req = Some plan"
    using src unfolding live_reuse_plan_def Let_def unfolding plan_def [symmetric] unfolding pr
    by (simp add: live_continuation_unavailable_def no_reuse_def demo_request_def)
  have "lp_cached plan = 2"
    using tool_outputs_need_live_state [OF p] by (simp add: demo_request_def demo_slot_def)
  with p show "\<exists>plan. live_reuse_plan (demo_engine v) (\<lambda>s _. s) ?sl ?req = Some plan \<and> lp_cached plan = 2" by blast
qed

theorem spliced_image_loses_wrapper_witness:
  "\<forall>v. \<exists>p sp. ds4_prompt_append_vision (demo_engine v) [] (zero_embedding\<lparr>ve_data := Some [], ve_token_count := 1\<rparr>) = Some (p, sp)
     \<and> p = [7, 8, 9]
     \<and> map_option fst (splice_images (demo_engine v) (p @ []) [(sp, ''#'')] ''#'' [])
       = Some (tokenize_rendered_chat_vocab v (Some []) @ [8] @ tokenize_rendered_chat_vocab v (Some []))"
proof
  fix v
  let ?emb = "zero_embedding\<lparr>ve_data := Some [], ve_token_count := 1\<rparr>"
  have "ds4_prompt_append_vision (demo_engine v) [] ?emb = Some ([7, 8, 9], \<lparr>vs_token_start = 1, vs_embedding = ?emb\<rparr>)"
    by (simp add: ds4_prompt_append_vision_def demo_engine_def Let_def)
  from spliced_image_loses_wrapper [OF this, of "''#''" "[]" "''#''" "[]" "[]" "[]"] this
  show "\<exists>p sp. ds4_prompt_append_vision (demo_engine v) [] ?emb = Some (p, sp) \<and> p = [7, 8, 9]
     \<and> map_option fst (splice_images (demo_engine v) (p @ []) [(sp, ''#'')] ''#'' [])
       = Some (tokenize_rendered_chat_vocab v (Some []) @ [8] @ tokenize_rendered_chat_vocab v (Some []))"
    by (simp add: demo_engine_def del: splice_images.simps)
qed

end
