(* ===== verification/Multimodal.thy ===== *)
theory Multimodal
  imports LiveReuse
begin

text \<open>
  Prompts with images: \<open>request_tokenize_multimodal_prompt\<close> (\<open>ds4_server.c\<close>), which encodes the images
  of a request and puts their tokens where the markers stand in the rendered text, and the engine's
  \<open>ds4_chat_append_multimodal_message\<close> (\<open>ds4.c\<close>), which undoes everything when an image does not fit.
\<close>

subsection \<open>Encoding the images\<close>

datatype multimodal_error = Too_many_images | No_vision | Encode_failed | Marker_lost | Append_failed

text \<open>
  The loop under the inference lock: it stops at the first image that cannot be encoded. The outer
  \<open>None\<close> is a cache that never finds room (\<open>ImageCache\<close>).
\<close>

fun encode_images ::
  "(u8 list \<Rightarrow> vision_embedding option) \<Rightarrow> u32 \<Rightarrow> bool \<Rightarrow> image_input list \<Rightarrow> image_cache \<Rightarrow> (vision_embedding list option \<times> image_cache) option" where
  "encode_images encode dim alloc_ok [] c = Some (Some [], c)"
| "encode_images encode dim alloc_ok (i # r) c =
     (case server_encode_image encode dim alloc_ok (img_encoded i) c of
        None \<Rightarrow> None
      | Some (None, c) \<Rightarrow> Some (None, c)
      | Some (Some emb, c) \<Rightarrow>
          map_option (\<lambda>(embs, c). (map_option (\<lambda>embs. emb # embs) embs, c)) (encode_images encode dim alloc_ok r c))"

subsection \<open>Tokens around the images\<close>

fun tokenize_images :: "engine \<Rightarrow> (string \<times> vision_embedding) list \<Rightarrow> string \<Rightarrow> int list \<Rightarrow> multimodal_error + (int list \<times> vision_span list)" where
  "tokenize_images en [] cursor prompt =
     Inr (prompt @ tokenize_rendered_chat_vocab (en_vocab en) (Some cursor), [])"
| "tokenize_images en ((m, emb) # r) cursor prompt =
     (case c_strstr cursor m of
        None \<Rightarrow> Inl Marker_lost
      | Some marker \<Rightarrow>
          (case ds4_prompt_append_vision en
              (prompt @ tokenize_rendered_chat_vocab (en_vocab en) (Some (take (length cursor - length marker) cursor))) emb of
             None \<Rightarrow> Inl Append_failed
           | Some (p, sp) \<Rightarrow>
               (case tokenize_images en r (drop (length m) marker) p of
                  Inl e \<Rightarrow> Inl e
                | Inr (q, spans) \<Rightarrow> Inr (q, sp # spans))))"

text \<open>The tokens, the spans and the markers the request keeps, and the image cache; on an error the request keeps none.\<close>

definition request_tokenize_multimodal_prompt ::
  "engine \<Rightarrow> (u8 list \<Rightarrow> vision_embedding option) \<Rightarrow> u32 \<Rightarrow> bool \<Rightarrow> image_cache \<Rightarrow> chat_msg list \<Rightarrow> string
     \<Rightarrow> ((multimodal_error + (int list \<times> vision_span list \<times> string list)) \<times> image_cache) option" where
  "request_tokenize_multimodal_prompt en encode dim alloc_ok c msgs prompt_text =
     (let inputs = concat (map msg_images msgs); count = length inputs in
      if count = 0 then Some (Inr (tokenize_rendered_chat_vocab (en_vocab en) (Some prompt_text), [], []), c)
      else if 16 < count then Some (Inl Too_many_images, c)
      else if \<not> en_vision_ready en then Some (Inl No_vision, c)
      else case encode_images encode dim alloc_ok inputs c of
        None \<Rightarrow> None
      | Some (None, c) \<Rightarrow> Some (Inl Encode_failed, c)
      | Some (Some embs, c) \<Rightarrow>
          Some (case tokenize_images en (zip (map img_marker inputs) embs) prompt_text [] of
                  Inl e \<Rightarrow> Inl e
                | Inr (prompt, spans) \<Rightarrow> Inr (prompt, spans, map img_marker inputs), c))"

subsection \<open>A turn with images\<close>

text \<open>
  The loop over the text parts and the images between them: tokens and spans, or the failure, at which
  the caller puts the old tokens back.
\<close>

fun multimodal_parts ::
  "engine \<Rightarrow> bool \<Rightarrow> string option list \<Rightarrow> vision_embedding list \<Rightarrow> int list \<Rightarrow> (int list \<times> vision_span list) option" where
  "multimodal_parts en tool (t # parts) embs tokens =
     (let v = en_vocab en;
          tokens = tokens @ (if tool then bpe_tokenize_tool_response_text v (Some (opt_text t)) else bpe_tokenize_text v (opt_text t)) in
      case embs of
        [] \<Rightarrow> Some (tokens, [])
      | emb # embs \<Rightarrow>
          (case ds4_prompt_append_vision en tokens emb of
             None \<Rightarrow> None
           | Some (tokens, sp) \<Rightarrow> map_option (\<lambda>(tokens, spans). (tokens, sp # spans)) (multimodal_parts en tool parts embs tokens)))"
| "multimodal_parts en tool [] embs tokens = Some (tokens, [])"

definition embedding_invalid :: "vision_embedding \<Rightarrow> bool" where
  "embedding_invalid e \<longleftrightarrow> ve_data e = None \<or> ve_token_count e = 0"

text \<open>The result: whether it worked, the tokens, the spans, and the embeddings the caller still owns.\<close>

definition ds4_chat_append_multimodal_message ::
  "engine \<Rightarrow> int list \<Rightarrow> string \<Rightarrow> string option list \<Rightarrow> vision_embedding list
     \<Rightarrow> bool \<times> int list \<times> vision_span list \<times> vision_embedding list" where
  "ds4_chat_append_multimodal_message en tokens role parts embs =
     (let tool = (role = ''tool'' \<or> role = ''function''); user = (role = ''user''); v = en_vocab en in
      if \<not> tool \<and> \<not> user then (False, tokens, [], embs)
      else if list_ex embedding_invalid embs then (False, tokens, [], embs)
      else
        let start = tokens @ qwen4_chat_open v ''user'' @ (if tool then bpe_tokenize_text v (''<tool_response>'' @ newline) else []) in
        case multimodal_parts en tool parts embs start of
          None \<Rightarrow> (False, tokens, [], embs)
        | Some (p, spans) \<Rightarrow>
            (True, p @ (if tool then bpe_tokenize_text v (newline @ ''</tool_response>'') else []) @ qwen4_chat_close v,
             spans, []))"

subsection \<open>Where the images stand\<close>

definition vision_block :: "engine \<Rightarrow> vision_embedding \<Rightarrow> int list" where
  "vision_block en emb = [en_vision_start en] @ replicate (unat (ve_token_count emb)) (en_vision_image en) @ [en_vision_end en]"

fun weave_tokens :: "int list list \<Rightarrow> int list list \<Rightarrow> int list" where
  "weave_tokens [] bs = []"
| "weave_tokens (s # segs) [] = s @ weave_tokens segs []"
| "weave_tokens (s # segs) (b # bs) = s @ b @ weave_tokens segs bs"

definition span_at :: "engine \<Rightarrow> int list \<Rightarrow> vision_embedding \<Rightarrow> vision_span \<Rightarrow> bool" where
  "span_at en p emb sp \<longleftrightarrow>
     vs_embedding sp = emb
     \<and> (\<exists>pre post. p = pre @ vision_block en emb @ post \<and> unat (vs_token_start sp) = Suc (length pre))"

lemma span_at_append: "span_at en p emb sp \<Longrightarrow> span_at en (p @ q) emb sp"
  unfolding span_at_def by (metis append.assoc)

lemma append_vision_span: "ds4_prompt_append_vision en p emb = Some (q, sp) \<Longrightarrow> q = p @ vision_block en emb \<and> span_at en q emb sp"
  using append_visionD [of en p emb q sp] by (auto simp: vision_block_def span_at_def)

lemma tokenize_images_spec:
  "tokenize_images en xs cursor prompt = Inr (p, spans) \<Longrightarrow>
     \<exists>segs. length segs = Suc (length xs) \<and> cursor = weave segs (map fst xs)
       \<and> p = prompt @ weave_tokens (map (\<lambda>s. tokenize_rendered_chat_vocab (en_vocab en) (Some s)) segs) (map (vision_block en \<circ> snd) xs)
       \<and> list_all2 (span_at en p) (map snd xs) spans"
proof (induction xs arbitrary: cursor prompt p spans)
  case Nil
  then show ?case by (auto intro!: exI [of _ "[cursor]"])
next
  case (Cons x xs)
  obtain m emb where x: "x = (m, emb)" by (cases x)
  let ?tok = "\<lambda>s. tokenize_rendered_chat_vocab (en_vocab en) (Some s)"
  obtain mk where mk: "c_strstr cursor m = Some mk" using Cons.prems x by (auto split: option.splits)
  define before where "before = take (length cursor - length mk) cursor"
  obtain q sp where q: "ds4_prompt_append_vision en (prompt @ ?tok before) emb = Some (q, sp)"
    using Cons.prems x mk by (auto simp: before_def split: option.splits)
  obtain spans1 where s: "tokenize_images en xs (drop (length m) mk) q = Inr (p, spans1)" "spans = sp # spans1"
    using Cons.prems x mk q by (auto simp: before_def split: option.splits sum.splits)
  from Cons.IH [OF s(1)] obtain segs where ih: "length segs = Suc (length xs)" "drop (length m) mk = weave segs (map fst xs)"
      "p = q @ weave_tokens (map ?tok segs) (map (vision_block en \<circ> snd) xs)" "list_all2 (span_at en p) (map snd xs) spans1"
    by blast
  note q' = append_vision_span [OF q]
  have "cursor = weave (before # segs) (map fst (x # xs))"
    using c_strstr_split [OF mk] ih(2) x by (simp add: before_def)
  moreover have "p = prompt @ weave_tokens (map ?tok (before # segs)) (map (vision_block en \<circ> snd) (x # xs))"
    using ih(3) q' x by (simp add: comp_def)
  moreover have "span_at en p emb sp" using q' ih(3) span_at_append by blast
  then have "list_all2 (span_at en p) (map snd (x # xs)) spans" using ih(4) s(2) x by simp
  moreover have "length (before # segs) = Suc (length (x # xs))" using ih(1) by simp
  ultimately show ?case by blast
qed

lemma encode_images_length:
  "encode_images encode dim alloc_ok inputs c = Some (Some embs, c') \<Longrightarrow> length embs = length inputs"
proof (induction inputs arbitrary: c embs)
  case (Cons i r)
  then show ?case by (fastforce split: option.splits prod.splits)
qed simp

text \<open>
  C33: a prompt with images is the text between the markers, tokenized part by part, with one block of
  image tokens in the place of each marker, in order; and each span points at the image tokens of its own
  block, between the start and the end token.
\<close>

theorem multimodal_prompt_exact:
  assumes "request_tokenize_multimodal_prompt en encode dim alloc_ok c msgs t = Some (Inr (p, spans, markers), c')"
  shows "\<exists>segs embs. length embs = length markers \<and> length segs = Suc (length markers) \<and> t = weave segs markers
    \<and> markers = map img_marker (concat (map msg_images msgs))
    \<and> p = weave_tokens (map (\<lambda>s. tokenize_rendered_chat_vocab (en_vocab en) (Some s)) segs) (map (vision_block en) embs)
    \<and> list_all2 (span_at en p) embs spans"
proof -
  define inputs where "inputs = concat (map msg_images msgs)"
  show ?thesis
  proof (cases "inputs = []")
    case True
    then have "p = tokenize_rendered_chat_vocab (en_vocab en) (Some t)" "spans = []" "markers = []"
      using assms by (simp_all add: request_tokenize_multimodal_prompt_def inputs_def [symmetric])
    then show ?thesis using True by (intro exI [of _ "[t]"] exI [of _ "[]"]) (simp add: inputs_def)
  next
    case False
    obtain embs where embs: "encode_images encode dim alloc_ok inputs c = Some (Some embs, c')"
        "tokenize_images en (zip (map img_marker inputs) embs) t [] = Inr (p, spans)" "markers = map img_marker inputs"
      using assms False
      by (auto simp: request_tokenize_multimodal_prompt_def inputs_def [symmetric] Let_def split: option.splits prod.splits sum.splits if_splits)
    have len: "length embs = length inputs" by (rule encode_images_length [OF embs(1)])
    then have zip: "map fst (zip markers embs) = markers" "map snd (zip markers embs) = embs" "length (zip markers embs) = length markers"
      "map (vision_block en \<circ> snd) (zip markers embs) = map (vision_block en) embs"
      using embs(3) by (simp_all flip: map_map)
    show ?thesis using tokenize_images_spec [OF embs(2)] len embs(3) zip unfolding inputs_def by auto
  qed
qed

definition demo_image :: image_input where
  "demo_image = \<lparr>img_marker = ''#'', img_encoded = [1]\<rparr>"

lemma demo_encode:
  assumes "ve_data emb = Some d"
  shows "encode_images (\<lambda>_. Some emb) 0 True [demo_image] empty_image_cache = Some (Some [emb], empty_image_cache)"
proof -
  have "find (\<lambda>i. image_entry_matches [1] (ic_entries empty_image_cache ! i)) [0..<SERVER_IMAGE_CACHE_ENTRIES] = None"
    by (auto simp: find_None_iff empty_image_cache_def image_entry_matches_def zero_entry_def)
  then show ?thesis using assms
    by (simp add: server_encode_image_def server_image_cache_get_def server_image_cache_put_def demo_image_def Let_def)
qed

theorem multimodal_prompt_exact_witness:
  "\<forall>v. \<exists>p spans segs embs.
     request_tokenize_multimodal_prompt (demo_engine v) (\<lambda>_. Some (zero_embedding\<lparr>ve_data := Some [], ve_token_count := 2\<rparr>)) 0 True
       empty_image_cache [no_chat_msg\<lparr>msg_images := [demo_image]\<rparr>] ''#'' = Some (Inr (p, spans, [''#'']), empty_image_cache)
     \<and> ''#'' = weave segs [''#''] \<and> list_all2 (span_at (demo_engine v) p) embs spans"
proof
  fix v
  let ?emb = "zero_embedding\<lparr>ve_data := Some [], ve_token_count := 2\<rparr>"
  let ?r = "request_tokenize_multimodal_prompt (demo_engine v) (\<lambda>_. Some ?emb) 0 True empty_image_cache
     [no_chat_msg\<lparr>msg_images := [demo_image]\<rparr>] ''#''"
  have nil: "tokenize_rendered_chat_vocab v (Some []) = []"
    by (simp add: tokenize_rendered_chat_vocab_def opt_text_def rendered_loop.simps [of v "[]" "[]"] tokenize_span_def)
  have enc: "encode_images (\<lambda>_. Some ?emb) 0 True [demo_image] empty_image_cache = Some (Some [?emb], empty_image_cache)"
    by (rule demo_encode) simp
  have "\<exists>p spans. ?r = Some (Inr (p, spans, [''#'']), empty_image_cache)"
    using nil enc by (simp add: request_tokenize_multimodal_prompt_def Let_def ds4_prompt_append_vision_def demo_engine_def)
      (simp add: demo_image_def)
  then obtain p spans where r: "?r = Some (Inr (p, spans, [''#'']), empty_image_cache)" by blast
  from multimodal_prompt_exact [OF r] r
  show "\<exists>p spans segs embs. ?r = Some (Inr (p, spans, [''#'']), empty_image_cache)
     \<and> ''#'' = weave segs [''#''] \<and> list_all2 (span_at (demo_engine v) p) embs spans" by blast
qed

end
