(* ===== verification/Continuation.thy ===== *)
theory Continuation
  imports LiveReuse
begin

text \<open>
  Tool-result continuations (\<open>ds4_server.c\<close>): the checks that every tool result answers a call the
  server can still place (\<open>responses_validate_tool_outputs\<close>, \<open>anthropic_validate_tool_results\<close>), and the
  call ids and the suffix text a request brings to the live session
  (\<open>responses_prepare_live_continuation\<close>, \<open>anthropic_prepare_live_continuation\<close>). The radix tree of call
  ids is a map; which ids are live in some slot is computed from the slots.
\<close>

subsection \<open>Call ids\<close>

definition chat_msg_collect_tool_call_ids :: "chat_msg \<Rightarrow> string list \<Rightarrow> string list" where
  "chat_msg_collect_tool_call_ids m ids =
     fold id_list_push_unique (msg_tool_call_ids m) (id_list_push_unique (opt_text (msg_tool_call_id m)) ids)"

definition responses_live_has_call_id :: "live_slot list \<Rightarrow> string \<Rightarrow> bool" where
  "responses_live_has_call_id slots i \<longleftrightarrow>
     i \<noteq> [] \<and> list_ex (\<lambda>sl. lb_valid (ls_responses_live sl) \<and> id_list_contains (lb_call_ids (ls_responses_live sl)) i) slots"

definition anthropic_live_has_call_id :: "live_slot list \<Rightarrow> string \<Rightarrow> bool" where
  "anthropic_live_has_call_id slots i \<longleftrightarrow>
     i \<noteq> [] \<and> list_ex (\<lambda>sl. lb_valid (ls_anthropic_live sl) \<and> id_list_contains (lb_call_ids (ls_anthropic_live sl)) i) slots"

definition is_assistant :: "chat_msg \<Rightarrow> bool" where
  "is_assistant m \<longleftrightarrow> msg_role m = Some ''assistant''"

definition is_tool_message :: "chat_msg \<Rightarrow> bool" where
  "is_tool_message m \<longleftrightarrow> msg_role m = Some ''tool'' \<or> msg_role m = Some ''function''"

definition anthropic_msg_is_tool_result_tail :: "chat_msg \<Rightarrow> bool" where
  "anthropic_msg_is_tool_result_tail m \<longleftrightarrow>
     msg_role m = Some ''user'' \<and> (opt_text (msg_tool_call_id m) \<noteq> [] \<or> msg_tool_call_ids m \<noteq> [])"

subsection \<open>Validation\<close>

text \<open>The calls of an assistant message are entered under their ids; a later message replaces an earlier one.\<close>

definition register_calls :: "chat_msg \<Rightarrow> (string \<rightharpoonup> chat_msg) \<Rightarrow> (string \<rightharpoonup> chat_msg)" where
  "register_calls m by_id =
     fold (\<lambda>tc by_id. if opt_text (tc_id tc) \<noteq> [] then by_id(opt_text (tc_id tc) \<mapsto> m) else by_id) (msg_calls m) by_id"

text \<open>
  The loop over the ids of one tool message: \<open>None\<close> when an id cannot be placed, otherwise the two
  flags, that a live call is needed and that hidden reasoning is missing.
\<close>

fun check_ids :: "(string \<Rightarrow> bool) \<Rightarrow> bool \<Rightarrow> (string \<rightharpoonup> chat_msg) \<Rightarrow> string list \<Rightarrow> bool \<times> bool \<Rightarrow> (bool \<times> bool) option" where
  "check_ids live needs_reasoning by_id [] flags = Some flags"
| "check_ids live needs_reasoning by_id (i # r) (req_live, req_reasoning) =
     (let prior = (if i \<noteq> [] then by_id i else None) in
      if \<not> live i \<and> prior = None then None
      else case prior of
        None \<Rightarrow> check_ids live needs_reasoning by_id r (True, req_reasoning)
      | Some m \<Rightarrow> check_ids live needs_reasoning by_id r
          (req_live, req_reasoning \<or> needs_reasoning \<and> opt_text (msg_reasoning m) = []))"

fun validate_loop ::
  "(chat_msg \<Rightarrow> bool) \<Rightarrow> (string \<Rightarrow> bool) \<Rightarrow> bool \<Rightarrow> (string \<rightharpoonup> chat_msg) \<Rightarrow> chat_msg list \<Rightarrow> bool \<times> bool \<Rightarrow> (bool \<times> bool) option" where
  "validate_loop result live needs_reasoning by_id [] flags = Some flags"
| "validate_loop result live needs_reasoning by_id (m # msgs) flags =
     (if is_assistant m then validate_loop result live needs_reasoning (register_calls m by_id) msgs flags
      else if \<not> result m then validate_loop result live needs_reasoning by_id msgs flags
      else case check_ids live needs_reasoning by_id (chat_msg_collect_tool_call_ids m []) flags of
        None \<Rightarrow> None
      | Some flags \<Rightarrow> validate_loop result live needs_reasoning by_id msgs flags)"

definition responses_validate_tool_outputs :: "live_slot list \<Rightarrow> chat_msg list \<Rightarrow> think_mode \<Rightarrow> (bool \<times> bool) option" where
  "responses_validate_tool_outputs slots msgs mode =
     validate_loop is_tool_message (responses_live_has_call_id slots) (ds4_think_mode_enabled mode) Map.empty msgs (False, False)"

definition anthropic_validate_tool_results :: "live_slot list \<Rightarrow> chat_msg list \<Rightarrow> bool option" where
  "anthropic_validate_tool_results slots msgs =
     map_option fst (validate_loop anthropic_msg_is_tool_result_tail (anthropic_live_has_call_id slots) False Map.empty msgs (False, False))"

subsection \<open>Preparing the continuation\<close>

definition tail_start :: "(chat_msg \<Rightarrow> bool) \<Rightarrow> chat_msg list \<Rightarrow> nat" where
  "tail_start P msgs = length msgs - length (takeWhile P (rev msgs))"

text \<open>The call ids and the text to append to the live session, or \<open>None\<close> where the request is left as it was.\<close>

definition responses_prepare_live_continuation ::
  "chat_msg list \<Rightarrow> tool_schema_order list \<Rightarrow> think_mode \<Rightarrow> (string list \<times> string option) option" where
  "responses_prepare_live_continuation msgs orders mode =
     (let start = tail_start is_tool_message msgs in
      if msgs = [] \<or> start = length msgs then None
      else
        let anchor = msgs ! (start - 1) in
        if 0 < start \<and> (\<not> is_assistant anchor \<or> msg_calls anchor = []) then Some ([], None)
        else
          let ids = (if 0 < start then fold (\<lambda>tc. id_list_push_unique (opt_text (tc_id tc))) (msg_calls anchor) []
                     else fold chat_msg_collect_tool_call_ids (drop start msgs) []) in
          Some (ids, if ids = [] then None else Some (render_qwen_live_tool_tail msgs start orders mode)))"

definition anthropic_prepare_live_continuation ::
  "chat_msg list \<Rightarrow> tool_schema_order list \<Rightarrow> think_mode \<Rightarrow> (string list \<times> string option) option" where
  "anthropic_prepare_live_continuation msgs orders mode =
     (let tail_end = tail_start role_is_system msgs;
          start = tail_start anthropic_msg_is_tool_result_tail (take tail_end msgs) in
      if msgs = [] \<or> start = tail_end then None
      else
        let ids = fold chat_msg_collect_tool_call_ids (drop start msgs) [] in
        Some (ids, if ids = [] then None else Some (render_qwen_live_tool_tail msgs start orders mode)))"

subsection \<open>The reference: a backward scan for each id\<close>

text \<open>The assistant message nearest before a position that declares the id.\<close>

definition declares :: "string \<Rightarrow> chat_msg \<Rightarrow> bool" where
  "declares i m \<longleftrightarrow> is_assistant m \<and> i \<noteq> [] \<and> i \<in> set (map (opt_text \<circ> tc_id) (msg_calls m))"

definition find_prior_call_msg :: "chat_msg list \<Rightarrow> string \<Rightarrow> chat_msg option" where
  "find_prior_call_msg before i = find (declares i) (rev before)"

text \<open>The results of a conversation, each with the messages before it.\<close>

fun results_in :: "(chat_msg \<Rightarrow> bool) \<Rightarrow> chat_msg list \<Rightarrow> chat_msg list \<Rightarrow> (string \<times> chat_msg option) list" where
  "results_in P before [] = []"
| "results_in P before (m # msgs) =
     (if \<not> is_assistant m \<and> P m
      then map (\<lambda>i. (i, find_prior_call_msg before i)) (chat_msg_collect_tool_call_ids m []) else [])
     @ results_in P (before @ [m]) msgs"

definition validate_spec :: "(string \<Rightarrow> bool) \<Rightarrow> bool \<Rightarrow> (string \<times> chat_msg option) list \<Rightarrow> (bool \<times> bool) option" where
  "validate_spec live needs_reasoning rs =
     (if list_all (\<lambda>(i, prior). live i \<or> prior \<noteq> None) rs
      then Some (list_ex (\<lambda>(i, prior). prior = None) rs,
                 needs_reasoning \<and> list_ex (\<lambda>(i, prior). case prior of None \<Rightarrow> False | Some m \<Rightarrow> opt_text (msg_reasoning m) = []) rs)
      else None)"

definition spec_from :: "(string \<Rightarrow> bool) \<Rightarrow> bool \<Rightarrow> (string \<times> chat_msg option) list \<Rightarrow> bool \<times> bool \<Rightarrow> (bool \<times> bool) option" where
  "spec_from live needs_reasoning rs flags =
     map_option (\<lambda>(a, b). (fst flags \<or> a, snd flags \<or> b)) (validate_spec live needs_reasoning rs)"

lemma spec_from_append:
  "spec_from live nr (xs @ ys) flags =
     (case spec_from live nr xs flags of None \<Rightarrow> None | Some flags \<Rightarrow> spec_from live nr ys flags)"
  by (auto simp: spec_from_def validate_spec_def split: if_splits)

lemma register_calls_lookup:
  "register_calls m by_id i = (if i \<noteq> [] \<and> i \<in> set (map (opt_text \<circ> tc_id) (msg_calls m)) then Some m else by_id i)"
proof -
  have "fold (\<lambda>tc by_id. if opt_text (tc_id tc) \<noteq> [] then by_id(opt_text (tc_id tc) \<mapsto> m) else by_id) calls b i
      = (if i \<noteq> [] \<and> i \<in> set (map (opt_text \<circ> tc_id) calls) then Some m else b i)" for calls b
    by (induction calls arbitrary: b) auto
  then show ?thesis unfolding register_calls_def .
qed

lemma find_prior_call_msg_empty: "find_prior_call_msg before [] = None"
  by (simp add: find_prior_call_msg_def find_None_iff declares_def)

lemma find_prior_call_msg_snoc:
  "find_prior_call_msg (before @ [m]) i = (if declares i m then Some m else find_prior_call_msg before i)"
  by (simp add: find_prior_call_msg_def)

lemma spec_from_step:
  "spec_from live nr ((i, prior) # rs) flags =
     (if live i \<or> prior \<noteq> None
      then spec_from live nr rs (fst flags \<or> prior = None,
             snd flags \<or> nr \<and> (case prior of None \<Rightarrow> False | Some m \<Rightarrow> opt_text (msg_reasoning m) = []))
      else None)"
  by (auto simp: spec_from_def validate_spec_def split: if_splits)

lemma spec_from_nil: "spec_from live nr [] flags = Some flags"
  by (simp add: spec_from_def validate_spec_def)

text \<open>The map of ids agrees with the backward scan.\<close>

definition ids_agree :: "(string \<rightharpoonup> chat_msg) \<Rightarrow> chat_msg list \<Rightarrow> bool" where
  "ids_agree by_id before \<longleftrightarrow> (\<forall>i. i \<noteq> [] \<longrightarrow> by_id i = find_prior_call_msg before i)"

lemma check_ids_spec:
  assumes "ids_agree by_id before"
  shows "check_ids live nr by_id ids flags = spec_from live nr (map (\<lambda>i. (i, find_prior_call_msg before i)) ids) flags"
proof (induction ids arbitrary: flags)
  case Nil
  then show ?case by (simp add: spec_from_nil)
next
  case (Cons i r)
  have prior: "(if i \<noteq> [] then by_id i else None) = find_prior_call_msg before i"
    using assms by (simp add: ids_agree_def find_prior_call_msg_empty)
  obtain a b where flags: "flags = (a, b)" by (cases flags)
  show ?case
    unfolding flags check_ids.simps Let_def prior
    by (auto simp: spec_from_step Cons.IH split: option.splits)
qed

lemma ids_agree_assistant:
  assumes "ids_agree by_id before" and "is_assistant m"
  shows "ids_agree (register_calls m by_id) (before @ [m])"
  using assms by (auto simp: ids_agree_def register_calls_lookup find_prior_call_msg_snoc declares_def)

lemma ids_agree_other:
  assumes "ids_agree by_id before" and "\<not> is_assistant m"
  shows "ids_agree by_id (before @ [m])"
  using assms by (auto simp: ids_agree_def find_prior_call_msg_snoc declares_def)

lemma validate_loop_spec:
  "ids_agree by_id before \<Longrightarrow> validate_loop P live nr by_id msgs flags = spec_from live nr (results_in P before msgs) flags"
proof (induction msgs arbitrary: by_id before flags)
  case Nil
  then show ?case by (simp add: spec_from_nil)
next
  case (Cons m msgs)
  note asst = Cons.IH[OF ids_agree_assistant[OF Cons.prems]]
   and other = Cons.IH[OF ids_agree_other[OF Cons.prems]]
  show ?case
    by (cases "is_assistant m"; cases "P m")
      (simp_all add: asst other check_ids_spec[OF Cons.prems] spec_from_append split: option.splits)
qed

lemma validate_loop_is_spec:
  "validate_loop P live nr Map.empty msgs (False, False) = validate_spec live nr (results_in P [] msgs)"
proof -
  have "ids_agree Map.empty []"
    by (simp add: ids_agree_def find_prior_call_msg_def)
  from validate_loop_spec[OF this] show ?thesis
    by (simp add: spec_from_def case_prod_unfold option.map_ident)
qed

text \<open>
  C34: The single forward pass with a map of call ids decides tool results exactly as the backward scan it
  replaced: every result of a Responses or Anthropic conversation must be live in a slot or declared by the
  nearest assistant message before it with that call id; the live flag is raised exactly when some result
  has no such message, and the reasoning flag exactly when, in a thinking mode, the nearest declaring
  message carries no reasoning.
\<close>

theorem validation_is_backward_scan:
  "responses_validate_tool_outputs slots msgs mode =
     validate_spec (responses_live_has_call_id slots) (ds4_think_mode_enabled mode) (results_in is_tool_message [] msgs)
   \<and> anthropic_validate_tool_results slots msgs =
     map_option fst (validate_spec (anthropic_live_has_call_id slots) False (results_in anthropic_msg_is_tool_result_tail [] msgs))"
  by (simp add: responses_validate_tool_outputs_def anthropic_validate_tool_results_def validate_loop_is_spec)

end
