(* ===== verification/Gguf.thy ===== *)
theory Gguf
  imports KvHeader
begin

text \<open>
  The model file (\<open>ds4.c\<close>, from \<open>cursor_error\<close> to \<open>tensor_data\<close>): the bounds-checked cursor, the metadata
  table with its nested values, the tensor directory, and the two tables that are cut off the mapping and
  read from the disk. A file is its list of bytes, a pointer into the mapping a position in it; \<open>memcpy\<close>
  into an integer reads it in little-endian order. Allocation, \<open>mmap\<close> and \<open>munmap\<close> are taken to succeed; every
  \<open>ds4_die\<close> is an error value.
\<close>

subsection \<open>Errors\<close>

datatype gguf_error = Truncated | Too_deep | Array_too_large | Unknown_type | Kv_count | Tensor_count | Bad_ndim
  | Element_overflow | Offset_overflow | Outside_file | Too_small | Not_gguf | Bad_version
  | Engram_encoding | Bad_engram | Resident_type | Engram_missing | Engram_layout
  | Bad_ngrams | Ngram_layout | Ngram_changed

definition and_then :: "'e + 'a \<Rightarrow> ('a \<Rightarrow> 'e + 'b) \<Rightarrow> 'e + 'b" where
  "and_then x f = (case x of Inl e \<Rightarrow> Inl e | Inr a \<Rightarrow> f a)"

lemma and_then_simps [simp]: "and_then (Inl e) f = Inl e" "and_then (Inr a) f = f a"
  by (simp_all add: and_then_def)

lemma and_then_Inr: "and_then x f = Inr b \<longleftrightarrow> (\<exists>a. x = Inr a \<and> f a = Inr b)"
  by (cases x) simp_all

subsection \<open>The cursor\<close>

record cursor =
  cu_base :: bytes
  cu_size :: u64
  cu_pos :: u64

definition cursor_has :: "cursor \<Rightarrow> u64 \<Rightarrow> bool" where
  "cursor_has c n \<longleftrightarrow> \<not> (cu_size c < n \<or> cu_size c - n < cu_pos c)"

definition cursor_read :: "cursor \<Rightarrow> u64 \<Rightarrow> gguf_error + bytes \<times> cursor" where
  "cursor_read c n =
     (if \<not> cursor_has c n then Inl Truncated
      else Inr (take (unat n) (drop (unat (cu_pos c)) (cu_base c)), c\<lparr>cu_pos := cu_pos c + n\<rparr>))"

definition cursor_skip :: "cursor \<Rightarrow> u64 \<Rightarrow> gguf_error + cursor" where
  "cursor_skip c n = (if \<not> cursor_has c n then Inl Truncated else Inr (c\<lparr>cu_pos := cu_pos c + n\<rparr>))"

definition cursor_u32 :: "cursor \<Rightarrow> gguf_error + u32 \<times> cursor" where
  "cursor_u32 c = and_then (cursor_read c 4) (\<lambda>(b, c). Inr (ds4_kvstore_le_get32 b, c))"

definition cursor_u64 :: "cursor \<Rightarrow> gguf_error + u64 \<times> cursor" where
  "cursor_u64 c = and_then (cursor_read c 8) (\<lambda>(b, c). Inr (kv_le_get64 b, c))"

definition cursor_string :: "cursor \<Rightarrow> gguf_error + bytes \<times> cursor" where
  "cursor_string c =
     and_then (cursor_u64 c) (\<lambda>(len, c).
       if \<not> cursor_has c len then Inl Truncated
       else Inr (take (unat len) (drop (unat (cu_pos c)) (cu_base c)), c\<lparr>cu_pos := cu_pos c + len\<rparr>))"

definition align_up :: "u64 \<Rightarrow> u64 \<Rightarrow> u64" where
  "align_up v a = (let r = v mod a in if r = 0 then v else v + a - r)"

definition ds4_streq :: "bytes \<Rightarrow> string \<Rightarrow> bool" where
  "ds4_streq s z \<longleftrightarrow> length s = length z \<and> s = map of_char z"

subsection \<open>Value and tensor types\<close>

definition GGUF_VALUE_UINT32 :: u32 where "GGUF_VALUE_UINT32 = 4"
definition GGUF_VALUE_INT32 :: u32 where "GGUF_VALUE_INT32 = 5"
definition GGUF_VALUE_STRING :: u32 where "GGUF_VALUE_STRING = 8"
definition GGUF_VALUE_ARRAY :: u32 where "GGUF_VALUE_ARRAY = 9"
definition GGUF_VALUE_UINT64 :: u32 where "GGUF_VALUE_UINT64 = 10"
definition GGUF_VALUE_INT64 :: u32 where "GGUF_VALUE_INT64 = 11"

text \<open>The numbers of the types are those of the \<open>enum\<close>: 0, 1 and 7 are one byte wide, and so on.\<close>

definition scalar_value_size :: "u32 \<Rightarrow> u64" where
  "scalar_value_size t =
     (if t = 0 \<or> t = 1 \<or> t = 7 then 1
      else if t = 2 \<or> t = 3 then 2
      else if t = GGUF_VALUE_UINT32 \<or> t = GGUF_VALUE_INT32 \<or> t = 6 then 4
      else if t = GGUF_VALUE_UINT64 \<or> t = GGUF_VALUE_INT64 \<or> t = 12 then 8
      else 0)"

record gguf_type_info =
  ti_name :: string
  ti_block_elems :: u32
  ti_block_bytes :: u32

definition type_info :: "string \<Rightarrow> u32 \<Rightarrow> u32 \<Rightarrow> gguf_type_info" where
  "type_info n e b = \<lparr>ti_name = n, ti_block_elems = e, ti_block_bytes = b\<rparr>"

definition gguf_types :: "(u32 \<times> gguf_type_info) list" where
  "gguf_types =
     [(0, type_info ''f32'' 1 4), (1, type_info ''f16'' 1 2),
      (2, type_info ''q4_0'' 32 18), (3, type_info ''q4_1'' 32 20), (6, type_info ''q5_0'' 32 22),
      (7, type_info ''q5_1'' 32 24), (8, type_info ''q8_0'' 32 34), (9, type_info ''q8_1'' 32 40),
      (10, type_info ''q2_k'' 256 84), (11, type_info ''q3_k'' 256 110), (12, type_info ''q4_k'' 256 144),
      (13, type_info ''q5_k'' 256 176), (14, type_info ''q6_k'' 256 210), (15, type_info ''q8_k'' 256 292),
      (16, type_info ''iq2_xxs'' 256 66), (17, type_info ''iq2_xs'' 256 74), (18, type_info ''iq3_xxs'' 256 98),
      (19, type_info ''iq1_s'' 256 110), (20, type_info ''iq4_nl'' 256 50), (21, type_info ''iq3_s'' 256 110),
      (22, type_info ''iq2_s'' 256 82), (23, type_info ''iq4_xs'' 256 136), (24, type_info ''i8'' 1 1),
      (25, type_info ''i16'' 1 2), (26, type_info ''i32'' 1 4), (27, type_info ''i64'' 1 8),
      (28, type_info ''f64'' 1 8), (29, type_info ''iq1_m'' 256 56), (30, type_info ''bf16'' 1 2),
      (39, type_info ''mxfp4'' 32 17)]"

definition tensor_type :: "u32 \<Rightarrow> gguf_type_info option" where
  "tensor_type t = map_of gguf_types t"

text \<open>\<open>UINT64_MAX\<close> is the largest word; the sum of elements wraps as it does in C.\<close>

definition tensor_nbytes :: "u32 \<Rightarrow> u64 \<Rightarrow> u64 option" where
  "tensor_nbytes t elements =
     (case tensor_type t of
        None \<Rightarrow> None
      | Some info \<Rightarrow>
          if ti_block_elems info = 0 then None
          else
            let blocks = (elements + ucast (ti_block_elems info) - 1) div ucast (ti_block_elems info) in
            if - 1 div ucast (ti_block_bytes info) < blocks then None
            else Some (blocks * ucast (ti_block_bytes info)))"

subsection \<open>Metadata values\<close>

text \<open>A loop of \<open>n\<close> steps that stops at the first error.\<close>

fun repeat_step :: "nat \<Rightarrow> ('s \<Rightarrow> 'e + 's) \<Rightarrow> 's \<Rightarrow> 'e + 's" where
  "repeat_step 0 f s = Inr s"
| "repeat_step (Suc n) f s = and_then (f s) (repeat_step n f)"

function skip_value :: "u32 \<Rightarrow> nat \<Rightarrow> cursor \<Rightarrow> gguf_error + cursor" where
  "skip_value t depth c =
     (if 8 < depth then Inl Too_deep
      else
        let scalar = scalar_value_size t in
        if scalar \<noteq> 0 then cursor_skip c scalar
        else if t = GGUF_VALUE_STRING then and_then (cursor_string c) (\<lambda>(_, c). Inr c)
        else if t = GGUF_VALUE_ARRAY then
          and_then (cursor_u32 c) (\<lambda>(item_type, c).
          and_then (cursor_u64 c) (\<lambda>(len, c).
            let item_size = scalar_value_size item_type in
            if item_size \<noteq> 0 then
              if - 1 div item_size < len then Inl Array_too_large else cursor_skip c (len * item_size)
            else repeat_step (unat len) (skip_value item_type (depth + 1)) c))
        else Inl Unknown_type)"
  by pat_completeness auto
termination by (relation "measure (\<lambda>(_, depth, _). 9 - depth)") auto

declare skip_value.simps [simp del]

subsection \<open>The model\<close>

record gguf_kv =
  kv_key :: bytes
  kv_type :: u32
  kv_value_pos :: u64

record gguf_tensor =
  ts_name :: bytes
  ts_ndim :: u32
  ts_dim :: "u64 list"
  ts_type :: u32
  ts_rel_offset :: u64
  ts_abs_offset :: u64
  ts_elements :: u64
  ts_bytes :: u64

record gguf_model =
  mo_map :: bytes
  mo_size :: u64
  mo_file_size :: u64
  mo_version :: u32
  mo_n_kv :: u64
  mo_n_tensors :: u64
  mo_alignment :: u64
  mo_tensor_data_pos :: u64
  mo_max_tensor_bytes :: u64
  mo_kv :: "gguf_kv list"
  mo_tensors :: "gguf_tensor list"
  mo_ngram_tensor :: "gguf_tensor option"

definition cursor_at :: "gguf_model \<Rightarrow> u64 \<Rightarrow> cursor" where
  "cursor_at m pos = \<lparr>cu_base = mo_map m, cu_size = mo_size m, cu_pos = pos\<rparr>"

definition model_find_kv :: "gguf_model \<Rightarrow> string \<Rightarrow> gguf_kv option" where
  "model_find_kv m key = find (\<lambda>kv. ds4_streq (kv_key kv) key) (mo_kv m)"

definition option_of :: "'e + 'a \<times> 's \<Rightarrow> 'a option" where
  "option_of x = (case x of Inl _ \<Rightarrow> None | Inr (a, _) \<Rightarrow> Some a)"

definition model_get_string :: "gguf_model \<Rightarrow> string \<Rightarrow> bytes option" where
  "model_get_string m key =
     (case model_find_kv m key of
        None \<Rightarrow> None
      | Some kv \<Rightarrow> if kv_type kv \<noteq> GGUF_VALUE_STRING then None else option_of (cursor_string (cursor_at m (kv_value_pos kv))))"

definition model_get_u32 :: "gguf_model \<Rightarrow> string \<Rightarrow> u32 option" where
  "model_get_u32 m key =
     (case model_find_kv m key of
        None \<Rightarrow> None
      | Some kv \<Rightarrow> if kv_type kv \<noteq> GGUF_VALUE_UINT32 then None else option_of (cursor_u32 (cursor_at m (kv_value_pos kv))))"

record array_ref =
  ar_type :: u32
  ar_len :: u64
  ar_data_pos :: u64

definition model_get_array :: "gguf_model \<Rightarrow> string \<Rightarrow> array_ref option" where
  "model_get_array m key =
     (case model_find_kv m key of
        None \<Rightarrow> None
      | Some kv \<Rightarrow>
          if kv_type kv \<noteq> GGUF_VALUE_ARRAY then None
          else option_of
            (and_then (cursor_u32 (cursor_at m (kv_value_pos kv))) (\<lambda>(ty, c).
             and_then (cursor_u64 c) (\<lambda>(len, c).
               Inr (\<lparr>ar_type = ty, ar_len = len, ar_data_pos = cu_pos c\<rparr>, c)))))"

text \<open>The loops of \<open>vocab_load\<close> over an array of strings.\<close>

fun read_strings :: "nat \<Rightarrow> cursor \<Rightarrow> gguf_error + bytes list" where
  "read_strings 0 c = Inr []"
| "read_strings (Suc n) c = and_then (cursor_string c) (\<lambda>(s, c). and_then (read_strings n c) (\<lambda>ss. Inr (s # ss)))"

subsection \<open>Parsing the directory\<close>

text \<open>One metadata entry: the key, the type and where the value is; the alignment is picked up on the way.\<close>

definition pick_alignment :: "gguf_kv \<Rightarrow> gguf_model \<Rightarrow> gguf_model" where
  "pick_alignment kv m =
     (if ds4_streq (kv_key kv) ''general.alignment'' \<and> kv_type kv = GGUF_VALUE_UINT32 then
        (case cursor_u32 (cursor_at m (kv_value_pos kv)) of
           Inr (a, _) \<Rightarrow> if a \<noteq> 0 then m\<lparr>mo_alignment := ucast a\<rparr> else m
         | Inl _ \<Rightarrow> m)
      else m)"

definition parse_kv :: "gguf_model \<times> cursor \<Rightarrow> gguf_error + gguf_model \<times> cursor" where
  "parse_kv mc = (case mc of (m, c) \<Rightarrow>
     and_then (cursor_string c) (\<lambda>(key, c).
     and_then (cursor_u32 c) (\<lambda>(ty, c).
       let kv = \<lparr>kv_key = key, kv_type = ty, kv_value_pos = cu_pos c\<rparr>;
           m = pick_alignment kv (m\<lparr>mo_kv := mo_kv m @ [kv]\<rparr>) in
       and_then (skip_value ty 0 c) (\<lambda>c. Inr (m, c)))))"

definition parse_metadata :: "gguf_model \<Rightarrow> cursor \<Rightarrow> gguf_error + gguf_model \<times> cursor" where
  "parse_metadata m c =
     (if cu_size c - cu_pos c < mo_n_kv m then Inl Kv_count
      else repeat_step (unat (mo_n_kv m)) parse_kv (m\<lparr>mo_alignment := 32\<rparr>, c))"

definition DS4_MAX_DIMS :: u32 where "DS4_MAX_DIMS = 8"

text \<open>One dimension: the running count of elements must not wrap.\<close>

definition parse_dim :: "gguf_tensor \<times> cursor \<Rightarrow> gguf_error + gguf_tensor \<times> cursor" where
  "parse_dim tc = (case tc of (t, c) \<Rightarrow>
     and_then (cursor_u64 c) (\<lambda>(d, c).
       if d \<noteq> 0 \<and> - 1 div d < ts_elements t then Inl Element_overflow
       else Inr (t\<lparr>ts_dim := ts_dim t @ [d], ts_elements := ts_elements t * d\<rparr>, c)))"

definition zero_tensor :: gguf_tensor where
  "zero_tensor = \<lparr>ts_name = [], ts_ndim = 0, ts_dim = [], ts_type = 0, ts_rel_offset = 0, ts_abs_offset = 0,
     ts_elements = 0, ts_bytes = 0\<rparr>"

text \<open>An unsupported type leaves the size of the tensor at zero, with a warning.\<close>

definition parse_tensor :: "gguf_model \<times> cursor \<Rightarrow> gguf_error + gguf_model \<times> cursor" where
  "parse_tensor mc = (case mc of (m, c) \<Rightarrow>
     and_then (cursor_string c) (\<lambda>(name, c).
     and_then (cursor_u32 c) (\<lambda>(ndim, c).
       if ndim = 0 \<or> DS4_MAX_DIMS < ndim then Inl Bad_ndim
       else
         and_then (repeat_step (unat ndim) parse_dim
             (zero_tensor\<lparr>ts_name := name, ts_ndim := ndim, ts_elements := 1\<rparr>, c)) (\<lambda>(t, c).
         and_then (cursor_u32 c) (\<lambda>(ty, c).
         and_then (cursor_u64 c) (\<lambda>(off, c).
           Inr (m\<lparr>mo_tensors := mo_tensors m @
             [t\<lparr>ts_type := ty, ts_rel_offset := off,
                ts_bytes := (case tensor_nbytes ty (ts_elements t) of None \<Rightarrow> 0 | Some b \<Rightarrow> b)\<rparr>]\<rparr>, c)))))))"

text \<open>The second pass over the directory.\<close>

fun place_tensors :: "gguf_model \<Rightarrow> gguf_tensor list \<Rightarrow> gguf_error + gguf_tensor list" where
  "place_tensors m [] = Inr []"
| "place_tensors m (t # ts) =
     (if - 1 - mo_tensor_data_pos m < ts_rel_offset t then Inl Offset_overflow
      else
        let off = mo_tensor_data_pos m + ts_rel_offset t in
        if ts_bytes t \<noteq> 0 \<and> (mo_size m < off \<or> mo_size m - off < ts_bytes t) then Inl Outside_file
        else and_then (place_tensors m ts) (\<lambda>ts. Inr (t\<lparr>ts_abs_offset := off\<rparr> # ts)))"

definition parse_tensors :: "gguf_model \<Rightarrow> cursor \<Rightarrow> gguf_error + gguf_model" where
  "parse_tensors m c =
     (if cu_size c - cu_pos c < mo_n_tensors m then Inl Tensor_count
      else
        and_then (repeat_step (unat (mo_n_tensors m)) parse_tensor (m, c)) (\<lambda>(m, c).
          let m = m\<lparr>mo_tensor_data_pos := align_up (cu_pos c) (mo_alignment m)\<rparr> in
          and_then (place_tensors m (mo_tensors m)) (\<lambda>ts.
            Inr (m\<lparr>mo_tensors := ts, mo_max_tensor_bytes := fold (\<lambda>t. max (ts_bytes t)) ts (mo_max_tensor_bytes m)\<rparr>))))"

subsection \<open>Tables that stay on the disk\<close>

text \<open>The first pass of \<open>model_unmap_engram\<close>: the two tables and the end and largest size of the rest.\<close>

definition engram_index :: "gguf_tensor \<Rightarrow> nat option" where
  "engram_index t =
     (if ds4_streq (ts_name t) ''blk.1.engram_embd.weight'' then Some 0
      else if ds4_streq (ts_name t) ''blk.14.engram_embd.weight'' then Some 1 else None)"

definition resident :: "gguf_tensor \<Rightarrow> u64 \<times> u64 \<Rightarrow> u64 \<times> u64" where
  "resident t acc = (case acc of (resident_end, max_bytes) \<Rightarrow>
     (if resident_end < ts_abs_offset t + ts_bytes t then ts_abs_offset t + ts_bytes t else resident_end,
      if max_bytes < ts_bytes t then ts_bytes t else max_bytes))"

definition engram_invalid :: "gguf_tensor \<Rightarrow> bool" where
  "engram_invalid t \<longleftrightarrow> ts_ndim t \<noteq> 2 \<or> ts_type t \<noteq> 24 \<or> ts_dim t ! 0 \<noteq> 264 \<or> ts_dim t ! 1 = 0 \<or> 0xFFFFFFFF < ts_dim t ! 1"

fun engram_scan :: "gguf_tensor list \<Rightarrow> (nat \<rightharpoonup> gguf_tensor) \<Rightarrow> u64 \<times> u64 \<Rightarrow> gguf_error + (nat \<rightharpoonup> gguf_tensor) \<times> u64 \<times> u64" where
  "engram_scan [] tables acc = Inr (tables, acc)"
| "engram_scan (t # ts) tables acc =
     (case engram_index t of
        Some i \<Rightarrow> if tables i \<noteq> None \<or> engram_invalid t then Inl Bad_engram else engram_scan ts (tables(i \<mapsto> t)) acc
      | None \<Rightarrow> if ts_bytes t = 0 then Inl Resident_type else engram_scan ts tables (resident t acc))"

text \<open>\<open>munmap\<close> of the tail of the mapping.\<close>

definition cut_mapping :: "u64 \<Rightarrow> gguf_model \<Rightarrow> gguf_model" where
  "cut_mapping start m = m\<lparr>mo_map := take (unat start) (mo_map m), mo_size := start\<rparr>"

definition model_unmap_engram :: "u64 \<Rightarrow> gguf_model \<Rightarrow> gguf_error + gguf_model" where
  "model_unmap_engram page m =
     (case model_get_string m ''general.architecture'' of
        None \<Rightarrow> Inr m
      | Some arch \<Rightarrow>
          if \<not> ds4_streq arch ''deepseek41'' then Inr m
          else if (case model_get_string m ''deepseek41.engram.encoding'' of None \<Rightarrow> True | Some e \<Rightarrow> \<not> ds4_streq e ''e4m3_e8m0_32_row264'')
          then Inl Engram_encoding
          else
            and_then (engram_scan (mo_tensors m) Map.empty (mo_tensor_data_pos m, 0)) (\<lambda>(tables, resident_end, max_bytes).
              case (tables 0, tables 1) of
                (Some t0, Some t1) \<Rightarrow>
                  if page = 0 \<or> ts_abs_offset t0 mod page \<noteq> 0 \<or> ts_abs_offset t0 < resident_end
                     \<or> ts_abs_offset t1 < ts_abs_offset t0 + ts_bytes t0
                  then Inl Engram_layout
                  else Inr (cut_mapping (ts_abs_offset t0) (m\<lparr>mo_max_tensor_bytes := max_bytes\<rparr>))
              | _ \<Rightarrow> Inl Engram_missing))"

definition ngram_table :: "gguf_tensor \<Rightarrow> bool" where
  "ngram_table t \<longleftrightarrow> ds4_streq (ts_name t) ''per_layer_token_embd.weight''"

definition DS4_TENSOR_BF16 :: u32 where "DS4_TENSOR_BF16 = 30"

definition ngram_invalid :: "gguf_tensor \<Rightarrow> bool" where
  "ngram_invalid t \<longleftrightarrow> ts_type t \<noteq> DS4_TENSOR_BF16 \<or> ts_ndim t \<noteq> 2
     \<or> ts_dim t ! 0 = 0 \<or> 160 < ts_dim t ! 0 \<or> ts_dim t ! 1 = 0 \<or> 0xFFFFFFFF < ts_dim t ! 1"

fun ngram_scan :: "gguf_tensor list \<Rightarrow> gguf_tensor option \<Rightarrow> u64 \<times> u64 \<Rightarrow> gguf_error + gguf_tensor option \<times> u64 \<times> u64" where
  "ngram_scan [] tab acc = Inr (tab, acc)"
| "ngram_scan (t # ts) tab acc =
     (if ngram_table t then if tab \<noteq> None \<or> ngram_invalid t then Inl Bad_ngrams else ngram_scan ts (Some t) acc
      else if ts_bytes t = 0 then Inl Resident_type
      else ngram_scan ts tab (resident t acc))"

text \<open>\<open>same_file\<close> says that opening the path a second time gives the file that is mapped.\<close>

definition model_unmap_qwen_ngrams :: "u64 \<Rightarrow> bool \<Rightarrow> gguf_model \<Rightarrow> gguf_error + gguf_model" where
  "model_unmap_qwen_ngrams page same_file m =
     (case model_get_string m ''general.architecture'' of
        None \<Rightarrow> Inr m
      | Some arch \<Rightarrow>
          if \<not> ds4_streq arch ''qwen4exp'' then Inr m
          else
            and_then (ngram_scan (mo_tensors m) None (mo_tensor_data_pos m, 0)) (\<lambda>(tab, resident_end, max_bytes).
              let m = m\<lparr>mo_max_tensor_bytes := max_bytes\<rparr> in
              case tab of
                None \<Rightarrow> Inr m
              | Some t \<Rightarrow>
                  if page = 0 \<or> ts_abs_offset t mod page \<noteq> 0 \<or> ts_abs_offset t < resident_end then Inl Ngram_layout
                  else if \<not> same_file then Inl Ngram_changed
                  else Inr ((cut_mapping (ts_abs_offset t) m)\<lparr>mo_ngram_tensor := Some t\<rparr>)))"

subsection \<open>Opening a model\<close>

definition DS4_GGUF_MAGIC :: u32 where "DS4_GGUF_MAGIC = 0x46554747"

definition mapped_model :: "bytes \<Rightarrow> gguf_model" where
  "mapped_model file =
     \<lparr>mo_map = file, mo_size = of_nat (length file), mo_file_size = of_nat (length file), mo_version = 0, mo_n_kv = 0,
      mo_n_tensors = 0, mo_alignment = 0, mo_tensor_data_pos = 0, mo_max_tensor_bytes = 0, mo_kv = [], mo_tensors = [],
      mo_ngram_tensor = None\<rparr>"

text \<open>The part of \<open>model_open\<close> up to the end of the directory.\<close>

definition model_directory :: "bytes \<Rightarrow> gguf_error + gguf_model" where
  "model_directory file =
     (if length file < 32 then Inl Too_small
      else
        let m = mapped_model file in
        and_then (cursor_u32 (cursor_at m 0)) (\<lambda>(magic, c).
          if magic \<noteq> DS4_GGUF_MAGIC then Inl Not_gguf
          else
            and_then (cursor_u32 c) (\<lambda>(version, c).
            and_then (cursor_u64 c) (\<lambda>(n_tensors, c).
            and_then (cursor_u64 c) (\<lambda>(n_kv, c).
              let m = m\<lparr>mo_version := version, mo_n_tensors := n_tensors, mo_n_kv := n_kv\<rparr> in
              if version \<noteq> 3 then Inl Bad_version
              else and_then (parse_metadata m c) (\<lambda>(m, c). parse_tensors m c))))))"

definition model_open :: "u64 \<Rightarrow> bool \<Rightarrow> bytes \<Rightarrow> gguf_error + gguf_model" where
  "model_open page same_file file =
     and_then (model_directory file) (\<lambda>m.
     and_then (model_unmap_engram page m) (model_unmap_qwen_ngrams page same_file))"

definition model_find_tensor :: "gguf_model \<Rightarrow> string \<Rightarrow> gguf_tensor option" where
  "model_find_tensor m name = find (\<lambda>t. ds4_streq (ts_name t) name) (mo_tensors m)"

text \<open>The bytes of a tensor inside the mapping; \<open>None\<close> where the program stops.\<close>

definition tensor_data :: "gguf_model \<Rightarrow> gguf_tensor \<Rightarrow> bytes option" where
  "tensor_data m t =
     (if mo_size m < ts_abs_offset t \<or> mo_size m - ts_abs_offset t < ts_bytes t then None
      else Some (take (unat (ts_bytes t)) (drop (unat (ts_abs_offset t)) (mo_map m))))"

subsection \<open>Sizes\<close>

text \<open>What the type tables promise: no block is larger than 256 elements, and none is empty.\<close>

lemma tensor_type_elems:
  assumes "tensor_type t = Some info"
  shows "0 < unat (ti_block_elems info) \<and> unat (ti_block_elems info) \<le> 256"
proof -
  have "list_all (\<lambda>(t, i). ti_block_elems i = 1 \<or> ti_block_elems i = 32 \<or> ti_block_elems i = 256) gguf_types"
    by (simp add: gguf_types_def type_info_def)
  moreover have "(t, info) \<in> set gguf_types" using assms by (simp add: tensor_type_def map_of_SomeD)
  ultimately have "ti_block_elems info = 1 \<or> ti_block_elems info = 32 \<or> ti_block_elems info = 256"
    by (auto simp: list_all_iff)
  then show ?thesis by auto
qed

definition blocks_size :: "gguf_type_info \<Rightarrow> nat \<Rightarrow> nat" where
  "blocks_size info n = (n + unat (ti_block_elems info) - 1) div unat (ti_block_elems info) * unat (ti_block_bytes info)"

lemma quot_limit: "b \<noteq> 0 \<Longrightarrow> \<not> - 1 div b < a \<Longrightarrow> unat a * unat b < 18446744073709551616" for a b :: u64
proof -
  assume b: "b \<noteq> 0" and le: "\<not> - 1 div b < a"
  have m: "unat (- 1 :: u64) = 18446744073709551615" by (simp add: unsigned_minus_1_eq_mask mask_eq_exp_minus_1)
  have "unat a \<le> 18446744073709551615 div unat b"
    using le by (simp add: not_less word_le_nat_alt unat_div_word m)
  then have "unat a * unat b \<le> 18446744073709551615 div unat b * unat b" by (rule mult_le_mono1)
  also have "\<dots> \<le> 18446744073709551615" by (rule div_times_less_eq_dividend)
  finally show ?thesis by simp
qed

text \<open>A size that is not zero is exact: a sum that wraps leaves no block at all.\<close>

lemma tensor_nbytes_exact:
  assumes "tensor_nbytes t e = Some b" "b \<noteq> 0"
  shows "\<exists>info. tensor_type t = Some info \<and> unat b = blocks_size info (unat e)"
proof -
  obtain info where info: "tensor_type t = Some info" using assms(1) by (auto simp: tensor_nbytes_def split: option.splits)
  define B :: u64 where "B = ucast (ti_block_elems info)"
  define S :: u64 where "S = ucast (ti_block_bytes info)"
  define q where "q = (e + B - 1) div B"
  have Bn: "unat B = unat (ti_block_elems info)" "unat S = unat (ti_block_bytes info)" by (simp_all add: B_def S_def)
  have B: "0 < unat B" "unat B \<le> 256" using tensor_type_elems [OF info] Bn by auto
  have b: "b = q * S" "\<not> - 1 div S < q"
    using assms(1) info by (auto simp: tensor_nbytes_def Let_def q_def B_def S_def split: if_splits)
  have S0: "S \<noteq> 0" using assms(2) b(1) by auto
  have small: "unat e + unat B - 1 < 18446744073709551616"
  proof (rule ccontr)
    assume "\<not> ?thesis"
    then have big: "18446744073709551616 \<le> unat e + (unat B - 1)" using B by simp
    have Bm: "unat (B - 1) = unat B - 1" using B by (subst unat_sub) (simp_all add: word_le_nat_alt)
    have "e + B - 1 = e + (B - 1)" by simp
    then have "unat (e + B - 1) = (unat e + (unat B - 1)) mod 18446744073709551616"
      by (simp only: unat_word_ariths Bm) simp
    also have "\<dots> = unat e + (unat B - 1) - 18446744073709551616"
      using big B unat_u64_bound [of e] by (subst le_mod_geq) simp_all
    also have "\<dots> < unat B" using big B unat_u64_bound [of e] by linarith
    finally have "q = 0" using B by (simp add: q_def word_unat_eq_iff unat_div_word)
    then show False using b(1) assms(2) by simp
  qed
  have "unat (e + B - 1) = unat e + unat B - 1"
  proof -
    have e: "e + B - 1 = e + (B - 1)" by simp
    have "unat (B - 1) = unat B - 1" using B by (subst unat_sub) (simp_all add: word_le_nat_alt)
    then show ?thesis unfolding e using small B unat_plus_64 [of e "B - 1"] by simp
  qed
  then have "unat q = (unat e + unat B - 1) div unat B" by (simp add: q_def unat_div_word)
  moreover have "unat b = unat q * unat S" using b(1) quot_limit [OF S0 b(2)] by (simp add: unat_mult_64)
  ultimately show ?thesis using info Bn by (auto simp: blocks_size_def)
qed

definition tensor_ok :: "gguf_tensor \<Rightarrow> bool" where
  "tensor_ok t \<longleftrightarrow> length (ts_dim t) = unat (ts_ndim t) \<and> unat (ts_elements t) = prod_list (map unat (ts_dim t))
     \<and> ts_bytes t = (case tensor_nbytes (ts_type t) (ts_elements t) of None \<Rightarrow> 0 | Some b \<Rightarrow> b)"

lemma tensor_ok_size:
  "tensor_ok t \<Longrightarrow> ts_bytes t \<noteq> 0 \<Longrightarrow>
     \<exists>info. tensor_type (ts_type t) = Some info \<and> unat (ts_bytes t) = blocks_size info (prod_list (map unat (ts_dim t)))"
  using tensor_nbytes_exact by (fastforce simp: tensor_ok_def split: option.splits)

text \<open>The general rule for a loop of steps.\<close>

lemma repeat_step_invariant:
  assumes "repeat_step n f s = Inr s'" "P s" "\<And>s s'. P s \<Longrightarrow> f s = Inr s' \<Longrightarrow> P s'"
  shows "P s'"
  using assms(1,2) by (induction n arbitrary: s) (auto simp: and_then_Inr dest: assms(3))

lemma parse_dims_ok:
  assumes "repeat_step n parse_dim (t, c) = Inr (t', c')"
    "unat (ts_elements t) = prod_list (map unat (ts_dim t))"
  shows "length (ts_dim t') = length (ts_dim t) + n \<and> unat (ts_elements t') = prod_list (map unat (ts_dim t'))
    \<and> ts_ndim t' = ts_ndim t"
  using assms
proof (induction n arbitrary: t c)
  case (Suc n)
  obtain t1 c1 where s: "parse_dim (t, c) = Inr (t1, c1)" "repeat_step n parse_dim (t1, c1) = Inr (t', c')"
    using Suc.prems(1) by (auto simp: and_then_Inr)
  obtain d where d: "d = 0 \<or> \<not> - 1 div d < ts_elements t" "t1 = t\<lparr>ts_dim := ts_dim t @ [d], ts_elements := ts_elements t * d\<rparr>"
    using s(1) by (auto simp: parse_dim_def and_then_Inr split: if_splits)
  have "unat (ts_elements t * d) = unat (ts_elements t) * unat d"
    using d(1) quot_limit [of d "ts_elements t"] by (cases "d = 0") (simp_all add: unat_mult_64)
  then have "unat (ts_elements t1) = prod_list (map unat (ts_dim t1))" using d(2) Suc.prems(2) by simp
  from Suc.IH [OF s(2) this] show ?case using d(2) by simp
qed simp

lemma parse_tensor_ok:
  assumes "parse_tensor (m, c) = Inr (m', c')" "\<forall>t \<in> set (mo_tensors m). tensor_ok t"
  shows "(\<forall>t \<in> set (mo_tensors m'). tensor_ok t) \<and> (\<exists>ts. m' = m\<lparr>mo_tensors := ts\<rparr>)"
proof -
  from assms(1) obtain name ndim c1 t c2 ty off where
      d: "repeat_step (unat ndim) parse_dim (zero_tensor\<lparr>ts_name := name, ts_ndim := ndim, ts_elements := 1\<rparr>, c1) = Inr (t, c2)"
      "m' = m\<lparr>mo_tensors := mo_tensors m @
             [t\<lparr>ts_type := ty, ts_rel_offset := off,
                ts_bytes := (case tensor_nbytes ty (ts_elements t) of None \<Rightarrow> 0 | Some b \<Rightarrow> b)\<rparr>]\<rparr>"
    by (auto simp: parse_tensor_def and_then_Inr split: if_splits)
  have "tensor_ok (t\<lparr>ts_type := ty, ts_rel_offset := off, ts_bytes := (case tensor_nbytes ty (ts_elements t) of None \<Rightarrow> 0 | Some b \<Rightarrow> b)\<rparr>)"
    using parse_dims_ok [OF d(1)] by (simp add: tensor_ok_def zero_tensor_def)
  then show ?thesis using d(2) assms(2) by auto
qed

lemma pick_alignment_frame: "\<exists>a. pick_alignment kv m = m\<lparr>mo_alignment := a\<rparr>"
proof -
  have "\<exists>a. m = m\<lparr>mo_alignment := a\<rparr>" by (rule exI [of _ "mo_alignment m"]) simp
  then show ?thesis by (auto simp: pick_alignment_def split: sum.splits)
qed

lemma parse_kv_frame:
  assumes "parse_kv (m, c) = Inr (m', c')"
  shows "\<exists>kvs a. m' = m\<lparr>mo_kv := kvs, mo_alignment := a\<rparr>"
proof -
  obtain kv where "m' = pick_alignment kv (m\<lparr>mo_kv := mo_kv m @ [kv]\<rparr>)"
    using assms by (auto simp: parse_kv_def and_then_Inr Let_def)
  then show ?thesis using pick_alignment_frame [of kv "m\<lparr>mo_kv := mo_kv m @ [kv]\<rparr>"] by auto
qed

lemma place_tensors_ok:
  assumes "place_tensors m ts = Inr ts'" "\<forall>t \<in> set ts. tensor_ok t"
  shows "\<forall>t \<in> set ts'. tensor_ok t \<and> (ts_bytes t \<noteq> 0 \<longrightarrow> unat (ts_abs_offset t) + unat (ts_bytes t) \<le> unat (mo_size m))"
  using assms
proof (induction ts arbitrary: ts')
  case (Cons t ts)
  define off where "off = mo_tensor_data_pos m + ts_rel_offset t"
  obtain ts1 where ts1: "place_tensors m ts = Inr ts1" "ts' = t\<lparr>ts_abs_offset := off\<rparr> # ts1"
    using Cons.prems(1) by (auto simp: and_then_Inr Let_def off_def split: if_splits)
  have b: "ts_bytes t = 0 \<or> \<not> (mo_size m < off \<or> mo_size m - off < ts_bytes t)"
    using Cons.prems(1) by (auto simp: Let_def off_def split: if_splits)
  have "unat off + unat (ts_bytes t) \<le> unat (mo_size m)" if "ts_bytes t \<noteq> 0"
    using b that by (auto simp: not_less word_le_nat_alt unat_sub)
  moreover have "tensor_ok (t\<lparr>ts_abs_offset := off\<rparr>)" using Cons.prems(2) by (simp add: tensor_ok_def)
  ultimately show ?case using Cons.IH [OF ts1(1)] Cons.prems(2) ts1(2) by auto
qed simp

lemma directory_frame:
  assumes "repeat_step n parse_kv (m, c) = Inr (m', c')"
  shows "\<exists>kvs a. m' = m\<lparr>mo_kv := kvs, mo_alignment := a\<rparr>"
proof -
  have start: "\<exists>kvs a. fst (m, c) = m\<lparr>mo_kv := kvs, mo_alignment := a\<rparr>"
    by (intro exI [of _ "mo_kv m"] exI [of _ "mo_alignment m"]) simp
  have step: "\<exists>kvs a. fst s' = m\<lparr>mo_kv := kvs, mo_alignment := a\<rparr>"
    if s: "\<exists>kvs a. fst s = m\<lparr>mo_kv := kvs, mo_alignment := a\<rparr>" "parse_kv s = Inr s'" for s s'
  proof -
    obtain kvs a where 1: "fst s = m\<lparr>mo_kv := kvs, mo_alignment := a\<rparr>" using s(1) by blast
    have "parse_kv (fst s, snd s) = Inr (fst s', snd s')" using s(2) by simp
    then obtain kvs' a' where "fst s' = (fst s)\<lparr>mo_kv := kvs', mo_alignment := a'\<rparr>" using parse_kv_frame by blast
    then have "fst s' = m\<lparr>mo_kv := kvs', mo_alignment := a'\<rparr>" using 1 by simp
    then show ?thesis by blast
  qed
  have "\<exists>kvs a. fst (m', c') = m\<lparr>mo_kv := kvs, mo_alignment := a\<rparr>"
    using repeat_step_invariant [where P = "\<lambda>s. \<exists>kvs a. fst s = m\<lparr>mo_kv := kvs, mo_alignment := a\<rparr>", OF assms start] step
    by blast
  then show ?thesis by simp
qed

lemma parse_tensors_frame:
  assumes "repeat_step n parse_tensor (m, c) = Inr (m', c')" "mo_tensors m = []"
  shows "(\<forall>t \<in> set (mo_tensors m'). tensor_ok t) \<and> mo_map m' = mo_map m \<and> mo_size m' = mo_size m
    \<and> mo_ngram_tensor m' = mo_ngram_tensor m"
proof -
  let ?P = "\<lambda>s. (\<forall>t \<in> set (mo_tensors (fst s)). tensor_ok t) \<and> mo_map (fst s) = mo_map m \<and> mo_size (fst s) = mo_size m
    \<and> mo_ngram_tensor (fst s) = mo_ngram_tensor m"
  have start: "?P (m, c)" using assms(2) by simp
  have step: "?P s'" if "?P s" "parse_tensor s = Inr s'" for s s'
  proof -
    have "parse_tensor (fst s, snd s) = Inr (fst s', snd s')" using that(2) by simp
    from parse_tensor_ok [OF this] that(1) show ?thesis by auto
  qed
  have "?P (m', c')" using repeat_step_invariant [where P = ?P, OF assms(1) start] step by blast
  then show ?thesis by simp
qed

text \<open>After the directory: sizes are exact, and what has a size lies inside the file.\<close>

lemma model_directory_ok:
  assumes "model_directory file = Inr m" "length file < 2 ^ 63"
  shows "mo_map m = file" "unat (mo_size m) = length file" "mo_ngram_tensor m = None"
    "\<forall>t \<in> set (mo_tensors m). tensor_ok t \<and> (ts_bytes t \<noteq> 0 \<longrightarrow> unat (ts_abs_offset t) + unat (ts_bytes t) \<le> length file)"
proof -
  from assms(1) obtain v nt nk c1 m1 c2 where 1:
      "parse_metadata ((mapped_model file)\<lparr>mo_version := v, mo_n_tensors := nt, mo_n_kv := nk\<rparr>) c1 = Inr (m1, c2)"
      "parse_tensors m1 c2 = Inr m"
    by (auto simp: model_directory_def and_then_Inr Let_def split: if_splits)
  obtain kvs a where m1: "m1 = (mapped_model file)\<lparr>mo_version := v, mo_n_tensors := nt, mo_n_kv := nk, mo_kv := kvs, mo_alignment := a\<rparr>"
  proof -
    obtain kvs a where "m1 = (mapped_model file)\<lparr>mo_version := v, mo_n_tensors := nt, mo_n_kv := nk\<rparr>\<lparr>mo_alignment := 32\<rparr>\<lparr>mo_kv := kvs, mo_alignment := a\<rparr>"
      using directory_frame 1(1) by (fastforce simp: parse_metadata_def split: if_splits)
    then show thesis using that by simp
  qed
  obtain m2 c3 ts where 2: "repeat_step (unat nt) parse_tensor (m1, c2) = Inr (m2, c3)"
      "place_tensors (m2\<lparr>mo_tensor_data_pos := align_up (cu_pos c3) (mo_alignment m2)\<rparr>) (mo_tensors m2) = Inr ts"
      "m = m2\<lparr>mo_tensor_data_pos := align_up (cu_pos c3) (mo_alignment m2), mo_tensors := ts,
             mo_max_tensor_bytes := fold (\<lambda>t. max (ts_bytes t)) ts (mo_max_tensor_bytes m2)\<rparr>"
    using 1(2) m1 by (auto simp: parse_tensors_def and_then_Inr Let_def split: if_splits)
  have 3: "(\<forall>t \<in> set (mo_tensors m2). tensor_ok t) \<and> mo_map m2 = mo_map m1 \<and> mo_size m2 = mo_size m1
    \<and> mo_ngram_tensor m2 = mo_ngram_tensor m1"
    by (rule parse_tensors_frame [OF 2(1)]) (simp add: m1 mapped_model_def)
  have sz: "unat (of_nat (length file) :: u64) = length file" using assms(2) by (simp add: unat_of_nat)
  show "mo_map m = file" "unat (mo_size m) = length file" "mo_ngram_tensor m = None"
    using 2(3) 3 m1 sz by (simp_all add: mapped_model_def)
  show "\<forall>t \<in> set (mo_tensors m). tensor_ok t \<and> (ts_bytes t \<noteq> 0 \<longrightarrow> unat (ts_abs_offset t) + unat (ts_bytes t) \<le> length file)"
    using place_tensors_ok [OF 2(2)] 2(3) 3 m1 sz by (simp add: mapped_model_def)
qed

subsection \<open>The tables that stay on the disk\<close>

lemma word_plus_le: "unat a + unat b \<le> n \<Longrightarrow> n < 18446744073709551616 \<Longrightarrow> unat (a + b :: u64) = unat a + unat b"
  by (rule unat_plus_64) simp

lemma ngram_scan_sound:
  assumes "ngram_scan ts tab acc = Inr (tab', e, mx)" "n < 18446744073709551616"
    "\<forall>t \<in> set ts. ts_bytes t \<noteq> 0 \<longrightarrow> unat (ts_abs_offset t) + unat (ts_bytes t) \<le> n"
  shows "unat (fst acc) \<le> unat e
    \<and> (\<forall>t \<in> set ts. if ngram_table t then tab' = Some t \<and> \<not> ngram_invalid t
         else ts_bytes t \<noteq> 0 \<and> unat (ts_abs_offset t) + unat (ts_bytes t) \<le> unat e)
    \<and> (tab \<noteq> None \<longrightarrow> tab' = tab) \<and> (tab = None \<longrightarrow> tab' = None \<or> (\<exists>t \<in> set ts. ngram_table t \<and> tab' = Some t))"
  using assms
proof (induction ts arbitrary: tab acc)
  case (Cons t ts)
  have nx: "\<forall>t \<in> set ts. ts_bytes t \<noteq> 0 \<longrightarrow> unat (ts_abs_offset t) + unat (ts_bytes t) \<le> n" using Cons.prems(3) by simp
  show ?case
  proof (cases "ngram_table t")
    case True
    then have "tab = None" "\<not> ngram_invalid t" "ngram_scan ts (Some t) acc = Inr (tab', e, mx)"
      using Cons.prems(1) by (auto split: if_splits)
    with Cons.IH [OF this(3) assms(2) nx] True show ?thesis by auto
  next
    case False
    then have b: "ts_bytes t \<noteq> 0" "ngram_scan ts tab (resident t acc) = Inr (tab', e, mx)"
      using Cons.prems(1) by (auto split: if_splits)
    obtain re mb where acc: "acc = (re, mb)" by (cases acc)
    have "unat (ts_abs_offset t + ts_bytes t) = unat (ts_abs_offset t) + unat (ts_bytes t)"
      using word_plus_le [OF _ assms(2)] Cons.prems(3) b(1) by simp
    then have "unat (ts_abs_offset t) + unat (ts_bytes t) \<le> unat (fst (resident t acc))" "unat (fst acc) \<le> unat (fst (resident t acc))"
      by (auto simp: resident_def acc word_less_nat_alt)
    with Cons.IH [OF b(2) assms(2) nx] False b(1) show ?thesis by auto
  qed
qed auto

lemma tensor_data_inside:
  assumes "unat (ts_abs_offset t) + unat (ts_bytes t) \<le> unat (mo_size m)"
  shows "tensor_data m t = Some (take (unat (ts_bytes t)) (drop (unat (ts_abs_offset t)) (mo_map m)))"
proof -
  have a: "\<not> mo_size m < ts_abs_offset t" using assms by (simp add: word_less_nat_alt)
  then have "\<not> mo_size m - ts_abs_offset t < ts_bytes t"
    using assms by (simp add: not_less word_le_nat_alt unat_sub)
  with a show ?thesis by (simp add: tensor_data_def)
qed

lemma take_drop_take: "k + n \<le> s \<Longrightarrow> take n (drop k (take s xs)) = take n (drop k xs)"
  by (simp add: drop_take min_def)

lemma unmap_qwen_ok:
  assumes "model_unmap_qwen_ngrams page same_file m = Inr m'" "model_get_string m ''general.architecture'' = Some a"
    "ds4_streq a ''qwen4exp''" "mo_map m = file" "unat (mo_size m) = length file" "mo_ngram_tensor m = None"
    "\<forall>t \<in> set (mo_tensors m). tensor_ok t \<and> (ts_bytes t \<noteq> 0 \<longrightarrow> unat (ts_abs_offset t) + unat (ts_bytes t) \<le> length file)"
  shows "mo_tensors m' = mo_tensors m
    \<and> (\<forall>t \<in> set (mo_tensors m). if ngram_table t
         then mo_ngram_tensor m' = Some t \<and> \<not> ngram_invalid t \<and> ts_abs_offset t = mo_size m'
         else ts_bytes t \<noteq> 0 \<and> tensor_data m' t = Some (take (unat (ts_bytes t)) (drop (unat (ts_abs_offset t)) file)))"
proof -
  obtain tab e mx where s: "ngram_scan (mo_tensors m) None (mo_tensor_data_pos m, 0) = Inr (tab, e, mx)"
    "m' = (case tab of None \<Rightarrow> m\<lparr>mo_max_tensor_bytes := mx\<rparr>
      | Some t \<Rightarrow> (cut_mapping (ts_abs_offset t) (m\<lparr>mo_max_tensor_bytes := mx\<rparr>))\<lparr>mo_ngram_tensor := Some t\<rparr>)"
    "case tab of None \<Rightarrow> True | Some t \<Rightarrow> \<not> ts_abs_offset t < e"
  proof -
    obtain tab e mx where s: "ngram_scan (mo_tensors m) None (mo_tensor_data_pos m, 0) = Inr (tab, e, mx)"
      "(case tab of None \<Rightarrow> Inr (m\<lparr>mo_max_tensor_bytes := mx\<rparr>)
        | Some t \<Rightarrow> if page = 0 \<or> ts_abs_offset t mod page \<noteq> 0 \<or> ts_abs_offset t < e then Inl Ngram_layout
            else if \<not> same_file then Inl Ngram_changed
            else Inr ((cut_mapping (ts_abs_offset t) (m\<lparr>mo_max_tensor_bytes := mx\<rparr>))\<lparr>mo_ngram_tensor := Some t\<rparr>)) = Inr m'"
      using assms(1-3) by (auto simp: model_unmap_qwen_ngrams_def and_then_Inr Let_def)
    show thesis by (rule that [OF s(1)]) (use s(2) in \<open>auto split: option.splits if_splits\<close>)
  qed
  have len: "length file < 18446744073709551616" using assms(5) unat_u64_bound [of "mo_size m"] by simp
  note sc = ngram_scan_sound [OF s(1) len]
  have sc': "\<forall>t \<in> set (mo_tensors m). if ngram_table t then tab = Some t \<and> \<not> ngram_invalid t
         else ts_bytes t \<noteq> 0 \<and> unat (ts_abs_offset t) + unat (ts_bytes t) \<le> unat e"
    using sc assms(7) by blast
  show ?thesis
  proof (cases tab)
    case None
    then have "\<forall>t \<in> set (mo_tensors m). \<not> ngram_table t \<and> ts_bytes t \<noteq> 0"
      using sc' unfolding None by (auto split: if_splits)
    moreover have "mo_map m' = file" "unat (mo_size m') = length file" "mo_tensors m' = mo_tensors m"
      using s(2) None assms(4,5) by simp_all
    ultimately show ?thesis using tensor_data_inside [of _ m'] assms(7) by auto
  next
    case (Some t0)
    then have m': "mo_map m' = take (unat (ts_abs_offset t0)) file" "mo_size m' = ts_abs_offset t0" "mo_tensors m' = mo_tensors m"
      "mo_ngram_tensor m' = Some t0" "unat e \<le> unat (ts_abs_offset t0)"
      using s(2,3) assms(4) by (simp_all add: cut_mapping_def word_less_nat_alt not_less)
    have "tensor_data m' t = Some (take (unat (ts_bytes t)) (drop (unat (ts_abs_offset t)) file))"
      if "unat (ts_abs_offset t) + unat (ts_bytes t) \<le> unat e" for t
      using that m' tensor_data_inside [of t m'] take_drop_take [of "unat (ts_abs_offset t)" "unat (ts_bytes t)" "unat (ts_abs_offset t0)" "file"] by simp
    then show ?thesis using sc' m' Some by auto
  qed
qed

lemma ngram_bytes:
  assumes "tensor_ok t" "\<not> ngram_invalid t"
  shows "unat (ts_bytes t) = 2 * unat (ts_dim t ! 0) * unat (ts_dim t ! 1)"
proof -
  have i: "ts_type t = 30" "ts_ndim t = 2" "ts_dim t ! 0 \<le> 160" "ts_dim t ! 1 \<le> 0xFFFFFFFF"
    using assms(2) by (simp_all add: ngram_invalid_def DS4_TENSOR_BF16_def not_less)
  have "length (ts_dim t) = 2" using assms(1) i(2) by (simp add: tensor_ok_def)
  then obtain d0 d1 where d: "ts_dim t = [d0, d1]" by (auto simp: length_Suc_conv numeral_2_eq_2)
  have dn: "unat d0 \<le> 160" "unat d1 \<le> 4294967295" using i(3,4) d by (simp_all add: word_le_nat_alt)
  then have pr: "unat d0 * unat d1 \<le> 160 * 4294967295" by (rule mult_le_mono)
  have e: "unat (ts_elements t) = unat d0 * unat d1" using assms(1) d by (simp add: tensor_ok_def)
  have ty: "tensor_type 30 = Some (type_info ''bf16'' 1 2)" by (simp add: tensor_type_def gguf_types_def)
  have m: "- 1 div 2 = (9223372036854775807 :: u64)" by simp
  have "\<not> (9223372036854775807 :: u64) < ts_elements t" using e pr by (simp add: word_less_nat_alt)
  then have "ts_bytes t = ts_elements t * 2"
    using assms(1) i(1) ty m by (simp add: tensor_ok_def tensor_nbytes_def type_info_def)
  then show ?thesis using e pr d by (simp add: unat_mult_64)
qed

lemma streq_qwen: "ds4_streq a ''qwen4exp'' \<Longrightarrow> \<not> ds4_streq a ''deepseek41''"
  by (auto simp: ds4_streq_def)

lemma open_qwen:
  assumes "model_open page same_file file = Inr m" "model_directory file = Inr m0"
    "model_get_string m0 ''general.architecture'' = Some a" "ds4_streq a ''qwen4exp''"
  shows "model_unmap_qwen_ngrams page same_file m0 = Inr m"
  using assms streq_qwen [OF assms(4)] by (simp add: model_open_def model_unmap_engram_def)

lemma open_qwen_bounds:
  assumes "model_open page same_file file = Inr m" "length file < 2 ^ 63" "model_directory file = Inr m0"
    "model_get_string m0 ''general.architecture'' = Some a" "ds4_streq a ''qwen4exp''"
    "t \<in> set (mo_tensors m)"
  shows "if ngram_table t then mo_ngram_tensor m = Some t \<and> \<not> ngram_invalid t \<and> ts_abs_offset t = mo_size m
       \<and> unat (ts_abs_offset t) + 2 * unat (ts_dim t ! 0) * unat (ts_dim t ! 1) \<le> length file
     else \<exists>info. tensor_type (ts_type t) = Some info
       \<and> unat (ts_abs_offset t) + blocks_size info (prod_list (map unat (ts_dim t))) \<le> length file
       \<and> tensor_data m t = Some (take (blocks_size info (prod_list (map unat (ts_dim t)))) (drop (unat (ts_abs_offset t)) file))"
proof -
  note d = model_directory_ok [OF assms(3,2)]
  from unmap_qwen_ok [OF open_qwen [OF assms(1,3,4,5)] assms(4,5) d]
  have u: "mo_tensors m = mo_tensors m0"
    "\<forall>t \<in> set (mo_tensors m0). if ngram_table t
         then mo_ngram_tensor m = Some t \<and> \<not> ngram_invalid t \<and> ts_abs_offset t = mo_size m
         else ts_bytes t \<noteq> 0 \<and> tensor_data m t = Some (take (unat (ts_bytes t)) (drop (unat (ts_abs_offset t)) file))"
    by blast+
  have t0: "t \<in> set (mo_tensors m0)" using assms(6) u(1) by simp
  then have ok: "tensor_ok t" "ts_bytes t \<noteq> 0 \<longrightarrow> unat (ts_abs_offset t) + unat (ts_bytes t) \<le> length file" using d(4) by auto
  show ?thesis
  proof (cases "ngram_table t")
    case True
    then have i: "mo_ngram_tensor m = Some t" "\<not> ngram_invalid t" "ts_abs_offset t = mo_size m" using u(2) t0 by auto
    note b = ngram_bytes [OF ok(1) i(2)]
    have "ts_dim t ! 0 \<noteq> 0" "ts_dim t ! 1 \<noteq> 0" using i(2) by (auto simp: ngram_invalid_def)
    then have "unat (ts_bytes t) \<noteq> 0" unfolding b by (simp add: unat_eq_0)
    then have "ts_bytes t \<noteq> 0" by auto
    then show ?thesis using True i ok(2) b by simp
  next
    case False
    then have b: "ts_bytes t \<noteq> 0" "tensor_data m t = Some (take (unat (ts_bytes t)) (drop (unat (ts_abs_offset t)) file))"
      using u(2) t0 by auto
    from tensor_ok_size [OF ok(1) b(1)] obtain info where
      "tensor_type (ts_type t) = Some info" "unat (ts_bytes t) = blocks_size info (prod_list (map unat (ts_dim t)))" by blast
    then show ?thesis using False b ok(2) by auto
  qed
qed

subsection \<open>Writing a model file\<close>

text \<open>The format: a metadata value is a scalar, a string or an array of values of one type.\<close>

datatype gval = GScalar u32 bytes | GString bytes | GArray u32 "gval list"

fun gval_type :: "gval \<Rightarrow> u32" where
  "gval_type (GScalar t b) = t"
| "gval_type (GString b) = GGUF_VALUE_STRING"
| "gval_type (GArray t vs) = GGUF_VALUE_ARRAY"

definition put_string :: "bytes \<Rightarrow> bytes" where
  "put_string b = kv_le_put64 (of_nat (length b)) @ b"

fun gval_bytes :: "gval \<Rightarrow> bytes" where
  "gval_bytes (GScalar t b) = b"
| "gval_bytes (GString b) = put_string b"
| "gval_bytes (GArray t vs) = ds4_kvstore_le_put32 t @ kv_le_put64 (of_nat (length vs)) @ concat (map gval_bytes vs)"

fun gval_ok :: "nat \<Rightarrow> gval \<Rightarrow> bool" where
  "gval_ok d (GScalar t b) \<longleftrightarrow> d \<le> 8 \<and> scalar_value_size t \<noteq> 0 \<and> length b = unat (scalar_value_size t)"
| "gval_ok d (GString b) \<longleftrightarrow> d \<le> 8"
| "gval_ok d (GArray t vs) \<longleftrightarrow> d \<le> 8 \<and> length vs < 2 ^ 60 \<and> (\<forall>v \<in> set vs. gval_type v = t \<and> gval_ok (Suc d) v)"

text \<open>A tensor as the format has it: name, dimensions, type and offset into the data.\<close>

record gtensor =
  gt_name :: bytes
  gt_dims :: "u64 list"
  gt_type :: u32
  gt_offset :: u64

definition put_kv :: "bytes \<times> gval \<Rightarrow> bytes" where
  "put_kv kv = put_string (fst kv) @ ds4_kvstore_le_put32 (gval_type (snd kv)) @ gval_bytes (snd kv)"

definition put_tensor :: "gtensor \<Rightarrow> bytes" where
  "put_tensor t = put_string (gt_name t) @ ds4_kvstore_le_put32 (of_nat (length (gt_dims t))) @ concat (map kv_le_put64 (gt_dims t))
     @ ds4_kvstore_le_put32 (gt_type t) @ kv_le_put64 (gt_offset t)"

definition put_gguf :: "(bytes \<times> gval) list \<Rightarrow> gtensor list \<Rightarrow> bytes" where
  "put_gguf kvs ts =
     ds4_kvstore_le_put32 DS4_GGUF_MAGIC @ ds4_kvstore_le_put32 3 @ kv_le_put64 (of_nat (length ts)) @ kv_le_put64 (of_nat (length kvs))
     @ concat (map put_kv kvs) @ concat (map put_tensor ts)"

subsection \<open>Reading what was written\<close>

text \<open>A cursor stands before \<open>s\<close>.\<close>

definition stands :: "cursor \<Rightarrow> bytes \<Rightarrow> bool" where
  "stands c s \<longleftrightarrow> length (cu_base c) = unat (cu_size c) \<and> unat (cu_pos c) \<le> unat (cu_size c)
     \<and> drop (unat (cu_pos c)) (cu_base c) = s"

definition adv :: "nat \<Rightarrow> cursor \<Rightarrow> cursor" where
  "adv n c = c\<lparr>cu_pos := cu_pos c + of_nat n\<rparr>"

lemma adv_add [simp]: "adv b (adv a c) = adv (a + b) c"
  by (simp add: adv_def add.assoc)

lemma adv_0 [simp]: "adv 0 c = c"
  by (simp add: adv_def)

lemma stands_has:
  assumes "stands c (x @ y)" "length x = n"
  shows "cursor_has c (of_nat n)" "unat (of_nat n :: u64) = n" "stands (adv n c) y"
    "take n (drop (unat (cu_pos c)) (cu_base c)) = x"
proof -
  have len: "n + unat (cu_pos c) \<le> unat (cu_size c)"
  proof -
    have "length (cu_base c) = unat (cu_size c)" "unat (cu_pos c) \<le> unat (cu_size c)" "drop (unat (cu_pos c)) (cu_base c) = x @ y"
      using assms(1) by (simp_all add: stands_def)
    moreover from this(3) have "length (cu_base c) - unat (cu_pos c) = n + length y"
      using assms(2) by (metis length_append length_drop)
    ultimately show ?thesis by linarith
  qed
  show n: "unat (of_nat n :: u64) = n" using len unat_u64_bound [of "cu_size c"] by (simp add: unat_of_nat)
  have le: "of_nat n \<le> cu_size c" using len n by (simp add: word_le_nat_alt)
  have "unat (cu_size c - of_nat n) = unat (cu_size c) - n" using le n by (simp add: unat_sub)
  then show "cursor_has c (of_nat n)" using le len by (simp add: cursor_has_def not_less word_le_nat_alt)
  have "unat (cu_pos c + of_nat n) = unat (cu_pos c) + n"
    using len n unat_u64_bound [of "cu_size c"] by (subst unat_plus_64) simp_all
  moreover have "drop (n + unat (cu_pos c)) (cu_base c) = y"
  proof -
    have "drop (n + unat (cu_pos c)) (cu_base c) = drop n (drop (unat (cu_pos c)) (cu_base c))" by simp
    then show ?thesis using assms by (simp only: stands_def) simp
  qed
  ultimately show "stands (adv n c) y" using assms len by (simp add: stands_def adv_def add.commute)
  show "take n (drop (unat (cu_pos c)) (cu_base c)) = x" using assms by (simp add: stands_def)
qed

lemma read_stands: "stands c (x @ y) \<Longrightarrow> length x = n \<Longrightarrow> cursor_read c (of_nat n) = Inr (x, adv n c)"
  using stands_has [of c x y n] by (simp add: cursor_read_def adv_def)

lemma skip_stands: "stands c (x @ y) \<Longrightarrow> length x = n \<Longrightarrow> cursor_skip c (of_nat n) = Inr (adv n c)"
  using stands_has [of c x y n] by (simp add: cursor_skip_def adv_def)

lemma u32_stands: "stands c (ds4_kvstore_le_put32 v @ y) \<Longrightarrow> cursor_u32 c = Inr (v, adv 4 c)"
  using read_stands [of c "ds4_kvstore_le_put32 v" y 4] by (simp add: cursor_u32_def)

lemma length_put64 [simp]: "length (kv_le_put64 v) = 8"
  by (simp add: kv_le_put64_def)

lemma u64_stands: "stands c (kv_le_put64 v @ y) \<Longrightarrow> cursor_u64 c = Inr (v, adv 8 c)"
  using read_stands [of c "kv_le_put64 v" y 8] by (simp add: cursor_u64_def)

lemma stands_adv: "stands c (x @ y) \<Longrightarrow> length x = n \<Longrightarrow> stands (adv n c) y"
  by (rule stands_has(3))

lemma length_put_string [simp]: "length (put_string b) = 8 + length b"
  by (simp add: put_string_def)

lemma string_stands:
  assumes "stands c (put_string b @ y)"
  shows "cursor_string c = Inr (b, adv (8 + length b) c)"
proof -
  have s: "stands c (kv_le_put64 (of_nat (length b)) @ b @ y)" using assms by (simp add: put_string_def)
  have s8: "stands (adv 8 c) (b @ y)" by (rule stands_adv [OF s]) simp
  note h = stands_has [OF s8 refl]
  show ?thesis using u64_stands [OF s] h by (simp add: cursor_string_def adv_def add.assoc)
qed

lemma repeat_stands:
  assumes "\<And>v c y. v \<in> set vs \<Longrightarrow> stands c (g v @ y) \<Longrightarrow> f c = Inr (adv (length (g v)) c)"
    and "stands c (concat (map g vs) @ y)"
  shows "repeat_step (length vs) f c = Inr (adv (length (concat (map g vs))) c)"
  using assms
proof (induction vs arbitrary: c)
  case (Cons v vs)
  have s: "stands c (g v @ concat (map g vs) @ y)" using Cons.prems(2) by simp
  have "stands (adv (length (g v)) c) (concat (map g vs) @ y)" by (rule stands_adv [OF s refl])
  then have "repeat_step (length vs) f (adv (length (g v)) c) = Inr (adv (length (concat (map g vs))) (adv (length (g v)) c))"
    using Cons.IH Cons.prems(1) by simp
  then show ?case using Cons.prems(1) [OF _ s] by simp
qed simp

lemma scalar_sizes: "unat (scalar_value_size t) \<le> 8"
  by (simp add: scalar_value_size_def)

lemma not_scalar [simp]: "scalar_value_size GGUF_VALUE_STRING = 0" "scalar_value_size GGUF_VALUE_ARRAY = 0"
  by (simp_all add: scalar_value_size_def GGUF_VALUE_STRING_def GGUF_VALUE_ARRAY_def GGUF_VALUE_UINT32_def
      GGUF_VALUE_INT32_def GGUF_VALUE_UINT64_def GGUF_VALUE_INT64_def)

lemma array_not_string [simp]: "GGUF_VALUE_ARRAY \<noteq> GGUF_VALUE_STRING"
  by (simp add: GGUF_VALUE_STRING_def GGUF_VALUE_ARRAY_def)

lemma scalar_item:
  "gval_type v = t \<Longrightarrow> scalar_value_size t \<noteq> 0 \<Longrightarrow> gval_ok d v \<Longrightarrow> length (gval_bytes v) = unat (scalar_value_size t)"
  by (cases v) auto

lemma concat_same_length: "(\<forall>v \<in> set vs. length (g v) = k) \<Longrightarrow> length (concat (map g vs)) = length vs * k"
  by (induction vs) auto

lemma skip_value_stands:
  "gval_ok d v \<Longrightarrow> stands c (gval_bytes v @ y) \<Longrightarrow> skip_value (gval_type v) d c = Inr (adv (length (gval_bytes v)) c)"
proof (induction v arbitrary: d c y)
  case (GScalar t b)
  have "length b = unat (scalar_value_size t)" "scalar_value_size t \<noteq> 0" "d \<le> 8" using GScalar.prems(1) by simp_all
  then show ?case using skip_stands [of c b y "length b"] GScalar.prems(2)
    by (simp add: skip_value.simps Let_def)
next
  case (GString b)
  then show ?case using string_stands [of c b y]
    by (simp add: skip_value.simps Let_def)
next
  case (GArray t vs)
  have ok: "d \<le> 8" "length vs < 2 ^ 60" "\<forall>v \<in> set vs. gval_type v = t \<and> gval_ok (Suc d) v" using GArray.prems(1) by simp_all
  have s: "stands c (ds4_kvstore_le_put32 t @ kv_le_put64 (of_nat (length vs)) @ concat (map gval_bytes vs) @ y)"
    using GArray.prems(2) by simp
  have s4: "stands (adv 4 c) (kv_le_put64 (of_nat (length vs)) @ concat (map gval_bytes vs) @ y)"
    by (rule stands_adv [OF s]) simp
  have s12: "stands (adv 12 c) (concat (map gval_bytes vs) @ y)" using stands_adv [OF s4, of 8] by simp
  have len: "unat (of_nat (length vs) :: u64) = length vs" using ok(2) by (simp add: unat_of_nat)
  note head = u32_stands [OF s] u64_stands [OF s4]
  show ?case
  proof (cases "scalar_value_size t = 0")
    case True
    have "repeat_step (length vs) (skip_value t (d + 1)) (adv 12 c) = Inr (adv (length (concat (map gval_bytes vs))) (adv 12 c))"
      by (rule repeat_stands [OF _ s12]) (use GArray.IH ok(3) in fastforce)
    then show ?thesis using True head ok(1) len by (simp add: skip_value.simps [of GGUF_VALUE_ARRAY d] Let_def)
  next
    case False
    have total: "length (concat (map gval_bytes vs)) = length vs * unat (scalar_value_size t)"
      by (rule concat_same_length) (use ok(3) scalar_item False in blast)
    have small: "length vs * unat (scalar_value_size t) < 18446744073709551616"
    proof (rule le_less_trans)
      show "length vs * unat (scalar_value_size t) \<le> length vs * 8" by (rule mult_le_mono2) (rule scalar_sizes)
      show "length vs * 8 < 18446744073709551616" using ok(2) by simp
    qed
    then have eq: "of_nat (length vs) * scalar_value_size t = (of_nat (length vs * unat (scalar_value_size t)) :: u64)"
      by simp
    have "length vs \<le> 18446744073709551615 div unat (scalar_value_size t)"
    proof -
      have "0 < unat (scalar_value_size t)" using False by (simp add: unat_gt_0)
      then show ?thesis using small by (simp add: less_eq_div_iff_mult_less_eq)
    qed
    moreover have "unat (- 1 :: u64) = 18446744073709551615" by (simp add: unsigned_minus_1_eq_mask mask_eq_exp_minus_1)
    ultimately have "\<not> - 1 div scalar_value_size t < (of_nat (length vs) :: u64)"
      using len by (simp add: not_less word_le_nat_alt unat_div_word)
    moreover have "cursor_skip (adv 12 c) (of_nat (length vs) * scalar_value_size t) = Inr (adv (length (concat (map gval_bytes vs))) (adv 12 c))"
      unfolding eq total [symmetric] by (rule skip_stands [OF s12 refl])
    ultimately show ?thesis using False head ok(1) len
      by (simp add: skip_value.simps [of GGUF_VALUE_ARRAY d] Let_def)
  qed
qed

text \<open>The alignment a metadata entry sets.\<close>

definition align_step :: "bytes \<times> gval \<Rightarrow> u64 \<Rightarrow> u64" where
  "align_step kv a =
     (case snd kv of
        GScalar t b \<Rightarrow>
          if ds4_streq (fst kv) ''general.alignment'' \<and> t = GGUF_VALUE_UINT32 \<and> ds4_kvstore_le_get32 b \<noteq> 0
          then ucast (ds4_kvstore_le_get32 b) else a
      | _ \<Rightarrow> a)"

text \<open>A table entry stands for a key with its value.\<close>

definition entry_reads :: "bytes \<Rightarrow> u64 \<Rightarrow> bytes \<times> gval \<Rightarrow> gguf_kv \<Rightarrow> bool" where
  "entry_reads base sz kv k \<longleftrightarrow> kv_key k = fst kv \<and> kv_type k = gval_type (snd kv)
     \<and> (\<exists>y. stands \<lparr>cu_base = base, cu_size = sz, cu_pos = kv_value_pos k\<rparr> (gval_bytes (snd kv) @ y))"

lemma uint32_scalar: "gval_type v = GGUF_VALUE_UINT32 \<Longrightarrow> gval_ok d v \<Longrightarrow> \<exists>b. v = GScalar GGUF_VALUE_UINT32 b \<and> length b = 4"
  by (cases v) (auto simp: GGUF_VALUE_UINT32_def GGUF_VALUE_STRING_def GGUF_VALUE_ARRAY_def scalar_value_size_def)

lemma length_gt_0_kv: "length (put_kv kv) = 12 + length (fst kv) + length (gval_bytes (snd kv))"
  by (simp add: put_kv_def)

lemma parse_kv_stands:
  assumes "stands c (put_kv kv @ y)" "gval_ok 0 (snd kv)" "cu_base c = mo_map m" "cu_size c = mo_size m"
  shows "\<exists>k. parse_kv (m, c) = Inr (m\<lparr>mo_kv := mo_kv m @ [k], mo_alignment := align_step kv (mo_alignment m)\<rparr>, adv (length (put_kv kv)) c)
    \<and> entry_reads (mo_map m) (mo_size m) kv k"
proof -
  obtain key v where kv: "kv = (key, v)" by (cases kv)
  have s: "stands c (put_string key @ ds4_kvstore_le_put32 (gval_type v) @ gval_bytes v @ y)" using assms(1) kv by (simp add: put_kv_def)
  let ?c1 = "adv (8 + length key) c" and ?c2 = "adv (12 + length key) c"
  have s1: "stands ?c1 (ds4_kvstore_le_put32 (gval_type v) @ gval_bytes v @ y)" by (rule stands_adv [OF s]) simp
  have s2: "stands ?c2 (gval_bytes v @ y)" using stands_adv [OF s1, of 4] by (simp add: add.commute)
  have ok: "gval_ok 0 v" using assms(2) kv by simp
  have c2: "cursor_at (m\<lparr>mo_kv := ks\<rparr>) (cu_pos ?c2) = ?c2" for ks using assms(3,4) by (simp add: cursor_at_def adv_def)
  define k where "k = \<lparr>kv_key = key, kv_type = gval_type v, kv_value_pos = cu_pos ?c2\<rparr>"
  let ?m = "m\<lparr>mo_kv := mo_kv m @ [k]\<rparr>"
  have al: "pick_alignment k ?m = m\<lparr>mo_kv := mo_kv m @ [k], mo_alignment := align_step kv (mo_alignment m)\<rparr>"
  proof (cases "gval_type v = GGUF_VALUE_UINT32")
    case True
    then obtain b where b: "v = GScalar GGUF_VALUE_UINT32 b" "length b = 4" using uint32_scalar ok by blast
    have "cursor_u32 ?c2 = Inr (ds4_kvstore_le_get32 b, adv 4 ?c2)"
      using read_stands [of ?c2 b y 4] s2 b by (simp add: cursor_u32_def)
    then show ?thesis using b kv c2 by (simp add: align_step_def pick_alignment_def k_def)
  next
    case False
    then show ?thesis using kv by (cases v) (auto simp: align_step_def pick_alignment_def k_def)
  qed
  have skip: "skip_value (gval_type v) 0 ?c2 = Inr (adv (length (gval_bytes v)) ?c2)" by (rule skip_value_stands [OF ok s2])
  have u: "cursor_u32 ?c1 = Inr (gval_type v, ?c2)" using u32_stands [OF s1] by (simp add: add.commute)
  have "parse_kv (m, c) = Inr (m\<lparr>mo_kv := mo_kv m @ [k], mo_alignment := align_step kv (mo_alignment m)\<rparr>, adv (length (put_kv kv)) c)"
    using string_stands [OF s] u skip al
    by (simp add: parse_kv_def Let_def k_def [symmetric] length_gt_0_kv kv)
  moreover have "entry_reads (mo_map m) (mo_size m) kv k"
  proof -
    have "\<lparr>cu_base = mo_map m, cu_size = mo_size m, cu_pos = kv_value_pos k\<rparr> = ?c2" using assms(3,4) by (simp add: k_def adv_def)
    then show ?thesis using s2 kv by (auto simp: entry_reads_def k_def)
  qed
  ultimately show ?thesis by blast
qed

lemma parse_kvs_stands:
  assumes "stands c (concat (map put_kv kvs) @ y)" "\<forall>kv \<in> set kvs. gval_ok 0 (snd kv)" "cu_base c = mo_map m" "cu_size c = mo_size m"
  shows "\<exists>ks. repeat_step (length kvs) parse_kv (m, c)
      = Inr (m\<lparr>mo_kv := mo_kv m @ ks, mo_alignment := fold align_step kvs (mo_alignment m)\<rparr>, adv (length (concat (map put_kv kvs))) c)
    \<and> list_all2 (entry_reads (mo_map m) (mo_size m)) kvs ks"
  using assms
proof (induction kvs arbitrary: m c)
  case (Cons kv kvs)
  have s: "stands c (put_kv kv @ concat (map put_kv kvs) @ y)" using Cons.prems(1) by simp
  obtain k where k: "parse_kv (m, c) = Inr (m\<lparr>mo_kv := mo_kv m @ [k], mo_alignment := align_step kv (mo_alignment m)\<rparr>, adv (length (put_kv kv)) c)"
      "entry_reads (mo_map m) (mo_size m) kv k"
    using parse_kv_stands [OF s _ Cons.prems(3,4)] Cons.prems(2) by auto
  let ?m = "m\<lparr>mo_kv := mo_kv m @ [k], mo_alignment := align_step kv (mo_alignment m)\<rparr>" and ?c = "adv (length (put_kv kv)) c"
  have s1: "stands ?c (concat (map put_kv kvs) @ y)" by (rule stands_adv [OF s refl])
  obtain ks where ks: "repeat_step (length kvs) parse_kv (?m, ?c)
      = Inr (?m\<lparr>mo_kv := mo_kv ?m @ ks, mo_alignment := fold align_step kvs (mo_alignment ?m)\<rparr>, adv (length (concat (map put_kv kvs))) ?c)"
      "list_all2 (entry_reads (mo_map ?m) (mo_size ?m)) kvs ks"
    using Cons.IH [OF s1, of ?m] Cons.prems by (auto simp: adv_def)
  show ?case using k ks by (intro exI [of _ "k # ks"]) simp
next
  case Nil
  then show ?case by (intro exI [of _ "[]"]) simp
qed

text \<open>The tensor a directory entry gives, before and after its place is known.\<close>

definition tensor_read :: "gtensor \<Rightarrow> gguf_tensor" where
  "tensor_read t = zero_tensor\<lparr>ts_name := gt_name t, ts_ndim := of_nat (length (gt_dims t)), ts_dim := gt_dims t,
     ts_elements := prod_list (gt_dims t), ts_type := gt_type t, ts_rel_offset := gt_offset t,
     ts_bytes := (case tensor_nbytes (gt_type t) (prod_list (gt_dims t)) of None \<Rightarrow> 0 | Some b \<Rightarrow> b)\<rparr>"

definition gtensor_ok :: "gtensor \<Rightarrow> bool" where
  "gtensor_ok t \<longleftrightarrow> gt_dims t \<noteq> [] \<and> length (gt_dims t) \<le> 8 \<and> 0 \<notin> set (gt_dims t)
     \<and> prod_list (map unat (gt_dims t)) < 18446744073709551616"

lemma dims_no_overflow: "unat a * unat b < 18446744073709551616 \<Longrightarrow> b \<noteq> 0 \<Longrightarrow> \<not> - 1 div b < a" for a b :: u64
proof -
  assume 1: "unat a * unat b < 18446744073709551616" "b \<noteq> 0"
  then have "unat a \<le> 18446744073709551615 div unat b"
    by (simp add: less_eq_div_iff_mult_less_eq unat_gt_0)
  moreover have "unat (- 1 :: u64) = 18446744073709551615" by (simp add: unsigned_minus_1_eq_mask mask_eq_exp_minus_1)
  ultimately show ?thesis by (simp add: not_less word_le_nat_alt unat_div_word)
qed

lemma prod_list_pos: "0 \<notin> set (ds :: u64 list) \<Longrightarrow> 0 < prod_list (map unat ds)"
  by (induction ds) (auto simp: unat_gt_0)

lemma parse_dims_stands:
  assumes "stands c (concat (map kv_le_put64 ds) @ y)" "0 \<notin> set ds"
    "unat (ts_elements t) * prod_list (map unat ds) < 18446744073709551616"
  shows "repeat_step (length ds) parse_dim (t, c)
    = Inr (t\<lparr>ts_dim := ts_dim t @ ds, ts_elements := ts_elements t * prod_list ds\<rparr>, adv (8 * length ds) c)"
  using assms
proof (induction ds arbitrary: t c)
  case (Cons d ds)
  have s: "stands c (kv_le_put64 d @ concat (map kv_le_put64 ds) @ y)" using Cons.prems(1) by simp
  have s8: "stands (adv 8 c) (concat (map kv_le_put64 ds) @ y)" by (rule stands_adv [OF s]) simp
  have pos: "0 < prod_list (map unat ds)" "d \<noteq> 0" using Cons.prems(2) prod_list_pos by auto
  have all: "unat (ts_elements t) * unat d * prod_list (map unat ds) < 18446744073709551616"
    using Cons.prems(3) by (simp add: mult.assoc)
  have "unat (ts_elements t) * unat d \<le> unat (ts_elements t) * unat d * prod_list (map unat ds)" using pos(1) by simp
  then have step: "unat (ts_elements t) * unat d < 18446744073709551616" using all by (rule le_less_trans)
  let ?t = "t\<lparr>ts_dim := ts_dim t @ [d], ts_elements := ts_elements t * d\<rparr>"
  have "repeat_step (length ds) parse_dim (?t, adv 8 c)
      = Inr (?t\<lparr>ts_dim := ts_dim ?t @ ds, ts_elements := ts_elements ?t * prod_list ds\<rparr>, adv (8 * length ds) (adv 8 c))"
    by (rule Cons.IH [OF s8]) (use Cons.prems(2) all step in \<open>simp_all add: unat_mult_64\<close>)
  moreover have "parse_dim (t, c) = Inr (?t, adv 8 c)"
    using u64_stands [OF s] dims_no_overflow [OF step pos(2)] by (simp add: parse_dim_def)
  ultimately show ?case by (simp add: mult.assoc)
qed simp

lemma length_put_tensor: "length (put_tensor t) = 24 + length (gt_name t) + 8 * length (gt_dims t)"
proof -
  have "length (concat (map kv_le_put64 ds)) = 8 * length ds" for ds by (induction ds) simp_all
  then show ?thesis by (simp add: put_tensor_def)
qed

lemma parse_tensor_stands:
  assumes "stands c (put_tensor t @ y)" "gtensor_ok t"
  shows "parse_tensor (m, c) = Inr (m\<lparr>mo_tensors := mo_tensors m @ [tensor_read t]\<rparr>, adv (length (put_tensor t)) c)"
proof -
  let ?n = "length (gt_dims t)" and ?l = "length (gt_name t)"
  have ok: "?n \<noteq> 0" "?n \<le> 8" "0 \<notin> set (gt_dims t)" "prod_list (map unat (gt_dims t)) < 18446744073709551616"
    using assms(2) by (simp_all add: gtensor_ok_def)
  have s: "stands c (put_string (gt_name t) @ ds4_kvstore_le_put32 (of_nat ?n) @ concat (map kv_le_put64 (gt_dims t))
     @ ds4_kvstore_le_put32 (gt_type t) @ kv_le_put64 (gt_offset t) @ y)"
    using assms(1) by (simp add: put_tensor_def)
  have s1: "stands (adv (8 + ?l) c) (ds4_kvstore_le_put32 (of_nat ?n) @ concat (map kv_le_put64 (gt_dims t))
     @ ds4_kvstore_le_put32 (gt_type t) @ kv_le_put64 (gt_offset t) @ y)"
    by (rule stands_adv [OF s]) simp
  have s2: "stands (adv (12 + ?l) c) (concat (map kv_le_put64 (gt_dims t))
     @ ds4_kvstore_le_put32 (gt_type t) @ kv_le_put64 (gt_offset t) @ y)"
    using stands_adv [OF s1, of 4] by (simp add: add.commute)
  have len: "length (concat (map kv_le_put64 (gt_dims t))) = 8 * ?n" by (induction "gt_dims t") (simp_all, use length_put_tensor in \<open>simp add: put_tensor_def\<close>)
  have s3: "stands (adv (12 + ?l + 8 * ?n) c) (ds4_kvstore_le_put32 (gt_type t) @ kv_le_put64 (gt_offset t) @ y)"
    using stands_adv [OF s2 len] by (simp add: add.commute)
  have s4: "stands (adv (16 + ?l + 8 * ?n) c) (kv_le_put64 (gt_offset t) @ y)"
    using stands_adv [OF s3, of 4] by (simp add: ac_simps)
  have n: "unat (of_nat ?n :: u32) = ?n" using ok(2) by (simp add: unat_of_nat)
  have nd: "(of_nat ?n :: u32) \<noteq> 0" "\<not> DS4_MAX_DIMS < (of_nat ?n :: u32)"
    using n ok(1,2) by (auto simp: DS4_MAX_DIMS_def word_less_nat_alt simp flip: unat_eq_0)
  let ?t0 = "zero_tensor\<lparr>ts_name := gt_name t, ts_ndim := of_nat ?n, ts_elements := 1\<rparr>"
  have dims: "repeat_step ?n parse_dim (?t0, adv (12 + ?l) c)
      = Inr (?t0\<lparr>ts_dim := ts_dim ?t0 @ gt_dims t, ts_elements := ts_elements ?t0 * prod_list (gt_dims t)\<rparr>, adv (8 * ?n) (adv (12 + ?l) c))"
    by (rule parse_dims_stands [OF s2 ok(3)]) (use ok(4) in simp)
  have u1: "cursor_u32 (adv (8 + ?l) c) = Inr (of_nat ?n, adv (12 + ?l) c)" using u32_stands [OF s1] by (simp add: add.commute)
  have u2: "cursor_u32 (adv (12 + ?l + 8 * ?n) c) = Inr (gt_type t, adv (16 + ?l + 8 * ?n) c)" using u32_stands [OF s3] by (simp add: ac_simps)
  have u3: "cursor_u64 (adv (16 + ?l + 8 * ?n) c) = Inr (gt_offset t, adv (24 + ?l + 8 * ?n) c)" using u64_stands [OF s4] by (simp add: ac_simps)
  show ?thesis using string_stands [OF s] u1 u2 u3 n nd dims
    by (simp add: parse_tensor_def tensor_read_def zero_tensor_def length_put_tensor)
qed

lemma parse_tensors_stands:
  assumes "stands c (concat (map put_tensor ts) @ y)" "\<forall>t \<in> set ts. gtensor_ok t"
  shows "repeat_step (length ts) parse_tensor (m, c)
    = Inr (m\<lparr>mo_tensors := mo_tensors m @ map tensor_read ts\<rparr>, adv (length (concat (map put_tensor ts))) c)"
  using assms
proof (induction ts arbitrary: m c)
  case (Cons t ts)
  have s: "stands c (put_tensor t @ concat (map put_tensor ts) @ y)" using Cons.prems(1) by simp
  have "stands (adv (length (put_tensor t)) c) (concat (map put_tensor ts) @ y)" by (rule stands_adv [OF s refl])
  from Cons.IH [OF this] show ?case using parse_tensor_stands [OF s] Cons.prems(2) by simp
qed simp

lemma read_strings_stands:
  "stands c (concat (map put_string ss) @ y) \<Longrightarrow> read_strings (length ss) c = Inr ss"
proof (induction ss arbitrary: c)
  case (Cons s ss)
  then have st: "stands c (put_string s @ concat (map put_string ss) @ y)" by simp
  have "stands (adv (8 + length s) c) (concat (map put_string ss) @ y)" by (rule stands_adv [OF st]) simp
  then show ?case using Cons.IH string_stands [OF st] by simp
qed simp

text \<open>What a program that asks for a key is told.\<close>

fun value_reads :: "gguf_model \<Rightarrow> string \<Rightarrow> gval \<Rightarrow> bool" where
  "value_reads m key (GString s) \<longleftrightarrow> model_get_string m key = Some s"
| "value_reads m key (GScalar t b) \<longleftrightarrow> (t = GGUF_VALUE_UINT32 \<longrightarrow> model_get_u32 m key = Some (ds4_kvstore_le_get32 b))"
| "value_reads m key (GArray t vs) \<longleftrightarrow>
     (\<exists>a. model_get_array m key = Some a \<and> ar_type a = t \<and> ar_len a = of_nat (length vs)
        \<and> (\<forall>ss. vs = map GString ss \<longrightarrow> read_strings (length vs) (cursor_at m (ar_data_pos a)) = Inr ss))"

lemma find_kv_reads:
  assumes "list_all2 (entry_reads base sz) kvs ks"
  shows "case find (\<lambda>kv. ds4_streq (fst kv) key) kvs of
      None \<Rightarrow> find (\<lambda>k. ds4_streq (kv_key k) key) ks = None
    | Some kv \<Rightarrow> kv \<in> set kvs \<and> (\<exists>k. find (\<lambda>k. ds4_streq (kv_key k) key) ks = Some k \<and> entry_reads base sz kv k)"
  using assms
proof (induction rule: list_all2_induct)
  case (Cons kv kvs k ks)
  then have "kv_key k = fst kv" by (simp add: entry_reads_def)
  with Cons show ?case by (auto split: option.splits)
qed simp

lemma entry_value_reads:
  assumes "model_find_kv m key = Some k" "entry_reads (mo_map m) (mo_size m) kv k" "gval_ok 0 (snd kv)"
  shows "value_reads m key (snd kv)"
proof -
  let ?c = "cursor_at m (kv_value_pos k)"
  obtain y where s: "stands ?c (gval_bytes (snd kv) @ y)" and ty: "kv_type k = gval_type (snd kv)"
    using assms(2) by (auto simp: entry_reads_def cursor_at_def)
  show ?thesis
  proof (cases "snd kv")
    case (GString b)
    then show ?thesis using s ty assms(1) string_stands [of ?c b y] by (simp add: model_get_string_def option_of_def)
  next
    case (GScalar t b)
    have "model_get_u32 m key = Some (ds4_kvstore_le_get32 b)" if "t = GGUF_VALUE_UINT32"
    proof -
      have "length b = 4" using assms(3) GScalar that uint32_scalar [of "snd kv" 0] by simp
      then have "cursor_u32 ?c = Inr (ds4_kvstore_le_get32 b, adv 4 ?c)"
        using read_stands [of ?c b y 4] s GScalar by (simp add: cursor_u32_def)
      then show ?thesis using assms(1) ty GScalar that by (simp add: model_get_u32_def option_of_def)
    qed
    then show ?thesis using GScalar by simp
  next
    case (GArray t vs)
    have s0: "stands ?c (ds4_kvstore_le_put32 t @ kv_le_put64 (of_nat (length vs)) @ concat (map gval_bytes vs) @ y)" using s GArray by simp
    have s4: "stands (adv 4 ?c) (kv_le_put64 (of_nat (length vs)) @ concat (map gval_bytes vs) @ y)" by (rule stands_adv [OF s0]) simp
    have s12: "stands (adv 12 ?c) (concat (map gval_bytes vs) @ y)" using stands_adv [OF s4, of 8] by simp
    have arr: "model_get_array m key = Some \<lparr>ar_type = t, ar_len = of_nat (length vs), ar_data_pos = cu_pos (adv 12 ?c)\<rparr>"
      using assms(1) ty GArray u32_stands [OF s0] u64_stands [OF s4] by (simp add: model_get_array_def option_of_def)
    have pos: "cursor_at m (cu_pos (adv 12 ?c)) = adv 12 ?c" by (simp add: cursor_at_def adv_def)
    have "read_strings (length vs) (adv 12 ?c) = Inr ss" if "vs = map GString ss" for ss
      using that s12 read_strings_stands [of "adv 12 ?c" ss y] by (simp add: comp_def)
    then show ?thesis using arr pos GArray by simp
  qed
qed

lemma place_tensors_stands:
  assumes "\<forall>t \<in> set ts. unat (mo_tensor_data_pos m) + unat (ts_rel_offset t) + unat (ts_bytes t) \<le> unat (mo_size m)"
  shows "place_tensors m ts = Inr (map (\<lambda>t. t\<lparr>ts_abs_offset := mo_tensor_data_pos m + ts_rel_offset t\<rparr>) ts)"
  using assms
proof (induction ts)
  case (Cons t ts)
  have le: "unat (mo_tensor_data_pos m) + unat (ts_rel_offset t) + unat (ts_bytes t) \<le> unat (mo_size m)" using Cons.prems by simp
  then have sum: "unat (mo_tensor_data_pos m) + unat (ts_rel_offset t) < 18446744073709551616" using unat_u64_bound [of "mo_size m"] by linarith
  have "\<not> - 1 - mo_tensor_data_pos m < ts_rel_offset t"
    using no_wrap_64 [of "ts_rel_offset t" "mo_tensor_data_pos m"] sum by (simp add: not_less add.commute)
  moreover have off: "unat (mo_tensor_data_pos m + ts_rel_offset t) = unat (mo_tensor_data_pos m) + unat (ts_rel_offset t)"
    by (rule unat_plus_64) (fact sum)
  then have "\<not> mo_size m < mo_tensor_data_pos m + ts_rel_offset t" using le by (simp add: word_less_nat_alt)
  moreover from this have "\<not> mo_size m - (mo_tensor_data_pos m + ts_rel_offset t) < ts_bytes t"
    using le off by (simp add: not_less word_le_nat_alt unat_sub)
  ultimately show ?case using Cons by (simp add: Let_def)
qed simp

lemma concat_length_ge: "(\<forall>x \<in> set xs. 1 \<le> length (g x)) \<Longrightarrow> length xs \<le> length (concat (map g xs))"
  by (induction xs) (auto simp: Suc_leI)

definition gguf_data_pos :: "(bytes \<times> gval) list \<Rightarrow> gtensor list \<Rightarrow> u64" where
  "gguf_data_pos kvs ts = align_up (of_nat (length (put_gguf kvs ts))) (fold align_step kvs 32)"

lemma directory_roundtrip:
  assumes "file = put_gguf kvs ts @ data" "length file < 2 ^ 63" "32 \<le> length file"
    "\<forall>kv \<in> set kvs. gval_ok 0 (snd kv)" "\<forall>t \<in> set ts. gtensor_ok t"
    "\<forall>t \<in> set ts. unat (gguf_data_pos kvs ts) + unat (gt_offset t) + unat (ts_bytes (tensor_read t)) \<le> length file"
  shows "\<exists>m. model_directory file = Inr m \<and> mo_tensor_data_pos m = gguf_data_pos kvs ts
    \<and> mo_tensors m = map (\<lambda>t. (tensor_read t)\<lparr>ts_abs_offset := gguf_data_pos kvs ts + gt_offset t\<rparr>) ts
    \<and> (\<forall>key. case find (\<lambda>kv. ds4_streq (fst kv) key) kvs of
               None \<Rightarrow> model_find_kv m key = None | Some kv \<Rightarrow> value_reads m key (snd kv))"
proof -
  let ?hd = "length (put_gguf kvs ts)"
  have sz: "unat (of_nat (length file) :: u64) = length file" using assms(2) by (simp add: unat_of_nat)
  let ?m = "(mapped_model file)\<lparr>mo_version := 3, mo_n_tensors := of_nat (length ts), mo_n_kv := of_nat (length kvs)\<rparr>"
  let ?c = "cursor_at (mapped_model file) 0"
  have s0: "stands ?c (ds4_kvstore_le_put32 DS4_GGUF_MAGIC @ ds4_kvstore_le_put32 3 @ kv_le_put64 (of_nat (length ts)) @ kv_le_put64 (of_nat (length kvs))
     @ concat (map put_kv kvs) @ concat (map put_tensor ts) @ data)"
    using sz assms(1) by (simp add: stands_def cursor_at_def mapped_model_def put_gguf_def)
  have s4: "stands (adv 4 ?c) (ds4_kvstore_le_put32 3 @ kv_le_put64 (of_nat (length ts)) @ kv_le_put64 (of_nat (length kvs))
     @ concat (map put_kv kvs) @ concat (map put_tensor ts) @ data)"
    by (rule stands_adv [OF s0]) simp
  have s8: "stands (adv 8 ?c) (kv_le_put64 (of_nat (length ts)) @ kv_le_put64 (of_nat (length kvs))
     @ concat (map put_kv kvs) @ concat (map put_tensor ts) @ data)"
    using stands_adv [OF s4, of 4] by simp
  have s16: "stands (adv 16 ?c) (kv_le_put64 (of_nat (length kvs)) @ concat (map put_kv kvs) @ concat (map put_tensor ts) @ data)"
    using stands_adv [OF s8, of 8] by simp
  have s24: "stands (adv 24 ?c) (concat (map put_kv kvs) @ concat (map put_tensor ts) @ data)"
    using stands_adv [OF s16, of 8] by simp
  let ?lk = "length (concat (map put_kv kvs))" and ?lt = "length (concat (map put_tensor ts))"
  have sk: "stands (adv (24 + ?lk) ?c) (concat (map put_tensor ts) @ data)" using stands_adv [OF s24 refl] by (simp add: add.commute)
  have hd: "?hd = 24 + ?lk + ?lt" by (simp add: put_gguf_def)
  have fl: "length file = 24 + ?lk + ?lt + length data" using assms(1) hd by simp
  have remaining: "unat (cu_size (adv n ?c) - cu_pos (adv n ?c)) = length file - n" if "n \<le> length file" for n
  proof -
    have n: "unat (of_nat n :: u64) = n" using that assms(2) by (simp add: unat_of_nat)
    have "(of_nat n :: u64) \<le> of_nat (length file)" using n sz that by (simp add: word_le_nat_alt)
    then show ?thesis using n sz by (simp add: adv_def cursor_at_def mapped_model_def unat_sub)
  qed
  have lk: "length kvs \<le> ?lk" by (rule concat_length_ge) (simp add: length_gt_0_kv)
  have lt: "length ts \<le> ?lt" by (rule concat_length_ge) (simp add: length_put_tensor)
  have nk: "unat (of_nat (length kvs) :: u64) = length kvs" using lk fl assms(2) by (simp add: unat_of_nat)
  have nt: "unat (of_nat (length ts) :: u64) = length ts" using lt fl assms(2) by (simp add: unat_of_nat)
  have ck: "\<not> cu_size (adv 24 ?c) - cu_pos (adv 24 ?c) < of_nat (length kvs)"
    using remaining [of 24] fl nk lk by (simp add: not_less word_le_nat_alt)
  have ct: "\<not> cu_size (adv (24 + ?lk) ?c) - cu_pos (adv (24 + ?lk) ?c) < of_nat (length ts)"
    using remaining [of "24 + ?lk"] fl nt lt by (simp add: not_less word_le_nat_alt)
  obtain ks where ks: "repeat_step (length kvs) parse_kv (?m\<lparr>mo_alignment := 32\<rparr>, adv 24 ?c)
      = Inr (?m\<lparr>mo_kv := ks, mo_alignment := fold align_step kvs 32\<rparr>, adv (24 + ?lk) ?c)"
      "list_all2 (entry_reads file (of_nat (length file))) kvs ks"
    using parse_kvs_stands [OF s24 assms(4), of "?m\<lparr>mo_alignment := 32\<rparr>"]
    by (auto simp: mapped_model_def cursor_at_def adv_def add.commute)
  let ?m1 = "?m\<lparr>mo_kv := ks, mo_alignment := fold align_step kvs 32\<rparr>"
  have meta: "parse_metadata ?m (adv 24 ?c) = Inr (?m1, adv (24 + ?lk) ?c)"
    using ck nk ks(1) by (simp add: parse_metadata_def)
  have pt: "repeat_step (length ts) parse_tensor (?m1, adv (24 + ?lk) ?c)
      = Inr (?m1\<lparr>mo_tensors := map tensor_read ts\<rparr>, adv ?hd ?c)"
    using parse_tensors_stands [OF sk assms(5), of ?m1] hd by (simp add: mapped_model_def add.commute)
  let ?m2 = "?m1\<lparr>mo_tensors := map tensor_read ts, mo_tensor_data_pos := gguf_data_pos kvs ts\<rparr>"
  have dp: "align_up (cu_pos (adv ?hd ?c)) (fold align_step kvs 32) = gguf_data_pos kvs ts"
    by (simp add: gguf_data_pos_def adv_def cursor_at_def)
  have place: "place_tensors ?m2 (map tensor_read ts) = Inr (map (\<lambda>t. t\<lparr>ts_abs_offset := gguf_data_pos kvs ts + ts_rel_offset t\<rparr>) (map tensor_read ts))"
    using place_tensors_stands [of "map tensor_read ts" ?m2] assms(6) sz by (simp add: mapped_model_def tensor_read_def)
  let ?ts = "map (\<lambda>t. (tensor_read t)\<lparr>ts_abs_offset := gguf_data_pos kvs ts + gt_offset t\<rparr>) ts"
  have place': "place_tensors ?m2 (map tensor_read ts) = Inr ?ts"
    unfolding place by (simp add: comp_def tensor_read_def)
  define m where "m = ?m2\<lparr>mo_tensors := ?ts, mo_max_tensor_bytes := fold (\<lambda>t. max (ts_bytes t)) ?ts (mo_max_tensor_bytes ?m2)\<rparr>"
  have tens: "parse_tensors ?m1 (adv (24 + ?lk) ?c) = Inr m"
    using ct nt pt dp place' by (simp add: parse_tensors_def Let_def m_def)
  have dir: "model_directory file = Inr m"
    using assms(3) u32_stands [OF s0] u32_stands [OF s4] u64_stands [OF s8] u64_stands [OF s16] meta tens
    by (simp add: model_directory_def Let_def)
  have mk: "mo_kv m = ks" "mo_map m = file" "mo_size m = of_nat (length file)" by (simp_all add: m_def mapped_model_def)
  have "case find (\<lambda>kv. ds4_streq (fst kv) key) kvs of
               None \<Rightarrow> model_find_kv m key = None | Some kv \<Rightarrow> value_reads m key (snd kv)" for key
    using find_kv_reads [OF ks(2), of key] entry_value_reads [of m key] assms(4) mk
    by (auto simp: model_find_kv_def split: option.splits)
  then show ?thesis using dir by (intro exI [of _ m]) (simp add: m_def)
qed

text \<open>
  C36: opening a model file that was written in the format gives back what was written: each tensor with
  its name, its dimensions, its type and its place in the file, and for every key the first value stored
  under it, whatever nested arrays lie between, a string, a 32-bit number or the strings of an array.
\<close>

theorem gguf_roundtrip:
  assumes "file = put_gguf kvs ts @ data" "length file < 2 ^ 63" "32 \<le> length file"
    "\<forall>kv \<in> set kvs. gval_ok 0 (snd kv)" "\<forall>t \<in> set ts. gtensor_ok t"
    "\<forall>t \<in> set ts. unat (gguf_data_pos kvs ts) + unat (gt_offset t) + unat (ts_bytes (tensor_read t)) \<le> length file"
  shows "\<exists>m. model_directory file = Inr m \<and> mo_tensor_data_pos m = gguf_data_pos kvs ts
    \<and> mo_tensors m = map (\<lambda>t. (tensor_read t)\<lparr>ts_abs_offset := gguf_data_pos kvs ts + gt_offset t\<rparr>) ts
    \<and> (\<forall>key. case find (\<lambda>kv. ds4_streq (fst kv) key) kvs of
               None \<Rightarrow> model_find_kv m key = None | Some kv \<Rightarrow> value_reads m key (snd kv))"
  using assms by (rule directory_roundtrip)

text \<open>
  C35: in a Qwen model that opens, every weight tensor is of a known type and the mapping holds all its
  bytes, as many as its dimensions ask for, so \<open>tensor_data\<close> never stops the program and returns those
  bytes of the file; and the one table that is not mapped, the n-grams, begins where the mapping ends and
  has all its rows inside the file.
\<close>

theorem gguf_tensors_in_bounds:
  assumes "model_open page same_file file = Inr m" "length file < 2 ^ 63" "model_directory file = Inr m0"
    "model_get_string m0 ''general.architecture'' = Some a" "ds4_streq a ''qwen4exp''"
  shows "\<forall>t \<in> set (mo_tensors m).
     if ngram_table t then mo_ngram_tensor m = Some t \<and> ts_abs_offset t = mo_size m
       \<and> unat (ts_abs_offset t) + 2 * unat (ts_dim t ! 0) * unat (ts_dim t ! 1) \<le> length file
     else \<exists>info. tensor_type (ts_type t) = Some info
       \<and> unat (ts_abs_offset t) + blocks_size info (prod_list (map unat (ts_dim t))) \<le> length file
       \<and> tensor_data m t = Some (take (blocks_size info (prod_list (map unat (ts_dim t)))) (drop (unat (ts_abs_offset t)) file))"
  using open_qwen_bounds [OF assms] unfolding if_bool_eq_conj by blast

subsection \<open>A small model\<close>

definition demo_kvs :: "(bytes \<times> gval) list" where
  "demo_kvs = [(map of_char ''general.architecture'', GString (map of_char ''qwen4exp''))]"

definition demo_tensors :: "gtensor list" where
  "demo_tensors = [\<lparr>gt_name = map of_char ''w'', gt_dims = [3], gt_type = 0, gt_offset = 0\<rparr>,
     \<lparr>gt_name = map of_char ''per_layer_token_embd.weight'', gt_dims = [1, 2], gt_type = 30, gt_offset = 32\<rparr>]"

definition demo_file :: bytes where
  "demo_file = put_gguf demo_kvs demo_tensors @ replicate 56 0"

lemma demo_length: "length (put_gguf demo_kvs demo_tensors) = 172"
  by (simp add: put_gguf_def put_tensor_def put_kv_def demo_kvs_def demo_tensors_def)

lemma demo_data_pos: "gguf_data_pos demo_kvs demo_tensors = 192"
  by (simp add: gguf_data_pos_def demo_length) (simp add: demo_kvs_def align_step_def align_up_def)

lemma demo_conditions:
  "demo_file = put_gguf demo_kvs demo_tensors @ replicate 56 0" "length demo_file < 2 ^ 63" "32 \<le> length demo_file"
  "\<forall>kv \<in> set demo_kvs. gval_ok 0 (snd kv)" "\<forall>t \<in> set demo_tensors. gtensor_ok t"
  "\<forall>t \<in> set demo_tensors. unat (gguf_data_pos demo_kvs demo_tensors) + unat (gt_offset t) + unat (ts_bytes (tensor_read t)) \<le> length demo_file"
proof -
  show "demo_file = put_gguf demo_kvs demo_tensors @ replicate 56 0" by (rule demo_file_def)
  show "length demo_file < 2 ^ 63" "32 \<le> length demo_file" by (simp_all add: demo_file_def demo_length)
  show "\<forall>kv \<in> set demo_kvs. gval_ok 0 (snd kv)" "\<forall>t \<in> set demo_tensors. gtensor_ok t"
    by (simp_all add: demo_kvs_def demo_tensors_def gtensor_ok_def)
  show "\<forall>t \<in> set demo_tensors. unat (gguf_data_pos demo_kvs demo_tensors) + unat (gt_offset t) + unat (ts_bytes (tensor_read t)) \<le> length demo_file"
    by (simp add: demo_data_pos demo_file_def demo_length)
      (simp add: demo_tensors_def tensor_read_def tensor_nbytes_def tensor_type_def gguf_types_def type_info_def)
qed

theorem gguf_roundtrip_witness:
  "\<exists>m. model_directory demo_file = Inr m \<and> length (mo_tensors m) = 2
     \<and> value_reads m ''general.architecture'' (GString (map of_char ''qwen4exp''))"
proof -
  obtain m where m: "model_directory demo_file = Inr m"
    "mo_tensors m = map (\<lambda>t. (tensor_read t)\<lparr>ts_abs_offset := gguf_data_pos demo_kvs demo_tensors + gt_offset t\<rparr>) demo_tensors"
    "\<forall>key. case find (\<lambda>kv. ds4_streq (fst kv) key) demo_kvs of
               None \<Rightarrow> model_find_kv m key = None | Some kv \<Rightarrow> value_reads m key (snd kv)"
    using gguf_roundtrip [OF demo_conditions] by blast
  have "length (mo_tensors m) = 2" using m(2) by (simp add: demo_tensors_def)
  moreover have "value_reads m ''general.architecture'' (GString (map of_char ''qwen4exp''))"
    using m(3) [rule_format, of "''general.architecture''"] by (simp add: demo_kvs_def ds4_streq_def)
  ultimately show ?thesis using m(1) by blast
qed

lemma demo_open:
  "\<exists>m0 m. model_directory demo_file = Inr m0 \<and> model_get_string m0 ''general.architecture'' = Some (map of_char ''qwen4exp'')
     \<and> model_open 32 True demo_file = Inr m"
proof -
  obtain m0 where m0: "model_directory demo_file = Inr m0" and dp: "mo_tensor_data_pos m0 = 192" and m0':
    "mo_tensors m0 = map (\<lambda>t. (tensor_read t)\<lparr>ts_abs_offset := 192 + gt_offset t\<rparr>) demo_tensors"
    "\<forall>key. case find (\<lambda>kv. ds4_streq (fst kv) key) demo_kvs of
               None \<Rightarrow> model_find_kv m0 key = None | Some kv \<Rightarrow> value_reads m0 key (snd kv)"
    using directory_roundtrip [OF demo_conditions] unfolding demo_data_pos by blast
  have arch: "model_get_string m0 ''general.architecture'' = Some (map of_char ''qwen4exp'')"
    using m0'(2) [rule_format, of "''general.architecture''"] by (simp add: demo_kvs_def ds4_streq_def)
  have q: "ds4_streq (map of_char ''qwen4exp'') ''qwen4exp''" by (simp add: ds4_streq_def)
  let ?w = "(tensor_read (demo_tensors ! 0))\<lparr>ts_abs_offset := 192\<rparr>"
    and ?g = "(tensor_read (demo_tensors ! 1))\<lparr>ts_abs_offset := 224\<rparr>"
  have ts: "mo_tensors m0 = [?w, ?g]" using m0'(1) by (simp add: demo_tensors_def)
  have w: "\<not> ngram_table ?w" "ts_bytes ?w = 12" "ts_abs_offset ?w = 192"
    by (simp_all add: ngram_table_def ds4_streq_def demo_tensors_def tensor_read_def tensor_nbytes_def tensor_type_def
        gguf_types_def type_info_def)
  have g: "ngram_table ?g" "\<not> ngram_invalid ?g" "ts_abs_offset ?g = 224"
    by (simp_all add: ngram_table_def ngram_invalid_def DS4_TENSOR_BF16_def ds4_streq_def demo_tensors_def tensor_read_def)
  have "ngram_scan (mo_tensors m0) None (mo_tensor_data_pos m0, 0) = Inr (Some ?g, 204, 12)"
    using w g dp unfolding ts by (simp add: resident_def)
  then have "\<exists>m. model_unmap_qwen_ngrams 32 True m0 = Inr m"
    using arch q g(3) by (simp add: model_unmap_qwen_ngrams_def Let_def)
  then show ?thesis using m0 arch q streq_qwen [OF q]
    by (auto simp: model_open_def model_unmap_engram_def)
qed

theorem gguf_tensors_in_bounds_witness:
  "\<exists>m. model_open 32 True demo_file = Inr m \<and> (\<forall>t \<in> set (mo_tensors m).
     if ngram_table t then mo_ngram_tensor m = Some t \<and> ts_abs_offset t = mo_size m
       \<and> unat (ts_abs_offset t) + 2 * unat (ts_dim t ! 0) * unat (ts_dim t ! 1) \<le> length demo_file
     else \<exists>info. tensor_type (ts_type t) = Some info
       \<and> unat (ts_abs_offset t) + blocks_size info (prod_list (map unat (ts_dim t))) \<le> length demo_file
       \<and> tensor_data m t = Some (take (blocks_size info (prod_list (map unat (ts_dim t)))) (drop (unat (ts_abs_offset t)) demo_file)))"
proof -
  obtain m0 m where m: "model_directory demo_file = Inr m0" "model_get_string m0 ''general.architecture'' = Some (map of_char ''qwen4exp'')"
    "model_open 32 True demo_file = Inr m"
    using demo_open by blast
  have "ds4_streq (map of_char ''qwen4exp'') ''qwen4exp''" by (simp add: ds4_streq_def)
  from gguf_tensors_in_bounds [OF m(3) demo_conditions(2) m(1,2) this] m(3) show ?thesis by blast
qed

end
