(* ===== verification/ModelConfig.thy ===== *)
theory ModelConfig
  imports Gguf
begin

text \<open>
  What a Qwen model file must declare before its weights are used (\<open>ds4.c\<close>, \<open>config_validate_model\<close>): the
  shape it has to agree with, the compression ratio of every layer, and the constants of the n-gram hash.
  The two checks of floating-point keys are an argument, \<open>f32_ok\<close>; the rope tables are not modelled.
\<close>

subsection \<open>Shapes\<close>

record ds4_shape =
  sh_n_layer :: u32
  sh_n_embd :: u32
  sh_n_vocab :: u32
  sh_n_head :: u32
  sh_n_head_kv :: u32
  sh_n_head_dim :: u32
  sh_n_value_dim :: u32
  sh_n_rot :: u32
  sh_n_expert :: u32
  sh_n_expert_used :: u32
  sh_n_ff_exp :: u32
  sh_n_indexer_head :: u32
  sh_n_indexer_head_dim :: u32
  sh_n_indexer_top_k :: u32
  sh_n_hc :: u32
  sh_n_hc_lowrank :: u32
  sh_n_nextn_predict :: u32
  sh_n_lin_k_head :: u32
  sh_n_lin_v_head :: u32
  sh_n_lin_head_dim :: u32
  sh_n_lin_conv :: u32
  sh_n_full_attn_interval :: u32
  sh_n_ple_layer :: u32
  sh_n_ple_ngram :: u32
  sh_n_ple_heads_per_ngram :: u32
  sh_n_ple_conv :: u32
  sh_n_ple_head_dim :: u32
  sh_ple_eos_id :: int

definition DS4_SHAPE_QWEN4_EXP :: ds4_shape where
  "DS4_SHAPE_QWEN4_EXP =
     \<lparr>sh_n_layer = 49, sh_n_embd = 2560, sh_n_vocab = 248320, sh_n_head = 24, sh_n_head_kv = 2, sh_n_head_dim = 256,
      sh_n_value_dim = 256, sh_n_rot = 64, sh_n_expert = 512, sh_n_expert_used = 10, sh_n_ff_exp = 640,
      sh_n_indexer_head = 4, sh_n_indexer_head_dim = 128, sh_n_indexer_top_k = 2048, sh_n_hc = 4, sh_n_hc_lowrank = 320,
      sh_n_nextn_predict = 1, sh_n_lin_k_head = 16, sh_n_lin_v_head = 48, sh_n_lin_head_dim = 128, sh_n_lin_conv = 4,
      sh_n_full_attn_interval = 4, sh_n_ple_layer = 1, sh_n_ple_ngram = 3, sh_n_ple_heads_per_ngram = 8,
      sh_n_ple_conv = 4, sh_n_ple_head_dim = 160, sh_ple_eos_id = 248044\<rparr>"

definition DS4_SHAPE_QWEN4_MINI :: ds4_shape where
  "DS4_SHAPE_QWEN4_MINI =
     \<lparr>sh_n_layer = 9, sh_n_embd = 64, sh_n_vocab = 248320, sh_n_head = 4, sh_n_head_kv = 2, sh_n_head_dim = 32,
      sh_n_value_dim = 32, sh_n_rot = 8, sh_n_expert = 32, sh_n_expert_used = 10, sh_n_ff_exp = 32,
      sh_n_indexer_head = 4, sh_n_indexer_head_dim = 32, sh_n_indexer_top_k = 8, sh_n_hc = 4, sh_n_hc_lowrank = 8,
      sh_n_nextn_predict = 1, sh_n_lin_k_head = 2, sh_n_lin_v_head = 6, sh_n_lin_head_dim = 32, sh_n_lin_conv = 4,
      sh_n_full_attn_interval = 4, sh_n_ple_layer = 1, sh_n_ple_ngram = 3, sh_n_ple_heads_per_ngram = 8,
      sh_n_ple_conv = 4, sh_n_ple_head_dim = 4, sh_ple_eos_id = 248044\<rparr>"

definition DS4_MAX_LAYER :: u64 where "DS4_MAX_LAYER = 79"
definition DS4_MAX_PLE_NGRAM :: u32 where "DS4_MAX_PLE_NGRAM = 8"
definition DS4_MAX_PLE_HEADS :: u64 where "DS4_MAX_PLE_HEADS = 64"

definition DS4_N_PLE_HEADS :: "ds4_shape \<Rightarrow> u32" where
  "DS4_N_PLE_HEADS sh = (sh_n_ple_ngram sh - 1) * sh_n_ple_heads_per_ngram sh"

text \<open>Only the Qwen family is left, so the test of the family is gone from the predicates.\<close>

definition ds4_qwen4_layer_is_linear :: "ds4_shape \<Rightarrow> u32 \<Rightarrow> bool" where
  "ds4_qwen4_layer_is_linear sh il \<longleftrightarrow>
     il + sh_n_nextn_predict sh < sh_n_layer sh \<and> (il + 1) mod sh_n_full_attn_interval sh \<noteq> 0"

definition ds4_qwen4_layer_is_ple :: "ds4_shape \<Rightarrow> u32 \<Rightarrow> bool" where
  "ds4_qwen4_layer_is_ple sh il \<longleftrightarrow> il = sh_n_ple_layer sh"

definition ds4_qwen4_layer_is_nextn :: "ds4_shape \<Rightarrow> u32 \<Rightarrow> bool" where
  "ds4_qwen4_layer_is_nextn sh il \<longleftrightarrow> sh_n_nextn_predict sh \<noteq> 0 \<and> sh_n_layer sh \<le> il + sh_n_nextn_predict sh"

subsection \<open>Required keys\<close>

datatype config_error = Missing_key string | Unexpected_value string | Unsupported_embedding | Too_many_nextn
  | Array_missing string | Array_too_long string | Array_type string | Array_read gguf_error | Ratios_short | Bad_ratio
  | Ple_layers | Ple_limits | Ple_length string | Ple_offset | Ple_vocab | Bad_architecture

definition required_u32 :: "gguf_model \<Rightarrow> string \<Rightarrow> config_error + u32" where
  "required_u32 m key = (case model_get_u32 m key of None \<Rightarrow> Inl (Missing_key key) | Some v \<Rightarrow> Inr v)"

text \<open>One check of \<open>config_validate_qwen4_model\<close>: a 32-bit key with its value, a float, or a key that must be there.\<close>

datatype key_check = Expect_u32 string u32 | Expect_f32 string | Present_u32 string

fun run_check :: "(gguf_model \<Rightarrow> string \<Rightarrow> bool) \<Rightarrow> gguf_model \<Rightarrow> key_check \<Rightarrow> config_error + unit" where
  "run_check f32_ok m (Expect_u32 key v) =
     and_then (required_u32 m key) (\<lambda>got. if got = v then Inr () else Inl (Unexpected_value key))"
| "run_check f32_ok m (Expect_f32 key) = (if f32_ok m key then Inr () else Inl (Unexpected_value key))"
| "run_check f32_ok m (Present_u32 key) = and_then (required_u32 m key) (\<lambda>_. Inr ())"

fun run_checks :: "(gguf_model \<Rightarrow> string \<Rightarrow> bool) \<Rightarrow> gguf_model \<Rightarrow> key_check list \<Rightarrow> config_error + unit" where
  "run_checks f32_ok m [] = Inr ()"
| "run_checks f32_ok m (k # ks) = and_then (run_check f32_ok m k) (\<lambda>_. run_checks f32_ok m ks)"

definition trunk_checks :: "ds4_shape \<Rightarrow> key_check list" where
  "trunk_checks sh =
     [Expect_u32 ''qwen4exp.block_count'' (sh_n_layer sh),
      Expect_u32 ''qwen4exp.attention.head_count'' (sh_n_head sh),
      Expect_u32 ''qwen4exp.attention.head_count_kv'' (sh_n_head_kv sh),
      Expect_u32 ''qwen4exp.attention.key_length'' (sh_n_head_dim sh),
      Expect_u32 ''qwen4exp.attention.value_length'' (sh_n_value_dim sh),
      Expect_u32 ''qwen4exp.rope.dimension_count'' (sh_n_rot sh),
      Expect_f32 ''qwen4exp.rope.freq_base'',
      Present_u32 ''qwen4exp.context_length'',
      Expect_f32 ''qwen4exp.attention.layer_norm_rms_epsilon'',
      Expect_u32 ''qwen4exp.expert_count'' (sh_n_expert sh),
      Expect_u32 ''qwen4exp.expert_used_count'' (sh_n_expert_used sh),
      Expect_u32 ''qwen4exp.expert_feed_forward_length'' (sh_n_ff_exp sh),
      Expect_u32 ''qwen4exp.expert_shared_feed_forward_length'' (sh_n_ff_exp sh),
      Expect_u32 ''qwen4exp.ssm.conv_kernel'' (sh_n_lin_conv sh),
      Expect_u32 ''qwen4exp.ssm.state_size'' (sh_n_lin_head_dim sh),
      Expect_u32 ''qwen4exp.ssm.group_count'' (sh_n_lin_k_head sh),
      Expect_u32 ''qwen4exp.ssm.time_step_rank'' (sh_n_lin_v_head sh),
      Expect_u32 ''qwen4exp.ssm.inner_size'' (sh_n_lin_v_head sh * sh_n_lin_head_dim sh),
      Expect_u32 ''qwen4exp.full_attention_interval'' (sh_n_full_attn_interval sh),
      Expect_u32 ''qwen4exp.hyper_connection.count'' (sh_n_hc sh),
      Expect_u32 ''qwen4exp.hyper_connection.low_rank'' (sh_n_hc_lowrank sh),
      Expect_u32 ''qwen4exp.attention.indexer.head_count'' (sh_n_indexer_head sh),
      Expect_u32 ''qwen4exp.attention.indexer.key_length'' (sh_n_indexer_head_dim sh),
      Expect_u32 ''qwen4exp.attention.indexer.top_k'' (sh_n_indexer_top_k sh)]"

definition ple_checks :: "ds4_shape \<Rightarrow> key_check list" where
  "ple_checks sh =
     [Expect_u32 ''qwen4exp.ple.ngram_size'' (sh_n_ple_ngram sh),
      Expect_u32 ''qwen4exp.ple.heads_per_ngram'' (sh_n_ple_heads_per_ngram sh),
      Expect_u32 ''qwen4exp.ple.conv_kernel'' (sh_n_ple_conv sh),
      Expect_u32 ''qwen4exp.ple.eos_token_id'' (of_int (sh_ple_eos_id sh)),
      Expect_u32 ''qwen4exp.embedding_length_per_layer_input'' (sh_n_ple_head_dim sh)]"

subsection \<open>Arrays of integers\<close>

fun read_u64s :: "string \<Rightarrow> u32 \<Rightarrow> nat \<Rightarrow> cursor \<Rightarrow> config_error + u64 list" where
  "read_u64s key ty 0 c = Inr []"
| "read_u64s key ty (Suc n) c =
     (if ty = GGUF_VALUE_UINT64 \<or> ty = GGUF_VALUE_INT64 then
        (case cursor_u64 c of
           Inl e \<Rightarrow> Inl (Array_read e)
         | Inr (v, c) \<Rightarrow> and_then (read_u64s key ty n c) (\<lambda>vs. Inr (v # vs)))
      else if ty = GGUF_VALUE_UINT32 \<or> ty = GGUF_VALUE_INT32 then
        (case cursor_u32 c of
           Inl e \<Rightarrow> Inl (Array_read e)
         | Inr (v, c) \<Rightarrow> and_then (read_u64s key ty n c) (\<lambda>vs. Inr (ucast v # vs)))
      else Inl (Array_type key))"

definition config_read_qwen4_u64_array :: "gguf_model \<Rightarrow> string \<Rightarrow> u64 \<Rightarrow> config_error + u64 list" where
  "config_read_qwen4_u64_array m key max_len =
     (case model_get_array m key of
        None \<Rightarrow> Inl (Array_missing key)
      | Some a \<Rightarrow>
          if max_len < ar_len a then Inl (Array_too_long key)
          else read_u64s key (ar_type a) (unat (ar_len a)) (cursor_at m (ar_data_pos a)))"

subsection \<open>The configuration\<close>

record ds4_qwen4_ple_hash =
  ple_n_heads :: u32
  ple_multiplier :: "u64 list"
  ple_head_offset :: "u32 list"
  ple_head_vocab :: "u32 list"
  ple_n_rows :: u64

record qwen4_config =
  cf_shape :: ds4_shape
  cf_compress_ratios :: "u32 list"
  cf_ple :: ds4_qwen4_ple_hash

definition config_ratios :: "gguf_model \<Rightarrow> ds4_shape \<Rightarrow> config_error + u32 list" where
  "config_ratios m sh =
     and_then (config_read_qwen4_u64_array m ''qwen4exp.attention.compress_ratios'' DS4_MAX_LAYER) (\<lambda>ratios.
       if length ratios < unat (sh_n_layer sh) then Inl Ratios_short
       else if list_ex (\<lambda>il. ratios ! il \<noteq> (if ds4_qwen4_layer_is_linear sh (of_nat il) then 0 else 4)) [0..<unat (sh_n_layer sh)]
       then Inl Bad_ratio
       else Inr (map ucast (take (unat (sh_n_layer sh)) ratios)))"

text \<open>The loop over the sizes of the hash tables: the number of rows is the largest end of a table.\<close>

fun ple_rows :: "u32 list \<Rightarrow> u64 list \<Rightarrow> u64 \<Rightarrow> config_error + u64" where
  "ple_rows (off # offs) (v # vs) rows =
     (if v = 0 \<or> 0xFFFFFFFF < v then Inl Ple_vocab
      else let table_end = ucast off + v in ple_rows offs vs (if rows < table_end then table_end else rows))"
| "ple_rows _ _ rows = Inr rows"

definition config_ple :: "(gguf_model \<Rightarrow> string \<Rightarrow> bool) \<Rightarrow> gguf_model \<Rightarrow> ds4_shape \<Rightarrow> config_error + ds4_qwen4_ple_hash" where
  "config_ple f32_ok m sh =
     and_then (config_read_qwen4_u64_array m ''qwen4exp.ple.layers'' DS4_MAX_PLE_HEADS) (\<lambda>layers.
       if length layers \<noteq> 1 \<or> layers ! 0 \<noteq> ucast (sh_n_ple_layer sh) then Inl Ple_layers
       else
         and_then (run_checks f32_ok m (ple_checks sh)) (\<lambda>_.
           let n_heads = DS4_N_PLE_HEADS sh in
           if DS4_MAX_PLE_HEADS < ucast n_heads \<or> DS4_MAX_PLE_NGRAM < sh_n_ple_ngram sh then Inl Ple_limits
           else
             and_then (config_read_qwen4_u64_array m ''qwen4exp.ple.layer_multipliers'' DS4_MAX_PLE_HEADS) (\<lambda>mult.
               if length mult \<noteq> unat (sh_n_ple_ngram sh) then Inl (Ple_length ''layer_multipliers'')
               else
                 and_then (config_read_qwen4_u64_array m ''qwen4exp.ple.head_offsets'' DS4_MAX_PLE_HEADS) (\<lambda>offs.
                   if length offs \<noteq> unat n_heads then Inl (Ple_length ''head_offsets'')
                   else if list_ex (\<lambda>v. 0xFFFFFFFF < v) offs then Inl Ple_offset
                   else
                     and_then (config_read_qwen4_u64_array m ''qwen4exp.ple.head_vocab_sizes'' DS4_MAX_PLE_HEADS) (\<lambda>vocab.
                       if length vocab \<noteq> unat n_heads then Inl (Ple_length ''head_vocab_sizes'')
                       else
                         and_then (ple_rows (map ucast offs) vocab 0) (\<lambda>rows.
                           Inr \<lparr>ple_n_heads = n_heads, ple_multiplier = mult, ple_head_offset = map ucast offs,
                                ple_head_vocab = map ucast vocab, ple_n_rows = rows\<rparr>))))))"

text \<open>The shape is trimmed when the file carries no predictor block.\<close>

definition config_shape :: "gguf_model \<Rightarrow> config_error + ds4_shape" where
  "config_shape m =
     and_then (required_u32 m ''qwen4exp.embedding_length'') (\<lambda>n_embd.
     and_then (if n_embd = sh_n_embd DS4_SHAPE_QWEN4_EXP then Inr DS4_SHAPE_QWEN4_EXP
               else if n_embd = sh_n_embd DS4_SHAPE_QWEN4_MINI then Inr DS4_SHAPE_QWEN4_MINI
               else Inl Unsupported_embedding) (\<lambda>sh.
       let nextn = (case model_get_u32 m ''qwen4exp.nextn_predict_layers'' of None \<Rightarrow> 0 | Some v \<Rightarrow> v) in
       if sh_n_nextn_predict sh < nextn then Inl Too_many_nextn
       else Inr (sh\<lparr>sh_n_layer := sh_n_layer sh - (sh_n_nextn_predict sh - nextn), sh_n_nextn_predict := nextn\<rparr>)))"

definition config_validate_qwen4_model :: "(gguf_model \<Rightarrow> string \<Rightarrow> bool) \<Rightarrow> gguf_model \<Rightarrow> config_error + qwen4_config" where
  "config_validate_qwen4_model f32_ok m =
     and_then (config_shape m) (\<lambda>sh.
     and_then (run_checks f32_ok m (trunk_checks sh)) (\<lambda>_.
     and_then (config_ratios m sh) (\<lambda>ratios.
     and_then (config_ple f32_ok m sh) (\<lambda>ple.
       Inr \<lparr>cf_shape = sh, cf_compress_ratios = ratios, cf_ple = ple\<rparr>))))"

definition config_validate_model :: "(gguf_model \<Rightarrow> string \<Rightarrow> bool) \<Rightarrow> gguf_model \<Rightarrow> config_error + qwen4_config" where
  "config_validate_model f32_ok m =
     (case model_get_string m ''general.architecture'' of
        None \<Rightarrow> Inl Bad_architecture
      | Some arch \<Rightarrow> if ds4_streq arch ''qwen4exp'' then config_validate_qwen4_model f32_ok m else Inl Bad_architecture)"

end
