(* ===== verification/Weights.thy ===== *)
theory Weights
  imports ModelConfig
begin

text \<open>
  Binding the tensors of a Qwen model (\<open>ds4.c\<close>, \<open>weights_bind\<close> and \<open>weights_validate_qwen4_layout\<close>): every
  weight is looked up by its name and its type and dimensions are compared with the shape. The structs of
  tensor pointers are maps from the names of their fields.
\<close>

subsection \<open>Types and layouts\<close>

definition DS4_TENSOR_F32 :: u32 where "DS4_TENSOR_F32 = 0"
definition DS4_TENSOR_F16 :: u32 where "DS4_TENSOR_F16 = 1"
definition DS4_TENSOR_Q4_0 :: u32 where "DS4_TENSOR_Q4_0 = 2"
definition DS4_TENSOR_Q8_0 :: u32 where "DS4_TENSOR_Q8_0 = 8"
definition DS4_TENSOR_Q2_K :: u32 where "DS4_TENSOR_Q2_K = 10"
definition DS4_TENSOR_Q4_K :: u32 where "DS4_TENSOR_Q4_K = 12"
definition DS4_TENSOR_Q5_K :: u32 where "DS4_TENSOR_Q5_K = 13"
definition DS4_TENSOR_Q6_K :: u32 where "DS4_TENSOR_Q6_K = 14"
definition DS4_TENSOR_IQ2_XXS :: u32 where "DS4_TENSOR_IQ2_XXS = 16"
definition DS4_TENSOR_MXFP4 :: u32 where "DS4_TENSOR_MXFP4 = 39"

datatype weights_error = Tensor_missing string | Tensor_name_too_long | Wrong_type string | Wrong_ndim string | Wrong_dim string
  | Bad_slice | Bad_layer_range | Partial_output | Output_missing | Token_embd_missing | Ngrams_missing | Ngrams_type
  | Ngrams_layout | Layer_missing u32 | Expert_types_differ u32

definition tensor_type_is_qwen4_dense :: "u32 \<Rightarrow> bool" where
  "tensor_type_is_qwen4_dense t \<longleftrightarrow> t = DS4_TENSOR_Q8_0 \<or> t = DS4_TENSOR_F16 \<or> t = DS4_TENSOR_F32
     \<or> t = DS4_TENSOR_BF16 \<or> t = DS4_TENSOR_Q4_0"

definition tensor_is_routed_expert_type :: "u32 \<Rightarrow> bool" where
  "tensor_is_routed_expert_type t \<longleftrightarrow> t = DS4_TENSOR_Q8_0 \<or> t = DS4_TENSOR_IQ2_XXS \<or> t = DS4_TENSOR_Q2_K
     \<or> t = DS4_TENSOR_Q4_K \<or> t = DS4_TENSOR_Q5_K \<or> t = DS4_TENSOR_Q6_K \<or> t = DS4_TENSOR_MXFP4"

text \<open>The dimensions beyond the rank are zero in the calls and are not compared; the list of \<open>dims\<close> has one entry per rank.\<close>

definition tensor_expect_layout :: "string \<Rightarrow> gguf_tensor \<Rightarrow> u32 \<Rightarrow> u64 list \<Rightarrow> weights_error + unit" where
  "tensor_expect_layout f t ty dims =
     (if ts_type t \<noteq> ty then Inl (Wrong_type f)
      else if ts_ndim t \<noteq> of_nat (length dims) then Inl (Wrong_ndim f)
      else if ts_dim t \<noteq> dims then Inl (Wrong_dim f)
      else Inr ())"

definition tensor_expect_qwen4_dense_layout :: "string \<Rightarrow> gguf_tensor \<Rightarrow> u64 list \<Rightarrow> weights_error + unit" where
  "tensor_expect_qwen4_dense_layout f t dims =
     (if \<not> tensor_type_is_qwen4_dense (ts_type t) then Inl (Wrong_type f) else tensor_expect_layout f t (ts_type t) dims)"

definition tensor_expect_qwen4_expert_layout :: "string \<Rightarrow> gguf_tensor \<Rightarrow> u64 list \<Rightarrow> weights_error + unit" where
  "tensor_expect_qwen4_expert_layout f t dims =
     (if \<not> tensor_is_routed_expert_type (ts_type t) \<and> ts_type t \<noteq> DS4_TENSOR_F16 \<and> ts_type t \<noteq> DS4_TENSOR_F32
         \<and> ts_type t \<noteq> DS4_TENSOR_Q4_0
      then Inl (Wrong_type f) else tensor_expect_layout f t (ts_type t) dims)"

subsection \<open>Names\<close>

fun dec_digits :: "nat \<Rightarrow> string" where
  "dec_digits n = (if n < 10 then [char_of (48 + n)] else dec_digits (n div 10) @ [char_of (48 + n mod 10)])"

declare dec_digits.simps [simp del]

definition layer_tensor_name :: "u32 \<Rightarrow> string \<Rightarrow> string" where
  "layer_tensor_name il sfx = ''blk.'' @ dec_digits (unat il) @ ''.'' @ sfx"

definition required_tensor :: "gguf_model \<Rightarrow> string \<Rightarrow> weights_error + gguf_tensor" where
  "required_tensor m name = (case model_find_tensor m name of None \<Rightarrow> Inl (Tensor_missing name) | Some t \<Rightarrow> Inr t)"

definition required_tensorf :: "gguf_model \<Rightarrow> string \<Rightarrow> u32 \<Rightarrow> weights_error + gguf_tensor" where
  "required_tensorf m sfx il =
     (if 128 \<le> length (layer_tensor_name il sfx) then Inl Tensor_name_too_long else required_tensor m (layer_tensor_name il sfx))"

subsection \<open>Binding\<close>

type_synonym layer_weights = "string \<rightharpoonup> gguf_tensor"

record ds4_weights =
  w_token_embd :: "gguf_tensor option"
  w_ple_embd :: "gguf_tensor option"
  w_output :: layer_weights
  w_layer :: "u32 \<Rightarrow> layer_weights"

text \<open>The fields a layer binds, with the names behind \<open>blk.%u.\<close>, in the order of \<open>weights_bind_qwen4_layer\<close>.\<close>

definition hc_fields :: "(string \<times> string) list" where
  "hc_fields =
     [(''hc_attn_norm'', ''hc_attn_norm.weight''), (''hc_attn_down'', ''hc_attn_down.weight''),
      (''hc_attn_up'', ''hc_attn_up.weight''), (''hc_attn_inject'', ''hc_attn_inject.weight''),
      (''hc_ffn_norm'', ''hc_ffn_norm.weight''), (''hc_ffn_down'', ''hc_ffn_down.weight''),
      (''hc_ffn_up'', ''hc_ffn_up.weight''), (''hc_ffn_inject'', ''hc_ffn_inject.weight'')]"

definition linear_fields :: "(string \<times> string) list" where
  "linear_fields =
     [(''lin_qkv'', ''attn_qkv.weight''), (''lin_gate'', ''attn_gate.weight''), (''lin_conv'', ''ssm_conv1d.weight''),
      (''lin_dt_bias'', ''ssm_dt.bias''), (''lin_a'', ''ssm_a''), (''lin_beta'', ''ssm_beta.weight''),
      (''lin_alpha'', ''ssm_alpha.weight''), (''lin_norm'', ''ssm_norm.weight''), (''lin_out'', ''ssm_out.weight'')]"

definition attention_fields :: "(string \<times> string) list" where
  "attention_fields =
     [(''attn_q'', ''attn_q.weight''), (''attn_k'', ''attn_k.weight''), (''attn_v'', ''attn_v.weight''),
      (''attn_output'', ''attn_output.weight''), (''attn_q_norm'', ''attn_q_norm.weight''),
      (''attn_k_norm'', ''attn_k_norm.weight''), (''indexer_q_proj'', ''indexer.q_proj.weight''),
      (''indexer_k_proj'', ''indexer.k_proj.weight''), (''indexer_q_norm'', ''indexer.q_norm.weight''),
      (''indexer_k_norm'', ''indexer.k_norm.weight'')]"

definition ple_fields :: "(string \<times> string) list" where
  "ple_fields =
     [(''ple_key'', ''ple_key.weight''), (''ple_value'', ''ple_value.weight''), (''ple_norm_key'', ''ple_norm_key.weight''),
      (''ple_norm_query'', ''ple_norm_query.weight''), (''ple_norm_conv'', ''ple_norm_conv.weight''),
      (''ple_conv'', ''ple_conv1d.weight'')]"

definition ffn_fields :: "(string \<times> string) list" where
  "ffn_fields =
     [(''ffn_gate_inp'', ''ffn_gate_inp.weight''), (''ffn_gate_exps'', ''ffn_gate_exps.weight''),
      (''ffn_up_exps'', ''ffn_up_exps.weight''), (''ffn_down_exps'', ''ffn_down_exps.weight''),
      (''ffn_gate_inp_shexp'', ''ffn_gate_inp_shexp.weight''), (''ffn_gate_shexp'', ''ffn_gate_shexp.weight''),
      (''ffn_up_shexp'', ''ffn_up_shexp.weight''), (''ffn_down_shexp'', ''ffn_down_shexp.weight'')]"

definition nextn_fields :: "(string \<times> string) list" where
  "nextn_fields =
     [(''nextn_eh_proj'', ''nextn.eh_proj.weight''), (''nextn_enorm'', ''nextn.enorm.weight''),
      (''nextn_hnorm'', ''nextn.hnorm.weight''), (''nextn_hc_head_norm'', ''nextn.hc_head_norm.weight''),
      (''nextn_hc_head_down'', ''nextn.hc_head_down.weight''), (''nextn_hc_head_up'', ''nextn.hc_head_up.weight'')]"

definition layer_fields :: "ds4_shape \<Rightarrow> u32 \<Rightarrow> (string \<times> string) list" where
  "layer_fields sh il =
     hc_fields @ (if ds4_qwen4_layer_is_linear sh il then linear_fields else attention_fields)
     @ (if ds4_qwen4_layer_is_ple sh il then ple_fields else []) @ ffn_fields
     @ (if ds4_qwen4_layer_is_nextn sh il then nextn_fields else [])"

fun bind_fields :: "gguf_model \<Rightarrow> u32 \<Rightarrow> (string \<times> string) list \<Rightarrow> layer_weights \<Rightarrow> weights_error + layer_weights" where
  "bind_fields m il [] l = Inr l"
| "bind_fields m il ((f, sfx) # fs) l = and_then (required_tensorf m sfx il) (\<lambda>t. bind_fields m il fs (l(f \<mapsto> t)))"

definition weights_bind_qwen4_layer :: "ds4_shape \<Rightarrow> gguf_model \<Rightarrow> u32 \<Rightarrow> weights_error + layer_weights" where
  "weights_bind_qwen4_layer sh m il = bind_fields m il (layer_fields sh il) Map.empty"

text \<open>The loops over the layers.\<close>

fun bind_layers :: "ds4_shape \<Rightarrow> gguf_model \<Rightarrow> u32 list \<Rightarrow> ds4_weights \<Rightarrow> weights_error + ds4_weights" where
  "bind_layers sh m [] w = Inr w"
| "bind_layers sh m (il # ils) w =
     and_then (weights_bind_qwen4_layer sh m il) (\<lambda>l. bind_layers sh m ils (w\<lparr>w_layer := (w_layer w)(il := l)\<rparr>))"

definition output_fields :: "(string \<times> string) list" where
  "output_fields =
     [(''output_hc_norm'', ''output_hc_norm.weight''), (''output_hc_down'', ''output_hc_down.weight''),
      (''output_hc_up'', ''output_hc_up.weight''), (''output'', ''output.weight'')]"

fun require_output_fields :: "gguf_model \<Rightarrow> (string \<times> string) list \<Rightarrow> layer_weights \<Rightarrow> weights_error + layer_weights" where
  "require_output_fields m [] l = Inr l"
| "require_output_fields m ((f, name) # fs) l = and_then (required_tensor m name) (\<lambda>t. require_output_fields m fs (l(f \<mapsto> t)))"

definition weights_have_output_head :: "layer_weights \<Rightarrow> bool" where
  "weights_have_output_head l \<longleftrightarrow> list_all (\<lambda>(f, _). l f \<noteq> None) output_fields"

definition weights_have_partial_output_head :: "layer_weights \<Rightarrow> bool" where
  "weights_have_partial_output_head l \<longleftrightarrow> list_ex (\<lambda>(f, _). l f \<noteq> None) output_fields"

definition weights_bind_output :: "gguf_model \<Rightarrow> bool \<Rightarrow> bool \<Rightarrow> weights_error + layer_weights" where
  "weights_bind_output m required optional =
     and_then
       (if required then require_output_fields m output_fields Map.empty
        else if optional then Inr (foldl (\<lambda>l (f, name). l(f := model_find_tensor m name)) Map.empty output_fields)
        else Inr Map.empty)
       (\<lambda>l. if optional \<and> weights_have_partial_output_head l \<and> \<not> weights_have_output_head l then Inl Partial_output else Inr l)"

subsection \<open>The layouts\<close>

datatype layout = Exact u32 "u64 list" | Dense "u64 list" | Expert "u64 list"

fun expect :: "string \<Rightarrow> gguf_tensor \<Rightarrow> layout \<Rightarrow> weights_error + unit" where
  "expect f t (Exact ty dims) = tensor_expect_layout f t ty dims"
| "expect f t (Dense dims) = tensor_expect_qwen4_dense_layout f t dims"
| "expect f t (Expert dims) = tensor_expect_qwen4_expert_layout f t dims"

text \<open>A missing tensor is the internal error of the code.\<close>

fun expect_fields :: "layer_weights \<Rightarrow> (string \<times> layout) list \<Rightarrow> weights_error + unit" where
  "expect_fields l [] = Inr ()"
| "expect_fields l ((f, k) # ks) =
     (case l f of None \<Rightarrow> Inl (Tensor_missing f) | Some t \<Rightarrow> and_then (expect f t k) (\<lambda>_. expect_fields l ks))"

definition hc_dim :: "ds4_shape \<Rightarrow> u64" where "hc_dim sh = ucast (sh_n_embd sh) * ucast (sh_n_hc sh)"
definition q_dim :: "ds4_shape \<Rightarrow> u64" where "q_dim sh = ucast (sh_n_head sh) * ucast (sh_n_head_dim sh)"
definition kv_dim :: "ds4_shape \<Rightarrow> u64" where "kv_dim sh = ucast (sh_n_head_kv sh) * ucast (sh_n_head_dim sh)"
definition lin_k_dim :: "ds4_shape \<Rightarrow> u64" where "lin_k_dim sh = ucast (sh_n_lin_k_head sh) * ucast (sh_n_lin_head_dim sh)"
definition lin_v_dim :: "ds4_shape \<Rightarrow> u64" where "lin_v_dim sh = ucast (sh_n_lin_v_head sh) * ucast (sh_n_lin_head_dim sh)"
definition index_q_dim :: "ds4_shape \<Rightarrow> u64" where "index_q_dim sh = ucast (sh_n_indexer_head sh) * ucast (sh_n_indexer_head_dim sh)"

definition F32 :: "u64 list \<Rightarrow> layout" where "F32 = Exact DS4_TENSOR_F32"

definition hc_layouts :: "ds4_shape \<Rightarrow> (string \<times> layout) list" where
  "hc_layouts sh =
     [(''hc_attn_norm'', F32 [hc_dim sh]), (''hc_attn_down'', Dense [hc_dim sh, ucast (sh_n_hc_lowrank sh)]),
      (''hc_attn_up'', Dense [ucast (sh_n_hc_lowrank sh), hc_dim sh]), (''hc_attn_inject'', Dense [hc_dim sh, ucast (sh_n_hc sh)]),
      (''hc_ffn_norm'', F32 [hc_dim sh]), (''hc_ffn_down'', Dense [hc_dim sh, ucast (sh_n_hc_lowrank sh)]),
      (''hc_ffn_up'', Dense [ucast (sh_n_hc_lowrank sh), hc_dim sh]), (''hc_ffn_inject'', Dense [hc_dim sh, ucast (sh_n_hc sh)])]"

definition linear_layouts :: "ds4_shape \<Rightarrow> (string \<times> layout) list" where
  "linear_layouts sh =
     (let e = ucast (sh_n_embd sh); v = lin_v_dim sh; conv = 2 * lin_k_dim sh + v; vh = ucast (sh_n_lin_v_head sh) in
      [(''lin_qkv'', Dense [e, conv]), (''lin_gate'', Dense [e, v]), (''lin_conv'', F32 [ucast (sh_n_lin_conv sh), conv]),
       (''lin_dt_bias'', F32 [vh]), (''lin_a'', F32 [vh]), (''lin_beta'', Dense [e, vh]), (''lin_alpha'', Dense [e, vh]),
       (''lin_norm'', F32 [ucast (sh_n_lin_head_dim sh)]), (''lin_out'', Dense [v, e])])"

definition attention_layouts :: "ds4_shape \<Rightarrow> (string \<times> layout) list" where
  "attention_layouts sh =
     (let e = ucast (sh_n_embd sh); hd = ucast (sh_n_head_dim sh); id = ucast (sh_n_indexer_head_dim sh) in
      [(''attn_q'', Dense [e, 2 * q_dim sh]), (''attn_k'', Dense [e, kv_dim sh]), (''attn_v'', Dense [e, kv_dim sh]),
       (''attn_output'', Dense [q_dim sh, e]), (''attn_q_norm'', F32 [hd]), (''attn_k_norm'', F32 [hd]),
       (''indexer_q_proj'', Dense [e, index_q_dim sh]), (''indexer_k_proj'', Dense [e, id]),
       (''indexer_q_norm'', F32 [id]), (''indexer_k_norm'', F32 [id])])"

text \<open>The convolution of the n-gram block may be stored in half precision.\<close>

definition ple_layouts :: "ds4_shape \<Rightarrow> layer_weights \<Rightarrow> (string \<times> layout) list" where
  "ple_layouts sh l =
     (let e = ucast (sh_n_embd sh); h = hc_dim sh in
      [(''ple_key'', Dense [e, h]), (''ple_value'', Dense [e, e]), (''ple_norm_key'', F32 [h]), (''ple_norm_query'', F32 [h]),
       (''ple_norm_conv'', F32 [h]),
       (''ple_conv'', Exact (if map_option ts_type (l ''ple_conv'') = Some DS4_TENSOR_F16 then DS4_TENSOR_F16 else DS4_TENSOR_F32)
          [ucast (sh_n_ple_conv sh), h])])"

text \<open>Rows of \<open>Q2_K\<close> are padded to whole blocks of 256.\<close>

definition down_width :: "ds4_shape \<Rightarrow> layer_weights \<Rightarrow> u32" where
  "down_width sh l =
     (if map_option ts_type (l ''ffn_down_exps'') = Some DS4_TENSOR_Q2_K then (sh_n_ff_exp sh + 255) div 256 * 256 else sh_n_ff_exp sh)"

definition expert_layouts :: "ds4_shape \<Rightarrow> layer_weights \<Rightarrow> (string \<times> layout) list" where
  "expert_layouts sh l =
     (let e = ucast (sh_n_embd sh); f = ucast (sh_n_ff_exp sh); n = ucast (sh_n_expert sh) in
      [(''ffn_gate_inp'', F32 [e, n]), (''ffn_gate_exps'', Expert [e, f, n]), (''ffn_up_exps'', Expert [e, f, n]),
       (''ffn_down_exps'', Expert [ucast (down_width sh l), e, n])])"

definition shared_layouts :: "ds4_shape \<Rightarrow> layer_weights \<Rightarrow> (string \<times> layout) list" where
  "shared_layouts sh l =
     (let e = ucast (sh_n_embd sh); f = ucast (sh_n_ff_exp sh) in
      [(''ffn_gate_inp_shexp'', F32 (if map_option ts_ndim (l ''ffn_gate_inp_shexp'') = Some 1 then [e] else [e, 1])),
       (''ffn_gate_shexp'', Dense [e, f]), (''ffn_up_shexp'', Dense [e, f]), (''ffn_down_shexp'', Dense [f, e])])"

definition nextn_layouts :: "ds4_shape \<Rightarrow> (string \<times> layout) list" where
  "nextn_layouts sh =
     (let e = ucast (sh_n_embd sh); h = hc_dim sh; r = ucast (sh_n_hc_lowrank sh) in
      [(''nextn_eh_proj'', Dense [ucast (2 * sh_n_embd sh), e]), (''nextn_enorm'', F32 [e]), (''nextn_hnorm'', F32 [h]),
       (''nextn_hc_head_norm'', F32 [h]), (''nextn_hc_head_down'', Dense [h, r]), (''nextn_hc_head_up'', Dense [r, h])])"

definition weights_qwen4_layer_has_required :: "ds4_shape \<Rightarrow> u32 \<Rightarrow> layer_weights \<Rightarrow> bool" where
  "weights_qwen4_layer_has_required sh il l \<longleftrightarrow> list_all (\<lambda>(f, _). l f \<noteq> None) (layer_fields sh il)"

definition validate_layer :: "ds4_shape \<Rightarrow> u32 \<Rightarrow> layer_weights \<Rightarrow> weights_error + unit" where
  "validate_layer sh il l =
     (if \<not> weights_qwen4_layer_has_required sh il l then Inl (Layer_missing il)
      else
        and_then (expect_fields l
            (hc_layouts sh @ (if ds4_qwen4_layer_is_linear sh il then linear_layouts sh else attention_layouts sh)
             @ (if ds4_qwen4_layer_is_ple sh il then ple_layouts sh l else []) @ expert_layouts sh l)) (\<lambda>_.
        if map_option ts_type (l ''ffn_gate_exps'') \<noteq> map_option ts_type (l ''ffn_up_exps'') then Inl (Expert_types_differ il)
        else expect_fields l (shared_layouts sh l @ (if ds4_qwen4_layer_is_nextn sh il then nextn_layouts sh else []))))"

fun validate_layers :: "ds4_shape \<Rightarrow> ds4_weights \<Rightarrow> u32 list \<Rightarrow> weights_error + unit" where
  "validate_layers sh w [] = Inr ()"
| "validate_layers sh w (il # ils) = and_then (validate_layer sh il (w_layer w il)) (\<lambda>_. validate_layers sh w ils)"

definition weights_validate_qwen4_layout ::
  "ds4_shape \<Rightarrow> u64 \<Rightarrow> ds4_weights \<Rightarrow> u32 \<Rightarrow> u32 \<Rightarrow> bool \<Rightarrow> bool \<Rightarrow> weights_error + unit" where
  "weights_validate_qwen4_layout sh n_rows w layer_start layer_end require_token_embd require_output =
     (let layer_end = (if layer_end = 0xFFFFFFFF then sh_n_layer sh - 1 else layer_end);
          have_output = weights_have_output_head (w_output w) in
      if sh_n_layer sh \<le> layer_start then Inl Bad_layer_range
      else if sh_n_layer sh \<le> layer_end \<or> layer_end < layer_start then Inl Bad_layer_range
      else if require_token_embd \<and> w_token_embd w = None then Inl Token_embd_missing
      else
        and_then (case w_token_embd w of None \<Rightarrow> Inr ()
                  | Some t \<Rightarrow> tensor_expect_qwen4_dense_layout ''token_embd'' t [ucast (sh_n_embd sh), ucast (sh_n_vocab sh)]) (\<lambda>_.
        if require_token_embd \<and> w_ple_embd w = None then Inl Ngrams_missing
        else
          and_then (case w_ple_embd w of None \<Rightarrow> Inr ()
                    | Some t \<Rightarrow>
                        if ts_type t \<noteq> DS4_TENSOR_BF16 then Inl Ngrams_type
                        else if ts_ndim t \<noteq> 2 \<or> ts_dim t ! 0 \<noteq> ucast (sh_n_ple_head_dim sh) \<or> ts_dim t ! 1 < n_rows
                        then Inl Ngrams_layout else Inr ()) (\<lambda>_.
          if require_output \<and> \<not> have_output then Inl Output_missing
          else if weights_have_partial_output_head (w_output w) \<and> \<not> have_output then Inl Partial_output
          else
            and_then (if have_output then
                        expect_fields (w_output w)
                          [(''output_hc_norm'', F32 [hc_dim sh]), (''output_hc_down'', Dense [hc_dim sh, ucast (sh_n_hc_lowrank sh)]),
                           (''output_hc_up'', Dense [ucast (sh_n_hc_lowrank sh), hc_dim sh]),
                           (''output'', Dense [ucast (sh_n_embd sh), ucast (sh_n_vocab sh)])]
                      else Inr ()) (\<lambda>_.
            validate_layers sh w (map of_nat [unat layer_start..<Suc (unat layer_end)])))))"

definition no_weights :: ds4_weights where
  "no_weights = \<lparr>w_token_embd = None, w_ple_embd = None, w_output = Map.empty, w_layer = (\<lambda>_. Map.empty)\<rparr>"

definition executable_layers :: "ds4_shape \<Rightarrow> u32" where
  "executable_layers sh = (if sh_n_nextn_predict sh < sh_n_layer sh then sh_n_layer sh - sh_n_nextn_predict sh else sh_n_layer sh)"

text \<open>The slice: \<open>None\<close> where the code stops; otherwise its first and last layer, and whether token embedding and output are required.\<close>

definition load_range :: "ds4_shape \<Rightarrow> bool \<Rightarrow> u32 \<Rightarrow> u32 \<Rightarrow> (u32 \<times> u32) option" where
  "load_range sh load_slice first last_layer =
     (if \<not> load_slice then Some (0, executable_layers sh - 1)
      else if executable_layers sh \<le> first then None
      else
        let l = (if last_layer = 0xFFFFFFFF then executable_layers sh - 1 else last_layer) in
        if executable_layers sh \<le> l \<or> l < first then None else Some (first, l))"

definition weights_bind ::
  "ds4_shape \<Rightarrow> u64 \<Rightarrow> gguf_model \<Rightarrow> bool \<Rightarrow> u32 \<Rightarrow> u32 \<Rightarrow> bool \<Rightarrow> bool \<Rightarrow> weights_error + ds4_weights" where
  "weights_bind sh n_rows m load_slice load_layer_start load_layer_end require_output optional_output =
     (case load_range sh load_slice load_layer_start load_layer_end of
        None \<Rightarrow> Inl Bad_slice
      | Some (s, e) \<Rightarrow>
          let require_token_embd = (\<not> load_slice \<or> s = 0);
              require_output = (\<not> load_slice \<or> require_output);
              optional_output = (load_slice \<and> optional_output) in
          and_then (if require_token_embd then map_sum id Some (required_tensor m ''token_embd.weight'')
                    else Inr (model_find_tensor m ''token_embd.weight'')) (\<lambda>te.
          and_then (weights_bind_output m require_output optional_output) (\<lambda>out.
            let w = no_weights\<lparr>w_token_embd := te, w_ple_embd := model_find_tensor m ''per_layer_token_embd.weight'', w_output := out\<rparr> in
            and_then (bind_layers sh m (map of_nat [unat s..<Suc (unat e)]) w) (\<lambda>w.
            and_then (if \<not> load_slice \<and> s = 0 \<and> e = executable_layers sh - 1
                      then bind_layers sh m (map of_nat [unat (executable_layers sh)..<unat (sh_n_layer sh)]) w
                      else Inr w) (\<lambda>w.
            and_then (weights_validate_qwen4_layout sh n_rows w s e require_token_embd require_output) (\<lambda>_. Inr w))))))"

subsection \<open>Names are unambiguous\<close>

lemma dec_digits_value: "foldl (\<lambda>v c. 10 * v + digit_value c) 0 (dec_digits n) = n"
proof (induction n rule: dec_digits.induct)
  case (1 n)
  have d: "digit_value (char_of (48 + k :: nat)) = k" if "k < 10" for k
    using that by (simp add: digit_value_def)
  show ?case
  proof (cases "n < 10")
    case True
    then show ?thesis using d [of n] by (simp add: dec_digits.simps [of n])
  next
    case False
    then show ?thesis using 1 d [of "n mod 10"] by (simp add: dec_digits.simps [of n])
  qed
qed

lemma dec_digits_no_dot: "CHR ''.'' \<notin> set (dec_digits n)"
proof (induction n rule: dec_digits.induct)
  case (1 n)
  have d: "CHR ''.'' \<noteq> char_of (48 + k :: nat)" if "k < 10" for k
  proof
    assume "CHR ''.'' = char_of (48 + k)"
    then have "of_char CHR ''.'' = (of_char (char_of (48 + k :: nat)) :: nat)" by simp
    then show False using that by simp
  qed
  show ?case using 1 d [of n] d [of "n mod 10"] by (cases "n < 10") (auto simp: dec_digits.simps [of n])
qed

lemma until_dot: "CHR ''.'' \<notin> set a \<Longrightarrow> CHR ''.'' \<notin> set b \<Longrightarrow> a @ ''.'' @ s = b @ ''.'' @ t \<Longrightarrow> a = b"
proof (induction a arbitrary: b)
  case Nil
  then show ?case by (cases b) auto
next
  case (Cons x a)
  then show ?case by (cases b) auto
qed

lemma layer_tensor_name_inj: "layer_tensor_name il s = layer_tensor_name il' s' \<Longrightarrow> il = il'"
proof -
  assume "layer_tensor_name il s = layer_tensor_name il' s'"
  then have "dec_digits (unat il) = dec_digits (unat il')"
    using until_dot [OF dec_digits_no_dot dec_digits_no_dot] by (simp add: layer_tensor_name_def)
  then have "unat il = unat il'" using dec_digits_value by metis
  then show ?thesis by (simp add: word_unat_eq_iff)
qed

lemma of_char_u8_inj: "(of_char a :: u8) = of_char b \<longleftrightarrow> a = b"
proof -
  have "(of_char a :: u8) = of_char b \<longleftrightarrow> (of_nat (of_char a) :: u8) = of_nat (of_char b)" by (simp only: of_nat_of_char)
  also have "\<dots> \<longleftrightarrow> take_bit 8 (of_char a :: nat) = take_bit 8 (of_char b)" by (simp only: word_of_nat_eq_iff) simp
  also have "\<dots> \<longleftrightarrow> (of_char a :: nat) = of_char b"
    using nat_of_char_less_256 [of a] nat_of_char_less_256 [of b] by (simp add: take_bit_nat_eq_self)
  finally show ?thesis by simp
qed

lemma bytes_inj: "map (of_char :: char \<Rightarrow> u8) x = map of_char y \<longleftrightarrow> x = y"
  by (rule inj_map_eq_map) (simp add: inj_def of_char_u8_inj)

lemma streq_bytes [simp]: "ds4_streq (map of_char x) y \<longleftrightarrow> x = y"
  by (auto simp: ds4_streq_def bytes_inj)

lemma streq_unique: "ds4_streq s x \<Longrightarrow> ds4_streq s y \<Longrightarrow> x = y"
  by (simp add: ds4_streq_def bytes_inj)

subsection \<open>What a bound weight is\<close>

fun layout_dims :: "layout \<Rightarrow> u64 list" where
  "layout_dims (Exact ty dims) = dims"
| "layout_dims (Dense dims) = dims"
| "layout_dims (Expert dims) = dims"

definition layer_layouts :: "ds4_shape \<Rightarrow> u32 \<Rightarrow> layer_weights \<Rightarrow> (string \<times> layout) list" where
  "layer_layouts sh il l =
     hc_layouts sh @ (if ds4_qwen4_layer_is_linear sh il then linear_layouts sh else attention_layouts sh)
     @ (if ds4_qwen4_layer_is_ple sh il then ple_layouts sh l else []) @ expert_layouts sh l @ shared_layouts sh l
     @ (if ds4_qwen4_layer_is_nextn sh il then nextn_layouts sh else [])"

lemma expect_fieldsD: "expect_fields l ks = Inr () \<Longrightarrow> (f, k) \<in> set ks \<Longrightarrow> \<exists>t. l f = Some t \<and> expect f t k = Inr ()"
  by (induction ks) (auto simp: and_then_Inr split: option.splits)

lemma expect_dims: "expect f t k = Inr () \<Longrightarrow> ts_dim t = layout_dims k"
  by (cases k) (auto simp: tensor_expect_layout_def tensor_expect_qwen4_dense_layout_def tensor_expect_qwen4_expert_layout_def
      split: if_splits)

lemma validate_layerD:
  assumes "validate_layer sh il l = Inr ()" "(f, k) \<in> set (layer_layouts sh il l)"
  shows "\<exists>t. l f = Some t \<and> expect f t k = Inr ()"
proof -
  have 1: "expect_fields l (hc_layouts sh @ (if ds4_qwen4_layer_is_linear sh il then linear_layouts sh else attention_layouts sh)
             @ (if ds4_qwen4_layer_is_ple sh il then ple_layouts sh l else []) @ expert_layouts sh l) = Inr ()"
    and 2: "expect_fields l (shared_layouts sh l @ (if ds4_qwen4_layer_is_nextn sh il then nextn_layouts sh else [])) = Inr ()"
    using assms(1) by (auto simp: validate_layer_def and_then_Inr split: if_splits)
  show ?thesis
    using assms(2) expect_fieldsD [OF 1, of f k] expect_fieldsD [OF 2, of f k] unfolding layer_layouts_def set_append by blast
qed

lemma bind_fieldsD:
  "bind_fields m il fs l = Inr l' \<Longrightarrow> l' f = Some t \<Longrightarrow>
     l f = Some t \<or> (\<exists>sfx. (f, sfx) \<in> set fs \<and> model_find_tensor m (layer_tensor_name il sfx) = Some t)"
proof (induction fs arbitrary: l)
  case (Cons a fs)
  obtain g sfx where a: "a = (g, sfx)" by (cases a)
  obtain u where u: "required_tensorf m sfx il = Inr u" "bind_fields m il fs (l(g \<mapsto> u)) = Inr l'"
    using Cons.prems(1) a by (auto simp: and_then_Inr)
  have "model_find_tensor m (layer_tensor_name il sfx) = Some u"
    using u(1) by (auto simp: required_tensorf_def required_tensor_def split: if_splits option.splits)
  with Cons.IH [OF u(2) Cons.prems(2)] a show ?case by (auto split: if_splits)
qed simp

lemma bind_layersD:
  "bind_layers sh m ils w = Inr w' \<Longrightarrow>
     (\<forall>il \<in> set ils. weights_bind_qwen4_layer sh m il = Inr (w_layer w' il)) \<and> (\<forall>il. il \<notin> set ils \<longrightarrow> w_layer w' il = w_layer w il)
     \<and> w_token_embd w' = w_token_embd w \<and> w_ple_embd w' = w_ple_embd w \<and> w_output w' = w_output w"
proof (induction ils arbitrary: w)
  case (Cons il ils)
  obtain l where l: "weights_bind_qwen4_layer sh m il = Inr l" "bind_layers sh m ils (w\<lparr>w_layer := (w_layer w)(il := l)\<rparr>) = Inr w'"
    using Cons.prems by (auto simp: and_then_Inr)
  from Cons.IH [OF l(2)] l(1) show ?case by (cases "il \<in> set ils") auto
qed simp

lemma validate_layersD: "validate_layers sh w ils = Inr () \<Longrightarrow> il \<in> set ils \<Longrightarrow> validate_layer sh il (w_layer w il) = Inr ()"
  by (induction ils) (auto simp: and_then_Inr)

lemma executable_le: "unat (executable_layers sh) \<le> unat (sh_n_layer sh)"
proof (cases "sh_n_nextn_predict sh < sh_n_layer sh")
  case True
  then have "unat (sh_n_layer sh - sh_n_nextn_predict sh) = unat (sh_n_layer sh) - unat (sh_n_nextn_predict sh)"
    by (simp add: unat_sub)
  with True show ?thesis by (simp add: executable_layers_def)
qed (simp add: executable_layers_def)

lemma layer_list: "il \<in> set (map of_nat [unat (a :: u32)..<Suc (unat b)]) \<longleftrightarrow> a \<le> il \<and> il \<le> b"
proof
  assume "il \<in> set (map of_nat [unat a..<Suc (unat b)])"
  then obtain k where k: "unat a \<le> k" "k \<le> unat b" "il = of_nat k" by auto
  then have "k < 2 ^ 32" using unat_u32_bound [of b] by simp
  then have "unat il = k" using k(3) by (simp add: unat_of_nat)
  then show "a \<le> il \<and> il \<le> b" using k by (simp add: word_le_nat_alt)
next
  assume "a \<le> il \<and> il \<le> b"
  then have "unat a \<le> unat il" "unat il \<le> unat b" by (simp_all add: word_le_nat_alt)
  then have "il = of_nat (unat il)" "unat il \<in> set [unat a..<Suc (unat b)]" unfolding set_upt atLeastLessThan_iff by simp_all
  then show "il \<in> set (map of_nat [unat a..<Suc (unat b)])" by (metis image_eqI set_map)
qed

lemma layer_list_below: "il \<in> set (map of_nat [unat (a :: u32)..<unat b]) \<longleftrightarrow> a \<le> il \<and> il < b"
proof
  assume "il \<in> set (map of_nat [unat a..<unat b])"
  then obtain k where k: "unat a \<le> k" "k < unat b" "il = of_nat k" by auto
  then have "k < 2 ^ 32" using unat_u32_bound [of b] by simp
  then have "unat il = k" using k(3) by (simp add: unat_of_nat)
  then show "a \<le> il \<and> il < b" using k by (simp add: word_le_nat_alt word_less_nat_alt)
next
  assume "a \<le> il \<and> il < b"
  then have "unat a \<le> unat il" "unat il < unat b" by (simp_all add: word_le_nat_alt word_less_nat_alt)
  then have "il = of_nat (unat il)" "unat il \<in> set [unat a..<unat b]" by simp_all
  then show "il \<in> set (map of_nat [unat a..<unat b])" by (metis image_eqI set_map)
qed

text \<open>A bound layer of the slice: its tensors are those of its name, with the layout of the shape.\<close>

lemma weights_bind_layers:
  assumes "weights_bind sh n_rows m load_slice first last_layer ro oo = Inr w" "load_range sh load_slice first last_layer = Some (s, e)"
    "s \<le> il" "il \<le> e" "e < executable_layers sh"
  shows "validate_layer sh il (w_layer w il) = Inr () \<and> weights_bind_qwen4_layer sh m il = Inr (w_layer w il)
    \<and> w_ple_embd w = model_find_tensor m ''per_layer_token_embd.weight''
    \<and> (\<not> load_slice \<longrightarrow> (\<exists>t. w_ple_embd w = Some t \<and> ts_type t = DS4_TENSOR_BF16 \<and> ts_ndim t = 2
         \<and> ts_dim t ! 0 = ucast (sh_n_ple_head_dim sh) \<and> n_rows \<le> ts_dim t ! 1))"
proof -
  let ?ils = "map of_nat [unat s..<Suc (unat e)]" and ?mtp = "map of_nat [unat (executable_layers sh)..<unat (sh_n_layer sh)]"
  obtain te out w1 w2 where w: "bind_layers sh m ?ils
       (no_weights\<lparr>w_token_embd := te, w_ple_embd := model_find_tensor m ''per_layer_token_embd.weight'', w_output := out\<rparr>) = Inr w1"
    "(if \<not> load_slice \<and> s = 0 \<and> e = executable_layers sh - 1 then bind_layers sh m ?mtp w1 else Inr w1) = Inr w2" "w2 = w"
    "weights_validate_qwen4_layout sh n_rows w2 s e (\<not> load_slice \<or> s = 0) (\<not> load_slice \<or> ro) = Inr ()"
    using assms(1,2) by (auto simp: weights_bind_def and_then_Inr Let_def)
  have il: "il \<in> set ?ils" using assms(3,4) layer_list by blast
  have nm: "il \<notin> set ?mtp" using layer_list_below assms(4,5) by auto
  have same: "w_layer w il = w_layer w1 il \<and> w_ple_embd w = w_ple_embd w1"
    using w(2,3) bind_layersD [of sh m ?mtp w1 w2] nm by (auto split: if_splits)
  have w1: "weights_bind_qwen4_layer sh m il = Inr (w_layer w1 il) \<and> w_ple_embd w1 = model_find_tensor m ''per_layer_token_embd.weight''"
    using bind_layersD [OF w(1)] il by auto
  have e: "e < sh_n_layer sh" using assms(5) executable_le [of sh] by (simp add: word_less_nat_alt)
  have "e \<noteq> 0xFFFFFFFF"
  proof
    assume "e = 0xFFFFFFFF"
    then have "unat (sh_n_layer sh) > 4294967295" using e by (simp add: word_less_nat_alt)
    then show False using unat_u32_bound [of "sh_n_layer sh"] by simp
  qed
  then have v: "validate_layers sh w2 ?ils = Inr ()"
    and p: "\<not> load_slice \<longrightarrow> (\<exists>t. w_ple_embd w = Some t \<and> ts_type t = DS4_TENSOR_BF16 \<and> ts_ndim t = 2
         \<and> ts_dim t ! 0 = ucast (sh_n_ple_head_dim sh) \<and> n_rows \<le> ts_dim t ! 1)"
    using w(4) unfolding w(3)
    by (auto simp: weights_validate_qwen4_layout_def and_then_Inr Let_def not_less split: if_splits option.splits)
  show ?thesis using validate_layersD [OF v il] same w1 w(3) p by simp
qed

lemma find_tensor: "model_find_tensor m name = Some t \<Longrightarrow> t \<in> set (mo_tensors m) \<and> ds4_streq (ts_name t) name"
  by (auto simp: model_find_tensor_def find_Some_iff)

lemma last_layer: "(a :: u32) < b \<Longrightarrow> 0 \<le> a \<and> a \<le> b - 1 \<and> b - 1 < b"
proof -
  assume ab: "a < b"
  then have "b \<noteq> 0" by auto
  then have "unat (b - 1) = unat b - 1" by (subst unat_sub) (simp_all add: word_le_nat_alt unat_gt_0 Suc_leI)
  then show ?thesis using ab by (simp add: word_less_nat_alt word_le_nat_alt)
qed

lemma bound_layer_field:
  assumes "weights_bind_qwen4_layer sh m il = Inr l" "l f = Some t"
  shows "t \<in> set (mo_tensors m) \<and> \<not> ngram_table t"
proof -
  obtain sfx where "model_find_tensor m (layer_tensor_name il sfx) = Some t"
    using bind_fieldsD [of m il "layer_fields sh il" Map.empty l f t] assms by (auto simp: weights_bind_qwen4_layer_def)
  then have "t \<in> set (mo_tensors m)" "ds4_streq (ts_name t) (layer_tensor_name il sfx)" using find_tensor by blast+
  moreover have "layer_tensor_name il sfx \<noteq> ''per_layer_token_embd.weight''" by (simp add: layer_tensor_name_def)
  ultimately show ?thesis using streq_unique unfolding ngram_table_def by blast
qed


subsection \<open>The layers nobody checks\<close>

text \<open>A tensor of a predictor layer, one that is bound after the layers that run.\<close>

definition predictor_tensor :: "ds4_shape \<Rightarrow> gguf_tensor \<Rightarrow> bool" where
  "predictor_tensor sh t \<longleftrightarrow> (\<exists>il sfx. executable_layers sh \<le> il \<and> ds4_streq (ts_name t) (layer_tensor_name il sfx))"

definition retouch :: "(gguf_tensor \<Rightarrow> gguf_tensor) \<Rightarrow> gguf_model \<Rightarrow> gguf_model" where
  "retouch g m = m\<lparr>mo_tensors := map g (mo_tensors m)\<rparr>"

lemma find_map_tensor:
  assumes "\<And>t. ts_name (g t) = ts_name t"
  shows "model_find_tensor (retouch g m) name = map_option g (model_find_tensor m name)"
proof -
  have "find (\<lambda>t. ds4_streq (ts_name t) name) (map g ts) = map_option g (find (\<lambda>t. ds4_streq (ts_name t) name) ts)" for ts
    by (induction ts) (auto simp: assms)
  then show ?thesis by (simp add: model_find_tensor_def retouch_def)
qed

definition keeps_layers :: "ds4_shape \<Rightarrow> (gguf_tensor \<Rightarrow> gguf_tensor) \<Rightarrow> bool" where
  "keeps_layers sh g \<longleftrightarrow> (\<forall>t. ts_name (g t) = ts_name t \<and> (\<not> predictor_tensor sh t \<longrightarrow> g t = t))"

lemma find_other:
  assumes "keeps_layers sh g" "\<And>il sfx. executable_layers sh \<le> il \<Longrightarrow> name \<noteq> layer_tensor_name il sfx"
  shows "model_find_tensor (retouch g m) name = model_find_tensor m name"
proof -
  have "g t = t" if "model_find_tensor m name = Some t" for t
    using that find_tensor [OF that] assms(2) assms(1) streq_unique unfolding keeps_layers_def predictor_tensor_def by metis
  moreover have "model_find_tensor (retouch g m) name = map_option g (model_find_tensor m name)"
    by (rule find_map_tensor) (use assms(1) in \<open>simp add: keeps_layers_def\<close>)
  ultimately show ?thesis by (cases "model_find_tensor m name") auto
qed

lemma find_layer:
  assumes "keeps_layers sh g" "il < executable_layers sh"
  shows "model_find_tensor (retouch g m) (layer_tensor_name il sfx) = model_find_tensor m (layer_tensor_name il sfx)"
proof (rule find_other [OF assms(1)])
  fix il' sfx'
  assume "executable_layers sh \<le> il'"
  with assms(2) have "il \<noteq> il'" by auto
  then show "layer_tensor_name il sfx \<noteq> layer_tensor_name il' sfx'" using layer_tensor_name_inj by blast
qed

lemma bind_fields_cong:
  "(\<And>sfx. model_find_tensor m' (layer_tensor_name il sfx) = model_find_tensor m (layer_tensor_name il sfx)) \<Longrightarrow>
     bind_fields m' il fs l = bind_fields m il fs l"
  by (induction fs arbitrary: l) (auto simp: required_tensorf_def required_tensor_def and_then_def split: sum.splits)

lemma bind_layers_cong:
  "(\<And>il sfx. il \<in> set ils \<Longrightarrow> model_find_tensor m' (layer_tensor_name il sfx) = model_find_tensor m (layer_tensor_name il sfx)) \<Longrightarrow>
     bind_layers sh m' ils w = bind_layers sh m ils w"
proof (induction ils arbitrary: w)
  case (Cons il ils)
  have "weights_bind_qwen4_layer sh m' il = weights_bind_qwen4_layer sh m il"
    unfolding weights_bind_qwen4_layer_def by (rule bind_fields_cong) (simp add: Cons.prems)
  then show ?case using Cons by (simp add: and_then_def split: sum.splits)
qed simp

text \<open>Binding the predictor layers only asks for the names.\<close>

lemma bind_fields_total:
  assumes "bind_fields m il fs l = Inr w" "\<And>name. model_find_tensor m name \<noteq> None \<Longrightarrow> model_find_tensor m' name \<noteq> None"
  shows "\<exists>w'. bind_fields m' il fs l' = Inr w'"
  using assms(1)
proof (induction fs arbitrary: l l')
  case (Cons a fs)
  obtain g sfx where a: "a = (g, sfx)" by (cases a)
  obtain u where u: "required_tensorf m sfx il = Inr u" "bind_fields m il fs (l(g \<mapsto> u)) = Inr w"
    using Cons.prems a by (auto simp: and_then_Inr)
  then obtain u' where "required_tensorf m' sfx il = Inr u'"
    using assms(2) [of "layer_tensor_name il sfx"]
    by (auto simp: required_tensorf_def required_tensor_def split: if_splits option.splits)
  then show ?case using Cons.IH [OF u(2)] a by simp
qed simp

lemma bind_layers_total:
  assumes "bind_layers sh m ils w = Inr w1" "\<And>name. model_find_tensor m name \<noteq> None \<Longrightarrow> model_find_tensor m' name \<noteq> None"
  shows "\<exists>w'. bind_layers sh m' ils w = Inr w'"
proof -
  have "\<exists>w'. bind_layers sh m' ils v = Inr w'" for v
    using assms(1)
  proof (induction ils arbitrary: w v)
    case (Cons il ils)
    obtain l where l: "weights_bind_qwen4_layer sh m il = Inr l" "bind_layers sh m ils (w\<lparr>w_layer := (w_layer w)(il := l)\<rparr>) = Inr w1"
      using Cons.prems by (auto simp: and_then_Inr)
    obtain l' where "weights_bind_qwen4_layer sh m' il = Inr l'"
      using bind_fields_total assms(2) l(1) unfolding weights_bind_qwen4_layer_def by blast
    then show ?case using Cons.IH [OF l(2)] by simp
  qed simp
  then show ?thesis by blast
qed

lemma validate_cong:
  assumes "w_token_embd w' = w_token_embd w" "w_ple_embd w' = w_ple_embd w" "w_output w' = w_output w"
    "\<And>il. s \<le> il \<Longrightarrow> il \<le> e \<Longrightarrow> w_layer w' il = w_layer w il" "e \<noteq> 0xFFFFFFFF"
  shows "weights_validate_qwen4_layout sh n_rows w' s e te ro = weights_validate_qwen4_layout sh n_rows w s e te ro"
proof -
  have "validate_layers sh w' ils = validate_layers sh w ils" if "\<forall>il \<in> set ils. w_layer w' il = w_layer w il" for ils
    using that by (induction ils) (auto simp: and_then_def)
  moreover have "\<forall>il \<in> set (map of_nat [unat s..<Suc (unat e)]). w_layer w' il = w_layer w il"
    using assms(4) layer_list by blast
  ultimately show ?thesis using assms by (simp add: weights_validate_qwen4_layout_def Let_def)
qed

lemma bind_fields_retouch:
  assumes "bind_fields m il fs l = Inr w" "bind_fields (retouch g m) il fs l' = Inr w'" "\<And>t. ts_name (g t) = ts_name t"
    "\<forall>f. l' f = map_option g (l f)"
  shows "\<forall>f. w' f = map_option g (w f)"
  using assms(1,2,4)
proof (induction fs arbitrary: l l')
  case (Cons a fs)
  obtain h sfx where a: "a = (h, sfx)" by (cases a)
  obtain u where u: "required_tensorf m sfx il = Inr u" "bind_fields m il fs (l(h \<mapsto> u)) = Inr w"
    using Cons.prems(1) a by (auto simp: and_then_Inr)
  obtain u' where u': "required_tensorf (retouch g m) sfx il = Inr u'" "bind_fields (retouch g m) il fs (l'(h \<mapsto> u')) = Inr w'"
    using Cons.prems(2) a by (auto simp: and_then_Inr)
  have "u' = g u" using u(1) u'(1) find_map_tensor [OF assms(3), of m]
    by (auto simp: required_tensorf_def required_tensor_def split: if_splits option.splits)
  then show ?case using Cons.IH [OF u(2) u'(2)] Cons.prems(3) by simp
qed simp

lemma bind_layer_retouch:
  assumes "weights_bind_qwen4_layer sh m il = Inr w" "weights_bind_qwen4_layer sh (retouch g m) il = Inr w'"
    "\<And>t. ts_name (g t) = ts_name t"
  shows "w' f = map_option g (w f)"
  using bind_fields_retouch [OF assms(1,2) [unfolded weights_bind_qwen4_layer_def] assms(3)] by simp

text \<open>
  C38: the layers of the built-in predictor are bound but not validated: in a model that is accepted, their
  tensors may be given any type, any dimensions and any place, and the model is accepted just the same,
  with those tensors bound.
\<close>

theorem predictor_layouts_unchecked:
  assumes "weights_bind sh n_rows m False first last_layer ro oo = Inr w" "keeps_layers sh g"
  shows "\<exists>w'. weights_bind sh n_rows (retouch g m) False first last_layer ro oo = Inr w'
    \<and> (\<forall>il f. il < executable_layers sh \<longrightarrow> w_layer w' il f = w_layer w il f)
    \<and> (\<forall>il f. executable_layers sh \<le> il \<and> il < sh_n_layer sh \<longrightarrow> w_layer w' il f = map_option g (w_layer w il f))"
proof -
  let ?m' = "retouch g m" and ?x = "executable_layers sh" and ?e = "executable_layers sh - 1"
  let ?ils = "map of_nat [unat (0 :: u32)..<Suc (unat ?e)]" and ?mtp = "map of_nat [unat ?x..<unat (sh_n_layer sh)]"
  have nm: "ts_name (g t) = ts_name t" for t using assms(2) by (simp add: keeps_layers_def)
  have r: "load_range sh False first last_layer = Some (0, ?e)" by (simp add: load_range_def)
  obtain te out w1 where w: "required_tensor m ''token_embd.weight'' = Inr te"
    "weights_bind_output m True False = Inr out"
    "bind_layers sh m ?ils (no_weights\<lparr>w_token_embd := Some te, w_ple_embd := model_find_tensor m ''per_layer_token_embd.weight'', w_output := out\<rparr>) = Inr w1"
    "bind_layers sh m ?mtp w1 = Inr w"
    "weights_validate_qwen4_layout sh n_rows w 0 ?e True True = Inr ()"
    using assms(1) r by (auto simp: weights_bind_def and_then_Inr Let_def map_sum_def split: sum.splits)
  have x0: "0 < ?x"
  proof -
    have "0 < sh_n_layer sh"
    proof (rule ccontr)
      assume "\<not> 0 < sh_n_layer sh"
      then have "sh_n_layer sh = 0" by (metis not_less word_le_0_iff)
      then show False using w(5) by (simp add: weights_validate_qwen4_layout_def Let_def)
    qed
    moreover have "unat (sh_n_layer sh - sh_n_nextn_predict sh) = unat (sh_n_layer sh) - unat (sh_n_nextn_predict sh)"
      if "sh_n_nextn_predict sh < sh_n_layer sh"
      using that by (simp add: unat_sub)
    ultimately show ?thesis by (auto simp: executable_layers_def word_less_nat_alt)
  qed
  note last = last_layer [OF x0]
  have globals: "model_find_tensor ?m' name = model_find_tensor m name"
    if "name \<in> {''token_embd.weight'', ''per_layer_token_embd.weight''} \<or> name \<in> snd ` set output_fields" for name
    by (rule find_other [OF assms(2)]) (use that in \<open>auto simp: output_fields_def layer_tensor_name_def\<close>)
  have tok: "required_tensor ?m' ''token_embd.weight'' = Inr te" using w(1) globals by (simp add: required_tensor_def)
  have out: "weights_bind_output ?m' True False = Inr out"
    using w(2) globals by (simp add: weights_bind_output_def output_fields_def required_tensor_def)
  have below: "il < ?x" if "il \<in> set ?ils" for il using that last layer_list [of il 0 ?e] by auto
  have trunk: "bind_layers sh ?m' ?ils v = bind_layers sh m ?ils v" for v
    by (rule bind_layers_cong) (rule find_layer [OF assms(2)], rule below)
  obtain w' where w': "bind_layers sh ?m' ?mtp w1 = Inr w'"
    using bind_layers_total [OF w(4), of ?m'] find_map_tensor [of g, OF nm] by auto
  note d = bind_layersD [OF w(4)] and d' = bind_layersD [OF w']
  have other: "w_layer w' il = w_layer w il" if "il < ?x" for il
    using that d d' layer_list_below [of il ?x "sh_n_layer sh"] by auto
  have val: "weights_validate_qwen4_layout sh n_rows w' 0 ?e True True = Inr ()"
    unfolding w(5) [symmetric]
  proof (rule validate_cong)
    show "?e \<noteq> 0xFFFFFFFF"
    proof
      assume "?e = 0xFFFFFFFF"
      then have "unat ?e = 4294967295" by simp
      then show False using last unat_u32_bound [of ?x] by (simp add: word_less_nat_alt)
    qed
  qed (use d d' other last in \<open>auto\<close>)
  have "weights_bind sh n_rows ?m' False first last_layer ro oo = Inr w'"
    using r tok out w(3) trunk w' val globals by (simp add: weights_bind_def Let_def)
  moreover have "w_layer w' il f = map_option g (w_layer w il f)" if "?x \<le> il" "il < sh_n_layer sh" for il f
  proof -
    have "il \<in> set ?mtp" using that layer_list_below by blast
    then show ?thesis using d d' bind_layer_retouch nm by blast
  qed
  ultimately show ?thesis using other by (intro exI [of _ w']) auto
qed

subsection \<open>A tiny model\<close>

definition tiny_shape :: ds4_shape where
  "tiny_shape =
     \<lparr>sh_n_layer = 2, sh_n_embd = 1, sh_n_vocab = 1, sh_n_head = 1, sh_n_head_kv = 1, sh_n_head_dim = 1,
      sh_n_value_dim = 1, sh_n_rot = 1, sh_n_expert = 1, sh_n_expert_used = 1, sh_n_ff_exp = 1,
      sh_n_indexer_head = 1, sh_n_indexer_head_dim = 1, sh_n_indexer_top_k = 1, sh_n_hc = 1, sh_n_hc_lowrank = 1,
      sh_n_nextn_predict = 1, sh_n_lin_k_head = 1, sh_n_lin_v_head = 1, sh_n_lin_head_dim = 1, sh_n_lin_conv = 1,
      sh_n_full_attn_interval = 1, sh_n_ple_layer = 9, sh_n_ple_ngram = 3, sh_n_ple_heads_per_ngram = 1,
      sh_n_ple_conv = 1, sh_n_ple_head_dim = 1, sh_ple_eos_id = 0\<rparr>"

text \<open>The fields of its layers: the suffix of the name and the dimensions.\<close>

definition tiny_trunk :: "(string \<times> string \<times> u64 list) list" where
  "tiny_trunk =
     [(''hc_attn_norm'', ''hc_attn_norm.weight'', [1]), (''hc_attn_down'', ''hc_attn_down.weight'', [1, 1]),
      (''hc_attn_up'', ''hc_attn_up.weight'', [1, 1]), (''hc_attn_inject'', ''hc_attn_inject.weight'', [1, 1]),
      (''hc_ffn_norm'', ''hc_ffn_norm.weight'', [1]), (''hc_ffn_down'', ''hc_ffn_down.weight'', [1, 1]),
      (''hc_ffn_up'', ''hc_ffn_up.weight'', [1, 1]), (''hc_ffn_inject'', ''hc_ffn_inject.weight'', [1, 1]),
      (''attn_q'', ''attn_q.weight'', [1, 2]), (''attn_k'', ''attn_k.weight'', [1, 1]),
      (''attn_v'', ''attn_v.weight'', [1, 1]), (''attn_output'', ''attn_output.weight'', [1, 1]),
      (''attn_q_norm'', ''attn_q_norm.weight'', [1]), (''attn_k_norm'', ''attn_k_norm.weight'', [1]),
      (''indexer_q_proj'', ''indexer.q_proj.weight'', [1, 1]), (''indexer_k_proj'', ''indexer.k_proj.weight'', [1, 1]),
      (''indexer_q_norm'', ''indexer.q_norm.weight'', [1]), (''indexer_k_norm'', ''indexer.k_norm.weight'', [1]),
      (''ffn_gate_inp'', ''ffn_gate_inp.weight'', [1, 1]), (''ffn_gate_exps'', ''ffn_gate_exps.weight'', [1, 1, 1]),
      (''ffn_up_exps'', ''ffn_up_exps.weight'', [1, 1, 1]), (''ffn_down_exps'', ''ffn_down_exps.weight'', [1, 1, 1]),
      (''ffn_gate_inp_shexp'', ''ffn_gate_inp_shexp.weight'', [1, 1]),
      (''ffn_gate_shexp'', ''ffn_gate_shexp.weight'', [1, 1]), (''ffn_up_shexp'', ''ffn_up_shexp.weight'', [1, 1]),
      (''ffn_down_shexp'', ''ffn_down_shexp.weight'', [1, 1])]"

definition tiny_nextn :: "(string \<times> string \<times> u64 list) list" where
  "tiny_nextn =
     [(''nextn_eh_proj'', ''nextn.eh_proj.weight'', [2, 1]), (''nextn_enorm'', ''nextn.enorm.weight'', [1]),
      (''nextn_hnorm'', ''nextn.hnorm.weight'', [1]), (''nextn_hc_head_norm'', ''nextn.hc_head_norm.weight'', [1]),
      (''nextn_hc_head_down'', ''nextn.hc_head_down.weight'', [1, 1]),
      (''nextn_hc_head_up'', ''nextn.hc_head_up.weight'', [1, 1])]"

definition tiny_globals :: "(string \<times> u64 list) list" where
  "tiny_globals =
     [(''token_embd.weight'', [1, 1]), (''output_hc_norm.weight'', [1]), (''output_hc_down.weight'', [1, 1]),
      (''output_hc_up.weight'', [1, 1]), (''output.weight'', [1, 1])]"

definition tiny_table :: "u32 \<Rightarrow> (string \<times> string \<times> u64 list) list" where
  "tiny_table il = (if il = 0 then tiny_trunk else tiny_trunk @ tiny_nextn)"

definition layer_names :: "u32 \<Rightarrow> (string \<times> string \<times> u64 list) list \<Rightarrow> (string \<times> u64 list) list" where
  "layer_names il = map (\<lambda>(_, s, d). (layer_tensor_name il s, d))"

definition tiny_names :: "(string \<times> u64 list) list" where
  "tiny_names = tiny_globals @ layer_names 0 (tiny_table 0) @ layer_names 1 (tiny_table 1)"

definition tiny_tensor :: "string \<Rightarrow> u64 list \<Rightarrow> gtensor" where
  "tiny_tensor n d = \<lparr>gt_name = map of_char n, gt_dims = d, gt_type = 0, gt_offset = 0\<rparr>"

text \<open>The small weights all lie at the start of the data; the n-grams follow.\<close>

definition tiny_ngrams :: gtensor where
  "tiny_ngrams = \<lparr>gt_name = map of_char ''per_layer_token_embd.weight'', gt_dims = [1, 8], gt_type = 30, gt_offset = 4064\<rparr>"

definition tiny_tensors :: "gtensor list" where
  "tiny_tensors = map (\<lambda>(n, d). tiny_tensor n d) tiny_names @ [tiny_ngrams]"

definition tiny_place :: "u64 \<Rightarrow> gtensor \<Rightarrow> gguf_tensor" where
  "tiny_place pos t = (tensor_read t)\<lparr>ts_abs_offset := pos + gt_offset t\<rparr>"

lemma tiny_place_simps [simp]:
  "ts_name (tiny_place pos t) = gt_name t" "ts_dim (tiny_place pos t) = gt_dims t" "ts_type (tiny_place pos t) = gt_type t"
  "ts_ndim (tiny_place pos t) = of_nat (length (gt_dims t))" "ts_abs_offset (tiny_place pos t) = pos + gt_offset t"
  by (simp_all add: tiny_place_def tensor_read_def)

lemma tiny_tensor_simps [simp]:
  "gt_name (tiny_tensor n d) = map of_char n" "gt_dims (tiny_tensor n d) = d" "gt_type (tiny_tensor n d) = 0" "gt_offset (tiny_tensor n d) = 0"
  by (simp_all add: tiny_tensor_def)

lemma find_tiny:
  "map_of ns name = Some d \<Longrightarrow>
     find (\<lambda>t. ds4_streq (ts_name t) name) (map (tiny_place pos) (map (\<lambda>(n, d). tiny_tensor n d) ns) @ ts)
     = Some (tiny_place pos (tiny_tensor name d))"
proof (induction ns)
  case (Cons a ns)
  then show ?case by (cases a) (simp split: if_splits)
qed simp

lemma tiny_layers [simp]:
  "\<not> ds4_qwen4_layer_is_linear tiny_shape 0" "\<not> ds4_qwen4_layer_is_linear tiny_shape 1"
  "\<not> ds4_qwen4_layer_is_ple tiny_shape 0" "\<not> ds4_qwen4_layer_is_ple tiny_shape 1"
  "\<not> ds4_qwen4_layer_is_nextn tiny_shape 0" "ds4_qwen4_layer_is_nextn tiny_shape 1"
  by (simp_all add: ds4_qwen4_layer_is_linear_def ds4_qwen4_layer_is_ple_def ds4_qwen4_layer_is_nextn_def tiny_shape_def word_le_nat_alt)

lemma tiny_find:
  assumes "mo_tensors m = map (tiny_place pos) tiny_tensors" "map_of tiny_names name = Some d"
  shows "model_find_tensor m name = Some (tiny_place pos (tiny_tensor name d))"
  using find_tiny [OF assms(2), of pos] assms(1) by (simp add: model_find_tensor_def tiny_tensors_def)

lemma map_of_layer_names:
  "map_of (layer_names il xs) (layer_tensor_name il' s') = (if il = il' then map_of (map snd xs) s' else None)"
proof (induction xs)
  case (Cons a xs)
  obtain f s d where a: "a = (f, s, d)" by (cases a)
  have "layer_tensor_name il s = layer_tensor_name il' s' \<longleftrightarrow> il = il' \<and> s = s'"
    using layer_tensor_name_inj [of il s il' s'] by (auto simp: layer_tensor_name_def)
  then show ?case using Cons a by (auto simp: layer_names_def)
qed (simp add: layer_names_def)

lemma tiny_names_layer: "il = 0 \<or> il = 1 \<Longrightarrow> map_of tiny_names (layer_tensor_name il s) = map_of (map snd (tiny_table il)) s"
proof -
  assume "il = 0 \<or> il = 1"
  moreover have "map_of tiny_globals (layer_tensor_name il s) = None" by (simp add: tiny_globals_def layer_tensor_name_def)
  ultimately show ?thesis by (auto simp: tiny_names_def map_add_def map_of_layer_names split: option.splits)
qed

lemma tiny_global_name: "hd name \<noteq> CHR ''b'' \<Longrightarrow> name \<noteq> [] \<Longrightarrow> map_of tiny_names name = map_of tiny_globals name"
proof -
  assume n: "hd name \<noteq> CHR ''b''" "name \<noteq> []"
  have "map_of (layer_names il xs) name = None" for il xs
    using n by (induction xs) (auto simp: layer_names_def layer_tensor_name_def)
  then show ?thesis by (simp add: tiny_names_def map_add_def split: option.splits)
qed

lemma tiny_distinct: "distinct (map fst (tiny_table il))" "distinct (map fst (map snd (tiny_table il)))"
  by (simp_all add: tiny_table_def tiny_trunk_def tiny_nextn_def)

lemma tiny_fields: "il = 0 \<or> il = 1 \<Longrightarrow> layer_fields tiny_shape il = map (\<lambda>(f, s, _). (f, s)) (tiny_table il)"
  by (auto simp: layer_fields_def tiny_table_def tiny_trunk_def tiny_nextn_def hc_fields_def attention_fields_def ffn_fields_def nextn_fields_def)

text \<open>A layer whose fields are all in the table is bound to them.\<close>

definition tiny_layer :: "u64 \<Rightarrow> u32 \<Rightarrow> layer_weights" where
  "tiny_layer pos il = map_of (rev (map (\<lambda>(f, s, d). (f, tiny_place pos (tiny_tensor (layer_tensor_name il s) d))) (tiny_table il)))"

lemma bind_table:
  assumes "list_all (\<lambda>(f, s, d). required_tensorf m s il = Inr (g s d)) tab"
  shows "bind_fields m il (map (\<lambda>(f, s, _). (f, s)) tab) l = Inr (l ++ map_of (rev (map (\<lambda>(f, s, d). (f, g s d)) tab)))"
  using assms
proof (induction tab arbitrary: l)
  case (Cons a tab)
  then show ?case by (cases a) (simp add: map_add_def fun_eq_iff split: option.splits)
qed simp

lemma tiny_short: "il = 0 \<or> il = 1 \<Longrightarrow> (f, s, d) \<in> set (tiny_table il) \<Longrightarrow> length (layer_tensor_name il s) < 128"
proof -
  assume il: "il = 0 \<or> il = 1" and "(f, s, d) \<in> set (tiny_table il)"
  moreover have "list_all (\<lambda>(f, s, d). length s < 100) (tiny_table il)" by (simp add: tiny_table_def tiny_trunk_def tiny_nextn_def)
  ultimately have "length s < 100" by (auto simp: list_all_iff)
  moreover have "length (dec_digits (unat il)) = 1" using il by (auto simp: dec_digits.simps)
  ultimately show ?thesis by (simp add: layer_tensor_name_def)
qed

lemma tiny_bind_layer:
  assumes "mo_tensors m = map (tiny_place pos) tiny_tensors" "il = 0 \<or> il = 1"
  shows "weights_bind_qwen4_layer tiny_shape m il = Inr (tiny_layer pos il)"
proof -
  have "required_tensorf m s il = Inr (tiny_place pos (tiny_tensor (layer_tensor_name il s) d))" if "(f, s, d) \<in> set (tiny_table il)" for f s d
  proof -
    have "map_of (map snd (tiny_table il)) s = Some d"
      using that tiny_distinct(2) [of il] by (force simp del: map_map intro: map_of_is_SomeI)
    then show ?thesis using tiny_find [OF assms(1)] tiny_names_layer [OF assms(2), of s] tiny_short [OF assms(2) that]
      by (simp add: required_tensorf_def required_tensor_def)
  qed
  then have "list_all (\<lambda>(f, s, d). required_tensorf m s il = Inr (tiny_place pos (tiny_tensor (layer_tensor_name il s) d))) (tiny_table il)"
    by (auto simp: list_all_iff)
  from bind_table [OF this, of Map.empty] show ?thesis
    by (simp add: weights_bind_qwen4_layer_def tiny_layer_def tiny_fields [OF assms(2)])
qed

text \<open>Any model with these tensors binds.\<close>

lemma find_tiny_last:
  "map_of ns name = None \<Longrightarrow> gt_name t = map of_char name \<Longrightarrow>
     find (\<lambda>t. ds4_streq (ts_name t) name) (map (tiny_place pos) (map (\<lambda>(n, d). tiny_tensor n d) ns @ [t])) = Some (tiny_place pos t)"
proof (induction ns)
  case (Cons a ns)
  then show ?case by (cases a) (simp split: if_splits)
qed simp

lemma tiny_look:
  assumes "mo_tensors m = map (tiny_place pos) tiny_tensors"
  shows "model_find_tensor m ''per_layer_token_embd.weight'' = Some (tiny_place pos tiny_ngrams)"
  unfolding model_find_tensor_def assms tiny_tensors_def
  by (rule find_tiny_last) (simp_all add: tiny_global_name tiny_globals_def tiny_ngrams_def)

lemma expect_fields_append: "expect_fields l (ks @ ks') = and_then (expect_fields l ks) (\<lambda>_. expect_fields l ks')"
  by (induction ks) (auto simp: and_then_def split: option.splits sum.splits)

lemma tiny_layer_field:
  "map_of (tiny_table il) f = Some (s, d) \<Longrightarrow> tiny_layer pos il f = Some (tiny_place pos (tiny_tensor (layer_tensor_name il s) d))"
proof -
  assume "map_of (tiny_table il) f = Some (s, d)"
  then have "(f, s, d) \<in> set (tiny_table il)" by (rule map_of_SomeD)
  then have "(f, tiny_place pos (tiny_tensor (layer_tensor_name il s) d))
      \<in> set (rev (map (\<lambda>(f, s, d). (f, tiny_place pos (tiny_tensor (layer_tensor_name il s) d))) (tiny_table il)))" by force
  moreover have "distinct (map fst (rev (map (\<lambda>(f, s, d). (f, tiny_place pos (tiny_tensor (layer_tensor_name il s) d))) (tiny_table il))))"
    unfolding rev_map [symmetric] using tiny_distinct(1) [of il] by (simp add: comp_def case_prod_unfold)
  ultimately show ?thesis unfolding tiny_layer_def by simp
qed

lemma expect_tiny:
  "ts_type t = 0 \<Longrightarrow> ts_ndim t = of_nat (length (ts_dim t)) \<Longrightarrow> ts_dim t = layout_dims k
     \<Longrightarrow> (case k of Exact ty _ \<Rightarrow> ty = 0 | _ \<Rightarrow> True) \<Longrightarrow> expect f t k = Inr ()"
  by (cases k) (simp_all add: tensor_expect_layout_def tensor_expect_qwen4_dense_layout_def tensor_expect_qwen4_expert_layout_def
      tensor_type_is_qwen4_dense_def DS4_TENSOR_F32_def)

lemma expect_tiny_fields:
  "list_all (\<lambda>(f, k). (case map_of (tiny_table il) f of None \<Rightarrow> False | Some (s, d) \<Rightarrow> d = layout_dims k)
     \<and> (case k of Exact ty _ \<Rightarrow> ty = 0 | _ \<Rightarrow> True)) ks \<Longrightarrow> expect_fields (tiny_layer pos il) ks = Inr ()"
  by (induction ks) (auto simp: expect_tiny tiny_layer_field split: option.splits)

lemma tiny_table_0: "tiny_table 0 = tiny_trunk" by (simp add: tiny_table_def)

lemmas tiny_unfold = tiny_trunk_def tiny_table_0 F32_def DS4_TENSOR_F32_def hc_dim_def q_dim_def kv_dim_def index_q_dim_def tiny_shape_def

lemma tiny_validate: "validate_layer tiny_shape 0 (tiny_layer pos 0) = Inr ()"
proof -
  let ?l = "tiny_layer pos 0"
  note down = tiny_layer_field [of 0 "''ffn_down_exps''", unfolded tiny_table_0 tiny_trunk_def, simplified]
    and inp = tiny_layer_field [of 0 "''ffn_gate_inp_shexp''", unfolded tiny_table_0 tiny_trunk_def, simplified]
    and gate = tiny_layer_field [of 0 "''ffn_gate_exps''", unfolded tiny_table_0 tiny_trunk_def, simplified]
    and up = tiny_layer_field [of 0 "''ffn_up_exps''", unfolded tiny_table_0 tiny_trunk_def, simplified]
  have "\<exists>t. tiny_layer pos 0 f = Some t" if "(f, s, d) \<in> set tiny_trunk" for f s d
    using tiny_layer_field [of 0 f s d] that tiny_distinct(1) [of 0] by (auto simp: tiny_table_0)
  then have req: "weights_qwen4_layer_has_required tiny_shape 0 ?l"
    by (auto simp: weights_qwen4_layer_has_required_def tiny_fields tiny_table_0 list_all_iff)
  have hc: "expect_fields ?l (hc_layouts tiny_shape) = Inr ()"
    by (rule expect_tiny_fields) (simp add: hc_layouts_def tiny_unfold)
  have at: "expect_fields ?l (attention_layouts tiny_shape) = Inr ()"
    by (rule expect_tiny_fields) (simp add: attention_layouts_def tiny_unfold)
  have ex: "expect_fields ?l (expert_layouts tiny_shape ?l) = Inr ()"
    by (rule expect_tiny_fields) (simp add: expert_layouts_def tiny_unfold down_width_def DS4_TENSOR_Q2_K_def down)
  have sh: "expect_fields ?l (shared_layouts tiny_shape ?l) = Inr ()"
    by (rule expect_tiny_fields) (simp add: shared_layouts_def tiny_unfold inp)
  have g: "map_option ts_type (?l ''ffn_gate_exps'') = map_option ts_type (?l ''ffn_up_exps'')"
    by (simp add: gate up)
  show ?thesis using req hc at ex sh g by (simp add: validate_layer_def expect_fields_append)
qed

lemma tiny_executable: "executable_layers tiny_shape = 1"
  by (simp add: executable_layers_def tiny_shape_def word_less_nat_alt)

lemma tiny_required:
  "mo_tensors m = map (tiny_place pos) tiny_tensors \<Longrightarrow> map_of tiny_globals name = Some d \<Longrightarrow> hd name \<noteq> CHR ''b'' \<Longrightarrow> name \<noteq> [] \<Longrightarrow>
     required_tensor m name = Inr (tiny_place pos (tiny_tensor name d))"
  using tiny_find [of m pos name d] tiny_global_name [of name] by (simp add: required_tensor_def)

definition tiny_output :: "u64 \<Rightarrow> layer_weights" where
  "tiny_output pos = map_of (map (\<lambda>(f, name). (f, tiny_place pos (tiny_tensor name (the (map_of tiny_globals name))))) output_fields)"

lemma tiny_bind_output:
  assumes "mo_tensors m = map (tiny_place pos) tiny_tensors"
  shows "weights_bind_output m True False = Inr (tiny_output pos)"
  by (simp add: weights_bind_output_def tiny_output_def output_fields_def tiny_required [OF assms] tiny_globals_def fun_eq_iff)

lemma tiny_bind:
  assumes "mo_tensors m = map (tiny_place pos) tiny_tensors"
  shows "\<exists>w. weights_bind tiny_shape 8 m False 0 0 False False = Inr w \<and> w_layer w 0 = tiny_layer pos 0 \<and> w_layer w 1 = tiny_layer pos 1"
proof -
  have te: "required_tensor m ''token_embd.weight'' = Inr (tiny_place pos (tiny_tensor ''token_embd.weight'' [1, 1]))"
    by (rule tiny_required [OF assms]) (simp_all add: tiny_globals_def)
  let ?w = "no_weights\<lparr>w_token_embd := Some (tiny_place pos (tiny_tensor ''token_embd.weight'' [1, 1])),
      w_ple_embd := Some (tiny_place pos tiny_ngrams), w_output := tiny_output pos\<rparr>"
  let ?w1 = "?w\<lparr>w_layer := (w_layer ?w)(0 := tiny_layer pos 0)\<rparr>"
  let ?w2 = "?w1\<lparr>w_layer := (w_layer ?w1)(1 := tiny_layer pos 1)\<rparr>"
  have n: "sh_n_layer tiny_shape = 2" by (simp add: tiny_shape_def)
  have out: "weights_have_output_head (tiny_output pos)"
    by (simp add: weights_have_output_head_def tiny_output_def output_fields_def)
  have head: "expect_fields (tiny_output pos)
      [(''output_hc_norm'', F32 [hc_dim tiny_shape]), (''output_hc_down'', Dense [hc_dim tiny_shape, ucast (sh_n_hc_lowrank tiny_shape)]),
       (''output_hc_up'', Dense [ucast (sh_n_hc_lowrank tiny_shape), hc_dim tiny_shape]),
       (''output'', Dense [ucast (sh_n_embd tiny_shape), ucast (sh_n_vocab tiny_shape)])] = Inr ()"
    by (simp add: tiny_output_def output_fields_def tiny_globals_def tensor_expect_layout_def tensor_expect_qwen4_dense_layout_def
        tensor_type_is_qwen4_dense_def tiny_unfold)
  have v: "weights_validate_qwen4_layout tiny_shape 8 ?w2 0 0 True True = Inr ()"
    using tiny_validate [of pos] out head
    by (simp add: weights_validate_qwen4_layout_def n tiny_ngrams_def DS4_TENSOR_BF16_def tensor_expect_layout_def
        tensor_expect_qwen4_dense_layout_def tensor_type_is_qwen4_dense_def DS4_TENSOR_F32_def word_le_nat_alt word_less_nat_alt)
     (simp add: tiny_shape_def)
  have r: "[Suc 0..<2] = [Suc 0]" by (simp_all add: upt_conv_Cons)
  have "weights_bind tiny_shape 8 m False 0 0 False False = Inr ?w2"
    using v by (simp add: weights_bind_def load_range_def tiny_executable te tiny_bind_output [OF assms] tiny_look [OF assms]
        tiny_bind_layer [OF assms] r n Let_def del: fun_upd_apply)
  then show ?thesis by simp
qed

text \<open>The file that holds it, with the n-grams on the third page.\<close>

definition tiny_file :: bytes where
  "tiny_file = put_gguf demo_kvs tiny_tensors @ replicate 4085 0"

lemma tiny_set: "set tiny_tensors = insert tiny_ngrams ((\<lambda>(n, d). tiny_tensor n d) ` set tiny_names)"
  by (simp add: tiny_tensors_def)

lemma tiny_name_dims: "(n, d) \<in> set tiny_names \<Longrightarrow> d \<in> {[1], [1, 1], [1, 2], [2, 1], [1, 1, 1]} \<and> n \<noteq> ''per_layer_token_embd.weight''"
proof -
  assume nd: "(n, d) \<in> set tiny_names"
  have "list_all (\<lambda>(f, s, d). d \<in> {[1], [1, 1], [1, 2], [2, 1], [1, 1, 1]}) (tiny_trunk @ tiny_nextn)"
    by (simp add: tiny_trunk_def tiny_nextn_def)
  then have "d \<in> {[1], [1, 1], [1, 2], [2, 1], [1, 1, 1]}" if "(f, s, d) \<in> set (tiny_trunk @ tiny_nextn)" for f s
    unfolding list_all_iff using that by (auto dest: bspec [of _ _ "(f, s, d)"])
  with nd show ?thesis
    by (auto simp: tiny_names_def layer_names_def tiny_table_def tiny_globals_def layer_tensor_name_def)
qed

lemma tiny_bytes: "(n, d) \<in> set tiny_names \<Longrightarrow> ts_bytes (tensor_read (tiny_tensor n d)) \<in> {4, 8}"
  using tiny_name_dims [of n d]
  by (auto simp: tensor_read_def tensor_nbytes_def tensor_type_def gguf_types_def type_info_def)

lemma tiny_length: "length (put_gguf demo_kvs tiny_tensors) = 4123"
proof -
  have len: "length (layer_tensor_name il s) = 6 + length s" if "il = 0 \<or> il = 1" for il s
    using that by (auto simp: layer_tensor_name_def dec_digits.simps)
  have sum: "length (concat (map put_tensor (map (\<lambda>(n, d). tiny_tensor n d) ns))) = sum_list (map (\<lambda>(n, d). 24 + length n + 8 * length d) ns)" for ns
    by (induction ns) (auto simp: length_put_tensor)
  have lay: "sum_list (map (\<lambda>(n, d). 24 + length n + 8 * length d) (layer_names il xs)) = sum_list (map (\<lambda>(f, s, d). 30 + length s + 8 * length d) xs)"
    if "il = 0 \<or> il = 1" for il xs
    using len [OF that] by (induction xs) (auto simp: layer_names_def)
  have trunk: "sum_list (map (\<lambda>(f, s, d). 30 + length s + 8 * length d) tiny_trunk) = 1660"
    by (simp add: tiny_trunk_def)
  have nextn: "sum_list (map (\<lambda>(f, s, d). 30 + length s + 8 * length d) tiny_nextn) = 381"
    by (simp add: tiny_nextn_def)
  have glob: "sum_list (map (\<lambda>(n, d). 24 + length n + 8 * length d) tiny_globals) = 283"
    by (simp add: tiny_globals_def)
  have "sum_list (map (\<lambda>(n, d). 24 + length n + 8 * length d) tiny_names) = 3984"
    by (simp add: tiny_names_def lay tiny_table_def trunk nextn glob)
  then have "length (concat (map put_tensor tiny_tensors)) = 4051"
    using sum [of tiny_names] by (simp add: tiny_tensors_def length_put_tensor tiny_ngrams_def)
  then show ?thesis by (simp add: put_gguf_def put_kv_def demo_kvs_def)
qed

lemma tiny_data_pos: "gguf_data_pos demo_kvs tiny_tensors = 4128"
  by (simp add: gguf_data_pos_def tiny_length) (simp add: demo_kvs_def align_step_def align_up_def)

lemma tiny_file_ok:
  "tiny_file = put_gguf demo_kvs tiny_tensors @ replicate 4085 0" "length tiny_file < 2 ^ 63" "32 \<le> length tiny_file"
  "\<forall>kv \<in> set demo_kvs. gval_ok 0 (snd kv)" "\<forall>t \<in> set tiny_tensors. gtensor_ok t"
  "\<forall>t \<in> set tiny_tensors. unat (gguf_data_pos demo_kvs tiny_tensors) + unat (gt_offset t) + unat (ts_bytes (tensor_read t)) \<le> length tiny_file"
proof -
  have l: "length tiny_file = 8208" by (simp add: tiny_file_def tiny_length)
  show "tiny_file = put_gguf demo_kvs tiny_tensors @ replicate 4085 0" by (rule tiny_file_def)
  show "length tiny_file < 2 ^ 63" "32 \<le> length tiny_file" by (simp_all add: l)
  show "\<forall>kv \<in> set demo_kvs. gval_ok 0 (snd kv)" by (rule demo_conditions)
  show "\<forall>t \<in> set tiny_tensors. gtensor_ok t"
  proof -
    have "gtensor_ok (tiny_tensor n d)" if "(n, d) \<in> set tiny_names" for n d
      using tiny_name_dims [OF that] by (auto simp: gtensor_ok_def)
    then show ?thesis by (auto simp: tiny_set tiny_ngrams_def gtensor_ok_def)
  qed
  have "ts_bytes (tensor_read tiny_ngrams) = 16"
    by (simp add: tiny_ngrams_def tensor_read_def tensor_nbytes_def tensor_type_def gguf_types_def type_info_def)
  moreover have "unat (ts_bytes (tensor_read (tiny_tensor n d))) \<le> 8" if "(n, d) \<in> set tiny_names" for n d
    using tiny_bytes [OF that] by auto
  ultimately show "\<forall>t \<in> set tiny_tensors. unat (gguf_data_pos demo_kvs tiny_tensors) + unat (gt_offset t) + unat (ts_bytes (tensor_read t)) \<le> length tiny_file"
    by (force simp: tiny_set tiny_data_pos l tiny_ngrams_def)
qed

lemma tiny_scan:
  assumes "\<forall>(n, d) \<in> set ns. (n, d) \<in> set tiny_names" "fst acc \<le> 4136"
  shows "\<exists>e b. ngram_scan (map (tiny_place 4128) (map (\<lambda>(n, d). tiny_tensor n d) ns @ [tiny_ngrams])) None acc
     = Inr (Some (tiny_place 4128 tiny_ngrams), e, b) \<and> e \<le> 4136"
  using assms
proof (induction ns arbitrary: acc)
  case Nil
  have "ngram_table (tiny_place 4128 tiny_ngrams)" "\<not> ngram_invalid (tiny_place 4128 tiny_ngrams)"
    by (simp_all add: ngram_table_def ngram_invalid_def DS4_TENSOR_BF16_def tiny_ngrams_def ds4_streq_def)
  then show ?case using Nil by (cases acc) simp
next
  case (Cons a ns)
  obtain n d where a: "a = (n, d)" by (cases a)
  let ?t = "tiny_place 4128 (tiny_tensor n d)"
  have n: "(n, d) \<in> set tiny_names" using Cons.prems(1) a by auto
  have t: "\<not> ngram_table ?t" using tiny_name_dims [OF n] by (simp add: ngram_table_def)
  have b: "ts_bytes ?t \<in> {4, 8}" using tiny_bytes [OF n] by (simp add: tiny_place_def)
  then have "fst (resident ?t acc) \<le> 4136" using Cons.prems(2) by (cases acc) (auto simp: resident_def)
  from Cons.IH [OF _ this] Cons.prems(1) a t b show ?case by auto
qed

lemma tiny_open:
  "\<exists>m0 m. model_directory tiny_file = Inr m0 \<and> model_get_string m0 ''general.architecture'' = Some (map of_char ''qwen4exp'')
     \<and> model_open 4096 True tiny_file = Inr m \<and> mo_tensors m = map (tiny_place 4128) tiny_tensors"
proof -
  obtain m0 where m0: "model_directory tiny_file = Inr m0" and dp: "mo_tensor_data_pos m0 = 4128" and m0':
    "mo_tensors m0 = map (\<lambda>t. (tensor_read t)\<lparr>ts_abs_offset := 4128 + gt_offset t\<rparr>) tiny_tensors"
    "\<forall>key. case find (\<lambda>kv. ds4_streq (fst kv) key) demo_kvs of
               None \<Rightarrow> model_find_kv m0 key = None | Some kv \<Rightarrow> value_reads m0 key (snd kv)"
    using directory_roundtrip [OF tiny_file_ok] unfolding tiny_data_pos by blast
  have arch: "model_get_string m0 ''general.architecture'' = Some (map of_char ''qwen4exp'')"
    using m0'(2) [rule_format, of "''general.architecture''"] by (simp add: demo_kvs_def ds4_streq_def)
  have q: "ds4_streq (map of_char ''qwen4exp'') ''qwen4exp''" by (simp add: ds4_streq_def)
  have ts: "mo_tensors m0 = map (tiny_place 4128) tiny_tensors" using m0'(1) by (simp add: tiny_place_def)
  obtain e b where "ngram_scan (mo_tensors m0) None (mo_tensor_data_pos m0, 0) = Inr (Some (tiny_place 4128 tiny_ngrams), e, b)" "e \<le> 4136"
    using tiny_scan [of tiny_names "(4128, 0)"] unfolding ts dp tiny_tensors_def by auto
  moreover have "ts_abs_offset (tiny_place 4128 tiny_ngrams) = 8192" by (simp add: tiny_ngrams_def)
  ultimately have "\<exists>m. model_unmap_qwen_ngrams 4096 True m0 = Inr m \<and> mo_tensors m = mo_tensors m0"
    using arch q by (simp add: model_unmap_qwen_ngrams_def Let_def cut_mapping_def word_le_nat_alt word_less_nat_alt)
  then show ?thesis using m0 arch q ts streq_qwen [OF q]
    by (auto simp: model_open_def model_unmap_engram_def)
qed


text \<open>The same model with another rank for a weight of the predictor.\<close>

definition tiny_touch :: "gguf_tensor \<Rightarrow> gguf_tensor" where
  "tiny_touch t = (if ds4_streq (ts_name t) (layer_tensor_name 1 ''nextn.eh_proj.weight'') then t\<lparr>ts_dim := [9]\<rparr> else t)"

theorem predictor_layouts_unchecked_witness:
  "\<exists>m w w'. mo_tensors m = map (tiny_place 0) tiny_tensors
     \<and> weights_bind tiny_shape 8 m False 0 0 False False = Inr w \<and> map_option ts_dim (w_layer w 1 ''nextn_eh_proj'') = Some [2, 1]
     \<and> weights_bind tiny_shape 8 (retouch tiny_touch m) False 0 0 False False = Inr w'
     \<and> map_option ts_dim (w_layer w' 1 ''nextn_eh_proj'') = Some [9]"
proof -
  let ?m = "(mapped_model [])\<lparr>mo_tensors := map (tiny_place 0) tiny_tensors\<rparr>"
    and ?t = "tiny_place 0 (tiny_tensor (layer_tensor_name 1 ''nextn.eh_proj.weight'') [2, 1])"
  have m: "mo_tensors ?m = map (tiny_place 0) tiny_tensors" by simp
  obtain w where w: "weights_bind tiny_shape 8 ?m False 0 0 False False = Inr w" "w_layer w 1 = tiny_layer 0 1"
    using tiny_bind [OF m] by blast
  have k: "keeps_layers tiny_shape tiny_touch"
    unfolding keeps_layers_def tiny_touch_def predictor_tensor_def tiny_executable
    using order_refl [of "1 :: u32"] by auto
  have t: "w_layer w 1 ''nextn_eh_proj'' = Some ?t"
    unfolding w(2) by (rule tiny_layer_field) (simp add: tiny_table_def tiny_trunk_def tiny_nextn_def)
  have one: "executable_layers tiny_shape \<le> 1" "(1 :: u32) < sh_n_layer tiny_shape"
    by (simp_all add: tiny_executable) (simp add: tiny_shape_def word_less_nat_alt)
  obtain w' where w': "weights_bind tiny_shape 8 (retouch tiny_touch ?m) False 0 0 False False = Inr w'"
    "w_layer w' 1 ''nextn_eh_proj'' = map_option tiny_touch (w_layer w 1 ''nextn_eh_proj'')"
    using predictor_layouts_unchecked [OF w(1) k] one by blast
  then have "map_option ts_dim (w_layer w' 1 ''nextn_eh_proj'') = Some [9]" using t by (simp add: tiny_touch_def)
  then show ?thesis using m w(1) t w'(1) by (intro exI [of _ ?m]) auto
qed

end
