(* ===== verification/NgramTable.thy ===== *)
theory NgramTable
  imports Weights "HOL-Library.Multiset"
begin

unbundle bit_operations_syntax

text \<open>
  The n-gram embeddings of a Qwen model (\<open>ds4.c\<close>): the rows of the table a token asks for
  (\<open>qwen4_ple_step\<close>), reading a row from the disk (\<open>qwen4_ngram_row\<close>), reading many rows sorted and in
  parallel (\<open>qwen4_ngram_part\<close>, \<open>qwen4_ngram_read\<close>) and the loop that does it for the tokens of a prompt
  (\<open>qwen4_graph_stage_inputs\<close>). A float is its 32 bits. \<open>pread\<close>, \<open>qsort\<close> and the order in which parallel
  parts end are arguments.
\<close>

subsection \<open>The rows of a token\<close>

text \<open>The context behind the token: once the end of a text is met, everything before it is the end of text.\<close>

fun ple_context :: "int \<Rightarrow> bool \<Rightarrow> int list \<Rightarrow> int list" where
  "ple_context eos ended [] = []"
| "ple_context eos ended (p # ps) =
     (let t = (if ended then eos else p); ended = (ended \<or> t = eos) in (if ended then eos else t) # ple_context eos ended ps)"

definition ple_mixed :: "ds4_qwen4_ple_hash \<Rightarrow> int list \<Rightarrow> nat \<Rightarrow> u64" where
  "ple_mixed ple ctx n =
     foldl (\<lambda>mixed j. mixed XOR of_int (ctx ! j) * ple_multiplier ple ! j) (of_int (ctx ! 0) * ple_multiplier ple ! 0) [1..<n]"

definition ple_row :: "ds4_qwen4_ple_hash \<Rightarrow> u64 \<Rightarrow> nat \<Rightarrow> u32" where
  "ple_row ple mixed h = ucast (mixed mod ucast (ple_head_vocab ple ! h)) + ple_head_offset ple ! h"

definition ple_token_rows :: "ds4_shape \<Rightarrow> ds4_qwen4_ple_hash \<Rightarrow> int list \<Rightarrow> u32 list" where
  "ple_token_rows sh ple ctx =
     (let per = unat (sh_n_ple_heads_per_ngram sh) in
      concat (map (\<lambda>n. let mixed = ple_mixed ple ctx n in map (\<lambda>g. ple_row ple mixed ((n - 2) * per + g)) [0..<per])
        [2..<Suc (unat (sh_n_ple_ngram sh))]))"

text \<open>The history holds the newest token first; it is shifted by one place.\<close>

definition qwen4_ple_step :: "ds4_shape \<Rightarrow> ds4_qwen4_ple_hash \<Rightarrow> int \<Rightarrow> int list \<Rightarrow> u32 list \<times> int list" where
  "qwen4_ple_step sh ple token prev =
     (ple_token_rows sh ple (token # ple_context (sh_ple_eos_id sh) False (take (unat (sh_n_ple_ngram sh) - 1) prev)),
      token # take (unat DS4_MAX_PLE_NGRAM - 1) prev)"

definition ple_history :: "ds4_shape \<Rightarrow> int list" where
  "ple_history sh = replicate (unat DS4_MAX_PLE_NGRAM) (sh_ple_eos_id sh)"

fun ple_steps :: "ds4_shape \<Rightarrow> ds4_qwen4_ple_hash \<Rightarrow> int list \<Rightarrow> int list \<Rightarrow> u32 list list \<times> int list" where
  "ple_steps sh ple [] prev = ([], prev)"
| "ple_steps sh ple (t # ts) prev =
     (case qwen4_ple_step sh ple t prev of (rows, prev) \<Rightarrow>
      case ple_steps sh ple ts prev of (rest, prev) \<Rightarrow> (rows # rest, prev))"

subsection \<open>Reading a row\<close>

text \<open>What one call of \<open>pread\<close> does: it is interrupted, fails, or delivers at most so many bytes of the file.\<close>

datatype pread_outcome = Interrupted | Failed nat | Transfer nat

datatype ngram_error = Einval | Eio | Edom | Errno nat | Outcomes_exhausted

text \<open>The loop over the bytes still missing; the list says what the calls do, one after the other.\<close>

fun pread_row :: "bytes \<Rightarrow> nat \<Rightarrow> nat \<Rightarrow> pread_outcome list \<Rightarrow> ngram_error + bytes" where
  "pread_row file off 0 os = Inr []"
| "pread_row file off (Suc left) [] = Inl Outcomes_exhausted"
| "pread_row file off (Suc left) (Interrupted # os) = pread_row file off (Suc left) os"
| "pread_row file off (Suc left) (Failed e # os) = Inl (Errno e)"
| "pread_row file off (Suc left) (Transfer n # os) =
     (let got = take (min n (Suc left)) (drop off file) in
      if got = [] then Inl Eio
      else and_then (pread_row file (off + length got) (Suc left - length got) os) (\<lambda>rest. Inr (got @ rest)))"

text \<open>The bits of the float a half-width number widens to; infinities and not-a-numbers are refused.\<close>

fun ngram_floats :: "bytes \<Rightarrow> ngram_error + u32 list" where
  "ngram_floats (lo # hi # raw) =
     (let bits = push_bit 16 (ucast lo OR push_bit 8 (ucast hi)) in
      if bits AND 0x7f800000 = 0x7f800000 then Inl Edom else and_then (ngram_floats raw) (\<lambda>fs. Inr (bits # fs)))"
| "ngram_floats _ = Inr []"

definition qwen4_ngram_row :: "bytes \<Rightarrow> gguf_model \<Rightarrow> pread_outcome list \<Rightarrow> u32 \<Rightarrow> ngram_error + u32 list" where
  "qwen4_ngram_row file m os row =
     (case mo_ngram_tensor m of
        None \<Rightarrow> Inl Einval
      | Some t \<Rightarrow>
          if ts_dim t ! 1 \<le> ucast row \<or> ts_type t \<noteq> DS4_TENSOR_BF16 \<or> ts_dim t ! 0 = 0 \<or> 160 < ts_dim t ! 0 then Inl Einval
          else
            let bytes = ucast (ts_dim t ! 0) * 2 :: u32; off = ts_abs_offset t + ucast row * ucast bytes in
            and_then (pread_row file (unat off) (unat bytes) os) ngram_floats)"

subsection \<open>Reading many rows\<close>

text \<open>A request is a row and the place of its result. A row asked for twice in a run is copied.\<close>

type_synonym ngram_request = "u32 \<times> nat"

fun ngram_part_loop ::
  "(nat \<Rightarrow> u32 \<Rightarrow> ngram_error + u32 list) \<Rightarrow> ngram_request list \<Rightarrow> (u32 \<times> u32 list) option \<Rightarrow> ngram_error + (nat \<times> u32 list) list" where
  "ngram_part_loop rd [] previous = Inr []"
| "ngram_part_loop rd ((row, out) # rs) previous =
     and_then (case previous of
                 Some (r, v) \<Rightarrow> if row = r then Inr v else rd out row
               | None \<Rightarrow> rd out row)
       (\<lambda>v. and_then (ngram_part_loop rd rs (Some (row, v))) (\<lambda>ws. Inr ((out, v) # ws)))"

definition qwen4_ngram_part ::
  "(nat \<Rightarrow> u32 \<Rightarrow> ngram_error + u32 list) \<Rightarrow> ngram_request list \<Rightarrow> nat \<Rightarrow> nat \<Rightarrow> ngram_error + (nat \<times> u32 list) list" where
  "qwen4_ngram_part rd request readers part =
     (let first = length request * part div readers; stop = length request * (part + 1) div readers in
      ngram_part_loop rd (take (stop - first) (drop first request)) None)"

definition NGRAM_MAX_ROWS :: nat where "NGRAM_MAX_ROWS = 4096"

text \<open>One round: the rows are sorted, the parts run, and the first error in the order of the parts counts.\<close>

fun first_error :: "('e + 'a) list \<Rightarrow> 'e option" where
  "first_error [] = None"
| "first_error (Inl e # rs) = Some e"
| "first_error (Inr a # rs) = first_error rs"

definition write_rows :: "(nat \<times> u32 list) list \<Rightarrow> u32 list list \<Rightarrow> u32 list list" where
  "write_rows ws out = foldl (\<lambda>out (i, v). out[i := v]) out ws"

definition part_writes :: "ngram_error + (nat \<times> u32 list) list \<Rightarrow> (nat \<times> u32 list) list" where
  "part_writes r = (case r of Inl _ \<Rightarrow> [] | Inr ws \<Rightarrow> ws)"

definition ngram_round ::
  "(ngram_request list \<Rightarrow> ngram_request list) \<Rightarrow> (nat \<Rightarrow> nat list) \<Rightarrow> (nat \<Rightarrow> u32 \<Rightarrow> ngram_error + u32 list) \<Rightarrow> u32 list \<Rightarrow> u32 list list
   \<Rightarrow> ngram_error + u32 list list" where
  "ngram_round qsort order rd rows out =
     (let request = qsort (zip rows [0..<length rows]);
          readers = (if length rows < 16 then length rows else 16);
          parts = map (qwen4_ngram_part rd request readers) [0..<readers] in
      case first_error parts of
        Some e \<Rightarrow> Inl e
      | None \<Rightarrow> Inr (write_rows (concat (map (\<lambda>p. part_writes (parts ! p)) (order readers))) out))"

text \<open>The rounds of at most \<open>NGRAM_MAX_ROWS\<close> rows; \<open>off\<close> is the place of the first.\<close>

function ngram_rounds ::
  "(ngram_request list \<Rightarrow> ngram_request list) \<Rightarrow> (nat \<Rightarrow> nat list) \<Rightarrow> (nat \<Rightarrow> u32 \<Rightarrow> ngram_error + u32 list) \<Rightarrow> nat \<Rightarrow> u32 list
   \<Rightarrow> u32 list list \<Rightarrow> ngram_error + u32 list list" where
  "ngram_rounds qsort order rd off rows out =
     (if rows = [] then Inr []
      else
        and_then (ngram_round qsort order (\<lambda>i. rd (off + i)) (take NGRAM_MAX_ROWS rows) (take NGRAM_MAX_ROWS out)) (\<lambda>now.
        and_then (ngram_rounds qsort order rd (off + NGRAM_MAX_ROWS) (drop NGRAM_MAX_ROWS rows) (drop NGRAM_MAX_ROWS out)) (\<lambda>rest.
          Inr (now @ rest))))"
  by pat_completeness auto
termination
  by (relation "measure (\<lambda>(_, _, _, _, rows, _). length rows)") (auto simp: NGRAM_MAX_ROWS_def)

declare ngram_rounds.simps [simp del]

text \<open>\<open>out\<close> is the buffer as the caller passes it; \<open>calls i\<close> is what \<open>pread\<close> does for the result at place \<open>i\<close>.\<close>

definition qwen4_ngram_read ::
  "(ngram_request list \<Rightarrow> ngram_request list) \<Rightarrow> (nat \<Rightarrow> nat list) \<Rightarrow> bytes \<Rightarrow> gguf_model \<Rightarrow> (nat \<Rightarrow> pread_outcome list) \<Rightarrow> u32 list
   \<Rightarrow> u32 list list \<Rightarrow> ngram_error + u32 list list" where
  "qwen4_ngram_read qsort order file m calls rows out =
     (case mo_ngram_tensor m of
        None \<Rightarrow> Inl Einval
      | Some t \<Rightarrow>
          if 18446744073709551615 div (160 * 4) < length rows then Inl Einval
          else if \<not> list_all (\<lambda>row. ucast row < ts_dim t ! 1) rows then Inl Einval
          else if rows = [] then Inr out
          else if length rows < 2 then and_then (qwen4_ngram_row file m (calls 0) (hd rows)) (\<lambda>v. Inr (out[0 := v]))
          else ngram_rounds qsort order (\<lambda>i. qwen4_ngram_row file m (calls i)) 0 rows out)"

text \<open>
  The tokens of a prompt are taken 256 at a time: their rows are collected and read together. The snapshots
  of the history for the predictor are left out. The embedding of a token is the rows of its heads, one
  after the other: in both shapes their widths add up to the width of the model.
\<close>

definition STAGE_TOKENS :: nat where "STAGE_TOKENS = 256"

function stage_ngrams ::
  "(ngram_request list \<Rightarrow> ngram_request list) \<Rightarrow> (nat \<Rightarrow> nat list) \<Rightarrow> bytes \<Rightarrow> gguf_model \<Rightarrow> ds4_shape \<Rightarrow> ds4_qwen4_ple_hash
   \<Rightarrow> (nat \<Rightarrow> nat \<Rightarrow> pread_outcome list) \<Rightarrow> nat \<Rightarrow> int list \<Rightarrow> int list \<Rightarrow> u32 list list \<Rightarrow> ngram_error + u32 list list \<times> int list" where
  "stage_ngrams qsort order file m sh ple calls start tokens prev out =
     (if tokens = [] then Inr (out, prev)
      else
        case ple_steps sh ple (take STAGE_TOKENS tokens) prev of (ids, prev) \<Rightarrow>
        let n = length (concat ids) in
        and_then (qwen4_ngram_read qsort order file m (calls start) (concat ids) (take n out)) (\<lambda>now.
        and_then (stage_ngrams qsort order file m sh ple calls (start + STAGE_TOKENS) (drop STAGE_TOKENS tokens) prev (drop n out))
          (\<lambda>(rest, prev). Inr (now @ rest, prev))))"
  by pat_completeness auto
termination
  by (relation "measure (\<lambda>(_, _, _, _, _, _, _, _, tokens, _, _). length tokens)") (auto simp: STAGE_TOKENS_def)

declare stage_ngrams.simps [simp del]

subsection \<open>The rows lie in the table\<close>

lemma ple_rows_sound:
  "ple_rows offs vs r = Inr n \<Longrightarrow> length offs = length vs \<Longrightarrow>
     unat r \<le> unat n \<and> (\<forall>h < length vs. vs ! h \<noteq> 0 \<and> vs ! h \<le> 0xFFFFFFFF \<and> unat (offs ! h) + unat (vs ! h) \<le> unat n)"
proof (induction offs vs r rule: ple_rows.induct)
  case (1 off offs v vs rows)
  let ?e = "ucast off + v :: u64" and ?r = "if rows < ucast off + v then ucast off + v else rows"
  have v: "v \<noteq> 0" "v \<le> 0xFFFFFFFF" and n: "ple_rows offs vs ?r = Inr n"
    using "1.prems"(1) by (auto split: if_splits simp: Let_def not_less)
  have IH: "unat ?r \<le> unat n \<and> (\<forall>h < length vs. vs ! h \<noteq> 0 \<and> vs ! h \<le> 0xFFFFFFFF \<and> unat (offs ! h) + unat (vs ! h) \<le> unat n)"
    by (rule "1.IH") (use v n "1.prems"(2) in \<open>auto simp: not_less\<close>)
  have "unat v \<le> 4294967295" using v(2) by (simp add: word_le_nat_alt)
  moreover have u: "unat (ucast off :: u64) = unat off" by (simp add: unsigned_ucast_eq take_bit_nat_eq_self unat_u32_bound)
  ultimately have e: "unat ?e = unat off + unat v"
    using unat_u32_bound [of off] by (subst word_plus_le [of _ _ "2 ^ 33"]) auto
  have "unat rows \<le> unat ?r" "unat ?e \<le> unat ?r" by (auto simp: word_less_nat_alt)
  then have le: "unat rows \<le> unat n" "unat off + unat v \<le> unat n" using IH e by auto
  show ?case
  proof (intro conjI allI impI le)
    fix h
    assume h: "h < length (v # vs)"
    show "(v # vs) ! h \<noteq> 0" "(v # vs) ! h \<le> 0xFFFFFFFF" "unat ((off # offs) ! h) + unat ((v # vs) ! h) \<le> unat n"
      using IH v le h by (cases h; simp)+
  qed
qed auto

lemma ple_row_below:
  assumes "unat (ple_head_offset ple ! h) + unat v \<le> unat n" "unat n \<le> 4294967295" "v \<noteq> 0" "ple_head_vocab ple ! h = ucast v"
  shows "unat (ple_row ple mixed h) < unat (n :: u64)"
proof -
  let ?v = "ucast (ple_head_vocab ple ! h) :: u64"
  have v: "unat v \<le> 4294967295" "0 < unat v" using assms(1-3) by (auto simp: unat_gt_0)
  then have "unat (ucast v :: u32) = unat v" by (simp add: unsigned_ucast_eq take_bit_nat_eq_self)
  then have uv: "unat ?v = unat v" unfolding assms(4) unat_ucast_32_64 .
  have "unat (mixed mod ?v) = unat mixed mod unat v" using uv by (simp add: unat_mod)
  moreover have "unat mixed mod unat v < unat v" using v(2) by simp
  ultimately have m: "unat (mixed mod ?v) < unat v" by simp
  then have "unat (ucast (mixed mod ?v) :: u32) = unat (mixed mod ?v)"
    using v(1) by (simp add: unsigned_ucast_eq take_bit_nat_eq_self)
  then have "unat (ple_row ple mixed h) \<le> unat (mixed mod ?v) + unat (ple_head_offset ple ! h)"
    unfolding ple_row_def by (simp add: unat_word_ariths)
  then show ?thesis using m assms(1) by linarith
qed

lemma config_ple_sound:
  assumes "config_ple f32_ok m sh = Inr ple" "h < unat (DS4_N_PLE_HEADS sh)"
  shows "\<exists>v :: u64. ple_head_vocab ple ! h = ucast v \<and> v \<noteq> 0 \<and> unat (ple_head_offset ple ! h) + unat v \<le> unat (ple_n_rows ple)"
proof -
  obtain mult vocab n and offs :: "u64 list" where c: "length offs = unat (DS4_N_PLE_HEADS sh)" "length vocab = unat (DS4_N_PLE_HEADS sh)"
    "ple_rows (map ucast offs) vocab 0 = Inr n"
    "ple = \<lparr>ple_n_heads = DS4_N_PLE_HEADS sh, ple_multiplier = mult, ple_head_offset = map ucast offs, ple_head_vocab = map ucast vocab, ple_n_rows = n\<rparr>"
    using assms(1) unfolding config_ple_def by (auto simp only: and_then_Inr Let_def split: if_splits)
  from ple_rows_sound [OF c(3)] c assms(2) show ?thesis by (intro exI [of _ "vocab ! h"]) auto
qed

text \<open>The heads of the shape do not overflow 32 bits; both shapes have few.\<close>

definition heads_fit :: "ds4_shape \<Rightarrow> bool" where
  "heads_fit sh \<longleftrightarrow> (unat (sh_n_ple_ngram sh) - 1) * unat (sh_n_ple_heads_per_ngram sh) < 2 ^ 32"

lemma shapes_heads_fit: "heads_fit DS4_SHAPE_QWEN4_EXP" "heads_fit DS4_SHAPE_QWEN4_MINI"
  by (simp_all add: heads_fit_def DS4_SHAPE_QWEN4_EXP_def DS4_SHAPE_QWEN4_MINI_def)

lemma heads_count:
  assumes "heads_fit sh" "sh_n_ple_ngram sh \<noteq> 0"
  shows "unat (DS4_N_PLE_HEADS sh) = (unat (sh_n_ple_ngram sh) - 1) * unat (sh_n_ple_heads_per_ngram sh)"
proof -
  have "unat (sh_n_ple_ngram sh - 1) = unat (sh_n_ple_ngram sh) - 1"
    using assms(2) by (subst unat_sub) (simp_all add: word_le_nat_alt unat_gt_0 Suc_leI)
  then show ?thesis using assms(1) by (simp add: DS4_N_PLE_HEADS_def heads_fit_def unat_word_ariths)
qed

lemma head_index: "2 \<le> n \<Longrightarrow> n \<le> N \<Longrightarrow> g < per \<Longrightarrow> (n - 2) * per + g < (N - 1) * per" for n N g per :: nat
proof -
  assume "2 \<le> n" "n \<le> N" "g < per"
  obtain k where "n = Suc (Suc k)" using \<open>2 \<le> n\<close> by (metis add_2_eq_Suc le_add_diff_inverse)
  then have "(n - 2) * per + g < (n - 1) * per" using \<open>g < per\<close> by simp
  also have "\<dots> \<le> (N - 1) * per" using \<open>n \<le> N\<close> by (intro mult_le_mono1) simp
  finally show ?thesis .
qed

lemma token_rows_below:
  assumes "config_ple f32_ok mc sh = Inr ple" "heads_fit sh" "unat (ple_n_rows ple) \<le> 4294967295" "row \<in> set (ple_token_rows sh ple ctx)"
  shows "unat row < unat (ple_n_rows ple)"
proof -
  let ?per = "unat (sh_n_ple_heads_per_ngram sh)"
  obtain n g where n: "2 \<le> n" "n \<le> unat (sh_n_ple_ngram sh)" "g < ?per" "row = ple_row ple (ple_mixed ple ctx n) ((n - 2) * ?per + g)"
    using assms(4) by (auto simp: ple_token_rows_def Let_def)
  then have "sh_n_ple_ngram sh \<noteq> 0" by auto
  then have h: "(n - 2) * ?per + g < unat (DS4_N_PLE_HEADS sh)"
    using heads_count [OF assms(2)] head_index [OF n(1-3)] by simp
  obtain v :: u64 where "ple_head_vocab ple ! ((n - 2) * ?per + g) = ucast v" "v \<noteq> 0"
    "unat (ple_head_offset ple ! ((n - 2) * ?per + g)) + unat v \<le> unat (ple_n_rows ple)"
    using config_ple_sound [OF assms(1) h] by blast
  then show ?thesis using ple_row_below [OF _ assms(3)] n(4) by simp
qed

subsection \<open>The history is a window\<close>

lemma ple_context_length [simp]: "length (ple_context eos e ps) = length ps"
  by (induction ps arbitrary: e) (auto simp: Let_def)

lemma ple_context_nth:
  "i < length ps \<Longrightarrow> ple_context eos e ps ! i = (if e \<or> eos \<in> set (take (Suc i) ps) then eos else ps ! i)"
proof (induction ps arbitrary: e i)
  case (Cons p ps)
  then show ?case by (cases i) (auto simp: Let_def)
qed simp

text \<open>The tokens before the token at place \<open>i\<close>, the nearest first, cut off at the last end of text.\<close>

definition ngram_window :: "int \<Rightarrow> nat \<Rightarrow> int list \<Rightarrow> nat \<Rightarrow> int list" where
  "ngram_window eos n tokens i =
     map (\<lambda>s. if s \<le> i \<and> eos \<notin> set (take s (drop (i - s) tokens)) then tokens ! (i - s) else eos) [1..<n]"

lemma ple_steps_history:
  "ple_steps sh ple (ts @ us) prev =
     (case ple_steps sh ple ts prev of (rows, prev) \<Rightarrow> case ple_steps sh ple us prev of (rest, prev) \<Rightarrow> (rows @ rest, prev))"
  by (induction ts arbitrary: prev) (auto split: prod.splits)

lemma take_Cons_take: "n \<le> Suc m \<Longrightarrow> take n (t # take m xs) = take n (t # xs)"
  by (cases n) (simp_all add: min_def)

lemma ple_steps_rows:
  "length prev = 8 \<Longrightarrow> i < length ts \<Longrightarrow>
     length (fst (ple_steps sh ple ts prev)) = length ts
     \<and> fst (ple_steps sh ple ts prev) ! i = fst (qwen4_ple_step sh ple (ts ! i) (take 8 (rev (take i ts) @ prev)))"
proof (induction ts arbitrary: prev i)
  case (Cons t ts)
  let ?p = "t # take 7 prev"
  have p: "length ?p = 8" using Cons.prems(1) by simp
  have step: "snd (qwen4_ple_step sh ple t prev) = ?p" by (simp add: qwen4_ple_step_def DS4_MAX_PLE_NGRAM_def)
  show ?case
  proof (cases i)
    case 0
    have "length (fst (ple_steps sh ple ts ?p)) = length ts" using Cons.IH [OF p, of 0] by (cases ts) auto
    then show ?thesis using 0 step Cons.prems(1) by (auto split: prod.splits)
  next
    case (Suc j)
    have "take 8 (rev (take j ts) @ t # take 7 prev) = take 8 (rev (take j ts) @ t # prev)"
      unfolding take_append by (simp only: take_Cons_take)
    then show ?thesis using Suc step Cons.prems Cons.IH [OF p, of j] by (auto split: prod.splits)
  qed
qed simp

lemma window_context:
  assumes "i < length tokens" "length past = n - 1" "\<And>k. k < n - 1 \<Longrightarrow> past ! k = (if k < i then tokens ! (i - Suc k) else eos)"
  shows "ple_context eos False past = ngram_window eos n tokens i"
proof (rule nth_equalityI)
  show "length (ple_context eos False past) = length (ngram_window eos n tokens i)" by (simp add: assms(2) ngram_window_def)
  fix j
  assume "j < length (ple_context eos False past)"
  then have j: "j < n - 1" "j < length past" by (simp_all add: assms(2))
  have w: "ngram_window eos n tokens i ! j =
      (if Suc j \<le> i \<and> eos \<notin> set (take (Suc j) (drop (i - Suc j) tokens)) then tokens ! (i - Suc j) else eos)"
    using j by (simp add: ngram_window_def)
  have c: "ple_context eos False past ! j = (if eos \<in> set (take (Suc j) past) then eos else past ! j)"
    using ple_context_nth [OF j(2)] by simp
  show "ple_context eos False past ! j = ngram_window eos n tokens i ! j"
  proof (cases "Suc j \<le> i")
    case False
    then show ?thesis unfolding c w using assms(3) [OF j(1)] by simp
  next
    case True
    have "take (Suc j) past = rev (take (Suc j) (drop (i - Suc j) tokens))"
    proof (rule nth_equalityI)
      show "length (take (Suc j) past) = length (rev (take (Suc j) (drop (i - Suc j) tokens)))"
        using True j assms(1) by simp
      fix k
      assume "k < length (take (Suc j) past)"
      then have k: "k < Suc j" "k < i" "k < n - 1" using True j by auto
      then show "take (Suc j) past ! k = rev (take (Suc j) (drop (i - Suc j) tokens)) ! k"
        using True assms(1) assms(3) [OF k(3)] by (simp add: rev_nth)
    qed
    then show ?thesis unfolding c w using True assms(3) [OF j(1)] by simp
  qed
qed

lemma history_nth:
  assumes "i < length tokens" "k < 8"
  shows "take 8 (rev (take i tokens) @ replicate 8 eos) ! k = (if k < i then tokens ! (i - Suc k) else eos)"
proof -
  have "take 8 (rev (take i tokens) @ replicate 8 eos) ! k = (rev (take i tokens) @ replicate 8 eos) ! k"
    by (rule nth_take [OF assms(2)])
  also have "\<dots> = (if k < i then tokens ! (i - Suc k) else eos)"
    using assms by (cases "k < i") (simp_all add: nth_append rev_nth)
  finally show ?thesis .
qed

text \<open>
  Feeding the tokens of a prompt one by one through the history gives every token the table rows of its
  own n-grams: those over the token and the window before it, in which everything up to the last end of
  text counts as end of text, as it does before the first token.
\<close>

lemma ngram_rows_window:
  assumes "unat (sh_n_ple_ngram sh) \<le> 8" "i < length tokens"
  shows "fst (ple_steps sh ple tokens (ple_history sh)) ! i
    = ple_token_rows sh ple (tokens ! i # ngram_window (sh_ple_eos_id sh) (unat (sh_n_ple_ngram sh)) tokens i)"
proof -
  let ?eos = "sh_ple_eos_id sh" and ?n = "unat (sh_n_ple_ngram sh)"
  let ?past = "take 8 (rev (take i tokens) @ replicate 8 ?eos)"
  have h: "ple_history sh = replicate 8 ?eos" by (simp add: ple_history_def DS4_MAX_PLE_NGRAM_def)
  have "length ?past = 8" by simp
  then have "length (take (?n - 1) ?past) = ?n - 1" unfolding length_take using assms(1) by linarith
  moreover have "take (?n - 1) ?past ! k = (if k < i then tokens ! (i - Suc k) else ?eos)" if "k < ?n - 1" for k
    unfolding nth_take [OF that] by (rule history_nth [OF assms(2)]) (use that assms(1) in linarith)
  ultimately have w: "ple_context ?eos False (take (?n - 1) ?past) = ngram_window ?eos ?n tokens i"
    using window_context [OF assms(2)] by blast
  have "fst (ple_steps sh ple tokens (replicate 8 ?eos)) ! i = fst (qwen4_ple_step sh ple (tokens ! i) ?past)"
    by (rule conjunct2 [OF ple_steps_rows [OF length_replicate assms(2)]])
  then show ?thesis unfolding h by (simp only: qwen4_ple_step_def fst_conv w)
qed

subsection \<open>What a read returns\<close>

lemma take_two: "k \<le> n \<Longrightarrow> take k (drop a xs) @ take (n - k) (drop (a + k) xs) = take n (drop a xs)"
  using take_add [of k "n - k" "drop a xs"] by (simp add: add.commute)

lemma pread_row_exact:
  "pread_row file off n os = Inr b \<Longrightarrow> b = take n (drop off file) \<and> length b = n"
proof (induction "file" off n os arbitrary: b rule: pread_row.induct)
  case (5 "file" off left n os)
  let ?got = "take (min n (Suc left)) (drop off file)"
  have g: "?got \<noteq> []" using "5.prems" by (cases "?got = []") (simp_all only: pread_row.simps Let_def if_True, simp_all)
  then obtain rest where r: "pread_row file (off + length ?got) (Suc left - length ?got) os = Inr rest" "b = ?got @ rest"
    using "5.prems" by (simp only: pread_row.simps Let_def and_then_Inr if_False) auto
  have IH: "rest = take (Suc left - length ?got) (drop (off + length ?got) file) \<and> length rest = Suc left - length ?got"
    by (rule "5.IH" [OF refl g r(1)])
  obtain k where k: "k = length ?got" "k \<le> Suc left" by simp
  have got: "?got = take k (drop off file)" unfolding k(1) by (simp add: min_def)
  have rest: "rest = take (Suc left - k) (drop (off + k) file)" "length rest = Suc left - k" using IH unfolding k(1) by blast+
  show ?case unfolding r(2) length_append k(1) [symmetric] rest(2) unfolding got rest(1)
    using take_two [OF k(2)] k(2) by simp
qed (auto simp: and_then_Inr)

text \<open>The floats of a row as they stand in the file.\<close>

definition row_bytes :: "bytes \<Rightarrow> gguf_tensor \<Rightarrow> u32 \<Rightarrow> bytes" where
  "row_bytes file t row =
     take (2 * unat (ts_dim t ! 0)) (drop (unat (ts_abs_offset t) + 2 * unat (ts_dim t ! 0) * unat row) file)"

definition row_values :: "bytes \<Rightarrow> gguf_tensor \<Rightarrow> u32 \<Rightarrow> u32 list" where
  "row_values file t row =
     (let b = row_bytes file t row in map (\<lambda>i. push_bit 16 (ucast (b ! (2 * i)) OR push_bit 8 (ucast (b ! Suc (2 * i))))) [0..<unat (ts_dim t ! 0)])"

lemma ngram_floats_values:
  "ngram_floats b = Inr fs \<Longrightarrow> length b = 2 * n \<Longrightarrow>
     fs = map (\<lambda>i. push_bit 16 (ucast (b ! (2 * i)) OR push_bit 8 (ucast (b ! Suc (2 * i))))) [0..<n]
     \<and> (\<forall>f \<in> set fs. f AND 0x7f800000 \<noteq> 0x7f800000)"
proof (induction b arbitrary: fs n rule: ngram_floats.induct)
  case (1 lo hi raw)
  obtain k where k: "n = Suc k" using "1.prems"(2) by (cases n) auto
  let ?bits = "push_bit 16 (ucast lo OR push_bit 8 (ucast hi)) :: u32"
  obtain gs where gs: "ngram_floats raw = Inr gs" "fs = ?bits # gs" "?bits AND 0x7f800000 \<noteq> 0x7f800000"
    using "1.prems"(1) by (auto simp: Let_def and_then_Inr split: if_splits)
  have "gs = map (\<lambda>i. push_bit 16 (ucast (raw ! (2 * i)) OR push_bit 8 (ucast (raw ! Suc (2 * i))))) [0..<k]
     \<and> (\<forall>f \<in> set gs. f AND 0x7f800000 \<noteq> 0x7f800000)"
    by (rule "1.IH" [OF refl gs(3,1)]) (use "1.prems"(2) k in simp)
  then show ?case using gs(2,3) unfolding k upt_rec [of 0] map_Suc_upt [symmetric] by (simp add: comp_def)
qed simp_all

lemma ngram_row_values:
  assumes "qwen4_ngram_row file m os row = Inr v" "mo_ngram_tensor m = Some t"
    "unat (ts_abs_offset t) + 2 * unat (ts_dim t ! 0) * unat (ts_dim t ! 1) \<le> length file" "length file < 2 ^ 63"
  shows "v = row_values file t row \<and> (\<forall>f \<in> set v. f AND 0x7f800000 \<noteq> 0x7f800000)"
proof -
  let ?d = "ts_dim t ! 0" and ?bytes = "ucast (ts_dim t ! 0) * 2 :: u32"
  let ?off = "ts_abs_offset t + ucast row * ucast ?bytes"
  have d: "ucast row < ts_dim t ! 1" "?d \<le> 160" and r: "and_then (pread_row file (unat ?off) (unat ?bytes) os) ngram_floats = Inr v"
    using assms(1,2) by (auto simp: qwen4_ngram_row_def Let_def not_le not_less split: if_splits)
  have "unat ?d \<le> 160" using d(2) by (simp add: word_le_nat_alt)
  then have "unat (ucast ?d :: u32) = unat ?d" by (intro unat_ucast_64_32) simp
  then have b: "unat ?bytes = 2 * unat ?d" using \<open>unat ?d \<le> 160\<close> by (simp add: unat_word_ariths)
  have row: "unat row < unat (ts_dim t ! 1)" using d(1) by (simp add: word_less_nat_alt)
  then have lt: "2 * unat ?d * unat row \<le> 2 * unat ?d * unat (ts_dim t ! 1)" by simp
  have fits: "unat (ts_abs_offset t) + 2 * unat ?d * unat row < 18446744073709551616"
    by (rule le_less_trans [OF add_left_mono [OF lt]]) (use assms(3,4) in simp)
  have small: "2 * unat ?d * unat row < 9223372036854775808" by (rule le_less_trans [OF lt]) (use assms(3,4) in simp)
  have "unat (ucast row * ucast ?bytes :: u64) = unat row * (2 * unat ?d)"
    by (subst unat_mult_64) (use b small in \<open>simp_all add: ac_simps\<close>)
  then have off: "unat ?off = unat (ts_abs_offset t) + 2 * unat ?d * unat row"
    by (subst unat_plus_64) (use small fits in \<open>simp_all add: ac_simps\<close>)
  obtain raw where raw: "pread_row file (unat ?off) (unat ?bytes) os = Inr raw" "ngram_floats raw = Inr v"
    using r by (auto simp: and_then_Inr)
  from pread_row_exact [OF raw(1)] have "raw = row_bytes file t row" "length raw = 2 * unat ?d"
    unfolding off b row_bytes_def by auto
  then show ?thesis using ngram_floats_values [OF raw(2)] by (simp add: row_values_def Let_def)
qed

subsection \<open>Sorted parallel reading\<close>

text \<open>A reader that only ever returns the values of the row it is asked for.\<close>

definition reads_rows :: "(nat \<Rightarrow> u32 \<Rightarrow> ngram_error + u32 list) \<Rightarrow> (u32 \<Rightarrow> u32 list) \<Rightarrow> bool" where
  "reads_rows rd val \<longleftrightarrow> (\<forall>i row v. rd i row = Inr v \<longrightarrow> v = val row)"

lemma part_loop_exact:
  assumes "reads_rows rd val"
  shows "ngram_part_loop rd rs prev = Inr ws \<Longrightarrow> (\<forall>r v. prev = Some (r, v) \<longrightarrow> v = val r) \<Longrightarrow> ws = map (\<lambda>(row, out). (out, val row)) rs"
proof (induction rs arbitrary: prev ws)
  case (Cons a rs)
  obtain row out where a: "a = (row, out)" by (cases a)
  obtain v us where v: "(case prev of Some (r, v) \<Rightarrow> if row = r then Inr v else rd out row | None \<Rightarrow> rd out row) = Inr v"
    "ngram_part_loop rd rs (Some (row, v)) = Inr us" "ws = (out, v) # us"
    using Cons.prems(1) a by (auto simp: and_then_Inr)
  have "v = val row"
    using v(1) Cons.prems(2) assms by (auto simp: reads_rows_def split: option.splits if_splits prod.splits)
  then show ?case using Cons.IH [OF v(2)] v(3) a by simp
qed simp

lemma part_loop_total:
  "(\<forall>(row, out) \<in> set rs. \<exists>v. rd out row = Inr v) \<Longrightarrow> \<exists>ws. ngram_part_loop rd rs prev = Inr ws"
proof (induction rs arbitrary: prev)
  case (Cons a rs)
  obtain row out where a: "a = (row, out)" by (cases a)
  have "\<exists>v. (case prev of Some (r, v) \<Rightarrow> if row = r then Inr v else rd out row | None \<Rightarrow> rd out row) = Inr v"
    using Cons.prems a by (auto split: option.splits)
  then obtain v where "(case prev of Some (r, v) \<Rightarrow> if row = r then Inr v else rd out row | None \<Rightarrow> rd out row) = Inr v" ..
  moreover obtain ws where "ngram_part_loop rd rs (Some (row, v)) = Inr ws" using Cons by auto
  ultimately show ?case using a by simp
qed simp

text \<open>The parts are the requests cut into pieces.\<close>

definition piece :: "'a list \<Rightarrow> nat \<Rightarrow> nat \<Rightarrow> 'a list" where
  "piece xs k p = take (length xs * (p + 1) div k - length xs * p div k) (drop (length xs * p div k) xs)"

lemma pieces: "0 < k \<Longrightarrow> concat (map (piece xs k) [0..<k]) = xs"
proof -
  assume k: "0 < k"
  have "concat (map (piece xs k) [0..<p]) = take (length xs * p div k) xs" if "p \<le> k" for p
    using that
  proof (induction p)
    case (Suc p)
    have le: "length xs * p div k \<le> length xs * (p + 1) div k" by (rule div_le_mono) simp
    have "take (length xs * p div k) xs @ piece xs k p = take (length xs * (p + 1) div k) xs"
      using take_two [OF le, of 0 xs] by (simp add: piece_def)
    then show ?case using Suc by simp
  qed simp
  from this [of k] k show ?thesis by simp
qed

lemma first_error_None: "first_error rs = None \<longleftrightarrow> (\<forall>r \<in> set rs. \<exists>a. r = Inr a)"
  by (induction rs rule: first_error.induct) auto

text \<open>Writes to different places may come in any order.\<close>

lemma write_rows_length [simp]: "length (write_rows ws out) = length out"
  unfolding write_rows_def by (induction ws arbitrary: out) (auto split: prod.splits)

lemma write_rows_other: "i \<notin> fst ` set ws \<Longrightarrow> write_rows ws out ! i = out ! i"
  unfolding write_rows_def by (induction ws arbitrary: out) (auto split: prod.splits)

lemma write_rows_nth:
  "distinct (map fst ws) \<Longrightarrow> (i, v) \<in> set ws \<Longrightarrow> i < length out \<Longrightarrow> write_rows ws out ! i = v"
proof (induction ws arbitrary: out)
  case (Cons w ws)
  obtain j u where w: "w = (j, u)" by (cases w)
  have step: "write_rows (w # ws) out = write_rows ws (out[j := u])" by (simp add: write_rows_def w)
  show ?case
  proof (cases "(i, v) = w")
    case True
    then have "i \<notin> fst ` set ws" using Cons.prems(1) w by auto
    from write_rows_other [OF this, of "out[j := u]"] show ?thesis using True w Cons.prems(3) unfolding step by simp
  next
    case False
    then show ?thesis using Cons unfolding step by auto
  qed
qed simp

lemma mset_concat_map: "mset xs = mset ys \<Longrightarrow> mset (concat (map f xs)) = mset (concat (map f ys))"
proof -
  have "mset (concat (map f zs)) = (\<Sum>z \<in># mset zs. mset (f z))" for zs by (induction zs) simp_all
  then show "mset xs = mset ys \<Longrightarrow> mset (concat (map f xs)) = mset (concat (map f ys))" by simp
qed

text \<open>\<open>qsort\<close> permutes its argument, and each part ends once.\<close>

definition permutes_requests :: "(ngram_request list \<Rightarrow> ngram_request list) \<Rightarrow> bool" where
  "permutes_requests qsort \<longleftrightarrow> (\<forall>rs. mset (qsort rs) = mset rs)"

definition runs_parts :: "(nat \<Rightarrow> nat list) \<Rightarrow> bool" where
  "runs_parts order \<longleftrightarrow> (\<forall>k. mset (order k) = mset [0..<k])"

lemma part_piece: "qwen4_ngram_part rd request k p = ngram_part_loop rd (piece request k p) None"
  by (simp add: qwen4_ngram_part_def piece_def Let_def)

lemma round_exact:
  assumes "permutes_requests qsort" "runs_parts order" "reads_rows rd val" "rows \<noteq> []" "length out = length rows"
    "ngram_round qsort order rd rows out = Inr res"
  shows "res = map val rows"
proof -
  define request where "request = qsort (zip rows [0..<length rows])"
  define k where "k = (if length rows < 16 then length rows else 16)"
  define parts where "parts = map (qwen4_ngram_part rd request k) [0..<k]"
  define ws where "ws = concat (map (\<lambda>p. part_writes (parts ! p)) (order k))"
  have k: "0 < k" using assms(4) by (simp add: k_def)
  have res: "first_error parts = None" "res = write_rows ws out"
    using assms(6) unfolding ngram_round_def Let_def request_def [symmetric] k_def [symmetric] parts_def [symmetric] ws_def [symmetric]
    by (auto split: option.splits)
  have part: "part_writes (parts ! p) = map (\<lambda>(row, out). (out, val row)) (piece request k p)" if "p < k" for p
  proof -
    have "parts ! p = qwen4_ngram_part rd request k p" using that by (simp add: parts_def)
    moreover have "parts ! p \<in> set parts" using that by (intro nth_mem) (simp add: parts_def)
    moreover from this obtain w where "parts ! p = Inr w" using res(1) unfolding first_error_None by blast
    ultimately have w: "parts ! p = Inr w" "ngram_part_loop rd (piece request k p) None = Inr w"
      unfolding part_piece by simp_all
    show ?thesis unfolding w(1) part_writes_def using part_loop_exact [OF assms(3) w(2)] by simp
  qed
  have "mset ws = mset (concat (map (\<lambda>p. part_writes (parts ! p)) [0..<k]))"
    unfolding ws_def by (rule mset_concat_map) (use assms(2) in \<open>simp add: runs_parts_def\<close>)
  also have "concat (map (\<lambda>p. part_writes (parts ! p)) [0..<k]) = concat (map (\<lambda>p. map (\<lambda>(row, out). (out, val row)) (piece request k p)) [0..<k])"
    using part by (intro arg_cong [of _ _ concat] map_cong) auto
  also have "\<dots> = map (\<lambda>(row, out). (out, val row)) (concat (map (piece request k) [0..<k]))"
    by (simp add: map_concat comp_def)
  also have "\<dots> = map (\<lambda>(row, out). (out, val row)) request" unfolding pieces [OF k] ..
  finally have "mset ws = image_mset (\<lambda>(row, out). (out, val row)) (mset request)" by simp
  also have "mset request = mset (zip rows [0..<length rows])" using assms(1) by (simp add: request_def permutes_requests_def)
  finally have ws: "mset ws = mset (map (\<lambda>(row, out). (out, val row)) (zip rows [0..<length rows]))" by simp
  then have "mset (map fst ws) = mset (map fst (map (\<lambda>(row, out). (out, val row)) (zip rows [0..<length rows])))"
    by (simp only: mset_map [of fst] ws)
  also have "map fst (map (\<lambda>(row, out). (out, val row)) (zip rows [0..<length rows])) = [0..<length rows]"
    by (simp add: comp_def case_prod_unfold)
  finally have d: "distinct (map fst ws)" using mset_eq_imp_distinct_iff [of "map fst ws" "[0..<length rows]"] by simp
  show ?thesis
  proof (rule nth_equalityI)
    show "length res = length (map val rows)" using res(2) assms(5) by simp
    fix i
    assume "i < length res"
    then have i: "i < length rows" "i < length out" using res(2) assms(5) by auto
    then have "(rows ! i, i) \<in> set (zip rows [0..<length rows])" by (auto simp: set_zip)
    then have "(i, val (rows ! i)) \<in> set (map (\<lambda>(row, out). (out, val row)) (zip rows [0..<length rows]))" by force
    then have "(i, val (rows ! i)) \<in> set ws" using mset_eq_setD [OF ws] by blast
    from write_rows_nth [OF d this i(2)] show "res ! i = map val rows ! i" using res(2) i(1) by simp
  qed
qed

lemma round_total:
  assumes "permutes_requests qsort" "\<forall>i < length rows. \<exists>v. rd i (rows ! i) = Inr v"
  shows "\<exists>res. ngram_round qsort order rd rows out = Inr res"
proof -
  let ?request = "qsort (zip rows [0..<length rows])" and ?k = "if length rows < 16 then length rows else 16"
  have "set ?request = set (zip rows [0..<length rows])"
    using assms(1) mset_eq_setD unfolding permutes_requests_def by blast
  then have "\<exists>v. rd i row = Inr v" if "(row, i) \<in> set ?request" for row i
    using that assms(2) by (auto simp: set_zip)
  moreover have "(row, i) \<in> set ?request" if "(row, i) \<in> set (piece ?request ?k p)" for row i p
    using that unfolding piece_def by (blast dest: in_set_takeD in_set_dropD)
  ultimately have "\<exists>ws. qwen4_ngram_part rd ?request ?k p = Inr ws" for p
    unfolding part_piece by (intro part_loop_total) auto
  then have "first_error (map (qwen4_ngram_part rd ?request ?k) [0..<?k]) = None" by (simp add: first_error_None)
  then show ?thesis unfolding ngram_round_def Let_def by simp
qed

lemma rounds_exact:
  "permutes_requests qsort \<Longrightarrow> runs_parts order \<Longrightarrow> reads_rows rd val \<Longrightarrow> length out = length rows \<Longrightarrow> ngram_rounds qsort order rd off rows out = Inr res \<Longrightarrow> res = map val rows"
proof (induction qsort order rd off rows out arbitrary: res rule: ngram_rounds.induct)
  case (1 qsort order rd off rows out)
  show ?case
  proof (cases "rows = []")
    case False
    then obtain now rest where r:
      "ngram_round qsort order (\<lambda>i. rd (off + i)) (take NGRAM_MAX_ROWS rows) (take NGRAM_MAX_ROWS out) = Inr now"
      "ngram_rounds qsort order rd (off + NGRAM_MAX_ROWS) (drop NGRAM_MAX_ROWS rows) (drop NGRAM_MAX_ROWS out) = Inr rest"
      "res = now @ rest"
      using "1.prems"(5) by (auto simp: ngram_rounds.simps [of qsort order rd off rows] and_then_Inr)
    have rd: "reads_rows (\<lambda>i. rd (off + i)) val" using "1.prems"(3) by (auto simp: reads_rows_def)
    have "now = map val (take NGRAM_MAX_ROWS rows)"
      by (rule round_exact [OF "1.prems"(1,2) rd _ _ r(1)]) (use False "1.prems"(4) in \<open>auto simp: NGRAM_MAX_ROWS_def\<close>)
    moreover have "rest = map val (drop NGRAM_MAX_ROWS rows)"
      by (rule "1.IH" [OF False "1.prems"(1-3) _ r(2)]) (use "1.prems"(4) in simp)
    ultimately show ?thesis using r(3) by (simp flip: map_append)
  qed (use "1.prems" in \<open>simp add: ngram_rounds.simps\<close>)
qed

lemma rounds_total:
  "permutes_requests qsort \<Longrightarrow> \<forall>i < length rows. \<exists>v. rd (off + i) (rows ! i) = Inr v \<Longrightarrow>
     \<exists>res. ngram_rounds qsort order rd off rows out = Inr res"
proof (induction qsort order rd off rows out rule: ngram_rounds.induct)
  case (1 qsort order rd off rows out)
  show ?case
  proof (cases "rows = []")
    case False
    have "\<forall>i < length (take NGRAM_MAX_ROWS rows). \<exists>v. rd (off + i) (take NGRAM_MAX_ROWS rows ! i) = Inr v"
      using "1.prems"(2) by simp
    from round_total [OF "1.prems"(1), where rd = "\<lambda>i. rd (off + i)", OF this]
    obtain now where now: "ngram_round qsort order (\<lambda>i. rd (off + i)) (take NGRAM_MAX_ROWS rows) (take NGRAM_MAX_ROWS out) = Inr now"
      by blast
    have "\<exists>res. ngram_rounds qsort order rd (off + NGRAM_MAX_ROWS) (drop NGRAM_MAX_ROWS rows) (drop NGRAM_MAX_ROWS out) = Inr res"
    proof (rule "1.IH" [OF False "1.prems"(1)], intro allI impI)
      fix i
      assume "i < length (drop NGRAM_MAX_ROWS rows)"
      then show "\<exists>v. rd (off + NGRAM_MAX_ROWS + i) (drop NGRAM_MAX_ROWS rows ! i) = Inr v"
        using "1.prems"(2) [rule_format, of "NGRAM_MAX_ROWS + i"] by (simp add: add.assoc less_diff_conv)
    qed
    then show ?thesis using False now by (auto simp: ngram_rounds.simps [of qsort order rd off rows])
  qed (simp add: ngram_rounds.simps)
qed

text \<open>The table lies in the file.\<close>

definition table_in_file :: "bytes \<Rightarrow> gguf_tensor \<Rightarrow> bool" where
  "table_in_file file t \<longleftrightarrow> length file < 2 ^ 63
     \<and> unat (ts_abs_offset t) + 2 * unat (ts_dim t ! 0) * unat (ts_dim t ! 1) \<le> length file"

lemma read_exact:
  assumes "permutes_requests qsort" "runs_parts order" "mo_ngram_tensor m = Some t" "table_in_file file t" "length out = length rows"
    "qwen4_ngram_read qsort order file m calls rows out = Inr res"
  shows "res = map (row_values file t) rows"
proof -
  have rd: "reads_rows (\<lambda>i. qwen4_ngram_row file m (calls i)) (row_values file t)"
    unfolding reads_rows_def using ngram_row_values assms(3,4) unfolding table_in_file_def by blast
  consider "rows = []" "res = out" | row v where "rows = [row]" "qwen4_ngram_row file m (calls 0) row = Inr v" "res = out[0 := v]"
    | "ngram_rounds qsort order (\<lambda>i. qwen4_ngram_row file m (calls i)) 0 rows out = Inr res"
    using assms(3,6) by (cases rows; cases "tl rows") (auto simp: qwen4_ngram_read_def and_then_Inr split: if_splits)
  then show ?thesis
  proof cases
    case (2 row v)
    then have "v = row_values file t row" using rd by (auto simp: reads_rows_def)
    moreover obtain u where "out = [u]" using assms(5) 2(1) by (cases out) auto
    ultimately show ?thesis using 2 by simp
  next
    case 3
    then show ?thesis using rounds_exact [OF assms(1,2) rd assms(5)] by blast
  qed (use assms(5) in simp)
qed

text \<open>
  C40: reading many rows at once, sorted, without repeating a row, in up to sixteen parallel parts, gives in
  every place the floats that stand in the file for the row asked for there: however the sort orders equal
  rows, in whatever order the parts end, and however the disk cuts or interrupts the transfers. And it
  succeeds whenever the rows are in the table and each of them can be read.
\<close>

theorem ngram_read_exact:
  assumes "permutes_requests qsort" "runs_parts order" "mo_ngram_tensor m = Some t" "table_in_file file t" "length out = length rows"
  shows "(\<forall>res. qwen4_ngram_read qsort order file m calls rows out = Inr res \<longrightarrow> res = map (row_values file t) rows)
    \<and> ((\<forall>i < length rows. \<exists>v. qwen4_ngram_row file m (calls i) (rows ! i) = Inr v) \<and> length rows < 2 ^ 54 \<longrightarrow>
         qwen4_ngram_read qsort order file m calls rows out = Inr (map (row_values file t) rows))"
proof (intro conjI impI)
  show exact: "\<forall>res. qwen4_ngram_read qsort order file m calls rows out = Inr res \<longrightarrow> res = map (row_values file t) rows"
    using read_exact [OF assms] by blast
  assume "(\<forall>i < length rows. \<exists>v. qwen4_ngram_row file m (calls i) (rows ! i) = Inr v) \<and> length rows < 2 ^ 54"
  then have all: "\<forall>i < length rows. \<exists>v. qwen4_ngram_row file m (calls i) (rows ! i) = Inr v" and len: "length rows < 2 ^ 54" by auto
  have inr: "list_all (\<lambda>row. ucast row < ts_dim t ! 1) rows"
    unfolding list_all_length using all assms(3) by (auto simp: qwen4_ngram_row_def not_le split: if_splits)
  have rounds: "\<exists>res. ngram_rounds qsort order (\<lambda>i. qwen4_ngram_row file m (calls i)) 0 rows out = Inr res"
    by (rule rounds_total [OF assms(1)]) (use all in simp)
  have one: "\<exists>v. qwen4_ngram_row file m (calls 0) (hd rows) = Inr v" if "rows \<noteq> []"
    using all that by (auto simp: hd_conv_nth)
  have "\<exists>res. qwen4_ngram_read qsort order file m calls rows out = Inr res"
    using rounds one inr len assms(3) by (auto simp: qwen4_ngram_read_def)
  then show "qwen4_ngram_read qsort order file m calls rows out = Inr (map (row_values file t) rows)" using exact by blast
qed

subsection \<open>The n-grams of a prompt\<close>

text \<open>A model that is open and bound, with the hash constants of its configuration.\<close>

lemma bound_ngram_table:
  assumes "model_open page same_file file = Inr m" "length file < 2 ^ 63" "model_directory file = Inr m0"
    "model_get_string m0 ''general.architecture'' = Some a" "ds4_streq a ''qwen4exp''"
    "weights_bind sh n_rows m False first last_layer ro oo = Inr w"
  shows "\<exists>t. mo_ngram_tensor m = Some t \<and> \<not> ngram_invalid t \<and> table_in_file file t \<and> n_rows \<le> ts_dim t ! 1"
proof -
  let ?e = "executable_layers sh - 1"
  have r: "load_range sh False first last_layer = Some (0, ?e)" by (simp add: load_range_def)
  obtain te out w1 where w: "bind_layers sh m (map of_nat [unat (0 :: u32)..<Suc (unat ?e)])
       (no_weights\<lparr>w_token_embd := te, w_ple_embd := model_find_tensor m ''per_layer_token_embd.weight'', w_output := out\<rparr>) = Inr w1"
    "bind_layers sh m (map of_nat [unat (executable_layers sh)..<unat (sh_n_layer sh)]) w1 = Inr w"
    and v: "weights_validate_qwen4_layout sh n_rows w 0 ?e True True = Inr ()"
    using assms(6) r by (auto simp: weights_bind_def and_then_Inr Let_def)
  have "w_ple_embd w = model_find_tensor m ''per_layer_token_embd.weight''"
    using bind_layersD [OF w(1)] bind_layersD [OF w(2)] by simp
  with v obtain t where t: "model_find_tensor m ''per_layer_token_embd.weight'' = Some t" "n_rows \<le> ts_dim t ! 1"
    by (auto simp: weights_validate_qwen4_layout_def and_then_Inr Let_def not_less split: if_splits option.splits)
  then have "t \<in> set (mo_tensors m)" "ngram_table t" using find_tensor unfolding ngram_table_def by blast+
  then have "mo_ngram_tensor m = Some t \<and> \<not> ngram_invalid t
     \<and> unat (ts_abs_offset t) + 2 * unat (ts_dim t ! 0) * unat (ts_dim t ! 1) \<le> length file"
    using open_qwen_bounds [OF assms(1-5), of t] unfolding if_bool_eq_conj by blast
  then show ?thesis using t(2) assms(2) unfolding table_in_file_def by blast
qed

lemma token_rows_length:
  assumes "heads_fit sh" "sh_n_ple_ngram sh \<noteq> 0"
  shows "length (ple_token_rows sh ple ctx) = unat (DS4_N_PLE_HEADS sh)"
proof -
  have "length (ple_token_rows sh ple ctx) = (unat (sh_n_ple_ngram sh) - 1) * unat (sh_n_ple_heads_per_ngram sh)"
    by (simp add: ple_token_rows_def Let_def length_concat comp_def sum_list_triv) arith
  then show ?thesis using heads_count [OF assms] by simp
qed

lemma ple_steps_in: "rows \<in> set (fst (ple_steps sh ple ts prev)) \<Longrightarrow> \<exists>ctx. rows = ple_token_rows sh ple ctx"
proof (induction ts arbitrary: prev)
  case (Cons t ts)
  then show ?case using Cons.IH [of "snd (qwen4_ple_step sh ple t prev)"]
    by (auto simp: case_prod_unfold) (auto simp: qwen4_ple_step_def)
qed simp

lemma ple_steps_length [simp]: "length (fst (ple_steps sh ple ts prev)) = length ts"
  by (induction ts arbitrary: prev) (simp_all add: case_prod_unfold)

lemma stage_exact:
  "permutes_requests qsort \<Longrightarrow> runs_parts order \<Longrightarrow> mo_ngram_tensor m = Some t \<Longrightarrow> table_in_file file t \<Longrightarrow>
     length out = length (concat (fst (ple_steps sh ple tokens prev))) \<Longrightarrow>
     stage_ngrams qsort order file m sh ple calls start tokens prev out = Inr (res, prev') \<Longrightarrow>
     res = map (row_values file t) (concat (fst (ple_steps sh ple tokens prev))) \<and> prev' = snd (ple_steps sh ple tokens prev)"
proof (induction qsort order "file" m sh ple calls start tokens prev out arbitrary: res prev' rule: stage_ngrams.induct)
  case (1 qsort order "file" m sh ple calls start tokens prev out)
  show ?case
  proof (cases "tokens = []")
    case False
    obtain ids mid where ids: "ple_steps sh ple (take STAGE_TOKENS tokens) prev = (ids, mid)" by fastforce
    obtain rest_ids fin where rest_ids: "ple_steps sh ple (drop STAGE_TOKENS tokens) mid = (rest_ids, fin)" by fastforce
    have all: "ple_steps sh ple tokens prev = (ids @ rest_ids, fin)"
      using ple_steps_history [of sh ple "take STAGE_TOKENS tokens" "drop STAGE_TOKENS tokens" prev] ids rest_ids by simp
    obtain now rest where r:
      "qwen4_ngram_read qsort order file m (calls start) (concat ids) (take (length (concat ids)) out) = Inr now"
      "stage_ngrams qsort order file m sh ple calls (start + STAGE_TOKENS) (drop STAGE_TOKENS tokens) mid (drop (length (concat ids)) out) = Inr (rest, prev')"
      "res = now @ rest"
      using "1.prems"(6) False ids
      by (auto simp: stage_ngrams.simps [of qsort order "file" m sh ple calls start tokens] and_then_Inr Let_def split: prod.splits)
    have len: "length out = length (concat ids) + length (concat rest_ids)" using "1.prems"(5) all by simp
    have "now = map (row_values file t) (concat ids)"
      by (rule read_exact [OF "1.prems"(1-4) _ r(1)]) (use len in simp)
    moreover have "rest = map (row_values file t) (concat rest_ids) \<and> prev' = fin"
      using "1.IH" [OF False ids [symmetric] refl "1.prems"(1-4) _ r(2)] rest_ids len by simp
    ultimately show ?thesis using all r(3) by simp
  qed (use "1.prems" in \<open>simp add: stage_ngrams.simps\<close>)
qed

text \<open>No request is refused when the rows are in the table.\<close>

lemma row_not_refused: "mo_ngram_tensor m = Some t \<Longrightarrow> \<not> ngram_invalid t \<Longrightarrow> ucast row < ts_dim t ! 1 \<Longrightarrow> qwen4_ngram_row file m os row \<noteq> Inl Einval"
proof -
  have p: "pread_row file off n os \<noteq> Inl Einval" for off n os
    by (induction "file" off n os rule: pread_row.induct) (auto simp: Let_def and_then_def split: sum.splits)
  have f: "ngram_floats b \<noteq> Inl Einval" for b
    by (induction b rule: ngram_floats.induct) (auto simp: Let_def and_then_def split: sum.splits)
  assume "mo_ngram_tensor m = Some t" "\<not> ngram_invalid t" "ucast row < ts_dim t ! 1"
  then show ?thesis
    using p f by (auto simp: qwen4_ngram_row_def ngram_invalid_def Let_def and_then_def not_le split: sum.splits)
qed

lemma part_loop_not_refused:
  "\<forall>(row, out) \<in> set rs. rd out row \<noteq> Inl Einval \<Longrightarrow> ngram_part_loop rd rs prev \<noteq> Inl Einval"
proof (induction rs arbitrary: prev)
  case (Cons a rs)
  then show ?case by (cases a) (auto simp: and_then_def split: sum.splits option.splits if_splits)
qed simp

lemma first_error_in: "first_error rs = Some e \<Longrightarrow> Inl e \<in> set rs"
  by (induction rs rule: first_error.induct) auto

lemma round_not_refused:
  assumes "permutes_requests qsort" "\<forall>i < length rows. rd i (rows ! i) \<noteq> Inl Einval"
  shows "ngram_round qsort order rd rows out \<noteq> Inl Einval"
proof
  let ?request = "qsort (zip rows [0..<length rows])" and ?k = "if length rows < 16 then length rows else 16"
  assume "ngram_round qsort order rd rows out = Inl Einval"
  then have "first_error (map (qwen4_ngram_part rd ?request ?k) [0..<?k]) = Some Einval"
    unfolding ngram_round_def Let_def by (auto split: option.splits)
  from first_error_in [OF this] obtain p where p: "ngram_part_loop rd (piece ?request ?k p) None = Inl Einval"
    unfolding part_piece by force
  have "rd out row \<noteq> Inl Einval" if "(row, out) \<in> set (piece ?request ?k p)" for row out
  proof -
    have "(row, out) \<in> set ?request" using that unfolding piece_def by (blast dest: in_set_takeD in_set_dropD)
    then have "(row, out) \<in> set (zip rows [0..<length rows])"
      using assms(1) mset_eq_setD unfolding permutes_requests_def by blast
    then show ?thesis using assms(2) by (auto simp: set_zip)
  qed
  then have "ngram_part_loop rd (piece ?request ?k p) None \<noteq> Inl Einval" by (intro part_loop_not_refused) auto
  with p show False by simp
qed

lemma rounds_not_refused:
  "permutes_requests qsort \<Longrightarrow> \<forall>i < length rows. rd (off + i) (rows ! i) \<noteq> Inl Einval \<Longrightarrow>
     ngram_rounds qsort order rd off rows out \<noteq> Inl Einval"
proof (induction qsort order rd off rows out rule: ngram_rounds.induct)
  case (1 qsort order rd off rows out)
  have r: "ngram_round qsort order (\<lambda>i. rd (off + i)) (take NGRAM_MAX_ROWS rows) (take NGRAM_MAX_ROWS out) \<noteq> Inl Einval"
    by (rule round_not_refused [OF "1.prems"(1)]) (use "1.prems"(2) in simp)
  have "rows \<noteq> [] \<Longrightarrow> ngram_rounds qsort order rd (off + NGRAM_MAX_ROWS) (drop NGRAM_MAX_ROWS rows) (drop NGRAM_MAX_ROWS out) \<noteq> Inl Einval"
  proof (rule "1.IH" [OF _ "1.prems"(1)], assumption, intro allI impI)
    fix i
    assume "i < length (drop NGRAM_MAX_ROWS rows)"
    then show "rd (off + NGRAM_MAX_ROWS + i) (drop NGRAM_MAX_ROWS rows ! i) \<noteq> Inl Einval"
      using "1.prems"(2) [rule_format, of "NGRAM_MAX_ROWS + i"] by (simp add: add.assoc less_diff_conv)
  qed
  with r show ?case
    by (auto simp: ngram_rounds.simps [of qsort order rd off rows] and_then_def split: sum.splits)
qed

lemma read_not_refused:
  assumes "permutes_requests qsort" "mo_ngram_tensor m = Some t" "\<not> ngram_invalid t" "\<forall>row \<in> set rows. ucast row < ts_dim t ! 1"
    "length rows < 2 ^ 54"
  shows "qwen4_ngram_read qsort order file m calls rows out \<noteq> Inl Einval"
proof -
  have row: "qwen4_ngram_row file m (calls i) row \<noteq> Inl Einval" if "row \<in> set rows" for i row
    using row_not_refused [OF assms(2,3)] assms(4) that by blast
  have rounds: "ngram_rounds qsort order (\<lambda>i. qwen4_ngram_row file m (calls i)) 0 rows out \<noteq> Inl Einval"
    by (rule rounds_not_refused [OF assms(1)]) (use row in simp)
  have "rows \<noteq> [] \<Longrightarrow> qwen4_ngram_row file m (calls 0) (hd rows) \<noteq> Inl Einval" using row by simp
  then show ?thesis
    using rounds assms(2,4,5) by (auto simp: qwen4_ngram_read_def list_all_iff and_then_def split: sum.splits)
qed

lemma stage_not_refused:
  "permutes_requests qsort \<Longrightarrow> mo_ngram_tensor m = Some t \<Longrightarrow> \<not> ngram_invalid t \<Longrightarrow>
     (\<And>ctx row. row \<in> set (ple_token_rows sh ple ctx) \<Longrightarrow> ucast row < ts_dim t ! 1) \<Longrightarrow>
     (\<And>ctx. length (ple_token_rows sh ple ctx) < 2 ^ 32) \<Longrightarrow>
     stage_ngrams qsort order file m sh ple calls start tokens prev out \<noteq> Inl Einval"
proof (induction qsort order "file" m sh ple calls start tokens prev out rule: stage_ngrams.induct)
  case (1 qsort order "file" m sh ple calls start tokens prev out)
  obtain ids mid where ids: "ple_steps sh ple (take STAGE_TOKENS tokens) prev = (ids, mid)" by fastforce
  have in_ids: "\<exists>ctx. rows = ple_token_rows sh ple ctx" if "rows \<in> set ids" for rows
    using ple_steps_in [of rows sh ple "take STAGE_TOKENS tokens" prev] that ids by simp
  have "length ids = length (take STAGE_TOKENS tokens)"
    using ple_steps_length [of sh ple "take STAGE_TOKENS tokens" prev] unfolding ids by simp
  then have "length ids \<le> 256" by (simp add: STAGE_TOKENS_def)
  moreover have "length (concat xs) \<le> length xs * 2 ^ 32" if "set xs \<subseteq> set ids" for xs
    using that
  proof (induction xs)
    case (Cons x xs)
    then have "length x < 2 ^ 32" using in_ids [of x] "1.prems"(5) by auto
    with Cons show ?case by simp
  qed simp
  from this [of ids] have "length (concat ids) \<le> length ids * 2 ^ 32" by simp
  ultimately have len: "length (concat ids) < 2 ^ 54" by simp
  have rows: "\<forall>row \<in> set (concat ids). ucast row < ts_dim t ! 1"
    using in_ids "1.prems"(4) by auto
  have read: "qwen4_ngram_read qsort order file m (calls start) (concat ids) (take (length (concat ids)) out) \<noteq> Inl Einval"
    by (rule read_not_refused [OF "1.prems"(1-3) rows len])
  show ?case
  proof (cases "tokens = []")
    case False
    have "stage_ngrams qsort order file m sh ple calls (start + STAGE_TOKENS) (drop STAGE_TOKENS tokens) mid (drop (length (concat ids)) out) \<noteq> Inl Einval"
      using "1.IH" [OF False ids [symmetric] refl "1.prems"(1-3)] "1.prems"(4,5) by blast
    then show ?thesis using False ids read
      by (auto simp: stage_ngrams.simps [of qsort order "file" m sh ple calls start tokens] and_then_def Let_def split: prod.splits sum.splits)
  qed (simp add: stage_ngrams.simps)
qed

text \<open>
  C39: for a model that is open and bound, with the hash constants its configuration accepts, gathering the
  n-gram embeddings of a prompt never asks for a row outside the table, and what it returns are, token by
  token and head by head, the floats of the file at the rows of the n-grams of that token, with the end of
  a text cutting the window; the batches of 256 tokens, the sorting and the parallel reads do not show.
\<close>

theorem prompt_ngrams_exact:
  assumes "model_open page same_file file = Inr m" "length file < 2 ^ 63" "model_directory file = Inr m0"
    "model_get_string m0 ''general.architecture'' = Some a" "ds4_streq a ''qwen4exp''"
    "config_ple f32_ok mc sh = Inr ple" "heads_fit sh" "sh_n_ple_ngram sh \<noteq> 0"
    "weights_bind sh (ple_n_rows ple) m False first last_layer ro oo = Inr w"
    "permutes_requests qsort" "runs_parts order" "length out = length tokens * unat (DS4_N_PLE_HEADS sh)"
  shows "stage_ngrams qsort order file m sh ple calls 0 tokens (ple_history sh) out \<noteq> Inl Einval
    \<and> (\<exists>t. mo_ngram_tensor m = Some t \<and> (\<forall>res prev.
         stage_ngrams qsort order file m sh ple calls 0 tokens (ple_history sh) out = Inr (res, prev) \<longrightarrow>
           res = concat (map (\<lambda>i. map (row_values file t) (ple_token_rows sh ple
             (tokens ! i # ngram_window (sh_ple_eos_id sh) (unat (sh_n_ple_ngram sh)) tokens i))) [0..<length tokens])))"
proof -
  obtain t where t: "mo_ngram_tensor m = Some t" "\<not> ngram_invalid t" "table_in_file file t" "ple_n_rows ple \<le> ts_dim t ! 1"
    using bound_ngram_table [OF assms(1-5,9)] by blast
  have "unat (ts_dim t ! 1) \<le> 4294967295" using t(2) by (simp add: ngram_invalid_def not_less word_le_nat_alt)
  then have n: "unat (ple_n_rows ple) \<le> 4294967295" using t(4) by (simp add: word_le_nat_alt)
  have below: "ucast row < ts_dim t ! 1" if "row \<in> set (ple_token_rows sh ple ctx)" for row ctx
    using token_rows_below [OF assms(6,7) n that] t(4) by (simp add: word_less_nat_alt word_le_nat_alt)
  have len: "length (ple_token_rows sh ple ctx) = unat (DS4_N_PLE_HEADS sh)" for ctx by (rule token_rows_length [OF assms(7,8)])
  have small: "length (ple_token_rows sh ple ctx) < 2 ^ 32" for ctx
    unfolding len using unat_u32_bound [of "DS4_N_PLE_HEADS sh"] by simp
  have refused: "stage_ngrams qsort order file m sh ple calls 0 tokens (ple_history sh) out \<noteq> Inl Einval"
    by (rule stage_not_refused [OF assms(10) t(1,2)]) (use below small in auto)
  let ?steps = "fst (ple_steps sh ple tokens (ple_history sh))"
  have "length (concat xs) = length xs * unat (DS4_N_PLE_HEADS sh)" if "set xs \<subseteq> set ?steps" for xs
    using that
  proof (induction xs)
    case (Cons x xs)
    then obtain ctx where "x = ple_token_rows sh ple ctx" using ple_steps_in [of x sh ple tokens "ple_history sh"] by auto
    then have "length x = unat (DS4_N_PLE_HEADS sh)" using len by simp
    with Cons show ?case by simp
  qed simp
  then have out: "length out = length (concat ?steps)" using assms(12) by simp
  have "unat (sh_n_ple_ngram sh) \<le> 8"
    using assms(6) unfolding config_ple_def
    by (auto simp: and_then_Inr Let_def DS4_MAX_PLE_NGRAM_def not_less word_le_nat_alt split: if_splits)
  then have steps: "?steps = map (\<lambda>i. ple_token_rows sh ple
      (tokens ! i # ngram_window (sh_ple_eos_id sh) (unat (sh_n_ple_ngram sh)) tokens i)) [0..<length tokens]"
    by (intro nth_equalityI) (simp_all add: ngram_rows_window)
  show ?thesis
    using refused t(1) stage_exact [OF assms(10,11) t(1,3) out] by (auto simp: steps map_concat comp_def)
qed

subsection \<open>Small instances\<close>

definition tiny_order :: "nat \<Rightarrow> nat list" where "tiny_order k = rev [0..<k]"

lemma tiny_sorting: "permutes_requests (sort_key fst)" "runs_parts tiny_order"
  by (simp_all add: permutes_requests_def runs_parts_def tiny_order_def)

definition tiny_table_tensor :: gguf_tensor where
  "tiny_table_tensor = zero_tensor\<lparr>ts_type := 30, ts_ndim := 2, ts_dim := [1, 2]\<rparr>"

theorem ngram_read_exact_witness:
  "qwen4_ngram_read (sort_key fst) tiny_order [1, 0, 2, 0] ((mapped_model [])\<lparr>mo_ngram_tensor := Some tiny_table_tensor\<rparr>)
     (\<lambda>i. [Transfer 1, Interrupted, Transfer 9]) [1, 0, 1] [[], [], []] = Inr [[0x20000], [0x10000], [0x20000]]"
proof -
  let ?m = "(mapped_model [])\<lparr>mo_ngram_tensor := Some tiny_table_tensor\<rparr>"
  have t: "mo_ngram_tensor ?m = Some tiny_table_tensor" by simp
  have inf: "table_in_file [1, 0, 2, 0] tiny_table_tensor"
    by (simp add: table_in_file_def tiny_table_tensor_def zero_tensor_def)
  have "pread_row [1, 0, 2, 0] 0 (Suc (Suc 0)) [Transfer 1, Interrupted, Transfer 9] = Inr [1, 0]"
    "pread_row [1, 0, 2, 0] 2 (Suc (Suc 0)) [Transfer 1, Interrupted, Transfer 9] = Inr [2, 0]"
    by simp_all
  then have "pread_row [1, 0, 2, 0] 0 2 [Transfer 1, Interrupted, Transfer 9] = Inr [1, 0]"
    "pread_row [1, 0, 2, 0] 2 2 [Transfer 1, Interrupted, Transfer 9] = Inr [2, 0]"
    by (simp_all only: numeral_2_eq_2)
  then have row: "\<exists>v. qwen4_ngram_row [1, 0, 2, 0] ?m [Transfer 1, Interrupted, Transfer 9] r = Inr v" if "r = 0 \<or> r = 1" for r
    using that by (auto simp: qwen4_ngram_row_def tiny_table_tensor_def zero_tensor_def DS4_TENSOR_BF16_def Let_def word_le_nat_alt word_less_nat_alt)
  let ?rows = "[1, 0, 1] :: u32 list" and ?calls = "\<lambda>i :: nat. [Transfer 1, Interrupted, Transfer 9]"
  have all: "\<forall>i < length ?rows. \<exists>v. qwen4_ngram_row [1, 0, 2, 0] ?m (?calls i) (?rows ! i) = Inr v"
  proof (intro allI impI)
    fix i
    assume "i < length ?rows"
    then have "?rows ! i \<in> set ?rows" by (rule nth_mem)
    then have "?rows ! i = 0 \<or> ?rows ! i = 1" by auto
    then show "\<exists>v. qwen4_ngram_row [1, 0, 2, 0] ?m (?calls i) (?rows ! i) = Inr v" by (rule row)
  qed
  have len: "length ([[], [], []] :: u32 list list) = length ?rows" "length ?rows < 2 ^ 54" by simp_all
  have v: "row_values [1, 0, 2, 0] tiny_table_tensor 0 = [0x10000]" "row_values [1, 0, 2, 0] tiny_table_tensor 1 = [0x20000]"
    by (simp_all add: row_values_def row_bytes_def tiny_table_tensor_def zero_tensor_def)
  have "qwen4_ngram_read (sort_key fst) tiny_order [1, 0, 2, 0] ?m ?calls ?rows [[], [], []]
      = Inr (map (row_values [1, 0, 2, 0] tiny_table_tensor) ?rows)"
    using conjunct2 [OF ngram_read_exact [OF tiny_sorting t inf len(1), of ?calls]] all len(2) by blast
  then show ?thesis unfolding list.map v .
qed

text \<open>The hash constants of the small model, as a configuration holds them.\<close>

definition tiny_keys :: "(string \<times> u32 \<times> u64) list" where
  "tiny_keys =
     [(''qwen4exp.ple.layers'', 9, 0),
      (''qwen4exp.ple.ngram_size'', 4, 16),
      (''qwen4exp.ple.heads_per_ngram'', 4, 20),
      (''qwen4exp.ple.conv_kernel'', 4, 24),
      (''qwen4exp.ple.eos_token_id'', 4, 28),
      (''qwen4exp.embedding_length_per_layer_input'', 4, 32),
      (''qwen4exp.ple.layer_multipliers'', 9, 36),
      (''qwen4exp.ple.head_offsets'', 9, 60),
      (''qwen4exp.ple.head_vocab_sizes'', 9, 80)]"

definition tiny_config :: gguf_model where
  "tiny_config = (mapped_model
     [4, 0, 0, 0, 1, 0, 0, 0, 0, 0, 0, 0, 9, 0, 0, 0, 3, 0, 0, 0, 1, 0, 0, 0, 1, 0, 0, 0, 0, 0, 0, 0, 1, 0, 0, 0,
      4, 0, 0, 0, 3, 0, 0, 0, 0, 0, 0, 0, 1, 0, 0, 0, 3, 0, 0, 0, 5, 0, 0, 0,
      4, 0, 0, 0, 2, 0, 0, 0, 0, 0, 0, 0, 0, 0, 0, 0, 4, 0, 0, 0,
      4, 0, 0, 0, 2, 0, 0, 0, 0, 0, 0, 0, 4, 0, 0, 0, 4, 0, 0, 0])
     \<lparr>mo_kv := map (\<lambda>(k, ty, p). \<lparr>kv_key = map of_char k, kv_type = ty, kv_value_pos = p\<rparr>) tiny_keys\<rparr>"

lemma tiny_config_find:
  "model_find_kv tiny_config key = map_option (\<lambda>(ty, p). \<lparr>kv_key = map of_char key, kv_type = ty, kv_value_pos = p\<rparr>) (map_of tiny_keys key)"
proof -
  have "find (\<lambda>k. ds4_streq (kv_key k) key) (map (\<lambda>(k, ty, p). \<lparr>kv_key = map of_char k, kv_type = ty, kv_value_pos = p\<rparr>) ks)
     = map_option (\<lambda>(ty, p). \<lparr>kv_key = map of_char key, kv_type = ty, kv_value_pos = p\<rparr>) (map_of ks key)" for ks
    by (induction ks) auto
  then show ?thesis by (simp add: model_find_kv_def tiny_config_def)
qed

lemma tiny_config_ok:
  "\<exists>ple. config_ple (\<lambda>_ _. True) tiny_config tiny_shape = Inr ple \<and> ple_n_rows ple = 8"
proof -
  let ?m = tiny_config
  have mp: "mo_map ?m = [4, 0, 0, 0, 1, 0, 0, 0, 0, 0, 0, 0, 9, 0, 0, 0, 3, 0, 0, 0, 1, 0, 0, 0, 1, 0, 0, 0, 0, 0, 0, 0, 1, 0, 0, 0,
      4, 0, 0, 0, 3, 0, 0, 0, 0, 0, 0, 0, 1, 0, 0, 0, 3, 0, 0, 0, 5, 0, 0, 0,
      4, 0, 0, 0, 2, 0, 0, 0, 0, 0, 0, 0, 0, 0, 0, 0, 4, 0, 0, 0,
      4, 0, 0, 0, 2, 0, 0, 0, 0, 0, 0, 0, 4, 0, 0, 0, 4, 0, 0, 0]" "mo_size ?m = 100"
    by (simp_all add: tiny_config_def mapped_model_def)
  have cur: "cursor_u32 (cursor_at ?m p) = Inr (ds4_kvstore_le_get32 (take 4 (drop (unat p) (mo_map ?m))), cursor_at ?m (p + 4))"
    if "p \<le> 96" for p
    using that by (auto simp: cursor_u32_def cursor_read_def cursor_has_def cursor_at_def mp(2) word_le_nat_alt word_less_nat_alt)
  have cur8: "cursor_u64 (cursor_at ?m p) = Inr (kv_le_get64 (take 8 (drop (unat p) (mo_map ?m))), cursor_at ?m (p + 8))"
    if "p \<le> 92" for p
    using that by (auto simp: cursor_u64_def cursor_read_def cursor_has_def cursor_at_def mp(2) word_le_nat_alt word_less_nat_alt)
  have u32: "model_get_u32 ?m ''qwen4exp.ple.ngram_size'' = Some 3" "model_get_u32 ?m ''qwen4exp.ple.heads_per_ngram'' = Some 1"
    "model_get_u32 ?m ''qwen4exp.ple.conv_kernel'' = Some 1" "model_get_u32 ?m ''qwen4exp.ple.eos_token_id'' = Some 0"
    "model_get_u32 ?m ''qwen4exp.embedding_length_per_layer_input'' = Some 1"
    by (simp_all add: model_get_u32_def tiny_config_find tiny_keys_def GGUF_VALUE_UINT32_def cur option_of_def word_le_nat_alt)
      (simp_all add: mp ds4_kvstore_le_get32_def)
  have down: "rev [0..<8] = [7, 6, 5, 4, 3, 2, 1, 0 :: nat]" by code_simp
  have arrays: "model_get_array ?m ''qwen4exp.ple.layers'' = Some \<lparr>ar_type = 4, ar_len = 1, ar_data_pos = 12\<rparr>"
    "model_get_array ?m ''qwen4exp.ple.layer_multipliers'' = Some \<lparr>ar_type = 4, ar_len = 3, ar_data_pos = 48\<rparr>"
    "model_get_array ?m ''qwen4exp.ple.head_offsets'' = Some \<lparr>ar_type = 4, ar_len = 2, ar_data_pos = 72\<rparr>"
    "model_get_array ?m ''qwen4exp.ple.head_vocab_sizes'' = Some \<lparr>ar_type = 4, ar_len = 2, ar_data_pos = 92\<rparr>"
    by (simp_all add: model_get_array_def tiny_config_find tiny_keys_def GGUF_VALUE_ARRAY_def cur cur8 option_of_def word_le_nat_alt cursor_at_def [symmetric])
      (simp_all add: mp ds4_kvstore_le_get32_def kv_le_get64_def cursor_at_def down)
  have ne: "GGUF_VALUE_UINT32 \<noteq> GGUF_VALUE_UINT64" "GGUF_VALUE_UINT32 \<noteq> GGUF_VALUE_INT64"
    by (simp_all add: GGUF_VALUE_UINT32_def GGUF_VALUE_UINT64_def GGUF_VALUE_INT64_def)
  have one: "read_u64s key GGUF_VALUE_UINT32 (Suc n) c = (case cursor_u32 c of
           Inl e \<Rightarrow> Inl (Array_read e)
         | Inr (v, c) \<Rightarrow> and_then (read_u64s key GGUF_VALUE_UINT32 n c) (\<lambda>vs. Inr (ucast v # vs)))" for key n c
    using ne by simp
  have steps: "read_u64s key GGUF_VALUE_UINT32 (numeral k) c = (case cursor_u32 c of
           Inl e \<Rightarrow> Inl (Array_read e)
         | Inr (v, c) \<Rightarrow> and_then (read_u64s key GGUF_VALUE_UINT32 (pred_numeral k) c) (\<lambda>vs. Inr (ucast v # vs)))" for key k c
    by (simp only: numeral_eq_Suc one)
  have ty: "4 = GGUF_VALUE_UINT32" by (simp add: GGUF_VALUE_UINT32_def)
  have reads: "config_read_qwen4_u64_array ?m ''qwen4exp.ple.layers'' DS4_MAX_PLE_HEADS = Inr [9]"
    "config_read_qwen4_u64_array ?m ''qwen4exp.ple.layer_multipliers'' DS4_MAX_PLE_HEADS = Inr [1, 3, 5]"
    "config_read_qwen4_u64_array ?m ''qwen4exp.ple.head_offsets'' DS4_MAX_PLE_HEADS = Inr [0, 4]"
    "config_read_qwen4_u64_array ?m ''qwen4exp.ple.head_vocab_sizes'' DS4_MAX_PLE_HEADS = Inr [4, 4]"
    unfolding config_read_qwen4_u64_array_def arrays option.case array_ref.simps ty
    by (simp_all add: DS4_MAX_PLE_HEADS_def steps one cur word_le_nat_alt word_less_nat_alt del: read_u64s.simps(2))
      (simp_all add: mp ds4_kvstore_le_get32_def GGUF_VALUE_UINT32_def GGUF_VALUE_UINT64_def GGUF_VALUE_INT64_def cur)
  have checks: "run_checks (\<lambda>_ _. True) ?m (ple_checks tiny_shape) = Inr ()"
    by (simp add: ple_checks_def required_u32_def u32) (simp add: tiny_shape_def)
  have heads: "DS4_N_PLE_HEADS tiny_shape = 2" by (simp add: DS4_N_PLE_HEADS_def tiny_shape_def)
  have limits: "\<not> DS4_MAX_PLE_HEADS < ucast (2 :: u32)" "\<not> DS4_MAX_PLE_NGRAM < 3"
    by (simp_all add: DS4_MAX_PLE_HEADS_def DS4_MAX_PLE_NGRAM_def word_less_nat_alt)
  have shape: "sh_n_ple_layer tiny_shape = 9" "sh_n_ple_ngram tiny_shape = 3" by (simp_all add: tiny_shape_def)
  show ?thesis
    using limits by (simp add: config_ple_def reads checks heads shape word_less_nat_alt Let_def)
qed

theorem prompt_ngrams_exact_witness:
  "\<exists>m ple t. model_open 4096 True tiny_file = Inr m \<and> config_ple (\<lambda>_ _. True) tiny_config tiny_shape = Inr ple
     \<and> mo_ngram_tensor m = Some t
     \<and> (\<forall>calls. stage_ngrams (sort_key fst) tiny_order tiny_file m tiny_shape ple calls 0 [7, 0, 5] (ple_history tiny_shape) (replicate 6 []) \<noteq> Inl Einval)
     \<and> (\<forall>calls res prev.
          stage_ngrams (sort_key fst) tiny_order tiny_file m tiny_shape ple calls 0 [7, 0, 5] (ple_history tiny_shape) (replicate 6 []) = Inr (res, prev) \<longrightarrow>
            res = map (row_values tiny_file t) (concat (map (ple_token_rows tiny_shape ple) [[7, 0, 0], [0, 7, 0], [5, 0, 0]])))"
proof -
  obtain m0 m where m: "model_directory tiny_file = Inr m0" "model_get_string m0 ''general.architecture'' = Some (map of_char ''qwen4exp'')"
    "model_open 4096 True tiny_file = Inr m" "mo_tensors m = map (tiny_place 4128) tiny_tensors"
    using tiny_open by blast
  obtain ple where ple: "config_ple (\<lambda>_ _. True) tiny_config tiny_shape = Inr ple" "ple_n_rows ple = 8" using tiny_config_ok by blast
  obtain w where w: "weights_bind tiny_shape (ple_n_rows ple) m False 0 0 False False = Inr w"
    using tiny_bind [OF m(4)] ple(2) by auto
  have q: "ds4_streq (map of_char ''qwen4exp'') ''qwen4exp''" by (simp add: ds4_streq_def)
  have fit: "heads_fit tiny_shape" "sh_n_ple_ngram tiny_shape \<noteq> 0" by (simp_all add: heads_fit_def tiny_shape_def)
  have out: "length (replicate 6 [] :: u32 list list) = length [7, 0, 5 :: int] * unat (DS4_N_PLE_HEADS tiny_shape)"
    by (simp add: DS4_N_PLE_HEADS_def tiny_shape_def)
  note p = prompt_ngrams_exact [OF m(3) tiny_file_ok(2) m(1,2) q ple(1) fit w tiny_sorting out]
  have up: "[0..<length [7, 0, 5 :: int]] = [0, 1, 2]" by code_simp
  have sh: "sh_ple_eos_id tiny_shape = 0" "unat (sh_n_ple_ngram tiny_shape) = 3" by (simp_all add: tiny_shape_def)
  have win: "map (\<lambda>i. [7, 0, 5] ! i # ngram_window 0 3 [7, 0, 5] i) [0, 1, 2] = [[7, 0, 0], [0, 7, 0], [5, 0, 0 :: int]]"
    by code_simp
  have eq: "concat (map (\<lambda>i. map (row_values tiny_file t) (ple_token_rows tiny_shape ple
        ([7, 0, 5] ! i # ngram_window (sh_ple_eos_id tiny_shape) (unat (sh_n_ple_ngram tiny_shape)) [7, 0, 5] i))) [0..<length [7, 0, 5 :: int]])
      = map (row_values tiny_file t) (concat (map (ple_token_rows tiny_shape ple) [[7, 0, 0], [0, 7, 0], [5, 0, 0]]))" for t
    unfolding sh up win [symmetric] by (simp only: map_concat map_map comp_def)
  obtain t where t: "mo_ngram_tensor m = Some t"
    using bound_ngram_table [OF m(3) tiny_file_ok(2) m(1,2) q w] by blast
  show ?thesis
    using m(3) ple(1) t p unfolding eq by (intro exI conjI) auto
qed

end
