(* ===== verification/Spec2Isabelle.thy ===== *)
theory Spec2Isabelle
  imports ToolText LayerPack PromptPrefix SsdPlan KvCheckpoint QwenRoundTrip Scheduler ToolReplay ImageCache Multimodal Continuation NgramTable
begin

text \<open>
  A verification development for the core logic of the ds4 inference server.
\<close>

end
